(* ===== verification/Prelude.thy ===== *)
theory Prelude
  imports Main "HOL-Library.Word"
begin

text \<open>
  Shared vocabulary of the development: the machine integers of the Go source under
  their Go names, the functions of Go's \<open>math/bits\<close> the code calls, and generic facts
  on bit sets, masks and lists that the component theories share. The collection
  \<open>ring_arith\<close> gathers the rewrite rules for masked ring indexes.
\<close>

unbundle bit_operations_syntax

named_theorems ring_arith

section \<open>Machine integers\<close>

type_synonym u8 = "8 word"
type_synonym u16 = "16 word"
type_synonym u32 = "32 word"
type_synonym u64 = "64 word"

text \<open>Signed Go integers are kept as words and read with \<open>sint\<close>.\<close>

type_synonym i32 = "32 word"
type_synonym i64 = "64 word"

section \<open>math/bits\<close>

text \<open>\<open>bits.OnesCount\<close> and \<open>bits.TrailingZeros\<close>, at the width of their argument.\<close>

definition ones_count :: "'a::len word \<Rightarrow> nat" where
  "ones_count w = length (filter (bit w) [0..<LENGTH('a)])"

definition trailing_zeros :: "'a::len word \<Rightarrow> nat" where
  "trailing_zeros w = length (takeWhile (\<lambda>i. \<not> bit w i) [0..<LENGTH('a)])"

lemma ones_count_card: "ones_count (w :: 'a::len word) = card {i. bit w i}"
proof -
  have "ones_count w = card (set (filter (bit w) [0..<LENGTH('a)]))"
    unfolding ones_count_def by (rule distinct_card [symmetric]) simp
  also have "set (filter (bit w) [0..<LENGTH('a)]) = {i. bit w i}"
    by (auto dest: bit_imp_le_length)
  finally show ?thesis .
qed

lemma finite_bits [simp]: "finite {i. bit (w :: 'a::len word) i}"
  by (rule finite_subset [of _ "{..<LENGTH('a)}"]) (auto dest: bit_imp_le_length)

lemma ones_count_0 [simp]: "ones_count (0 :: 'a::len word) = 0"
  by (simp add: ones_count_card)

lemma trailing_zeros_le: "trailing_zeros (w :: 'a::len word) \<le> LENGTH('a)"
  unfolding trailing_zeros_def
  by (metis diff_zero length_takeWhile_le length_upt)

lemma trailing_zeros_bit:
  fixes w :: "'a::len word"
  assumes "trailing_zeros w < LENGTH('a)"
  shows "bit w (trailing_zeros w)"
  using nth_length_takeWhile [of "\<lambda>i. \<not> bit w i" "[0..<LENGTH('a)]"] assms
  by (simp add: trailing_zeros_def)

lemma trailing_zeros_less_iff:
  fixes w :: "'a::len word"
  shows "trailing_zeros w < LENGTH('a) \<longleftrightarrow> w \<noteq> 0"
proof
  assume "trailing_zeros w < LENGTH('a)"
  then have "bit w (trailing_zeros w)" by (rule trailing_zeros_bit)
  then show "w \<noteq> 0" by auto
next
  assume "w \<noteq> 0"
  then obtain i where i: "bit w i" by (auto simp: bit_eq_iff)
  then have "i < LENGTH('a)" by (rule bit_imp_le_length)
  show "trailing_zeros w < LENGTH('a)"
  proof (rule ccontr)
    assume "\<not> trailing_zeros w < LENGTH('a)"
    then have "takeWhile (\<lambda>i. \<not> bit w i) [0..<LENGTH('a)] = [0..<LENGTH('a)]"
      unfolding trailing_zeros_def
      by (metis diff_zero length_upt nat_less_le length_takeWhile_le takeWhile_eq_take take_all_iff)
    then have "\<forall>x \<in> set [0..<LENGTH('a)]. \<not> bit w x"
      by (simp only: takeWhile_eq_all_conv)
    with i \<open>i < LENGTH('a)\<close> show False by auto
  qed
qed

lemma trailing_zeros_0 [simp]: "trailing_zeros (0 :: 'a::len word) = LENGTH('a)"
  by (simp add: trailing_zeros_def takeWhile_eq_all_conv [THEN iffD2])

lemma not_word_eq_0_iff: "NOT (w :: 'a::len word) = 0 \<longleftrightarrow> w = - 1"
  by (metis bit.compl_one bit.double_compl)

lemma ones_count_1_imp:
  fixes w :: "'a::len word"
  assumes "ones_count w = 1"
  obtains k where "k < LENGTH('a)" and "w = push_bit k 1"
proof -
  obtain k where k: "{i. bit w i} = {k}"
    using assms by (auto simp: ones_count_card card_1_singleton_iff)
  then have "k < LENGTH('a)" by (auto intro: bit_imp_le_length)
  moreover have "w = push_bit k 1"
    using k by (auto simp: bit_eq_iff bit_simps)
  ultimately show ?thesis by (rule that)
qed

section \<open>Reading words as naturals\<close>

lemma ones_count_exp: "k < LENGTH('a) \<Longrightarrow> ones_count (2 ^ k :: 'a::len word) = 1"
proof -
  assume "k < LENGTH('a)"
  then have "{i. bit (2 ^ k :: 'a word) i} = {k}" by (auto simp: bit_simps)
  then show ?thesis by (simp add: ones_count_card)
qed

lemma unat_of_nat_small:
  "n < 2 ^ LENGTH('a) \<Longrightarrow> unat (of_nat n :: 'a::len word) = n"
  by (simp add: unat_of_nat take_bit_nat_eq_self)

lemma unat_exp_word: "k < LENGTH('a) \<Longrightarrow> unat (2 ^ k :: 'a::len word) = 2 ^ k"
proof -
  assume "k < LENGTH('a)"
  then have "(2 :: nat) ^ k < 2 ^ LENGTH('a)" by simp
  then have "unat (of_nat (2 ^ k) :: 'a word) = 2 ^ k" by (rule unat_of_nat_small)
  then show ?thesis by simp
qed

lemma unat_drop_bit: "unat (drop_bit n (x :: 'a::len word)) = unat x div 2 ^ n"
proof -
  have "unat (drop_bit n x) = drop_bit n (unat x)" by (rule unat_drop_bit_eq)
  also have "\<dots> = unat x div 2 ^ n" by (rule drop_bit_eq_div)
  finally show ?thesis .
qed

lemma drop_bit_of_nat: "drop_bit n (x :: 'a::len word) = of_nat (unat x div 2 ^ n)"
proof -
  have "unat x div 2 ^ n < 2 ^ LENGTH('a)"
    by (rule le_less_trans [OF div_le_dividend unsigned_less])
  then have "unat (of_nat (unat x div 2 ^ n) :: 'a word) = unat (drop_bit n x)"
    by (simp only: unat_of_nat_small unat_drop_bit)
  then show ?thesis by (simp only: word_unat_eq_iff)
qed

lemma and_not_mask: "(x :: 'a::len word) AND NOT (mask n) = push_bit n (drop_bit n x)"
  by (rule bit_word_eqI) (auto simp: bit_simps)

lemma unat_minus_1_pos: "0 < unat (x :: 'a::len word) \<Longrightarrow> unat (x - 1) = unat x - 1"
  by (metis One_nat_def Suc_leI unat_1 unat_sub word_le_nat_alt)

lemma unat_add_small:
  "unat (x :: 'a::len word) + n < 2 ^ LENGTH('a) \<Longrightarrow> unat (x + of_nat n) = unat x + n"
  by (simp add: unat_word_ariths unat_of_nat take_bit_nat_eq_self mod_simps)

lemma unat_and_not_mask:
  "unat ((x :: 'a::len word) AND NOT (mask n)) = unat x div 2 ^ n * 2 ^ n"
proof -
  have "unat x div 2 ^ n * 2 ^ n \<le> unat x" by (rule div_times_less_eq_dividend)
  then have "unat x div 2 ^ n * 2 ^ n < 2 ^ LENGTH('a)" using unsigned_less by (rule le_less_trans)
  then have "take_bit LENGTH('a) (unat x div 2 ^ n * 2 ^ n) = unat x div 2 ^ n * 2 ^ n"
    by (rule take_bit_nat_eq_self)
  moreover have "unat (push_bit n (drop_bit n x)) = take_bit LENGTH('a) (push_bit n (unat x div 2 ^ n))"
    by (simp only: unsigned_push_bit_eq unat_drop_bit)
  ultimately show ?thesis by (simp only: and_not_mask) (simp only: push_bit_eq_mult)
qed

text \<open>Conversions between widths.\<close>

lemma ucast_down_add:
  "LENGTH('b) \<le> LENGTH('a) \<Longrightarrow> ucast (x + y :: 'a::len word) = (ucast x + ucast y :: 'b::len word)"
  by transfer (metis take_bit_add take_bit_take_bit min_absorb1 min_absorb2)

lemma ucast_down_diff:
  "LENGTH('b) \<le> LENGTH('a) \<Longrightarrow> ucast (x - y :: 'a::len word) = (ucast x - ucast y :: 'b::len word)"
  by transfer (metis take_bit_diff take_bit_take_bit min_absorb1 min_absorb2)

lemma ucast_ucast_same:
  "LENGTH('a) \<le> LENGTH('b) \<Longrightarrow> ucast (ucast (x :: 'a::len word) :: 'b::len word) = x"
  by (rule bit_word_eqI) (auto simp: bit_simps dest: bit_imp_le_length)

lemma unat_ucast_up:
  "LENGTH('a) \<le> LENGTH('b) \<Longrightarrow> unat (ucast (x :: 'a::len word) :: 'b::len word) = unat x"
  by transfer (simp add: min_absorb1 min_absorb2 min_def)

lemma unat_ucast_mod:
  "unat (ucast (x :: 'a::len word) :: 'b::len word) = unat x mod 2 ^ LENGTH('b)"
  by (simp add: unsigned_ucast_eq take_bit_eq_mod)

section \<open>Bit sets held in an array of 64-bit words\<close>

text \<open>The positions set in one word at index \<open>j\<close> of the array, and in the whole array.\<close>

definition word_bits :: "nat \<Rightarrow> u64 \<Rightarrow> nat set" where
  "word_bits j w = (\<lambda>b. 64 * j + b) ` {b. bit w b}"

definition bits_of :: "u64 list \<Rightarrow> nat set" where
  "bits_of ws = {i. i div 64 < length ws \<and> bit (ws ! (i div 64)) (i mod 64)}"

lemma word_bits_iff: "i \<in> word_bits j w \<longleftrightarrow> i div 64 = j \<and> bit w (i mod 64)"
proof
  assume "i \<in> word_bits j w"
  then obtain b where b: "i = 64 * j + b" "bit w b" by (auto simp: word_bits_def)
  then have "b < 64" by (auto dest: bit_imp_le_length)
  with b show "i div 64 = j \<and> bit w (i mod 64)" by simp
next
  assume "i div 64 = j \<and> bit w (i mod 64)"
  moreover have "i = 64 * (i div 64) + i mod 64" by simp
  ultimately show "i \<in> word_bits j w" unfolding word_bits_def by blast
qed

lemma card_word_bits [simp]: "card (word_bits j w) = ones_count w"
  unfolding word_bits_def ones_count_card by (rule card_image) (simp add: inj_on_def)

lemma word_bits_0 [simp]: "word_bits j 0 = {}"
  by (simp add: word_bits_def)

lemma bits_of_upd:
  assumes "j < length ws"
  shows "bits_of (ws[j := w]) = (bits_of ws - {i. i div 64 = j}) \<union> word_bits j w"
  using assms by (auto simp: bits_of_def word_bits_iff nth_list_update)

lemma bits_of_word:
  assumes "j < length ws"
  shows "bits_of ws \<inter> {i. i div 64 = j} = word_bits j (ws ! j)"
  using assms by (auto simp: bits_of_def word_bits_iff)

lemma word_bits_subset: "j < length ws \<Longrightarrow> word_bits j (ws ! j) \<subseteq> bits_of ws"
  by (auto simp: bits_of_def word_bits_iff)

lemma bits_of_bound: "bits_of ws \<subseteq> {..<64 * length ws}"
proof
  fix i
  assume "i \<in> bits_of ws"
  then have "i div 64 < length ws" by (simp add: bits_of_def)
  then show "i \<in> {..<64 * length ws}" by (simp add: div_less_iff_less_mult)
qed

lemma finite_bits_of [simp]: "finite (bits_of ws)"
  by (rule finite_subset [OF bits_of_bound]) simp

lemma card_bits_of_le: "card (bits_of ws) \<le> 64 * length ws"
  using card_mono [OF _ bits_of_bound [of ws]] by simp

lemma bits_of_set_bit:
  assumes "j < length ws" and "b < 64"
  shows "bits_of (ws[j := ws ! j OR push_bit b 1]) = insert (64 * j + b) (bits_of ws)"
proof -
  have "word_bits j (ws ! j OR push_bit b 1) = insert (64 * j + b) (word_bits j (ws ! j))"
    using assms(2) by (auto simp: word_bits_def bit_simps)
  then show ?thesis
    using assms by (auto simp: bits_of_upd bits_of_word [symmetric])
qed

lemma bits_of_set_exp:
  "j < length ws \<Longrightarrow> b < 64 \<Longrightarrow>
   bits_of (ws[j := ws ! j OR 2 ^ b]) = insert (64 * j + b) (bits_of ws)"
  using bits_of_set_bit [of j ws b] by simp

lemma bits_of_clear_word:
  assumes "j < length ws"
  shows "bits_of (ws[j := 0]) = bits_of ws - word_bits j (ws ! j)"
  using assms by (auto simp: bits_of_upd bits_of_word [symmetric])

lemma bits_of_xor_word:
  assumes "j < length ws" and "word_bits j p \<subseteq> bits_of ws"
  shows "bits_of (ws[j := ws ! j XOR p]) = bits_of ws - word_bits j p"
proof -
  have "word_bits j (ws ! j XOR p) = word_bits j (ws ! j) - word_bits j p"
    using assms by (auto simp: word_bits_iff bit_simps bits_of_def)
  then show ?thesis
    using assms by (auto simp: bits_of_upd bits_of_word [symmetric] word_bits_iff)
qed

lemma bits_of_replicate_0 [simp]: "bits_of (replicate n 0) = {}"
  by (auto simp: bits_of_def)

lemma full_word_iff: "(w :: u64) = - 1 \<longleftrightarrow> (\<forall>b < 64. bit w b)"
  by (auto simp: bit_eq_iff)

lemma bits_of_empty_iff: "bits_of ws = {} \<longleftrightarrow> (\<forall>j < length ws. ws ! j = 0)"
proof
  assume empty: "bits_of ws = {}"
  show "\<forall>j < length ws. ws ! j = 0"
  proof (intro allI impI)
    fix j
    assume "j < length ws"
    then have "word_bits j (ws ! j) = {}" using word_bits_subset [of j ws] empty by simp
    then have "{b. bit (ws ! j) b} = {}" by (simp add: word_bits_def)
    then show "ws ! j = 0" by (auto simp: bit_eq_iff)
  qed
qed (auto simp: bits_of_def)

lemma bits_of_full_iff:
  "bits_of ws = {..<64 * length ws} \<longleftrightarrow> (\<forall>j < length ws. ws ! j = - 1)"
proof
  assume full: "bits_of ws = {..<64 * length ws}"
  show "\<forall>j < length ws. ws ! j = - 1"
  proof (intro allI impI)
    fix j
    assume j: "j < length ws"
    have "bit (ws ! j) b" if "b < 64" for b
    proof -
      have "64 * j + b \<in> bits_of ws" using that j full by simp
      then show ?thesis using that by (simp add: bits_of_def)
    qed
    then show "ws ! j = - 1" by (simp add: full_word_iff)
  qed
next
  assume "\<forall>j < length ws. ws ! j = - 1"
  then show "bits_of ws = {..<64 * length ws}"
    by (auto simp: bits_of_def div_less_iff_less_mult mult.commute)
qed

lemma bits_of_card_full_iff:
  "card (bits_of ws) = 64 * length ws \<longleftrightarrow> (\<forall>j < length ws. ws ! j = - 1)"
proof -
  have "card (bits_of ws) = 64 * length ws \<longleftrightarrow> bits_of ws = {..<64 * length ws}"
  proof
    assume "card (bits_of ws) = 64 * length ws"
    then have "card (bits_of ws) = card {..<64 * length ws}" by (simp only: card_lessThan)
    then show "bits_of ws = {..<64 * length ws}"
      by (rule card_subset_eq [OF finite_lessThan bits_of_bound])
  next
    assume "bits_of ws = {..<64 * length ws}"
    then show "card (bits_of ws) = 64 * length ws" by (simp only: card_lessThan)
  qed
  then show ?thesis by (simp only: bits_of_full_iff)
qed

section \<open>Masks\<close>

text \<open>
  A power-of-two mask reads an index modulo the ring size. Every ring of the program
  (submission and completion queue, buffer ring, slot words, timing wheel) uses it.
\<close>

lemma unat_and_mask [ring_arith]:
  "unat (x AND mask n :: 'a::len word) = unat x mod 2 ^ n"
proof -
  have "unat (x AND mask n) = unat (take_bit n x)" by (simp only: take_bit_eq_mask)
  also have "\<dots> = take_bit n (unat x)" by (simp only: unsigned_take_bit_eq)
  finally show ?thesis by (simp only: take_bit_eq_mod)
qed

lemma unat_and_mask_less:
  "unat (x AND mask n :: 'a::len word) < 2 ^ n"
  by (simp add: unat_and_mask)

lemma mask_eq_minus_1: "(2 ^ n - 1 :: 'a::len word) = mask n"
  by (simp add: mask_eq_decr_exp)

lemma unat_mask_len:
  "n < LENGTH('a) \<Longrightarrow> unat (mask n :: 'a::len word) = 2 ^ n - 1"
proof -
  assume n: "n < LENGTH('a)"
  have "unat (mask n :: 'a word) = nat (uint (mask n :: 'a word))" by simp
  also have "uint (mask n :: 'a word) = mask n" using n by (simp only: uint_mask_eq min_def) simp
  also have "nat (mask n) = 2 ^ n - 1" by (simp add: nat_mask_eq) (simp add: mask_eq_exp_minus_1)
  finally show ?thesis .
qed

lemma unat_word_plus_nat_mod:
  "n \<le> LENGTH('a) \<Longrightarrow> unat (x + of_nat d :: 'a::len word) mod 2 ^ n = (unat x + d) mod 2 ^ n"
proof -
  assume n: "n \<le> LENGTH('a)"
  have "unat (x + of_nat d :: 'a word) = (unat x + d) mod 2 ^ LENGTH('a)"
    by (simp add: unat_word_ariths unat_of_nat take_bit_eq_mod mod_simps)
  then show ?thesis using n by (simp add: mod_mod_cancel le_imp_power_dvd)
qed

lemma ring_reach:
  fixes x t n :: nat
  assumes "t < n"
  obtains d where "d < n" and "(x + d) mod n = t"
proof -
  let ?d = "(t + (n - x mod n)) mod n"
  have "x mod n \<le> n" using assms by simp
  have "(x + ?d) mod n = (x mod n + (t + (n - x mod n))) mod n"
    by (simp add: mod_simps)
  also have "\<dots> = (t + n) mod n"
    using \<open>x mod n \<le> n\<close> by (simp add: add.commute add.left_commute)
  also have "\<dots> = t" using assms by simp
  finally show ?thesis using that [of ?d] assms by simp
qed

lemma ring_index_inj:
  fixes a i j n :: nat
  assumes "(a + i) mod n = (a + j) mod n" and "i < n" and "j < n"
  shows "i = j"
proof (rule ccontr)
  assume "i \<noteq> j"
  have "n dvd nat \<bar>int i - int j\<bar>"
  proof -
    have "(int a + int i) mod int n = (int a + int j) mod int n"
      using assms(1) by (metis of_nat_add zmod_int)
    then have "int n dvd (int a + int i) - (int a + int j)"
      by (rule mod_eq_dvd_iff [THEN iffD1])
    then show ?thesis by (simp add: nat_dvd_iff)
  qed
  moreover have "nat \<bar>int i - int j\<bar> < n" and "0 < nat \<bar>int i - int j\<bar>"
    using assms(2,3) \<open>i \<noteq> j\<close> by auto
  ultimately show False using nat_dvd_not_less by blast
qed

section \<open>Ring buffers as lists\<close>

text \<open>
  The \<open>n\<close> entries of the ring \<open>xs\<close> from position \<open>h\<close> on. All rings of the program
  have a power-of-two size and free-running word counters; the entries between the two
  counters are this list.
\<close>

definition ring_list :: "'a list \<Rightarrow> nat \<Rightarrow> nat \<Rightarrow> 'a list" where
  "ring_list xs h n = map (\<lambda>i. xs ! ((h + i) mod length xs)) [0..<n]"

lemma length_ring_list [simp, ring_arith]: "length (ring_list xs h n) = n"
  by (simp add: ring_list_def)

lemma ring_list_0 [simp, ring_arith]: "ring_list xs h 0 = []"
  by (simp add: ring_list_def)

lemma nth_ring_list: "i < n \<Longrightarrow> ring_list xs h n ! i = xs ! ((h + i) mod length xs)"
  by (simp add: ring_list_def)

lemma ring_list_mod: "ring_list xs (h mod length xs) n = ring_list xs h n"
  by (simp add: ring_list_def mod_add_left_eq)

lemma ring_list_all: "ring_list xs 0 (length xs) = xs"
  by (rule nth_equalityI) (simp_all add: nth_ring_list)

text \<open>Writing at the tail of a ring that is not full appends.\<close>

lemma ring_list_snoc:
  assumes "n < length xs"
  shows "ring_list (xs[(h + n) mod length xs := x]) h (Suc n) = ring_list xs h n @ [x]"
proof (rule nth_equalityI)
  fix i
  assume "i < length (ring_list (xs[(h + n) mod length xs := x]) h (Suc n))"
  then have i: "i < Suc n" by simp
  have pos: "(h + n) mod length xs < length xs" by (rule mod_less_divisor) (use assms in linarith)
  show "ring_list (xs[(h + n) mod length xs := x]) h (Suc n) ! i = (ring_list xs h n @ [x]) ! i"
  proof (cases "i = n")
    case True
    then show ?thesis using pos by (simp add: nth_ring_list nth_append)
  next
    case False
    then have "i < n" using i by simp
    then have "(h + n) mod length xs \<noteq> (h + i) mod length xs"
      using ring_index_inj [of h n "length xs" i] assms by auto
    then show ?thesis using i \<open>i < n\<close> by (simp add: nth_ring_list nth_append)
  qed
qed simp

text \<open>Advancing the head drops.\<close>

lemma ring_list_drop: "k \<le> n \<Longrightarrow> ring_list xs (h + k) (n - k) = drop k (ring_list xs h n)"
  by (rule nth_equalityI) (simp_all add: nth_ring_list add.assoc)

lemma ring_list_Suc:
  "ring_list xs h (Suc n) = xs ! (h mod length xs) # ring_list xs (Suc h) n"
  by (rule nth_equalityI) (auto simp: nth_ring_list nth_Cons split: nat.split)

text \<open>Counters: the distance between two free-running words, and a step of either.\<close>

lemma unat_add_mod_exp:
  "n \<le> LENGTH('a) \<Longrightarrow> unat (x + y :: 'a::len word) mod 2 ^ n = (unat x + unat y) mod 2 ^ n"
  using unat_word_plus_nat_mod [of n x "unat y"] by simp

lemma unat_dist_Suc:
  assumes "unat (t - h :: 'a::len word) + 1 < 2 ^ LENGTH('a)"
  shows "unat ((t + 1) - h) = Suc (unat (t - h))"
proof -
  have "(t + 1) - h = (t - h) + of_nat 1" by simp
  then have "unat ((t + 1) - h) = unat ((t - h) + of_nat 1)" by (rule arg_cong)
  also have "\<dots> = unat (t - h) + 1" by (rule unat_add_small [OF assms])
  finally show ?thesis by (simp only: Suc_eq_plus1)
qed

lemma unat_dist_drop:
  assumes "k \<le> unat (t - h :: 'a::len word)"
  shows "unat (t - (h + of_nat k)) = unat (t - h) - k"
proof -
  have "k < 2 ^ LENGTH('a)" using assms unsigned_less [of "t - h"] by (rule le_less_trans)
  then have k: "unat (of_nat k :: 'a word) = k" by (rule unat_of_nat_small)
  have "t - (h + of_nat k) = (t - h) - of_nat k" by simp
  also have "unat \<dots> = unat (t - h) - unat (of_nat k :: 'a word)"
    by (rule unat_sub) (simp add: word_le_nat_alt k assms)
  finally show ?thesis by (simp only: k)
qed

section \<open>Counting in an updated list\<close>

lemma count_update:
  "i < length xs \<Longrightarrow> length (filter P (xs[i := y])) + (if P (xs ! i) then 1 else 0) =
    length (filter P xs) + (if P y then 1 else 0)"
proof (induction xs arbitrary: i)
  case (Cons x xs)
  then show ?case by (cases i) auto
qed simp

lemma count_pos: "i < length xs \<Longrightarrow> P (xs ! i) \<Longrightarrow> 0 < length (filter P xs)"
  by (auto simp: filter_empty_conv intro: nth_mem)

lemma count_one_unique:
  assumes "length (filter P xs) \<le> 1" "i < length xs" "P (xs ! i)" "j < length xs" "P (xs ! j)"
  shows "i = j"
proof (rule ccontr)
  assume "i \<noteq> j"
  have "{i, j} \<subseteq> {k. k < length xs \<and> P (xs ! k)}" using assms by auto
  then have "card {i, j} \<le> card {k. k < length xs \<and> P (xs ! k)}" by (intro card_mono) auto
  then show False using \<open>i \<noteq> j\<close> assms(1) by (simp add: length_filter_conv_card)
qed

section \<open>Ring interfaces\<close>

text \<open>
  A bounded ring seen from its producing end: below capacity, \<open>put\<close> of a legal entry
  succeeds and appends it to the pending entries. The submission queue and the provided-buffer ring
  promise it.
\<close>

locale ring_producer =
  fixes valid :: "'s \<Rightarrow> bool"
    and pending :: "'s \<Rightarrow> 'a list"
    and capacity :: "'s \<Rightarrow> nat"
    and legal :: "'a \<Rightarrow> bool"
    and put :: "'a \<Rightarrow> 's \<Rightarrow> 's option"
  assumes put_law: "valid s \<Longrightarrow> legal a \<Longrightarrow> length (pending s) < capacity s \<Longrightarrow>
    \<exists>s'. put a s = Some s' \<and> valid s' \<and> pending s' = pending s @ [a] \<and> capacity s' = capacity s"
begin

primrec put_all :: "'a list \<Rightarrow> 's \<Rightarrow> 's option" where
  "put_all [] s = Some s"
| "put_all (a # as) s = Option.bind (put a s) (put_all as)"

lemma put_all_appends:
  "valid s \<Longrightarrow> list_all legal as \<Longrightarrow> length (pending s) + length as \<le> capacity s \<Longrightarrow>
   \<exists>s'. put_all as s = Some s' \<and> valid s' \<and> pending s' = pending s @ as \<and> capacity s' = capacity s"
proof (induction as arbitrary: s)
  case (Cons a as)
  then obtain s1 where s1: "put a s = Some s1" "valid s1" "pending s1 = pending s @ [a]"
    "capacity s1 = capacity s" using put_law [of s a] by fastforce
  then have "length (pending s1) + length as \<le> capacity s1" using Cons.prems by simp
  from Cons.IH [OF s1(2) _ this] Cons.prems s1 show ?case by auto
qed simp

end

text \<open>
  The consuming end: \<open>get\<close> takes the oldest pending entry, or reports that there is
  none and changes nothing. The completion queue promises it.
\<close>

locale ring_consumer =
  fixes valid :: "'s \<Rightarrow> bool"
    and pending :: "'s \<Rightarrow> 'a list"
    and get :: "'s \<Rightarrow> ('a option \<times> 's) option"
  assumes get_some: "valid s \<Longrightarrow> pending s = a # as \<Longrightarrow>
      \<exists>s'. get s = Some (Some a, s') \<and> valid s' \<and> pending s' = as"
    and get_none: "valid s \<Longrightarrow> pending s = [] \<Longrightarrow> get s = Some (None, s)"
begin

text \<open>Consume until the ring reports that it is empty; \<open>n\<close> bounds the number of reads.\<close>

primrec get_all :: "nat \<Rightarrow> 's \<Rightarrow> ('a list \<times> 's) option" where
  "get_all 0 s = None"
| "get_all (Suc n) s =
     (case get s of
        None \<Rightarrow> None
      | Some (None, s') \<Rightarrow> Some ([], s')
      | Some (Some a, s') \<Rightarrow> map_option (\<lambda>(as, s''). (a # as, s'')) (get_all n s'))"

lemma get_all_pending:
  "valid s \<Longrightarrow> length (pending s) < n \<Longrightarrow>
   \<exists>s'. get_all n s = Some (pending s, s') \<and> valid s' \<and> pending s' = []"
proof (induction n arbitrary: s)
  case (Suc n)
  show ?case
  proof (cases "pending s")
    case Nil
    then show ?thesis using get_none Suc.prems by simp
  next
    case (Cons a as)
    then obtain s1 where s1: "get s = Some (Some a, s1)" "valid s1" "pending s1 = as"
      using get_some Suc.prems by blast
    then have "length (pending s1) < n" using Suc.prems Cons by simp
    from Suc.IH [OF s1(2) this] s1 Cons show ?thesis by fastforce
  qed
qed simp

end

section \<open>Association lists with distinct keys\<close>

lemma map_of_remove1:
  assumes "distinct (map fst h)" and "(i, v) \<in> set h"
  shows "map_of (remove1 (i, v) h) = (map_of h)(i := None)"
  using assms
proof (induction h)
  case (Cons a h)
  obtain j w where a: "a = (j, w)" by (cases a)
  show ?case
  proof (cases "a = (i, v)")
    case True
    then have "map_of h i = None" using Cons.prems a by (simp add: map_of_eq_None_iff)
    then show ?thesis using True by (simp add: fun_eq_iff)
  next
    case False
    with Cons.prems have mem: "(i, v) \<in> set h" by auto
    then have "i \<in> fst ` set h" by (metis fst_conv imageI)
    then have "i \<noteq> j" using Cons.prems(1) a by auto
    then show ?thesis
      using False Cons.IH Cons.prems(1) mem a by (auto simp: fun_eq_iff)
  qed
qed simp

lemma distinct_fst_remove1: "distinct (map fst h) \<Longrightarrow> distinct (map fst (remove1 x h))"
  using set_remove1_subset by (induction h) fastforce+

end
