(* ===== verification/Task_Slots.thy ===== *)
theory Task_Slots
  imports Prelude
begin

text \<open>
  The table of in-flight tasks, \<open>internal/taskslots/taskslots.go\<close>. The record \<open>slots\<close>
  is the struct \<open>Slots[T]\<close>; \<open>new_slots\<close>, \<open>Add\<close>, \<open>Del\<close>, \<open>Get\<close>, \<open>syncWord\<close>
  and \<open>allocAlign\<close> are its operations. The \<open>for\<close> loops of \<open>Add\<close> have no bound in
  the code, so they are partial functions into \<open>option\<close>: \<open>None\<close> is a call that never
  returns, and the lemmas prove that every call on a well-formed table returns where nobody deletes meanwhile.
  \<open>slots_inv\<close> is the representation invariant, \<open>live\<close> the abstraction: the map from
  the indexes handed out and not yet deleted to their tasks.
\<close>

section \<open>State\<close>

record 'a slots =
  ts_cap :: u64
  ts_tasks :: "'a list"
  ts_bitmap :: "u64 list"
  ts_pollerBitmap :: "u64 list"
  ts_bitmapLenMask :: u64
  ts_wave :: u64
  ts_free :: u64
  ts_delCount :: u64
  ts_lastDelCount :: u64
  ts_fallbackMask :: u64
  ts_fallback :: "u64 \<rightharpoonup> 'a"
  ts_fallbackWave :: u64

definition sysIds :: u64 where
  "sysIds = push_bit 63 1"

datatype slots_error =
    Capacity_not_power_of_2
  | Capacity_below_4096
  | Type_size_zero
  | Type_size_not_multiple_of_8

section \<open>Operations\<close>

text \<open>
  \<open>New\<close>: \<open>zero\<close> is the zero value of the type parameter, \<open>sizeof\<close> its size; the
  bitmaps come out of \<open>make\<close> and are all zero. \<open>None\<close> is the run-time panic of \<open>make\<close> for a slice of
  more than \<open>maxAlloc\<close> bytes, the address space of a 64-bit Linux: \<open>allocAlign\<close> runs before the size of the type is
  looked at, the other two slices are made after it. Memory the machine does not have is not modelled.
\<close>

definition maxAlloc :: nat where
  "maxAlloc = 2 ^ 48"

definition new_slots :: "'a \<Rightarrow> u64 \<Rightarrow> i64 \<Rightarrow> (slots_error + 'a slots) option" where
  "new_slots zero sizeof capacity =
     (if ones_count capacity \<noteq> 1 then Some (Inl Capacity_not_power_of_2)
      else if sint capacity < 4096 then Some (Inl Capacity_below_4096)
      else
        let fallbackMask = 63 - trailing_zeros capacity;
            wordsCount = signed_drop_bit 6 capacity
        in if maxAlloc < 8 * (unat wordsCount + 8) then None
           else if sizeof = 0 then Some (Inl Type_size_zero)
           else if sizeof AND 7 \<noteq> 0 then Some (Inl Type_size_not_multiple_of_8)
           else if maxAlloc < 8 * unat wordsCount \<or> maxAlloc < unat capacity * unat sizeof then None
           else Some (Inr \<lparr> ts_cap = capacity,
                      ts_tasks = replicate (unat capacity) zero,
                      ts_bitmap = replicate (unat wordsCount) 0,
                      ts_pollerBitmap = replicate (unat wordsCount) 0,
                      ts_bitmapLenMask = wordsCount - 1,
                      ts_wave = 0,
                      ts_free = capacity,
                      ts_delCount = 0,
                      ts_lastDelCount = 0,
                      ts_fallbackMask = push_bit fallbackMask 1 - 1,
                      ts_fallback = Map.empty,
                      ts_fallbackWave = 0 \<rparr>))"

text \<open>
  \<open>allocAlign\<close> over-allocates eight words and drops the words before the first
  64-byte boundary: the start of the slice it returns, in words, for a block at \<open>ptr\<close>.
\<close>

definition allocAlign_gap :: "u64 \<Rightarrow> u64" where
  "allocAlign_gap ptr = drop_bit 3 (((ptr + 63) AND NOT 63) - ptr)"

text \<open>\<open>syncWord\<close> on the words at index \<open>j\<close> (the code passes the two addresses).\<close>

definition syncWord :: "nat \<Rightarrow> 'a slots \<Rightarrow> 'a slots" where
  "syncWord j s =
     (let pw = ts_pollerBitmap s ! j;
          freedCount = of_nat (ones_count pw)
      in s\<lparr> ts_pollerBitmap := (ts_pollerBitmap s)[j := 0],
            ts_bitmap := (ts_bitmap s)[j := ts_bitmap s ! j XOR pw],
            ts_free := ts_free s + freedCount,
            ts_lastDelCount := ts_lastDelCount s + freedCount \<rparr>)"

partial_function (option) add_fallback :: "'a \<Rightarrow> 'a slots \<Rightarrow> (u64 \<times> 'a slots) option" where
  "add_fallback v s =
     (let idx = (ts_fallbackWave s AND ts_fallbackMask s) + ts_cap s;
          s' = s\<lparr>ts_fallbackWave := ts_fallbackWave s + 1\<rparr>
      in if ts_fallback s idx \<noteq> None then add_fallback v s'
         else Some (idx, s'\<lparr>ts_fallback := (ts_fallback s)(idx \<mapsto> v)\<rparr>))"

partial_function (option) add_hot :: "'a \<Rightarrow> 'a slots \<Rightarrow> (u64 \<times> 'a slots) option" where
  "add_hot v s =
     (let wordIdx = ts_wave s AND ts_bitmapLenMask s;
          j = unat wordIdx;
          w = (- 1) XOR (ts_bitmap s ! j);
          emptyBitIdx = trailing_zeros w
      in if emptyBitIdx < 64 then
           let globalSlotIdx = push_bit 6 wordIdx + of_nat emptyBitIdx
           in Some (globalSlotIdx,
                s\<lparr> ts_bitmap := (ts_bitmap s)[j := ts_bitmap s ! j OR push_bit emptyBitIdx 1],
                   ts_tasks := (ts_tasks s)[unat globalSlotIdx := v],
                   ts_free := ts_free s - 1 \<rparr>)
         else if ts_pollerBitmap s ! j = 0 then add_hot v (s\<lparr>ts_wave := ts_wave s + 1\<rparr>)
         else add_hot v (syncWord j s))"

definition Add :: "'a \<Rightarrow> 'a slots \<Rightarrow> (u64 \<times> 'a slots) option" where
  "Add v s =
     (if ts_free s OR (ts_delCount s - ts_lastDelCount s) = 0 then add_fallback v s
      else add_hot v s)"

definition Del :: "u64 \<Rightarrow> 'a slots \<Rightarrow> 'a slots" where
  "Del idx s =
     (if ts_cap s \<le> idx then
        if sysIds < idx then s
        else s\<lparr>ts_fallback := (ts_fallback s)(idx := None)\<rparr>
      else
        let wordIdx = drop_bit 6 idx;
            bitAt = idx AND 63;
            j = unat wordIdx
        in s\<lparr> ts_pollerBitmap :=
                (ts_pollerBitmap s)[j := ts_pollerBitmap s ! j OR push_bit (unat bitAt) 1],
              ts_delCount := ts_delCount s + 1 \<rparr>)"

definition Get :: "'a \<Rightarrow> u64 \<Rightarrow> 'a slots \<Rightarrow> 'a \<times> bool" where
  "Get zero idx s =
     (if idx < ts_cap s then
        let wordIdx = drop_bit 6 idx;
            bitAt = idx AND 63;
            blk = ts_bitmap s ! unat wordIdx
        in (ts_tasks s ! unat idx, blk AND push_bit (unat bitAt) 1 \<noteq> 0)
      else (case ts_fallback s idx of None \<Rightarrow> (zero, False) | Some v \<Rightarrow> (v, True)))"

section \<open>Invariant and abstraction\<close>

text \<open>
  The well-formedness of a table of \<open>2 ^ k\<close> slots. A released slot is still marked used
  in the translator's bitmap, \<open>free\<close> counts the unmarked slots, and the two deletion
  counters differ by the releases the translator has not collected.
\<close>

definition slots_shape :: "nat \<Rightarrow> 'a slots \<Rightarrow> bool" where
  "slots_shape k s \<longleftrightarrow>
     12 \<le> k \<and> k \<le> 62 \<and> ts_cap s = push_bit k 1 \<and>
     length (ts_tasks s) = 2 ^ k \<and>
     length (ts_bitmap s) = 2 ^ (k - 6) \<and> length (ts_pollerBitmap s) = 2 ^ (k - 6) \<and>
     ts_bitmapLenMask s = mask (k - 6) \<and> ts_fallbackMask s = mask (63 - k)"

definition slots_inv :: "nat \<Rightarrow> 'a slots \<Rightarrow> bool" where
  "slots_inv k s \<longleftrightarrow>
     slots_shape k s \<and>
     bits_of (ts_pollerBitmap s) \<subseteq> bits_of (ts_bitmap s) \<and>
     unat (ts_free s) + card (bits_of (ts_bitmap s)) = 2 ^ k \<and>
     ts_delCount s - ts_lastDelCount s = of_nat (card (bits_of (ts_pollerBitmap s))) \<and>
     (\<forall>idx \<in> dom (ts_fallback s). 2 ^ k \<le> unat idx \<and> unat idx < 2 ^ k + 2 ^ (63 - k))"

definition live :: "'a slots \<Rightarrow> u64 \<rightharpoonup> 'a" where
  "live s idx =
     (if idx < ts_cap s then
        if unat idx \<in> bits_of (ts_bitmap s) - bits_of (ts_pollerBitmap s)
        then Some (ts_tasks s ! unat idx) else None
      else ts_fallback s idx)"

section \<open>Shape facts\<close>

lemma slots_shape_size:
  assumes "slots_shape k s"
  shows "64 * length (ts_bitmap s) = 2 ^ k" and "64 * length (ts_pollerBitmap s) = 2 ^ k"
proof -
  have "(64 :: nat) * 2 ^ (k - 6) = 2 ^ 6 * 2 ^ (k - 6)" by simp
  also have "\<dots> = 2 ^ k"
    using assms by (simp only: power_add [symmetric]) (simp add: slots_shape_def)
  finally show "64 * length (ts_bitmap s) = 2 ^ k" and "64 * length (ts_pollerBitmap s) = 2 ^ k"
    using assms by (simp_all add: slots_shape_def)
qed

lemma slots_shape_cap: "slots_shape k s \<Longrightarrow> unat (ts_cap s) = 2 ^ k"
  by (simp add: slots_shape_def unat_exp_word)

lemma slots_shape_word:
  assumes "slots_shape k s"
  shows "unat (ts_wave s AND ts_bitmapLenMask s) = unat (ts_wave s) mod 2 ^ (k - 6)"
    and "unat (ts_wave s AND ts_bitmapLenMask s) < length (ts_bitmap s)"
    and "unat (ts_wave s AND ts_bitmapLenMask s) < length (ts_pollerBitmap s)"
  using assms by (simp_all add: slots_shape_def unat_and_mask)

text \<open>The index arithmetic of the two sides agrees: word and bit, and back.\<close>

lemma slot_index:
  assumes "j < 2 ^ 58" and "b < 64"
  shows "unat (push_bit 6 (of_nat j) + of_nat b :: u64) = 64 * j + b"
proof -
  have "push_bit 6 (of_nat j) + of_nat b = (of_nat (64 * j + b) :: u64)"
    by (simp add: push_bit_eq_mult mult.commute)
  moreover have "unat (of_nat (64 * j + b) :: u64) = 64 * j + b"
    by (rule unat_of_nat_small) (use assms in simp)
  ultimately show ?thesis by (simp only:)
qed

lemma slot_word_bit:
  "unat (drop_bit 6 (idx :: u64)) = unat idx div 64"
  "unat (idx AND 63) = unat idx mod 64"
proof -
  show "unat (drop_bit 6 idx) = unat idx div 64"
    by (simp add: unat_drop_bit)
  have "(63 :: u64) = mask 6" by (simp add: mask_eq_exp_minus_1)
  then show "unat (idx AND 63) = unat idx mod 64" by (simp only: unat_and_mask) simp
qed

section \<open>Collecting the releases of a word\<close>

lemma slots_inv_shape [dest]: "slots_inv k s \<Longrightarrow> slots_shape k s"
  by (simp add: slots_inv_def)

lemma syncWord_shape: "slots_shape k s \<Longrightarrow> slots_shape k (syncWord j s)"
  by (simp add: slots_shape_def syncWord_def Let_def)

lemma syncWord_bits:
  assumes "slots_inv k s" and "j < length (ts_pollerBitmap s)"
  shows "bits_of (ts_pollerBitmap (syncWord j s)) =
           bits_of (ts_pollerBitmap s) - word_bits j (ts_pollerBitmap s ! j)"
    and "bits_of (ts_bitmap (syncWord j s)) =
           bits_of (ts_bitmap s) - word_bits j (ts_pollerBitmap s ! j)"
proof -
  have "j < length (ts_bitmap s)" using assms by (auto simp: slots_inv_def slots_shape_def)
  moreover have "word_bits j (ts_pollerBitmap s ! j) \<subseteq> bits_of (ts_bitmap s)"
    using word_bits_subset [OF assms(2)] assms(1) by (auto simp: slots_inv_def)
  ultimately show "bits_of (ts_bitmap (syncWord j s)) =
      bits_of (ts_bitmap s) - word_bits j (ts_pollerBitmap s ! j)"
    by (simp add: syncWord_def Let_def bits_of_xor_word)
  show "bits_of (ts_pollerBitmap (syncWord j s)) =
      bits_of (ts_pollerBitmap s) - word_bits j (ts_pollerBitmap s ! j)"
    using assms(2) by (simp add: syncWord_def Let_def bits_of_clear_word)
qed

lemma slots_free_bound:
  "slots_inv k s \<Longrightarrow> unat (ts_free s) \<le> 2 ^ 62"
proof -
  assume inv: "slots_inv k s"
  then have "unat (ts_free s) \<le> 2 ^ k" by (simp add: slots_inv_def)
  also have "(2 :: nat) ^ k \<le> 2 ^ 62"
    using inv by (intro power_increasing) (auto simp: slots_inv_def slots_shape_def)
  finally show ?thesis .
qed

lemma syncWord_inv:
  assumes inv: "slots_inv k s" and j: "j < length (ts_pollerBitmap s)"
  shows "slots_inv k (syncWord j s)"
proof -
  let ?B = "bits_of (ts_bitmap s)" and ?P = "bits_of (ts_pollerBitmap s)"
  let ?W = "word_bits j (ts_pollerBitmap s ! j)" and ?c = "ones_count (ts_pollerBitmap s ! j)"
  have sub: "?W \<subseteq> ?P" "?P \<subseteq> ?B" using word_bits_subset [OF j] inv by (auto simp: slots_inv_def)
  have cW: "card ?W = ?c" by simp
  have cB: "card (?B - ?W) + ?c = card ?B"
    using sub cW by (metis card_Diff_subset card_mono finite_bits_of finite_subset le_add_diff_inverse2 order_trans)
  have cP: "card (?P - ?W) + ?c = card ?P"
    using sub(1) cW by (metis card_Diff_subset card_mono finite_bits_of finite_subset le_add_diff_inverse2)
  have bal: "unat (ts_free s) + card ?B = 2 ^ k" using inv by (simp add: slots_inv_def)
  have "(2 :: nat) ^ k \<le> 2 ^ 62"
    using inv by (intro power_increasing) (auto simp: slots_inv_def slots_shape_def)
  with bal cB have "unat (ts_free s) + ?c < 2 ^ LENGTH(64)" by simp
  then have free: "unat (ts_free (syncWord j s)) = unat (ts_free s) + ?c"
    by (simp add: syncWord_def Let_def unat_add_small)
  have del: "ts_delCount s - (ts_lastDelCount s + of_nat ?c) = of_nat (card (?P - ?W))"
  proof -
    have "ts_delCount s - ts_lastDelCount s = of_nat (card (?P - ?W)) + of_nat ?c"
      using inv cP by (simp add: slots_inv_def flip: of_nat_add)
    then show ?thesis by (simp add: algebra_simps)
  qed
  have "slots_shape k (syncWord j s)" using inv by (simp add: syncWord_shape slots_inv_def)
  moreover have "ts_fallback (syncWord j s) = ts_fallback s"
    "ts_delCount (syncWord j s) = ts_delCount s"
    "ts_lastDelCount (syncWord j s) = ts_lastDelCount s + of_nat ?c"
    by (simp_all add: syncWord_def Let_def)
  ultimately show ?thesis
    using inv sub bal cB del free
    by (auto simp: slots_inv_def syncWord_bits [OF inv j])
qed

lemma syncWord_live:
  assumes inv: "slots_inv k s" and j: "j < length (ts_pollerBitmap s)"
  shows "live (syncWord j s) = live s"
proof -
  have "word_bits j (ts_pollerBitmap s ! j) \<subseteq> bits_of (ts_pollerBitmap s)"
    by (rule word_bits_subset [OF j])
  moreover have "ts_cap (syncWord j s) = ts_cap s" "ts_tasks (syncWord j s) = ts_tasks s"
    "ts_fallback (syncWord j s) = ts_fallback s"
    by (simp_all add: syncWord_def Let_def)
  ultimately show ?thesis
    by (auto simp: live_def fun_eq_iff syncWord_bits [OF inv j])
qed

lemma syncWord_frees_bit:
  assumes inv: "slots_inv k s" and j: "j < length (ts_pollerBitmap s)"
    and pw: "ts_pollerBitmap s ! j \<noteq> 0"
  shows "ts_bitmap (syncWord j s) ! j \<noteq> - 1"
proof -
  obtain b where b: "bit (ts_pollerBitmap s ! j) b" using pw by (auto simp: bit_eq_iff)
  then have "b < 64" by (auto dest: bit_imp_le_length)
  have "64 * j + b \<in> word_bits j (ts_pollerBitmap s ! j)" using b by (simp add: word_bits_def)
  then have "64 * j + b \<notin> bits_of (ts_bitmap (syncWord j s))"
    by (simp add: syncWord_bits [OF inv j])
  moreover have "j < length (ts_bitmap (syncWord j s))"
    using inv j by (auto simp: slots_inv_def slots_shape_def syncWord_def Let_def)
  ultimately have "\<not> bit (ts_bitmap (syncWord j s) ! j) b"
    using \<open>b < 64\<close> by (simp add: bits_of_def)
  then show ?thesis using \<open>b < 64\<close> by (auto simp: full_word_iff)
qed

section \<open>Allocation of a ring slot\<close>

text \<open>
  What \<open>Add\<close> promises: the index was not live, the task is now stored under it, nothing
  else changed, and the table stays well formed.
\<close>

definition add_spec :: "nat \<Rightarrow> 'a \<Rightarrow> 'a slots \<Rightarrow> u64 \<times> 'a slots \<Rightarrow> bool" where
  "add_spec k v s r \<longleftrightarrow>
     slots_inv k (snd r) \<and> live s (fst r) = None \<and> live (snd r) = (live s)(fst r \<mapsto> v)"

lemma slots_shape_index_bound:
  assumes "slots_shape k s" and "j < length (ts_bitmap s)"
  shows "j < 2 ^ 58" and "b < 64 \<Longrightarrow> 64 * j + b < 2 ^ k"
proof -
  have "(2 :: nat) ^ (k - 6) \<le> 2 ^ 58"
    using assms(1) by (intro power_increasing) (auto simp: slots_shape_def)
  with assms show "j < 2 ^ 58" by (simp add: slots_shape_def)
  assume "b < 64"
  then show "64 * j + b < 2 ^ k"
    using assms(2) slots_shape_size(1) [OF assms(1)] by linarith
qed

text \<open>The hit: a zero bit in the word under the wave.\<close>

lemma add_hot_hit:
  assumes inv: "slots_inv k s"
    and j: "j = unat (ts_wave s AND ts_bitmapLenMask s)"
    and hole: "ts_bitmap s ! j \<noteq> - 1"
  shows "\<exists>r. add_hot v s = Some r \<and> add_spec k v s r \<and> fst r < ts_cap s"
proof -
  let ?w = "(- 1) XOR (ts_bitmap s ! j)"
  define b where "b = trailing_zeros ?w"
  define g :: u64 where "g = push_bit 6 (of_nat j) + of_nat b"
  define s' where "s' = s\<lparr> ts_bitmap := (ts_bitmap s)[j := ts_bitmap s ! j OR push_bit b 1],
      ts_tasks := (ts_tasks s)[unat g := v], ts_free := ts_free s - 1 \<rparr>"
  have shape: "slots_shape k s" using inv by auto
  have jl: "j < length (ts_bitmap s)" using slots_shape_word(2) [OF shape] j by simp
  have b64: "b < 64"
    using hole trailing_zeros_less_iff [of ?w] by (simp add: b_def not_word_eq_0_iff)
  then have "bit ?w b" unfolding b_def by (intro trailing_zeros_bit) simp
  then have free_bit: "\<not> bit (ts_bitmap s ! j) b" by (simp add: bit_simps)
  have g: "unat g = 64 * j + b"
    unfolding g_def using slots_shape_index_bound(1) [OF shape jl] b64 by (rule slot_index)
  have notin: "unat g \<notin> bits_of (ts_bitmap s)"
    using b64 free_bit g by (simp add: bits_of_def)
  have gk: "unat g < 2 ^ k" using slots_shape_index_bound(2) [OF shape jl b64] g by simp
  then have gcap: "g < ts_cap s" using shape by (simp add: word_less_nat_alt slots_shape_cap)
  have bits': "bits_of (ts_bitmap s') = insert (unat g) (bits_of (ts_bitmap s))"
    using jl b64 g by (simp add: s'_def bits_of_set_exp)
  have "card (insert (unat g) (bits_of (ts_bitmap s))) \<le> 64 * length (ts_bitmap s')"
    using card_bits_of_le [of "ts_bitmap s'"] bits' by simp
  then have "card (bits_of (ts_bitmap s)) < 2 ^ k"
    using notin slots_shape_size(1) [OF shape] by (simp add: s'_def)
  then have "0 < unat (ts_free s)" using inv by (simp add: slots_inv_def)
  then have free': "unat (ts_free s') + 1 = unat (ts_free s)"
    by (simp add: s'_def unat_minus_1_pos)
  have "slots_shape k s'" using shape by (simp add: slots_shape_def s'_def)
  moreover have same: "ts_pollerBitmap s' = ts_pollerBitmap s" "ts_fallback s' = ts_fallback s"
    "ts_delCount s' = ts_delCount s" "ts_lastDelCount s' = ts_lastDelCount s" "ts_cap s' = ts_cap s"
    by (simp_all add: s'_def)
  ultimately have inv': "slots_inv k s'"
    using inv bits' notin free' by (auto simp: slots_inv_def)
  have poll: "unat g \<notin> bits_of (ts_pollerBitmap s)"
    using notin inv by (auto simp: slots_inv_def)
  have none: "live s g = None" using gcap notin by (simp add: live_def)
  have "unat g < length (ts_tasks s)" using gk shape by (simp add: slots_shape_def)
  then have "live s' x = ((live s)(g \<mapsto> v)) x" for x
  proof (cases "x = g")
    case False
    then have "unat x \<noteq> unat g" by (simp add: word_unat_eq_iff)
    then show ?thesis using False by (auto simp: live_def same bits') (simp add: s'_def)
  qed (use gcap poll in \<open>simp add: live_def same bits', simp add: s'_def\<close>)
  then have "live s' = (live s)(g \<mapsto> v)" by (rule ext)
  moreover have "add_hot v s = Some (g, s')"
  proof -
    have "trailing_zeros (NOT (ts_bitmap s ! j)) = b" by (simp add: b_def)
    moreover have "push_bit 6 (ts_wave s AND ts_bitmapLenMask s) + of_nat b = g"
      by (simp add: g_def j)
    ultimately show ?thesis
      using b64 by (subst add_hot.simps) (simp add: Let_def j [symmetric] s'_def del: push_bit_and)
  qed
  ultimately show ?thesis using inv' none gcap by (auto simp: add_spec_def)
qed

text \<open>
  The wave: some word ahead has a hole or a release to collect, at distance \<open>d\<close>. The loop
  reaches it, so it returns.
\<close>

definition word_progress :: "'a slots \<Rightarrow> nat \<Rightarrow> bool" where
  "word_progress s j \<longleftrightarrow> ts_bitmap s ! j \<noteq> - 1 \<or> ts_pollerBitmap s ! j \<noteq> 0"

lemma add_spec_cong:
  "live s' = live s \<Longrightarrow> add_spec k v s' r \<Longrightarrow> add_spec k v s r"
  by (simp add: add_spec_def)

lemma add_hot_here:
  assumes inv: "slots_inv k s"
    and j: "j = unat (ts_wave s AND ts_bitmapLenMask s)"
    and progress: "word_progress s j"
  shows "\<exists>r. add_hot v s = Some r \<and> add_spec k v s r \<and> fst r < ts_cap s"
proof (cases "ts_bitmap s ! j = - 1")
  case False
  then show ?thesis using add_hot_hit [OF inv j] by simp
next
  case True
  then have pw: "ts_pollerBitmap s ! j \<noteq> 0"
    using progress by (simp add: word_progress_def)
  let ?s = "syncWord j s"
  have jp: "j < length (ts_pollerBitmap s)" using slots_shape_word(3) inv j by blast
  have same: "ts_wave ?s = ts_wave s" "ts_bitmapLenMask ?s = ts_bitmapLenMask s"
    "ts_cap ?s = ts_cap s"
    by (simp_all add: syncWord_def Let_def)
  have "\<exists>r. add_hot v ?s = Some r \<and> add_spec k v ?s r \<and> fst r < ts_cap ?s"
    by (rule add_hot_hit [OF syncWord_inv [OF inv jp], of j])
      (simp_all add: same j [symmetric] syncWord_frees_bit [OF inv jp pw])
  moreover have "add_hot v s = add_hot v ?s"
    using True pw by (subst add_hot.simps) (simp add: Let_def j [symmetric])
  ultimately show ?thesis
    using add_spec_cong [OF syncWord_live [OF inv jp]] same(3) by auto
qed

lemma add_hot_reaches:
  assumes "slots_inv k s"
    and "word_progress s ((unat (ts_wave s) + d) mod 2 ^ (k - 6))"
  shows "\<exists>r. add_hot v s = Some r \<and> add_spec k v s r \<and> fst r < ts_cap s"
  using assms
proof (induction d arbitrary: s)
  case 0
  then have "slots_shape k s" by auto
  from slots_shape_word(1) [OF this] "0.prems" show ?case
    by (intro add_hot_here [OF "0.prems"(1) refl]) simp
next
  case (Suc d)
  let ?j = "unat (ts_wave s AND ts_bitmapLenMask s)"
  have shape: "slots_shape k s" using Suc.prems(1) by auto
  show ?case
  proof (cases "word_progress s ?j")
    case True
    then show ?thesis by (rule add_hot_here [OF Suc.prems(1) refl])
  next
    case False
    let ?s = "s\<lparr>ts_wave := ts_wave s + 1\<rparr>"
    have inv': "slots_inv k ?s" using Suc.prems(1) by (simp add: slots_inv_def slots_shape_def)
    have "k - 6 \<le> LENGTH(64)" using shape by (auto simp: slots_shape_def)
    then have "unat (ts_wave s + 1) mod 2 ^ (k - 6) = (unat (ts_wave s) + 1) mod 2 ^ (k - 6)"
      using unat_word_plus_nat_mod [of "k - 6" "ts_wave s" 1] by simp
    then have "(unat (ts_wave ?s) + d) mod 2 ^ (k - 6) = (unat (ts_wave s) + Suc d) mod 2 ^ (k - 6)"
      by simp (metis add_Suc add_Suc_right mod_add_left_eq)
    then have "word_progress ?s ((unat (ts_wave ?s) + d) mod 2 ^ (k - 6))"
      using Suc.prems(2) by (simp add: word_progress_def)
    from Suc.IH [OF inv' this]
    have "\<exists>r. add_hot v ?s = Some r \<and> add_spec k v ?s r \<and> fst r < ts_cap ?s" .
    moreover have "add_hot v s = add_hot v ?s"
      using False by (subst add_hot.simps) (simp add: Let_def word_progress_def)
    moreover have "live ?s = live s" by (simp add: live_def fun_eq_iff)
    ultimately show ?thesis using add_spec_cong by auto
  qed
qed

section \<open>Allocation in the fallback map\<close>

definition fallback_room :: "nat \<Rightarrow> 'a slots \<Rightarrow> bool" where
  "fallback_room k s \<longleftrightarrow> card (dom (ts_fallback s)) < 2 ^ (63 - k)"

lemma fallback_index:
  assumes shape: "slots_shape k s" and t: "t < 2 ^ (63 - k)"
  shows "unat (of_nat t + ts_cap s) = t + 2 ^ k" and "t + 2 ^ k < 2 ^ 63"
proof -
  have k: "12 \<le> k" "k \<le> 62" using shape by (auto simp: slots_shape_def)
  have "(2 :: nat) ^ (63 - k) \<le> 2 ^ 51" using k by (intro power_increasing) auto
  moreover have "(2 :: nat) ^ k \<le> 2 ^ 62" using k by (intro power_increasing) auto
  ultimately show le: "t + 2 ^ k < 2 ^ 63" using t by simp
  have "of_nat t + ts_cap s = (of_nat (t + 2 ^ k) :: u64)"
    using shape by (simp add: slots_shape_def)
  moreover have "unat (of_nat (t + 2 ^ k) :: u64) = t + 2 ^ k"
    by (rule unat_of_nat_small) (use le in simp)
  ultimately show "unat (of_nat t + ts_cap s) = t + 2 ^ k" by (simp only:)
qed

lemma fallback_index_inj:
  assumes shape: "slots_shape k s"
  shows "inj_on (\<lambda>t. of_nat t + ts_cap s) {..<2 ^ (63 - k)}"
proof (rule inj_onI)
  fix x y :: nat
  assume xy: "x \<in> {..<2 ^ (63 - k)}" "y \<in> {..<2 ^ (63 - k)}"
    and eq: "of_nat x + ts_cap s = of_nat y + ts_cap s"
  from eq have "unat (of_nat x + ts_cap s) = unat (of_nat y + ts_cap s)" by (rule arg_cong)
  then have "x + 2 ^ k = y + 2 ^ k"
    using fallback_index(1) [OF shape] xy by (simp only: lessThan_iff)
  then show "x = y" by (rule add_right_imp_eq)
qed

lemma fallback_free_index:
  assumes shape: "slots_shape k s" and room: "fallback_room k s"
  shows "\<exists>t < 2 ^ (63 - k). ts_fallback s (of_nat t + ts_cap s) = None"
proof (rule ccontr)
  let ?f = "\<lambda>t. of_nat t + ts_cap s"
  assume "\<not> (\<exists>t < 2 ^ (63 - k). ts_fallback s (?f t) = None)"
  then have sub: "?f ` {..<2 ^ (63 - k)} \<subseteq> dom (ts_fallback s)" by fastforce
  have "finite (dom (ts_fallback s))" by (rule finite)
  then have "card (?f ` {..<2 ^ (63 - k)}) \<le> card (dom (ts_fallback s))"
    using sub by (rule card_mono)
  then show False
    using room by (simp only: card_image [OF fallback_index_inj [OF shape]] fallback_room_def
      card_lessThan not_less [symmetric])
qed

lemma fallback_slot_masked:
  assumes "slots_shape k s"
  shows "ts_fallbackWave s AND ts_fallbackMask s = of_nat (unat (ts_fallbackWave s) mod 2 ^ (63 - k))"
proof -
  have "unat (ts_fallbackWave s) mod 2 ^ (63 - k) < 2 ^ LENGTH(64)"
    by (rule le_less_trans [OF mod_less_eq_dividend]) (rule unsigned_less)
  then have "unat (of_nat (unat (ts_fallbackWave s) mod 2 ^ (63 - k)) :: u64) =
      unat (ts_fallbackWave s) mod 2 ^ (63 - k)"
    by (rule unat_of_nat_small)
  moreover have "ts_fallbackMask s = mask (63 - k)" using assms by (simp add: slots_shape_def)
  ultimately have "unat (ts_fallbackWave s AND ts_fallbackMask s) =
      unat (of_nat (unat (ts_fallbackWave s) mod 2 ^ (63 - k)) :: u64)"
    by (simp only: unat_and_mask)
  then show ?thesis by (simp only: word_unat_eq_iff)
qed

lemma add_fallback_here:
  assumes inv: "slots_inv k s"
    and idx: "idx = (ts_fallbackWave s AND ts_fallbackMask s) + ts_cap s"
    and none: "ts_fallback s idx = None"
  shows "\<exists>r. add_fallback v s = Some r \<and> add_spec k v s r \<and> ts_cap s \<le> fst r"
proof -
  let ?s = "s\<lparr>ts_fallbackWave := ts_fallbackWave s + 1, ts_fallback := (ts_fallback s)(idx \<mapsto> v)\<rparr>"
  let ?t = "unat (ts_fallbackWave s) mod 2 ^ (63 - k)"
  have shape: "slots_shape k s" using inv by auto
  have t: "?t < 2 ^ (63 - k)" by simp
  have idx': "idx = of_nat ?t + ts_cap s" by (simp only: idx fallback_slot_masked [OF shape])
  have u: "unat idx = ?t + 2 ^ k" unfolding idx' by (rule fallback_index(1) [OF shape t])
  have cap: "ts_cap s \<le> idx" by (simp add: word_le_nat_alt u slots_shape_cap [OF shape])
  have "slots_inv k ?s" using inv u t by (auto simp: slots_inv_def slots_shape_def)
  moreover have "live ?s = (live s)(idx \<mapsto> v)" and "live s idx = None"
    using cap none by (auto simp: live_def fun_eq_iff)
  moreover have "add_fallback v s = Some (idx, ?s)"
    using none by (subst add_fallback.simps) (simp add: Let_def idx)
  ultimately show ?thesis using cap by (auto simp: add_spec_def)
qed

lemma add_fallback_reaches:
  assumes "slots_inv k s"
    and "ts_fallback s (of_nat ((unat (ts_fallbackWave s) + d) mod 2 ^ (63 - k)) + ts_cap s) = None"
  shows "\<exists>r. add_fallback v s = Some r \<and> add_spec k v s r \<and> ts_cap s \<le> fst r"
  using assms
proof (induction d arbitrary: s)
  case (0 s)
  then have "slots_shape k s" by auto
  with "0.prems" show ?case
    by (intro add_fallback_here [OF "0.prems"(1) refl]) (simp only: fallback_slot_masked add_0_right)
next
  case (Suc d s)
  let ?idx = "(ts_fallbackWave s AND ts_fallbackMask s) + ts_cap s"
  let ?s = "s\<lparr>ts_fallbackWave := ts_fallbackWave s + 1\<rparr>"
  have shape: "slots_shape k s" using Suc.prems(1) by auto
  show ?case
  proof (cases "ts_fallback s ?idx = None")
    case True
    then show ?thesis by (rule add_fallback_here [OF Suc.prems(1) refl])
  next
    case False
    have inv': "slots_inv k ?s" using Suc.prems(1) by (simp add: slots_inv_def slots_shape_def)
    have "63 - k \<le> LENGTH(64)" by simp
    then have "unat (ts_fallbackWave s + 1) mod 2 ^ (63 - k) = (unat (ts_fallbackWave s) + 1) mod 2 ^ (63 - k)"
      using unat_word_plus_nat_mod [of "63 - k" "ts_fallbackWave s" 1] by simp
    then have dist: "(unat (ts_fallbackWave ?s) + d) mod 2 ^ (63 - k) =
        (unat (ts_fallbackWave s) + Suc d) mod 2 ^ (63 - k)"
      by simp (metis add_Suc add_Suc_right mod_add_left_eq)
    have "\<exists>r. add_fallback v ?s = Some r \<and> add_spec k v ?s r \<and> ts_cap ?s \<le> fst r"
      by (rule Suc.IH [OF inv']) (use Suc.prems(2) in \<open>simp only: dist, simp\<close>)
    moreover have "add_fallback v s = add_fallback v ?s"
      using False by (subst add_fallback.simps) (simp only: Let_def if_True not_False_eq_True)
    moreover have "live ?s = live s" by (simp add: live_def fun_eq_iff)
    ultimately show ?thesis using add_spec_cong by auto
  qed
qed

section \<open>The operations against the abstraction\<close>

lemma or_eq_0_word_iff: "(a :: 'a::len word) OR b = 0 \<longleftrightarrow> a = 0 \<and> b = 0"
  by (auto simp: bit_eq_iff bit_simps)

text \<open>The saturation gate of \<open>Add\<close> is open exactly when no word has anything to offer.\<close>

lemma saturation_gate:
  assumes inv: "slots_inv k s"
  shows "ts_free s OR (ts_delCount s - ts_lastDelCount s) = 0 \<longleftrightarrow>
    (\<forall>j < 2 ^ (k - 6). \<not> word_progress s j)"
proof -
  have shape: "slots_shape k s" using inv by auto
  have len: "length (ts_bitmap s) = 2 ^ (k - 6)" "length (ts_pollerBitmap s) = 2 ^ (k - 6)"
    using shape by (auto simp: slots_shape_def)
  have bal: "unat (ts_free s) + card (bits_of (ts_bitmap s)) = 2 ^ k"
    and del: "ts_delCount s - ts_lastDelCount s = of_nat (card (bits_of (ts_pollerBitmap s)))"
    using inv by (auto simp: slots_inv_def)
  have "ts_free s = 0 \<longleftrightarrow> unat (ts_free s) = 0" by (simp add: unat_eq_zero)
  also have "\<dots> \<longleftrightarrow> card (bits_of (ts_bitmap s)) = 64 * length (ts_bitmap s)"
    using bal slots_shape_size(1) [OF shape] by linarith
  finally have free: "ts_free s = 0 \<longleftrightarrow> (\<forall>j < 2 ^ (k - 6). ts_bitmap s ! j = - 1)"
    using bits_of_card_full_iff [of "ts_bitmap s"] by (simp only: len)
  have "card (bits_of (ts_pollerBitmap s)) \<le> 2 ^ k"
    using card_bits_of_le slots_shape_size(2) [OF shape] by metis
  moreover have "(2 :: nat) ^ k < 2 ^ LENGTH(64)"
    using shape by (intro power_strict_increasing) (auto simp: slots_shape_def)
  ultimately have "unat (of_nat (card (bits_of (ts_pollerBitmap s))) :: u64) =
      card (bits_of (ts_pollerBitmap s))"
    by (intro unat_of_nat_small) (rule le_less_trans)
  then have "ts_delCount s - ts_lastDelCount s = 0 \<longleftrightarrow> bits_of (ts_pollerBitmap s) = {}"
    unfolding del by (metis card_eq_0_iff finite_bits_of unat_eq_zero)
  also have "\<dots> \<longleftrightarrow> (\<forall>j < 2 ^ (k - 6). ts_pollerBitmap s ! j = 0)"
    using len(2) by (simp add: bits_of_empty_iff)
  finally show ?thesis using free by (auto simp: or_eq_0_word_iff word_progress_def)
qed

lemma Add_spec:
  assumes inv: "slots_inv k s" and room: "fallback_room k s"
  shows "\<exists>r. Add v s = Some r \<and> add_spec k v s r \<and>
    (fst r < ts_cap s \<longleftrightarrow> ts_free s OR (ts_delCount s - ts_lastDelCount s) \<noteq> 0)"
proof (cases "ts_free s OR (ts_delCount s - ts_lastDelCount s) = 0")
  case True
  have shape: "slots_shape k s" using inv by auto
  obtain t where t: "t < 2 ^ (63 - k)" "ts_fallback s (of_nat t + ts_cap s) = None"
    using fallback_free_index [OF shape room] by blast
  obtain d where "(unat (ts_fallbackWave s) + d) mod 2 ^ (63 - k) = t"
    using ring_reach [OF t(1)] by blast
  with t(2) show ?thesis
    using add_fallback_reaches [OF inv, of d] True by (auto simp: Add_def linorder_not_less)
next
  case False
  then obtain j where j: "j < 2 ^ (k - 6)" "word_progress s j"
    using saturation_gate [OF inv] by blast
  obtain d where "(unat (ts_wave s) + d) mod 2 ^ (k - 6) = j"
    using ring_reach [OF j(1)] by blast
  with j(2) show ?thesis
    using add_hot_reaches [OF inv, of d] False by (auto simp: Add_def)
qed

text \<open>Without room \<open>Add\<close> may look for ever; whenever it returns, it keeps its promise.\<close>

lemma add_fallback_returns:
  assumes "add_fallback v s = Some r" and "slots_inv k s"
  shows "add_spec k v s r"
proof -
  have "slots_inv k s \<longrightarrow> add_spec k v s r"
  proof (rule add_fallback.raw_induct [OF _ assms(1)])
    fix f :: "'a \<Rightarrow> 'a slots \<Rightarrow> (u64 \<times> 'a slots) option" and v :: 'a and s :: "'a slots" and r
    let ?idx = "(ts_fallbackWave s AND ts_fallbackMask s) + ts_cap s"
    let ?s = "s\<lparr>ts_fallbackWave := ts_fallbackWave s + 1\<rparr>"
    assume IH: "\<And>v s r. f v s = Some r \<Longrightarrow> slots_inv k s \<longrightarrow> add_spec k v s r"
      and body: "(let idx = ?idx; s' = ?s in if ts_fallback s idx \<noteq> None then f v s'
         else Some (idx, s'\<lparr>ts_fallback := (ts_fallback s)(idx \<mapsto> v)\<rparr>)) = Some r"
    show "slots_inv k s \<longrightarrow> add_spec k v s r"
    proof
      assume inv: "slots_inv k s"
      show "add_spec k v s r"
      proof (cases "ts_fallback s ?idx = None")
        case True
        then have "add_fallback v s = Some r"
          using body by (subst add_fallback.simps) (simp add: Let_def)
        then show ?thesis using add_fallback_here [OF inv refl True, of v] by auto
      next
        case False
        then have "f v ?s = Some r" using body by (simp add: Let_def)
        moreover have "slots_inv k ?s" using inv by (simp add: slots_inv_def slots_shape_def)
        moreover have "live ?s = live s" by (simp add: live_def fun_eq_iff)
        ultimately show ?thesis using IH [of v ?s r] add_spec_cong [of ?s s k v r] by blast
      qed
    qed
  qed
  with assms(2) show ?thesis by simp
qed

lemma Add_returns:
  assumes inv: "slots_inv k s" and add: "Add v s = Some r"
  shows "add_spec k v s r"
proof (cases "ts_free s OR (ts_delCount s - ts_lastDelCount s) = 0")
  case True
  then show ?thesis using add_fallback_returns [OF _ inv] add by (simp add: Add_def)
next
  case False
  then obtain j where j: "j < 2 ^ (k - 6)" "word_progress s j"
    using saturation_gate [OF inv] by blast
  obtain d where "(unat (ts_wave s) + d) mod 2 ^ (k - 6) = j"
    using ring_reach [OF j(1)] by blast
  with j(2) show ?thesis
    using add_hot_reaches [OF inv, of d v] False add by (auto simp: Add_def)
qed

lemma slots_fallback_range:
  assumes inv: "slots_inv k s" and "ts_fallback s idx = Some v"
  shows "ts_cap s \<le> idx" and "\<not> sysIds < idx"
proof -
  have shape: "slots_shape k s" using inv by auto
  have idx: "2 ^ k \<le> unat idx" "unat idx < 2 ^ k + 2 ^ (63 - k)"
    using assms by (auto simp: slots_inv_def dom_def)
  then show "ts_cap s \<le> idx" by (simp add: word_le_nat_alt slots_shape_cap [OF shape])
  have "unat idx - 2 ^ k < 2 ^ (63 - k)" using idx by linarith
  then have "unat idx < 2 ^ 63"
    using fallback_index(2) [OF shape, of "unat idx - 2 ^ k"] idx(1) by simp
  moreover have "unat sysIds = 2 ^ 63" by (simp add: sysIds_def)
  ultimately show "\<not> sysIds < idx" by (simp add: word_less_nat_alt)
qed

lemma slot_word_in_range:
  assumes shape: "slots_shape k s" and "idx < ts_cap s"
  shows "unat idx div 64 < length (ts_pollerBitmap s)" and "unat idx div 64 < length (ts_bitmap s)"
    and "unat idx < length (ts_tasks s)"
proof -
  have "unat idx < 2 ^ k" using assms(2) by (simp add: word_less_nat_alt slots_shape_cap [OF shape])
  then show "unat idx div 64 < length (ts_pollerBitmap s)" "unat idx div 64 < length (ts_bitmap s)"
    "unat idx < length (ts_tasks s)"
    using slots_shape_size [OF shape] shape
    by (auto simp: div_less_iff_less_mult mult.commute slots_shape_def)
qed

lemma Del_hot_bits:
  assumes shape: "slots_shape k s" and hot: "idx < ts_cap s"
  shows "bits_of (ts_pollerBitmap (Del idx s)) = insert (unat idx) (bits_of (ts_pollerBitmap s))"
proof -
  have "64 * (unat idx div 64) + unat idx mod 64 = unat idx" by simp
  then show ?thesis
    using bits_of_set_exp [OF slot_word_in_range(1) [OF assms], of "unat idx mod 64"] hot
    by (simp add: Del_def Let_def slot_word_bit linorder_not_le [symmetric])
qed

lemma Del_hot_frame:
  assumes "idx < ts_cap s"
  shows "ts_bitmap (Del idx s) = ts_bitmap s" "ts_tasks (Del idx s) = ts_tasks s"
    "ts_cap (Del idx s) = ts_cap s" "ts_free (Del idx s) = ts_free s"
    "ts_fallback (Del idx s) = ts_fallback s" "ts_lastDelCount (Del idx s) = ts_lastDelCount s"
    "ts_delCount (Del idx s) = ts_delCount s + 1"
  using assms by (simp_all add: Del_def Let_def)

lemma Del_shape: "slots_shape k s \<Longrightarrow> slots_shape k (Del idx s)"
  by (simp add: slots_shape_def Del_def Let_def)

lemma Del_spec:
  assumes inv: "slots_inv k s" and live: "live s idx = Some v"
  shows "slots_inv k (Del idx s) \<and> live (Del idx s) = (live s)(idx := None)"
proof (cases "idx < ts_cap s")
  case True
  have shape: "slots_shape k s" using inv by auto
  note bits = Del_hot_bits [OF shape True] and frame = Del_hot_frame [OF True]
  have in_B: "unat idx \<in> bits_of (ts_bitmap s)" "unat idx \<notin> bits_of (ts_pollerBitmap s)"
    using live True by (auto simp: live_def split: if_splits)
  have "ts_delCount (Del idx s) - ts_lastDelCount (Del idx s) =
      of_nat (card (bits_of (ts_pollerBitmap (Del idx s))))"
    using inv in_B(2) by (simp add: bits frame slots_inv_def algebra_simps)
  moreover have "slots_shape k (Del idx s)" by (rule Del_shape [OF shape])
  ultimately have "slots_inv k (Del idx s)"
    using inv in_B bits frame by (auto simp: slots_inv_def)
  moreover have "live (Del idx s) x = ((live s)(idx := None)) x" for x
  proof (cases "x = idx")
    case False
    then have "unat x \<noteq> unat idx" by (simp add: word_unat_eq_iff)
    then show ?thesis using False by (simp add: live_def bits frame)
  qed (simp add: live_def bits frame True)
  ultimately show ?thesis by (auto simp: fun_eq_iff)
next
  case False
  then have fb: "ts_fallback s idx = Some v" using live by (simp add: live_def)
  note range = slots_fallback_range [OF inv fb]
  then have del: "Del idx s = s\<lparr>ts_fallback := (ts_fallback s)(idx := None)\<rparr>"
    by (simp add: Del_def)
  have "slots_inv k (Del idx s)"
    using inv unfolding del by (auto simp: slots_inv_def slots_shape_def)
  moreover have "live (Del idx s) = (live s)(idx := None)"
    using False unfolding del by (auto simp: live_def fun_eq_iff)
  ultimately show ?thesis by simp
qed

lemma Get_live:
  assumes inv: "slots_inv k s" and live: "live s idx = Some v"
  shows "Get zero idx s = (v, True)"
proof (cases "idx < ts_cap s")
  case True
  have "unat idx \<in> bits_of (ts_bitmap s)" and v: "ts_tasks s ! unat idx = v"
    using live True by (auto simp: live_def split: if_splits)
  then have "bit (ts_bitmap s ! (unat idx div 64)) (unat idx mod 64)" by (simp add: bits_of_def)
  then have "ts_bitmap s ! (unat idx div 64) AND push_bit (unat idx mod 64) 1 \<noteq> 0"
    by (simp only: bit_iff_and_push_bit_not_eq_0 not_False_eq_True)
  then show ?thesis using True v by (simp add: Get_def Let_def slot_word_bit)
qed (use live in \<open>simp add: Get_def live_def\<close>)

section \<open>The fresh table\<close>

lemma trailing_zeros_exp: "k < LENGTH('a) \<Longrightarrow> trailing_zeros (2 ^ k :: 'a::len word) = k"
proof -
  assume k: "k < LENGTH('a)"
  then have "trailing_zeros (2 ^ k :: 'a word) < LENGTH('a)"
    by (simp add: trailing_zeros_less_iff)
  then have "bit (2 ^ k :: 'a word) (trailing_zeros (2 ^ k :: 'a word))" by (rule trailing_zeros_bit)
  then show ?thesis by (simp add: bit_simps)
qed

lemma sint_exp: "k < 63 \<Longrightarrow> sint (2 ^ k :: i64) = 2 ^ k"
proof -
  assume k: "k < 63"
  have "uint (2 ^ k :: i64) = int (unat (2 ^ k :: i64))" by simp
  also have "\<dots> = 2 ^ k" using k unat_exp_word [of k, where 'a = 64] by simp
  finally have u: "uint (2 ^ k :: i64) = 2 ^ k" .
  have "(2 :: int) ^ k < 2 ^ 63" using k by (intro power_strict_increasing) auto
  then have "signed_take_bit 63 (2 ^ k :: int) = 2 ^ k" by (intro signed_take_bit_int_eq_self) (auto intro: order_trans [of _ 0])
  then show ?thesis by (simp add: sint_uint u)
qed

lemma words_count_exp: "6 \<le> k \<Longrightarrow> k < 63 \<Longrightarrow> signed_drop_bit 6 (2 ^ k :: i64) = 2 ^ (k - 6)"
  by (rule bit_word_eqI) (auto simp: bit_simps)

text \<open>The checks of \<open>New\<close> on a power of two, in order.\<close>

lemma new_slots_exp:
  assumes "12 \<le> k" "k \<le> 62"
  shows "\<exists>s. new_slots zero sizeof (2 ^ k) =
      (if maxAlloc < 2 ^ (k - 3) + 64 then None else if sizeof = 0 then Some (Inl Type_size_zero)
       else if sizeof AND 7 \<noteq> 0 then Some (Inl Type_size_not_multiple_of_8)
       else if maxAlloc < 2 ^ k * unat sizeof then None else Some (Inr s)) \<and>
    slots_inv k s \<and> live s = Map.empty \<and> ts_cap s = 2 ^ k \<and> ts_fallback s = Map.empty"
proof -
  have k: "k < LENGTH(64)" "k < 63" "6 \<le> k" using assms by auto
  have "(4096 :: int) = 2 ^ 12" by simp
  also have "\<dots> \<le> 2 ^ k" using assms by (intro power_increasing) auto
  finally have cap: "\<not> sint (2 ^ k :: i64) < 4096" by (simp only: sint_exp [OF k(2)])
  have k6: "k - 6 < LENGTH(64)" using k by simp
  have "(8 :: nat) = 2 ^ 3" by simp
  then have words: "8 * (2 :: nat) ^ (k - 6) = 2 ^ (k - 3)" using k(3) by (simp only: power_add [symmetric]) simp
  let ?s = "\<lparr> ts_cap = 2 ^ k, ts_tasks = replicate (2 ^ k) zero, ts_bitmap = replicate (2 ^ (k - 6)) 0,
      ts_pollerBitmap = replicate (2 ^ (k - 6)) 0, ts_bitmapLenMask = 2 ^ (k - 6) - 1, ts_wave = 0, ts_free = 2 ^ k,
      ts_delCount = 0, ts_lastDelCount = 0, ts_fallbackMask = 2 ^ (63 - k) - 1, ts_fallback = Map.empty, ts_fallbackWave = 0 \<rparr>"
  have "slots_shape k ?s" using assms by (simp add: slots_shape_def mask_eq_decr_exp)
  moreover have "unat (ts_free ?s) = 2 ^ k" by (simp add: unat_exp_word [OF k(1)])
  ultimately have "slots_inv k ?s" by (simp add: slots_inv_def)
  moreover have "live ?s = Map.empty" by (simp add: live_def fun_eq_iff)
  moreover have "new_slots zero sizeof (2 ^ k) =
      (if maxAlloc < 2 ^ (k - 3) + 64 then None else if sizeof = 0 then Some (Inl Type_size_zero)
       else if sizeof AND 7 \<noteq> 0 then Some (Inl Type_size_not_multiple_of_8)
       else if maxAlloc < 2 ^ k * unat sizeof then None else Some (Inr ?s))"
    using cap words
    by (simp add: new_slots_def Let_def ones_count_exp [OF k(1)] trailing_zeros_exp [OF k(1)]
      words_count_exp [OF k(3,2)] unat_exp_word [OF k(1)] unat_exp_word [OF k6])
  ultimately show ?thesis by (intro exI [of _ ?s]) simp
qed

text \<open>A block that holds the tasks has room for the bitmaps.\<close>

lemma tasks_fit:
  assumes "2 ^ k * unat (sizeof :: u64) \<le> maxAlloc" and "sizeof \<noteq> 0"
  shows "k \<le> 48" and "12 \<le> k \<Longrightarrow> \<not> maxAlloc < 2 ^ (k - 3) + 64"
proof -
  have "1 \<le> unat sizeof" using assms(2) by (simp add: Suc_le_eq unat_gt_0)
  then have "(2 :: nat) ^ k * 1 \<le> 2 ^ k * unat sizeof" by (intro mult_left_mono) simp_all
  then have "(2 :: nat) ^ k \<le> 2 ^ 48" using assms(1) by (simp only: maxAlloc_def mult_1_right)
  then show k: "k \<le> 48" by (rule power_le_imp_le_exp [rotated]) simp
  show "\<not> maxAlloc < 2 ^ (k - 3) + 64" if "12 \<le> k"
  proof -
    have "(2 :: nat) ^ (k - 3) \<le> 2 ^ 45" using k by (intro power_increasing) auto
    then show ?thesis by (simp add: maxAlloc_def)
  qed
qed

lemma new_slots_valid:
  assumes "12 \<le> k" "2 ^ k * unat sizeof \<le> maxAlloc" "sizeof \<noteq> 0" "sizeof AND 7 = 0"
  shows "\<exists>s. new_slots zero sizeof (2 ^ k) = Some (Inr s) \<and> slots_inv k s \<and> live s = Map.empty \<and>
    fallback_room k s"
proof -
  have k: "k \<le> 62" using tasks_fit(1) [OF assms(2,3)] by simp
  obtain s where "new_slots zero sizeof (2 ^ k) = Some (Inr s)" "slots_inv k s" "live s = Map.empty" "ts_fallback s = Map.empty"
    using new_slots_exp [OF assms(1) k, of zero sizeof] tasks_fit(2) [OF assms(2,3,1)] assms by auto
  then show ?thesis by (auto simp: fallback_room_def)
qed

text \<open>What \<open>New\<close> rejects, by an error or the panic of \<open>make\<close>.\<close>

lemma new_slots_capacity:
  assumes "new_slots zero sizeof capacity \<noteq> Some (Inl Capacity_not_power_of_2)"
    and "new_slots zero sizeof capacity \<noteq> Some (Inl Capacity_below_4096)"
  shows "\<exists>k. 12 \<le> k \<and> k \<le> 62 \<and> capacity = 2 ^ k"
proof -
  have g: "ones_count capacity = 1" "\<not> sint capacity < 4096"
    using assms by (auto simp: new_slots_def Let_def split: if_splits)
  obtain k where k: "k < LENGTH(64)" "capacity = push_bit k 1" by (rule ones_count_1_imp [OF g(1)])
  have "\<not> k < 12"
  proof
    assume "k < 12"
    then have "(2 :: int) ^ k < 2 ^ 12" by (intro power_strict_increasing) auto
    then show False using k g(2) \<open>k < 12\<close> by (simp add: sint_exp)
  qed
  moreover have "k \<noteq> 63" using k(2) g(2) by auto
  ultimately show ?thesis using k by (intro exI [of _ k]) simp
qed

lemma new_slots_Inr:
  assumes "new_slots zero sizeof capacity = Some (Inr s)"
  shows "\<exists>k. 12 \<le> k \<and> k \<le> 62 \<and> capacity = 2 ^ k \<and> sizeof \<noteq> 0 \<and> sizeof AND 7 = 0 \<and>
    2 ^ k * unat sizeof \<le> maxAlloc \<and> slots_inv k s \<and> live s = Map.empty \<and> ts_cap s = 2 ^ k"
proof -
  obtain k where k: "12 \<le> k" "k \<le> 62" "capacity = 2 ^ k" using new_slots_capacity [of zero sizeof capacity] assms by auto
  show ?thesis using new_slots_exp [OF k(1,2), of zero sizeof] assms k
    by (intro exI [of _ k]) (auto split: if_splits)
qed

section \<open>The table as an interface\<close>

text \<open>
  How the ring uses the table: it adds tasks, hands their indexes to the kernel, and deletes
  an index once its completion came back. \<open>table_history add del room t0 t h\<close> holds when
  \<open>t\<close> is reached from \<open>t0\<close> by such calls and \<open>h\<close> lists the outstanding ones.
\<close>

inductive table_history ::
  "('v \<Rightarrow> 't \<Rightarrow> (u64 \<times> 't) option) \<Rightarrow> (u64 \<Rightarrow> 't \<Rightarrow> 't) \<Rightarrow> ('t \<Rightarrow> bool) \<Rightarrow> 't \<Rightarrow>
   't \<Rightarrow> (u64 \<times> 'v) list \<Rightarrow> bool"
  for add :: "'v \<Rightarrow> 't \<Rightarrow> (u64 \<times> 't) option" and del :: "u64 \<Rightarrow> 't \<Rightarrow> 't"
    and room :: "'t \<Rightarrow> bool" and t0 :: 't where
  history_start: "table_history add del room t0 t0 []"
| history_add: "table_history add del room t0 t h \<Longrightarrow> room t \<Longrightarrow> add v t = Some (i, t') \<Longrightarrow>
    table_history add del room t0 t' ((i, v) # h)"
| history_del: "table_history add del room t0 t h \<Longrightarrow> (i, v) \<in> set h \<Longrightarrow>
    table_history add del room t0 (del i t) (remove1 (i, v) h)"

locale slot_table =
  fixes add :: "'v \<Rightarrow> 't \<Rightarrow> (u64 \<times> 't) option"
    and del :: "u64 \<Rightarrow> 't \<Rightarrow> 't"
    and get :: "u64 \<Rightarrow> 't \<Rightarrow> 'v \<times> bool"
    and alive :: "'t \<Rightarrow> u64 \<rightharpoonup> 'v"
    and ok :: "'t \<Rightarrow> bool"
    and room :: "'t \<Rightarrow> bool"
  assumes add_law: "ok t \<Longrightarrow> room t \<Longrightarrow>
      \<exists>i t'. add v t = Some (i, t') \<and> ok t' \<and> alive t i = None \<and> alive t' = (alive t)(i \<mapsto> v)"
    and del_law: "ok t \<Longrightarrow> alive t i = Some v \<Longrightarrow> ok (del i t) \<and> alive (del i t) = (alive t)(i := None)"
    and get_law: "ok t \<Longrightarrow> alive t i = Some v \<Longrightarrow> get i t = (v, True)"
begin

lemma history_map:
  assumes "table_history add del room t0 t h" and "ok t0" and "alive t0 = Map.empty"
  shows "ok t \<and> distinct (map fst h) \<and> alive t = map_of h"
  using assms
proof (induction rule: table_history.induct)
  case history_start
  then show ?case by simp
next
  case (history_add t h v i t')
  then have IH: "ok t" "distinct (map fst h)" "alive t = map_of h" by auto
  have t': "ok t'" "alive t i = None" "alive t' = (alive t)(i \<mapsto> v)"
    using add_law [OF IH(1) history_add.hyps(2), of v] history_add.hyps(3) by auto
  then show ?case using IH by (auto simp: map_of_eq_None_iff)
next
  case (history_del t h i v)
  then have IH: "ok t" "distinct (map fst h)" "alive t = map_of h" by auto
  have "alive t i = Some v" using IH history_del.hyps(2) by simp
  from del_law [OF IH(1) this] have d: "ok (del i t)" "alive (del i t) = (alive t)(i := None)"
    by auto
  then show ?case
    using IH map_of_remove1 [OF IH(2) history_del.hyps(2)] by (simp add: distinct_fst_remove1)
qed

lemma history_resolves:
  assumes "table_history add del room t0 t h" and "ok t0" and "alive t0 = Map.empty"
    and "(i, v) \<in> set h"
  shows "get i t = (v, True)"
  using history_map [OF assms(1,2,3)] assms(4) by (auto intro: get_law)

end

interpretation task_slots: slot_table Add Del "Get zero" live "slots_inv k" "fallback_room k"
  for zero :: 'a and k
proof unfold_locales
  fix t :: "'a slots" and v
  assume "slots_inv k t" "fallback_room k t"
  then show "\<exists>i t'. Add v t = Some (i, t') \<and> slots_inv k t' \<and> live t i = None \<and> live t' = (live t)(i \<mapsto> v)"
    using Add_spec [of k t v] by (auto simp: add_spec_def)
qed (auto simp: Del_spec Get_live)

text \<open>A ring is saturated when every slot of it is outstanding.\<close>

lemma saturated_live:
  assumes inv: "slots_inv k s"
  shows "(\<forall>j < 2 ^ (k - 6). \<not> word_progress s j) \<longleftrightarrow> (\<forall>i < ts_cap s. live s i \<noteq> None)"
proof -
  have shape: "slots_shape k s" using inv by auto
  have len: "length (ts_bitmap s) = 2 ^ (k - 6)" "length (ts_pollerBitmap s) = 2 ^ (k - 6)"
    using shape by (auto simp: slots_shape_def)
  have bits: "bits_of (ts_bitmap s) = {..<2 ^ k} \<and> bits_of (ts_pollerBitmap s) = {} \<longleftrightarrow>
      (\<forall>j < 2 ^ (k - 6). \<not> word_progress s j)"
    using bits_of_full_iff [of "ts_bitmap s", unfolded slots_shape_size(1) [OF shape]]
      bits_of_empty_iff [of "ts_pollerBitmap s"]
    by (auto simp only: len word_progress_def)
  have "(\<forall>i < ts_cap s. live s i \<noteq> None) \<longleftrightarrow>
      (\<forall>n < 2 ^ k. n \<in> bits_of (ts_bitmap s) - bits_of (ts_pollerBitmap s))" (is "?L \<longleftrightarrow> ?R")
  proof
    assume L: ?L
    show ?R
    proof (intro allI impI)
      fix n :: nat
      assume n: "n < 2 ^ k"
      have "(2 :: nat) ^ k < 2 ^ LENGTH(64)"
        using shape by (intro power_strict_increasing) (auto simp: slots_shape_def)
      with n have u: "unat (of_nat n :: u64) = n" by (intro unat_of_nat_small) simp
      then have "(of_nat n :: u64) < ts_cap s"
        using n by (simp add: word_less_nat_alt slots_shape_cap [OF shape])
      with L have "live s (of_nat n) \<noteq> None" by blast
      then show "n \<in> bits_of (ts_bitmap s) - bits_of (ts_pollerBitmap s)"
        using \<open>(of_nat n :: u64) < ts_cap s\<close> u by (auto simp: live_def split: if_splits)
    qed
  next
    assume ?R
    then show ?L by (auto simp: live_def word_less_nat_alt slots_shape_cap [OF shape])
  qed
  also have "\<dots> \<longleftrightarrow> bits_of (ts_bitmap s) = {..<2 ^ k} \<and> bits_of (ts_pollerBitmap s) = {}"
    using bits_of_bound [of "ts_bitmap s", unfolded slots_shape_size(1) [OF shape]] inv
    by (auto simp: slots_inv_def)
  finally show ?thesis using bits by simp
qed

lemma fallback_room_live:
  assumes inv: "slots_inv k s" and "card (dom (live s)) \<le> 1"
  shows "fallback_room k s"
proof -
  have "dom (ts_fallback s) \<subseteq> dom (live s)"
    using slots_fallback_range(1) [OF inv] by (fastforce simp: live_def dom_def)
  then have "card (dom (ts_fallback s)) \<le> card (dom (live s))" by (intro card_mono) simp_all
  also have "\<dots> \<le> 1" by (rule assms(2))
  also have "(1 :: nat) < 2 ^ (63 - k)"
    by (rule one_less_power) (use inv in \<open>auto simp: slots_inv_def slots_shape_def\<close>)
  finally show ?thesis by (simp add: fallback_room_def)
qed

section \<open>A concrete table\<close>

text \<open>The smallest table the code accepts, empty and with one task in it.\<close>

definition ex_slots :: "u64 slots" where
  "ex_slots = projr (the (new_slots 0 8 4096))"

definition ex_slots1 :: "u64 slots" where
  "ex_slots1 = snd (the (Add 5 ex_slots))"

lemma ex_slots_valid:
  "new_slots 0 8 4096 = Some (Inr ex_slots)" "slots_inv 12 ex_slots" "live ex_slots = Map.empty"
  "fallback_room 12 ex_slots"
proof -
  have "(2 ^ 12 :: i64) = 4096" by simp
  then obtain s :: "u64 slots" where s: "new_slots 0 8 4096 = Some (Inr s)" "slots_inv 12 s"
    "live s = Map.empty" "fallback_room 12 s"
    using new_slots_valid [of 12 8 0] by (auto simp: maxAlloc_def)
  then have "ex_slots = s" by (simp add: ex_slots_def)
  with s show "new_slots 0 8 4096 = Some (Inr ex_slots)" "slots_inv 12 ex_slots"
    "live ex_slots = Map.empty" "fallback_room 12 ex_slots" by simp_all
qed

lemma trailing_zeros_ones [simp]: "trailing_zeros (- 1 :: u64) = 0"
  by (simp add: trailing_zeros_def upt_rec)

lemma fresh_add_index: "fst (the (Add v (projr (the (new_slots z 8 4096))))) = 0"
proof -
  let ?s = "projr (the (new_slots z 8 4096))"
  have "signed_drop_bit 6 (4096 :: i64) = 64" using words_count_exp [of 12] by simp
  moreover have "ones_count (4096 :: i64) = 1" "trailing_zeros (4096 :: i64) = 12"
    using ones_count_exp [of 12, where 'a = 64] trailing_zeros_exp [of 12, where 'a = 64] by simp_all
  ultimately have f: "ts_free ?s = 4096" "ts_wave ?s = 0" "ts_bitmapLenMask ?s = 63"
    "ts_bitmap ?s = replicate 64 0" "ts_delCount ?s = 0" "ts_lastDelCount ?s = 0"
    by (simp_all add: new_slots_def maxAlloc_def Let_def)
  have "Add v ?s = add_hot v ?s" by (simp add: Add_def f)
  also have "\<dots> = Some (0, snd (the (add_hot v ?s)))"
    by (subst (1 2) add_hot.simps) (simp add: Let_def f nth_replicate)
  finally show ?thesis by simp
qed

lemma ex_add_index: "fst (the (Add 5 ex_slots)) = 0"
  unfolding ex_slots_def by (rule fresh_add_index)

lemma ex_slots1_valid:
  "Add 5 ex_slots = Some (0, ex_slots1)" "slots_inv 12 ex_slots1" "live ex_slots1 = [0 \<mapsto> 5]"
  "fallback_room 12 ex_slots1"
proof -
  obtain r where r: "Add 5 ex_slots = Some r" "add_spec 12 5 ex_slots r"
    using Add_spec [OF ex_slots_valid(2,4), of 5] by blast
  then have "r = (0, ex_slots1)" using ex_add_index by (simp add: ex_slots1_def prod_eq_iff)
  with r show *: "Add 5 ex_slots = Some (0, ex_slots1)" "slots_inv 12 ex_slots1"
    "live ex_slots1 = [0 \<mapsto> 5]" by (simp_all add: add_spec_def ex_slots_valid(3))
  show "fallback_room 12 ex_slots1" by (rule fallback_room_live [OF *(2)]) (simp add: *(3))
qed

section \<open>Properties\<close>

text \<open>C39. What \<open>New\<close> does for every capacity and every size of a task: it builds a table, well formed and empty, exactly for
  the powers of two from 4096 on whose tasks fit into 2^48 bytes, of a size that is a positive multiple of eight; a
  power of two from 4096 on whose tasks, or alone the bitmap of 2^51 slots and more, do not fit is a run-time panic and
  not an error; everything else is refused with an error.\<close>

theorem new_slots_accepts:
  "(case new_slots zero sizeof capacity of
      None \<Rightarrow> \<exists>k. 12 \<le> k \<and> k \<le> 62 \<and> capacity = 2 ^ k \<and>
        (51 \<le> k \<or> sizeof \<noteq> 0 \<and> sizeof AND 7 = 0 \<and> 2 ^ 48 < 2 ^ k * unat sizeof)
    | Some (Inl e) \<Rightarrow> \<not> (\<exists>k. 12 \<le> k \<and> k \<le> 62 \<and> capacity = 2 ^ k) \<or>
        (\<exists>k. 12 \<le> k \<and> k \<le> 50 \<and> capacity = 2 ^ k) \<and> (sizeof = 0 \<or> sizeof AND 7 \<noteq> 0)
    | Some (Inr s) \<Rightarrow> sizeof \<noteq> 0 \<and> sizeof AND 7 = 0 \<and> live s = Map.empty \<and>
        (\<exists>k. 12 \<le> k \<and> capacity = 2 ^ k \<and> 2 ^ k * unat sizeof \<le> 2 ^ 48 \<and> slots_inv k s))"
proof (cases "\<exists>k. 12 \<le> k \<and> k \<le> 62 \<and> capacity = 2 ^ k")
  case False
  then show ?thesis using new_slots_capacity [of zero sizeof capacity] by fastforce
next
  case True
  then obtain k where k: "12 \<le> k" "k \<le> 62" "capacity = 2 ^ k" by blast
  have bitmap: "maxAlloc < 2 ^ (k - 3) + 64 \<longleftrightarrow> 51 \<le> k"
  proof (cases "51 \<le> k")
    case True
    then have "(2 :: nat) ^ 48 \<le> 2 ^ (k - 3)" by (intro power_increasing) auto
    then show ?thesis using True by (simp add: maxAlloc_def)
  next
    case False
    then have "(2 :: nat) ^ (k - 3) \<le> 2 ^ 47" by (intro power_increasing) auto
    then show ?thesis using False by (simp add: maxAlloc_def)
  qed
  obtain s where "new_slots zero sizeof capacity =
      (if 51 \<le> k then None else if sizeof = 0 then Some (Inl Type_size_zero)
       else if sizeof AND 7 \<noteq> 0 then Some (Inl Type_size_not_multiple_of_8)
       else if maxAlloc < 2 ^ k * unat sizeof then None else Some (Inr s))" "slots_inv k s" "live s = Map.empty"
    using new_slots_exp [OF k(1,2), of zero sizeof] unfolding k(3) bitmap by blast
  then show ?thesis using k by (auto simp: maxAlloc_def)
qed

theorem new_slots_accepts_witness:
  "new_slots (0 :: nat) 8 (2 ^ 62) = None \<and> (\<exists>s. new_slots (0 :: nat) 8 (2 ^ 12) = Some (Inr s) \<and> live s = Map.empty)"
proof -
  have "new_slots (0 :: nat) 8 (2 ^ 62) = None"
  proof (cases "new_slots (0 :: nat) 8 (2 ^ 62)")
    case (Some r)
    have power: "\<exists>k :: nat. 12 \<le> k \<and> k \<le> 62 \<and> (2 :: u64) ^ 62 = 2 ^ k" by (intro exI [of _ 62]) simp
    show ?thesis
    proof (cases r)
      case (Inl e)
      then show ?thesis using new_slots_accepts [where zero = "0 :: nat" and sizeof = 8 and capacity = "2 ^ 62"] Some power by simp
    next
      case (Inr t)
      then obtain k where k: "(2 :: u64) ^ 62 = 2 ^ k" "2 ^ k * unat (8 :: u64) \<le> 2 ^ 48"
        using new_slots_accepts [where zero = "0 :: nat" and sizeof = 8 and capacity = "2 ^ 62"] Some by auto
      have "unat ((2 :: u64) ^ 62) = unat (of_nat (2 ^ k) :: u64)" unfolding k(1) by simp
      also have "\<dots> \<le> 2 ^ k" by (simp only: unat_of_nat) (rule mod_less_eq_dividend)
      finally show ?thesis using k(2) by simp
    qed
  qed
  moreover obtain s where s: "new_slots (0 :: nat) 8 (2 ^ 12) = Some (Inr s)"
    using new_slots_valid [where k = 12 and sizeof = 8 and zero = "0 :: nat"] by (auto simp: maxAlloc_def)
  have "live s = Map.empty" using new_slots_accepts [where zero = "0 :: nat" and sizeof = 8 and capacity = "2 ^ 12"] unfolding s by simp
  ultimately show ?thesis using s by blast
qed

text \<open>C22. An \<open>Add\<close> that runs alone returns: on a well-formed table whose fallback index space is not exhausted, with no
  \<open>Del\<close> at the same time, it stores the task under an index that was not outstanding, leaves every other outstanding task in
  place and keeps the table well formed, whatever the fill level. (\<open>Slots_Protocol\<close> has the two at the same time.)\<close>

theorem Add_fresh_index:
  assumes "slots_inv k s" and "fallback_room k s"
  shows "\<exists>idx s'. Add v s = Some (idx, s') \<and> live s idx = None \<and> live s' = (live s)(idx \<mapsto> v) \<and>
    slots_inv k s'"
  using task_slots.add_law [OF assms, of v] by blast

theorem Add_fresh_index_witness:
  "\<exists>idx s'. Add 7 ex_slots1 = Some (idx, s') \<and> live ex_slots1 idx = None \<and>
    live s' = [0 \<mapsto> 5, idx \<mapsto> 7] \<and> slots_inv 12 s'"
  using Add_fresh_index [OF ex_slots1_valid(2,4), of 7] by (simp add: ex_slots1_valid(3))

text \<open>\<open>Add\<close> goes to the fallback map exactly when every slot of the ring is outstanding: a slot
  the poller has released is found again, however far the wave has moved.\<close>

theorem Add_fallback_iff_saturated:
  assumes "slots_inv k s" and "fallback_room k s" and "Add v s = Some (idx, s')"
  shows "ts_cap s \<le> idx \<longleftrightarrow> (\<forall>i < ts_cap s. live s i \<noteq> None)"
proof -
  have "idx < ts_cap s \<longleftrightarrow> ts_free s OR (ts_delCount s - ts_lastDelCount s) \<noteq> 0"
    using Add_spec [OF assms(1,2), of v] assms(3) by auto
  then have "ts_cap s \<le> idx \<longleftrightarrow> ts_free s OR (ts_delCount s - ts_lastDelCount s) = 0"
    by (simp add: linorder_not_less [symmetric])
  then show ?thesis by (simp only: saturation_gate [OF assms(1)] saturated_live [OF assms(1)])
qed

theorem Add_fallback_iff_saturated_witness:
  "0 < ts_cap ex_slots \<and> (\<exists>i. i < ts_cap ex_slots \<and> live ex_slots i = None)"
proof -
  have cap: "0 < ts_cap ex_slots"
    using ex_slots_valid(2) by (simp add: slots_inv_def slots_shape_def)
  then have "\<not> ts_cap ex_slots \<le> 0" by (simp add: linorder_not_le)
  with cap show ?thesis
    using Add_fallback_iff_saturated [OF ex_slots_valid(2,4) ex_slots1_valid(1)] by auto
qed

text \<open>\<open>Del\<close> of an outstanding index removes exactly that task, in the ring and in the fallback
  map, and keeps the table well formed: no phantom release is counted.\<close>

theorem Del_removes:
  assumes "slots_inv k s" and "live s idx = Some v"
  shows "live (Del idx s) = (live s)(idx := None) \<and> slots_inv k (Del idx s)"
  using Del_spec [OF assms] by simp

theorem Del_removes_witness:
  "live (Del 0 ex_slots1) = Map.empty \<and> slots_inv 12 (Del 0 ex_slots1)"
  using Del_removes [OF ex_slots1_valid(2), of 0 5] by (simp add: ex_slots1_valid(3))

text \<open>A released ring slot still answers \<open>Get\<close> with its old task until \<open>Add\<close> collects the
  release: the flag \<open>Get\<close> returns says the slot is marked, not that its task is outstanding.\<close>

theorem Get_after_Del_is_stale:
  assumes "slots_inv k s" and "idx < ts_cap s" and "live s idx = Some v"
  shows "Get zero idx (Del idx s) = (v, True) \<and> live (Del idx s) idx = None"
proof
  have "Get zero idx (Del idx s) = Get zero idx s"
    using assms(2) by (simp add: Get_def Del_hot_frame)
  then show "Get zero idx (Del idx s) = (v, True)" using Get_live [OF assms(1,3)] by simp
  show "live (Del idx s) idx = None" using Del_spec [OF assms(1,3)] by simp
qed

theorem Get_after_Del_is_stale_witness:
  "Get 0 0 (Del 0 ex_slots1) = (5, True) \<and> live (Del 0 ex_slots1) 0 = None"
proof -
  have "0 < ts_cap ex_slots1"
    using ex_slots1_valid(2) by (simp add: slots_inv_def slots_shape_def)
  then show ?thesis
    using Get_after_Del_is_stale [OF ex_slots1_valid(2), of 0 5 0] by (simp add: ex_slots1_valid(3))
qed

text \<open>C21. However adds and deletes are interleaved from a fresh table, no two outstanding tasks
  share an index and every outstanding index resolves to the task that was added under it.\<close>

theorem outstanding_tasks_resolve:
  assumes "new_slots zero sizeof capacity = Some (Inr s0)" and "capacity = 2 ^ k" and "k \<le> 62"
    and "table_history Add Del (fallback_room k) s0 s h"
  shows "distinct (map fst h) \<and> (\<forall>(idx, v) \<in> set h. Get zero idx s = (v, True))"
proof -
  obtain k' where k': "capacity = 2 ^ k'" "k' \<le> 62" "slots_inv k' s0" "live s0 = Map.empty"
    using new_slots_Inr [OF assms(1)] by blast
  have "unat (2 ^ k :: i64) = 2 ^ k" "unat (2 ^ k' :: i64) = 2 ^ k'"
    using assms(3) k'(2) by (simp_all add: unat_exp_word)
  then have "k' = k" using assms(2) k'(1) by (metis One_nat_def lessI numeral_2_eq_2 power_inject_exp)
  then have s0: "slots_inv k s0" "live s0 = Map.empty" using k' by simp_all
  show ?thesis
    using task_slots.history_map [OF assms(4) s0] task_slots.history_resolves [OF assms(4) s0] by auto
qed

theorem outstanding_tasks_resolve_witness:
  "distinct (map fst [(0 :: u64, 5 :: u64)]) \<and> Get 0 0 ex_slots1 = (5, True)"
proof -
  have "table_history Add Del (fallback_room 12) ex_slots ex_slots1 [(0, 5)]"
    by (rule history_add) (rule history_start, rule ex_slots_valid(4), rule ex_slots1_valid(1))
  then show ?thesis
    using outstanding_tasks_resolve [OF ex_slots_valid(1), of 12 ex_slots1 "[(0, 5)]"] by simp
qed

text \<open>Deleting a system index, above every slot and every fallback index, changes nothing.\<close>

theorem Del_system_index:
  assumes "slots_inv k s" and "sysIds < idx"
  shows "Del idx s = s \<and> live s idx = None"
proof -
  have shape: "slots_shape k s" using assms(1) by auto
  then have "(2 :: nat) ^ k \<le> 2 ^ 62" by (intro power_increasing) (auto simp: slots_shape_def)
  then have "unat (ts_cap s) \<le> 2 ^ 62" by (simp only: slots_shape_cap [OF shape])
  moreover have "unat sysIds = 2 ^ 63" by (simp add: sysIds_def)
  ultimately have "ts_cap s \<le> idx" using assms(2) by (simp add: word_less_nat_alt word_le_nat_alt)
  moreover have "ts_fallback s idx = None"
    using slots_fallback_range(2) [OF assms(1)] assms(2) by (cases "ts_fallback s idx") auto
  ultimately show ?thesis using assms(2) by (simp add: Del_def live_def linorder_not_less)
qed

theorem Del_system_index_witness: "Del (- 1) ex_slots1 = ex_slots1 \<and> live ex_slots1 (- 1) = None"
  by (rule Del_system_index [OF ex_slots1_valid(2)]) (simp add: sysIds_def)

text \<open>\<open>allocAlign\<close> starts the bitmap at a 64-byte boundary and never runs past the eight words
  it over-allocates, for any 8-byte aligned block whose end is addressable.\<close>

theorem allocAlign_fits:
  assumes "ptr AND 7 = 0" and "unat ptr + 63 < 2 ^ 64"
  shows "unat (allocAlign_gap ptr) \<le> 7 \<and> (ptr + 8 * allocAlign_gap ptr) AND 63 = 0"
proof -
  define p where "p = unat ptr"
  define a where "a = 64 * ((p + 63) div 64)"
  have "(7 :: u64) = mask 3" by (simp add: mask_eq_exp_minus_1)
  then have "p mod 8 = unat (ptr AND 7)" by (simp only: p_def unat_and_mask) simp
  then have p8: "p mod 8 = 0" using assms(1) by simp
  have "64 * ((p + 63) div 64) \<le> p + 63" by (rule times_div_less_eq_dividend)
  moreover have "p + 63 < 64 * ((p + 63) div 64) + 64"
    using dividend_less_times_div [of 64 "p + 63"] by simp
  ultimately have a: "p \<le> a" "a \<le> p + 63" "a < 2 ^ 64"
    using assms(2) unfolding a_def p_def [symmetric] by linarith+
  have "8 dvd a" unfolding a_def by (intro dvd_mult2) simp
  then have d8: "8 * ((a - p) div 8) = a - p"
    using p8 by (intro dvd_mult_div_cancel dvd_diff_nat) auto
  have ptr: "ptr = of_nat p" by (simp add: p_def)
  have "(63 :: u64) = mask 6" by (simp add: mask_eq_exp_minus_1)
  then have "(ptr + 63) AND NOT 63 = push_bit 6 (drop_bit 6 (ptr + 63))"
    by (simp only: and_not_mask)
  also have "drop_bit 6 (ptr + 63) = of_nat ((p + 63) div 64)"
  proof -
    have "unat (ptr + of_nat 63) = p + 63"
      unfolding p_def by (rule unat_add_small) (use assms(2) in simp)
    then show ?thesis by (simp add: drop_bit_of_nat del: drop_bit_eq_div)
  qed
  also have "push_bit 6 \<dots> = of_nat a" by (simp add: a_def push_bit_eq_mult mult.commute)
  finally have "((ptr + 63) AND NOT 63) - ptr = of_nat (a - p)" using a(1) by (simp add: ptr)
  then have gap: "allocAlign_gap ptr = of_nat ((a - p) div 8)"
  proof -
    have "unat (of_nat (a - p) :: u64) = a - p" by (rule unat_of_nat_small) (use a in simp)
    then show ?thesis
      using \<open>((ptr + 63) AND NOT 63) - ptr = of_nat (a - p)\<close>
      by (simp only: allocAlign_gap_def drop_bit_of_nat) simp
  qed
  have g7: "(a - p) div 8 \<le> 7" using a(2) by simp
  then have "unat (of_nat ((a - p) div 8) :: u64) = (a - p) div 8"
    by (intro unat_of_nat_small) simp
  moreover have "(ptr + 8 * allocAlign_gap ptr) AND 63 = 0"
  proof -
    have "of_nat (8 * ((a - p) div 8)) = (of_nat (a - p) :: u64)" by (simp only: d8)
    then have "ptr + 8 * allocAlign_gap ptr = of_nat p + of_nat (a - p)"
      unfolding gap by (simp only: of_nat_mult of_nat_numeral ptr [symmetric])
    also have "\<dots> = of_nat (p + (a - p))" by (simp only: of_nat_add)
    finally have "ptr + 8 * allocAlign_gap ptr = of_nat (p + (a - p))" .
    then have sum: "ptr + 8 * allocAlign_gap ptr = of_nat a" using a(1) by simp
    have "unat (of_nat a :: u64) = a" by (rule unat_of_nat_small) (use a(3) in simp)
    then have "unat ((of_nat a :: u64) AND mask 6) = 0"
      by (simp only: unat_and_mask) (simp add: a_def)
    then show ?thesis
      using sum \<open>(63 :: u64) = mask 6\<close> by (simp only: unat_eq_zero)
  qed
  ultimately show ?thesis using g7 by (simp only: gap)
qed

theorem allocAlign_fits_witness:
  "unat (allocAlign_gap 0x1008) \<le> 7 \<and> (0x1008 + 8 * allocAlign_gap 0x1008) AND 63 = 0"
  by (rule allocAlign_fits) simp_all

end
