(* ===== verification/Uring_Queue.thy ===== *)
theory Uring_Queue
  imports Prelude
begin

text \<open>
  The submission and completion queues, \<open>internal/iouring\<close>: the entry layouts
  (\<open>q_entries.go\<close>), the constants (\<open>consts.go\<close>), \<open>Push\<close>, \<open>GetTask\<close>,
  \<open>Wakeup\<close>, \<open>NeedWakeup\<close>, \<open>WaitEvents\<close> and the seven \<open>Expect\<close> builders. The
  record \<open>IOUring\<close> holds the contents of the shared words and arrays the struct points
  to. What the kernel does is not under src/: the system call \<open>io_uring_enter\<close> is the
  field \<open>env_enter\<close> of \<open>uring_env\<close> (an errno, 0 on success), and the consumption of
  submissions is a relation \<open>kstep\<close> the theorems take as a parameter. An index outside
  a slice is a Go panic and the value \<open>None\<close>.
\<close>

section \<open>Entries\<close>

record SQEntry =
  sqe_Opcode :: u8
  sqe_Flags :: u8
  sqe_Priority :: u16
  sqe_FD :: i32
  sqe_Off :: u64
  sqe_Addr :: u64
  sqe_Len :: u32
  sqe_OpFlags :: u32
  sqe_UserData :: u64
  sqe_BufIndex :: u16
  sqe_Personality :: u16
  sqe_SpliceFdIn :: i32
  sqe_Pad2 :: "u64 \<times> u64"

record CQEntry =
  cqe_UserData :: u64
  cqe_Res :: i32
  cqe_Flags :: u32

text \<open>The zero values of Go's \<open>var sqe SQEntry\<close> and \<open>CQEntry{}\<close>.\<close>

definition zero_sqe :: SQEntry where
  "zero_sqe = \<lparr> sqe_Opcode = 0, sqe_Flags = 0, sqe_Priority = 0, sqe_FD = 0, sqe_Off = 0,
     sqe_Addr = 0, sqe_Len = 0, sqe_OpFlags = 0, sqe_UserData = 0, sqe_BufIndex = 0,
     sqe_Personality = 0, sqe_SpliceFdIn = 0, sqe_Pad2 = (0, 0) \<rparr>"

definition zero_cqe :: CQEntry where
  "zero_cqe = \<lparr> cqe_UserData = 0, cqe_Res = 0, cqe_Flags = 0 \<rparr>"

section \<open>Constants\<close>

definition ioUringEnterSQWakeup :: u32 where "ioUringEnterSQWakeup = push_bit 1 1"
definition ioUringSQNeedWakeup :: u32 where "ioUringSQNeedWakeup = push_bit 0 1"
definition ioUringEnterGetEvents :: u32 where "ioUringEnterGetEvents = push_bit 0 1"
definition ioUringSQEBufferSelect :: u8 where "ioUringSQEBufferSelect = push_bit 5 1"
definition ioUringSQEAsync :: u8 where "ioUringSQEAsync = push_bit 4 1"
definition CQEFBuffer :: u32 where "CQEFBuffer = push_bit 0 1"
definition CQEBufferShift :: nat where "CQEBufferShift = 16"

definition OpAccept :: u8 where "OpAccept = 13"
definition OpConnect :: u8 where "OpConnect = 16"
definition OpClose :: u8 where "OpClose = 19"
definition OpRead :: u8 where "OpRead = 22"
definition OpSend :: u8 where "OpSend = 26"
definition OpRecv :: u8 where "OpRecv = 27"

lemmas uring_consts = ioUringEnterSQWakeup_def ioUringSQNeedWakeup_def ioUringEnterGetEvents_def
  ioUringSQEBufferSelect_def ioUringSQEAsync_def CQEFBuffer_def CQEBufferShift_def
  OpAccept_def OpConnect_def OpClose_def OpRead_def OpSend_def OpRecv_def

section \<open>The ring\<close>

record IOUring =
  r_FD :: i64
  r_SQHead :: u32
  r_SQTail :: u32
  r_SQMask :: u32
  r_SQEntries :: u32
  r_SQFlags :: u32
  r_SQArray :: "u32 list"
  r_SQ :: "SQEntry list"
  r_CQHead :: u32
  r_CQTail :: u32
  r_CQ :: "CQEntry list"
  r_CQLengthMask :: u32

text \<open>
  The environment: \<open>io_uring_enter(fd, to_submit, min_complete, flags)\<close>, the addresses
  of the package variables \<open>dummyAddr\<close> and \<open>dummyLen\<close>, and the platform constant
  \<open>SOCK_CLOEXEC\<close>.
\<close>

record uring_env =
  env_enter :: "i64 \<Rightarrow> u32 \<Rightarrow> u32 \<Rightarrow> u32 \<Rightarrow> nat"
  env_dummyAddr :: u64
  env_dummyLen :: u64
  env_SOCK_CLOEXEC :: u32

text \<open>The errors of this layer: the sentinel of \<open>errors.go\<close>, a bare errno, an annotated one.\<close>

datatype uring_error = ErrSQFull | Errno nat | Wakeup_kernel_poller uring_error

definition syscall_error :: "nat \<Rightarrow> uring_error option" where
  "syscall_error errno = (if errno \<noteq> 0 then Some (Errno errno) else None)"

definition Wakeup :: "uring_env \<Rightarrow> IOUring \<Rightarrow> uring_error option" where
  "Wakeup env r = syscall_error (env_enter env (r_FD r) 0 0 ioUringEnterSQWakeup)"

definition NeedWakeup :: "IOUring \<Rightarrow> bool" where
  "NeedWakeup r \<longleftrightarrow> r_SQFlags r AND ioUringSQNeedWakeup \<noteq> 0"

definition WaitEvents :: "uring_env \<Rightarrow> IOUring \<Rightarrow> uring_error option" where
  "WaitEvents env r = syscall_error (env_enter env (r_FD r) 0 1 ioUringEnterGetEvents)"

definition Push :: "uring_env \<Rightarrow> SQEntry \<Rightarrow> IOUring \<Rightarrow> (uring_error option \<times> IOUring) option" where
  "Push env entry r =
     (let tail = r_SQTail r;
          index = tail AND r_SQMask r;
          j = unat index
      in if length (r_SQ r) \<le> j \<or> length (r_SQArray r) \<le> j then None
         else
           let r' = r\<lparr> r_SQ := (r_SQ r)[j := entry],
                       r_SQArray := (r_SQArray r)[j := index],
                       r_SQTail := tail + 1 \<rparr>
           in if r_SQFlags r' AND ioUringSQNeedWakeup \<noteq> 0 then
                (case Wakeup env r' of
                   Some err \<Rightarrow> Some (Some (Wakeup_kernel_poller err), r')
                 | None \<Rightarrow> Some (None, r'))
              else Some (None, r'))"

definition GetTask :: "IOUring \<Rightarrow> ((CQEntry \<times> bool) \<times> IOUring) option" where
  "GetTask r =
     (let read = r_CQHead r
      in if read = r_CQTail r then Some ((zero_cqe, False), r)
         else
           let idx = unat (read AND r_CQLengthMask r)
           in if length (r_CQ r) \<le> idx then None
              else Some ((r_CQ r ! idx, True), r\<lparr>r_CQHead := r_CQHead r + 1\<rparr>))"

section \<open>Builders\<close>

definition ExpectAccept :: "uring_env \<Rightarrow> i32 \<Rightarrow> u64 \<Rightarrow> IOUring \<Rightarrow> (uring_error option \<times> IOUring) option" where
  "ExpectAccept env listenFD slotIdx r =
     Push env (zero_sqe\<lparr> sqe_Opcode := OpAccept, sqe_FD := listenFD, sqe_Addr := env_dummyAddr env,
       sqe_Off := env_dummyLen env, sqe_Len := 0, sqe_OpFlags := env_SOCK_CLOEXEC env,
       sqe_UserData := slotIdx \<rparr>) r"

definition ExpectClose :: "uring_env \<Rightarrow> i32 \<Rightarrow> u64 \<Rightarrow> IOUring \<Rightarrow> (uring_error option \<times> IOUring) option" where
  "ExpectClose env fd slotIdx r =
     Push env (zero_sqe\<lparr> sqe_Opcode := OpClose, sqe_FD := fd, sqe_UserData := slotIdx \<rparr>) r"

definition ExpectConnect :: "uring_env \<Rightarrow> i64 \<Rightarrow> u64 \<Rightarrow> u32 \<Rightarrow> u64 \<Rightarrow> IOUring \<Rightarrow> (uring_error option \<times> IOUring) option" where
  "ExpectConnect env fd sockaddr socklen userData r =
     Push env (zero_sqe\<lparr> sqe_Opcode := OpConnect, sqe_FD := ucast fd, sqe_Addr := sockaddr,
       sqe_Off := ucast socklen, sqe_UserData := userData \<rparr>) r"

definition ExpectRead :: "uring_env \<Rightarrow> i32 \<Rightarrow> u16 \<Rightarrow> u32 \<Rightarrow> u64 \<Rightarrow> IOUring \<Rightarrow> (uring_error option \<times> IOUring) option" where
  "ExpectRead env fd bgid maxLen slotIdx r =
     Push env (zero_sqe\<lparr> sqe_Opcode := OpRead, sqe_FD := fd, sqe_Flags := ioUringSQEBufferSelect,
       sqe_BufIndex := bgid, sqe_Len := maxLen, sqe_UserData := slotIdx \<rparr>) r"

definition ExpectRecv :: "uring_env \<Rightarrow> i32 \<Rightarrow> u16 \<Rightarrow> u32 \<Rightarrow> u64 \<Rightarrow> IOUring \<Rightarrow> (uring_error option \<times> IOUring) option" where
  "ExpectRecv env fd bgid maxLen slotIdx r =
     Push env (zero_sqe\<lparr> sqe_Opcode := OpRecv, sqe_FD := fd, sqe_Flags := ioUringSQEBufferSelect,
       sqe_BufIndex := bgid, sqe_Len := maxLen, sqe_UserData := slotIdx \<rparr>) r"

definition ExpectSend :: "uring_env \<Rightarrow> i32 \<Rightarrow> u64 \<Rightarrow> u32 \<Rightarrow> u64 \<Rightarrow> IOUring \<Rightarrow> (uring_error option \<times> IOUring) option" where
  "ExpectSend env fd bufPtr bufLen slotIdx r =
     Push env (zero_sqe\<lparr> sqe_Opcode := OpSend, sqe_FD := fd, sqe_Addr := bufPtr, sqe_Len := bufLen,
       sqe_UserData := slotIdx \<rparr>) r"

definition ExpectSendAsync :: "uring_env \<Rightarrow> i32 \<Rightarrow> u64 \<Rightarrow> u32 \<Rightarrow> u64 \<Rightarrow> IOUring \<Rightarrow> (uring_error option \<times> IOUring) option" where
  "ExpectSendAsync env fd bufPtr bufLen slotIdx r =
     Push env (zero_sqe\<lparr> sqe_Opcode := OpSend, sqe_FD := fd, sqe_Addr := bufPtr, sqe_Len := bufLen,
       sqe_UserData := slotIdx, sqe_Flags := ioUringSQEAsync \<rparr>) r"

section \<open>Views and well-formedness\<close>

text \<open>
  The submissions the kernel has not taken, read the way the kernel reads them: through
  \<open>SQArray\<close>, from \<open>SQHead\<close> up to \<open>SQTail\<close>. \<open>sq_ok m\<close> is the ring that
  \<open>New\<close> leaves and the protocol keeps: \<open>2 ^ m\<close> entries, the mask of that size, at
  most \<open>2 ^ m\<close> outstanding, and identity indexes in the outstanding part of
  \<open>SQArray\<close>. The completion side is the same without the index array.
\<close>

definition sq_count :: "IOUring \<Rightarrow> nat" where
  "sq_count r = unat (r_SQTail r - r_SQHead r)"

definition sq_pending :: "IOUring \<Rightarrow> SQEntry list" where
  "sq_pending r = map (\<lambda>i. r_SQ r ! unat i)
     (ring_list (r_SQArray r) (unat (r_SQHead r)) (sq_count r))"

definition sq_ok :: "nat \<Rightarrow> IOUring \<Rightarrow> bool" where
  "sq_ok m r \<longleftrightarrow> m < 32 \<and> length (r_SQ r) = 2 ^ m \<and> length (r_SQArray r) = 2 ^ m \<and>
     r_SQMask r = mask m \<and> sq_count r \<le> 2 ^ m \<and>
     (\<forall>i < sq_count r. unat (r_SQArray r ! ((unat (r_SQHead r) + i) mod 2 ^ m)) =
        (unat (r_SQHead r) + i) mod 2 ^ m)"

definition cq_count :: "IOUring \<Rightarrow> nat" where
  "cq_count r = unat (r_CQTail r - r_CQHead r)"

definition cq_pending :: "IOUring \<Rightarrow> CQEntry list" where
  "cq_pending r = ring_list (r_CQ r) (unat (r_CQHead r)) (cq_count r)"

definition cq_ok :: "nat \<Rightarrow> IOUring \<Rightarrow> bool" where
  "cq_ok m r \<longleftrightarrow> m < 32 \<and> length (r_CQ r) = 2 ^ m \<and> r_CQLengthMask r = mask m \<and>
     cq_count r \<le> 2 ^ m"

lemma length_sq_pending [simp]: "length (sq_pending r) = sq_count r"
  by (simp add: sq_pending_def)

lemma length_cq_pending [simp]: "length (cq_pending r) = cq_count r"
  by (simp add: cq_pending_def)

lemma sq_pending_ring:
  assumes "sq_ok m r"
  shows "sq_pending r = ring_list (r_SQ r) (unat (r_SQHead r)) (sq_count r)"
  by (rule nth_equalityI) (use assms in \<open>simp_all add: sq_pending_def sq_ok_def nth_ring_list\<close>)

text \<open>The slot a push writes is the one \<open>sq_count\<close> places after the head.\<close>

lemma sq_tail_slot:
  assumes "sq_ok m r"
  shows "unat (r_SQTail r AND r_SQMask r) = (unat (r_SQHead r) + sq_count r) mod 2 ^ m"
proof -
  have "m \<le> LENGTH(32)" and "r_SQMask r = mask m" using assms by (auto simp: sq_ok_def)
  moreover have "r_SQTail r = r_SQHead r + (r_SQTail r - r_SQHead r)" by simp
  ultimately show ?thesis
    unfolding sq_count_def by (metis unat_and_mask unat_add_mod_exp)
qed

text \<open>Everything \<open>Push\<close> does to the ring, whatever the wakeup returns.\<close>

definition push_state :: "SQEntry \<Rightarrow> IOUring \<Rightarrow> IOUring" where
  "push_state e r = (let j = r_SQTail r AND r_SQMask r in
     r\<lparr> r_SQ := (r_SQ r)[unat j := e], r_SQArray := (r_SQArray r)[unat j := j],
        r_SQTail := r_SQTail r + 1 \<rparr>)"

definition push_error :: "uring_env \<Rightarrow> IOUring \<Rightarrow> uring_error option" where
  "push_error env r = (if NeedWakeup r then map_option Wakeup_kernel_poller (Wakeup env r) else None)"

lemma Wakeup_cong: "Wakeup env (push_state e r) = Wakeup env r"
  by (simp add: Wakeup_def push_state_def Let_def)

lemma NeedWakeup_cong: "NeedWakeup (push_state e r) = NeedWakeup r"
  by (simp add: NeedWakeup_def push_state_def Let_def)

lemma Push_eq:
  assumes "sq_ok m r"
  shows "Push env e r = Some (push_error env r, push_state e r)"
proof -
  have "unat (r_SQTail r AND r_SQMask r) < 2 ^ m" by (simp add: sq_tail_slot [OF assms])
  then show ?thesis
    using assms Wakeup_cong [of env e r] NeedWakeup_cong [of e r]
    by (auto simp: Push_def push_error_def Let_def sq_ok_def NeedWakeup_def push_state_def not_le
        split: option.splits)
qed

lemma sq_count_push:
  assumes "sq_ok m r"
  shows "sq_count (push_state e r) = Suc (sq_count r)"
proof -
  have m: "m < 32" and c: "sq_count r \<le> 2 ^ m" using assms by (auto simp: sq_ok_def)
  have "(2::nat) ^ m \<le> 2 ^ 31" using m by (intro power_increasing) auto
  then have "unat (r_SQTail r - r_SQHead r) + 1 < 2 ^ LENGTH(32)" using c by (simp add: sq_count_def)
  from unat_dist_Suc [OF this] show ?thesis by (simp add: sq_count_def push_state_def Let_def)
qed

lemma sq_ok_push:
  assumes ok: "sq_ok m r" and room: "sq_count r < 2 ^ m"
  shows "sq_ok m (push_state e r)"
proof -
  let ?h = "unat (r_SQHead r)" and ?n = "sq_count r"
  note slot = sq_tail_slot [OF ok]
  have shape: "m < 32" "length (r_SQ r) = 2 ^ m" "length (r_SQArray r) = 2 ^ m" "r_SQMask r = mask m"
    using ok by (auto simp: sq_ok_def)
  have "unat (r_SQArray (push_state e r) ! ((?h + i) mod 2 ^ m)) = (?h + i) mod 2 ^ m"
    if i: "i < Suc ?n" for i
  proof (cases "i = ?n")
    case True
    then show ?thesis using slot shape by (simp add: push_state_def Let_def)
  next
    case False
    then have less: "i < ?n" using i by simp
    then have "(?h + ?n) mod 2 ^ m \<noteq> (?h + i) mod 2 ^ m"
      using ring_index_inj [of ?h ?n "2 ^ m" i] room by auto
    then show ?thesis using ok less slot by (simp add: push_state_def Let_def sq_ok_def)
  qed
  then show ?thesis
    using shape room sq_count_push [OF ok]
    by (simp add: sq_ok_def) (simp add: push_state_def Let_def)
qed

lemma sq_pending_push:
  assumes ok: "sq_ok m r" and room: "sq_count r < 2 ^ m"
  shows "sq_pending (push_state e r) = sq_pending r @ [e]"
proof -
  have len: "length (r_SQ r) = 2 ^ m" using ok by (simp add: sq_ok_def)
  have "sq_pending (push_state e r) =
      ring_list (r_SQ (push_state e r)) (unat (r_SQHead r)) (Suc (sq_count r))"
    using sq_pending_ring [OF sq_ok_push [OF ok room]] sq_count_push [OF ok]
    by (simp add: push_state_def Let_def)
  also have "\<dots> = ring_list (r_SQ r) (unat (r_SQHead r)) (sq_count r) @ [e]"
    using ring_list_snoc [of "sq_count r" "r_SQ r" "unat (r_SQHead r)" e] room len
    by (simp add: push_state_def Let_def sq_tail_slot [OF ok])
  finally show ?thesis using sq_pending_ring [OF ok] by simp
qed

text \<open>The kernel takes entries by advancing the head.\<close>

lemma sq_pending_advance:
  assumes ok: "sq_ok m r" and k: "k \<le> sq_count r"
  shows "sq_pending (r\<lparr>r_SQHead := r_SQHead r + of_nat k\<rparr>) = drop k (sq_pending r)"
    and "sq_ok m (r\<lparr>r_SQHead := r_SQHead r + of_nat k\<rparr>)"
proof -
  let ?r = "r\<lparr>r_SQHead := r_SQHead r + of_nat k\<rparr>"
  let ?h = "unat (r_SQHead r)"
  have m: "m \<le> LENGTH(32)" using ok by (simp add: sq_ok_def)
  have cnt: "sq_count ?r = sq_count r - k"
    using unat_dist_drop [of k "r_SQTail r" "r_SQHead r"] k by (simp add: sq_count_def)
  have pos: "unat (r_SQHead ?r) mod 2 ^ m = (?h + k) mod 2 ^ m"
    using unat_word_plus_nat_mod [OF m, of "r_SQHead r" k] by simp
  have step: "(unat (r_SQHead ?r) + i) mod 2 ^ m = (?h + (k + i)) mod 2 ^ m" for i
    by (metis pos mod_add_left_eq add.assoc)
  show ok': "sq_ok m ?r"
    using ok k unfolding sq_ok_def cnt step by (simp add: trans_le_add1 le_diff_conv)
  have len: "length (r_SQ r) = 2 ^ m" using ok by (simp add: sq_ok_def)
  have "sq_pending ?r = ring_list (r_SQ r) (unat (r_SQHead ?r)) (sq_count r - k)"
    using sq_pending_ring [OF ok'] by (simp add: cnt)
  also have "\<dots> = ring_list (r_SQ r) (?h + k) (sq_count r - k)"
    using ring_list_mod [of "r_SQ r" "unat (r_SQHead ?r)"] ring_list_mod [of "r_SQ r" "?h + k"]
      pos len by metis
  also have "\<dots> = drop k (sq_pending r)"
    using ring_list_drop [OF k] sq_pending_ring [OF ok] by simp
  finally show "sq_pending ?r = drop k (sq_pending r)" .
qed

lemma sq_head_all: "r_SQHead r + of_nat (sq_count r) = r_SQTail r"
  by (simp add: sq_count_def)

section \<open>Completion queue\<close>

lemma GetTask_empty:
  "cq_pending r = [] \<Longrightarrow> GetTask r = Some ((zero_cqe, False), r)"
proof -
  assume "cq_pending r = []"
  then have "cq_count r = 0" by (metis length_cq_pending list.size(3))
  then have "r_CQTail r - r_CQHead r = 0" by (simp add: cq_count_def unat_eq_zero)
  then show ?thesis by (simp add: GetTask_def)
qed

lemma GetTask_Cons:
  assumes ok: "cq_ok m r" and p: "cq_pending r = c # cs"
  shows "GetTask r = Some ((c, True), r\<lparr>r_CQHead := r_CQHead r + 1\<rparr>)"
    and "cq_ok m (r\<lparr>r_CQHead := r_CQHead r + 1\<rparr>)"
    and "cq_pending (r\<lparr>r_CQHead := r_CQHead r + 1\<rparr>) = cs"
proof -
  let ?h = "r_CQHead r" and ?r = "r\<lparr>r_CQHead := r_CQHead r + 1\<rparr>"
  have m: "m \<le> LENGTH(32)" and len: "length (r_CQ r) = 2 ^ m" and msk: "r_CQLengthMask r = mask m"
    using ok by (auto simp: cq_ok_def)
  have n: "cq_count r = Suc (length cs)" using p length_cq_pending [of r] by simp
  have ne: "?h \<noteq> r_CQTail r" using n by (auto simp: cq_count_def)
  have "c # cs = r_CQ r ! (unat ?h mod 2 ^ m) # ring_list (r_CQ r) (Suc (unat ?h)) (length cs)"
    using p n len by (simp add: cq_pending_def ring_list_Suc)
  then have c: "c = r_CQ r ! (unat ?h mod 2 ^ m)"
    and cs: "cs = ring_list (r_CQ r) (Suc (unat ?h)) (length cs)" by simp_all
  have idx: "unat (?h AND r_CQLengthMask r) = unat ?h mod 2 ^ m" by (simp add: msk unat_and_mask)
  show "GetTask r = Some ((c, True), ?r)"
    using ne idx c len by (simp add: GetTask_def Let_def not_le)
  have "unat (r_CQTail r - (?h + of_nat 1)) = unat (r_CQTail r - ?h) - 1"
    by (rule unat_dist_drop) (use n in \<open>simp add: cq_count_def\<close>)
  then have cnt: "cq_count ?r = length cs" using n by (simp add: cq_count_def)
  show "cq_ok m ?r" using ok n cnt by (simp add: cq_ok_def)
  have "unat (?h + 1) mod 2 ^ m = Suc (unat ?h) mod 2 ^ m"
    using unat_word_plus_nat_mod [OF m, of ?h 1] by simp
  then have "ring_list (r_CQ r) (unat (?h + 1)) (length cs) = ring_list (r_CQ r) (Suc (unat ?h)) (length cs)"
    using ring_list_mod [of "r_CQ r"] len by metis
  then show "cq_pending ?r = cs" using cnt cs by (simp add: cq_pending_def)
qed

section \<open>Interfaces\<close>

definition sq_put :: "uring_env \<Rightarrow> SQEntry \<Rightarrow> IOUring \<Rightarrow> IOUring option" where
  "sq_put env e r = map_option snd (Push env e r)"

definition cq_get :: "IOUring \<Rightarrow> (CQEntry option \<times> IOUring) option" where
  "cq_get r = map_option (\<lambda>((c, found), r'). (if found then Some c else None, r')) (GetTask r)"

interpretation sq: ring_producer "sq_ok m" sq_pending "\<lambda>r. 2 ^ m" "\<lambda>_. True" "sq_put env" for m env
proof unfold_locales
  fix r e
  assume "sq_ok m r" and "length (sq_pending r) < 2 ^ m"
  then show "\<exists>r'. sq_put env e r = Some r' \<and> sq_ok m r' \<and> sq_pending r' = sq_pending r @ [e] \<and>
      (2::nat) ^ m = 2 ^ m"
    using Push_eq [of m r env e] sq_ok_push [of m r e] sq_pending_push [of m r e]
    by (simp add: sq_put_def)
qed

interpretation cq: ring_consumer "cq_ok m" cq_pending cq_get for m
proof unfold_locales
  fix r c cs
  assume "cq_ok m r" and "cq_pending r = c # cs"
  from GetTask_Cons [OF this]
  show "\<exists>r'. cq_get r = Some (Some c, r') \<and> cq_ok m r' \<and> cq_pending r' = cs"
    by (simp add: cq_get_def)
qed (simp add: cq_get_def GetTask_empty)

section \<open>Runs of the submission queue\<close>

text \<open>
  The kernel is a relation \<open>kstep r r'\<close>. What the code relies on: the kernel only
  advances the head, over entries that were published, and may change the flags.
\<close>

definition kernel_consumes :: "(IOUring \<Rightarrow> IOUring \<Rightarrow> bool) \<Rightarrow> bool" where
  "kernel_consumes kstep \<longleftrightarrow> (\<forall>r r'. kstep r r' \<longrightarrow>
     (\<exists>k f. k \<le> sq_count r \<and> r' = r\<lparr>r_SQHead := r_SQHead r + of_nat k, r_SQFlags := f\<rparr>))"

inductive sq_run :: "(IOUring \<Rightarrow> IOUring \<Rightarrow> bool) \<Rightarrow> nat \<Rightarrow> IOUring \<Rightarrow> SQEntry list \<Rightarrow> SQEntry list \<Rightarrow> IOUring \<Rightarrow> bool"
  for kstep :: "IOUring \<Rightarrow> IOUring \<Rightarrow> bool" and m :: nat and r0 :: IOUring where
  start: "sq_run kstep m r0 [] [] r0"
| push: "sq_run kstep m r0 pushed taken r \<Longrightarrow> sq_count r < 2 ^ m \<Longrightarrow> Push env e r = Some (err, r') \<Longrightarrow>
    sq_run kstep m r0 (pushed @ [e]) taken r'"
| consume: "sq_run kstep m r0 pushed taken r \<Longrightarrow> kstep r r' \<Longrightarrow>
    sq_run kstep m r0 pushed (taken @ take (unat (r_SQHead r' - r_SQHead r)) (sq_pending r)) r'"

lemma sq_flags_irrelevant:
  "sq_ok m (r\<lparr>r_SQFlags := f\<rparr>) = sq_ok m r" "sq_pending (r\<lparr>r_SQFlags := f\<rparr>) = sq_pending r"
  by (simp_all add: sq_ok_def sq_pending_def sq_count_def)

lemma sq_run_split:
  assumes "sq_run kstep m r0 pushed taken r"
    and "kernel_consumes kstep" and "sq_ok m r0" and "sq_pending r0 = []"
  shows "sq_ok m r \<and> pushed = taken @ sq_pending r"
  using assms(1)
proof induction
  case start
  then show ?case using assms by simp
next
  case (push pushed taken r env e err r')
  then have "r' = push_state e r" using Push_eq [of m r env e] by simp
  then show ?case using push sq_ok_push [of m r e] sq_pending_push [of m r e] by simp
next
  case (consume pushed taken r r')
  from consume(2) assms(2) obtain k f where k: "k \<le> sq_count r"
    and r': "r' = r\<lparr>r_SQHead := r_SQHead r + of_nat k\<rparr>\<lparr>r_SQFlags := f\<rparr>"
    unfolding kernel_consumes_def by force
  have "k < 2 ^ LENGTH(32)"
    using k unsigned_less [of "r_SQTail r - r_SQHead r"] unfolding sq_count_def by (rule le_less_trans)
  then have "unat (r_SQHead r' - r_SQHead r) = k" by (simp only: r') (simp add: unat_of_nat_small)
  then show ?case
    using consume(3) sq_pending_advance [of m r k] k by (simp add: r' sq_flags_irrelevant)
qed

section \<open>What the kernel requires of an entry\<close>

text \<open>
  The documented preparation checks the builders cite: a close must leave the offset,
  address, length, operation flags and buffer index zero; a connect passes the socket
  address and its length and leaves the rest zero; a read or receive with a provided
  buffer group gives no address; a send gives no operation flags.
\<close>

definition plain_sqe :: "SQEntry \<Rightarrow> bool" where
  "plain_sqe e \<longleftrightarrow> sqe_Priority e = 0 \<and> sqe_Personality e = 0 \<and> sqe_SpliceFdIn e = 0 \<and>
     sqe_Pad2 e = (0, 0)"

definition kernel_accepts :: "SQEntry \<Rightarrow> bool" where
  "kernel_accepts e \<longleftrightarrow> plain_sqe e \<and>
     (if sqe_Opcode e = OpClose then
        sqe_Off e = 0 \<and> sqe_Addr e = 0 \<and> sqe_Len e = 0 \<and> sqe_OpFlags e = 0 \<and> sqe_BufIndex e = 0 \<and> sqe_Flags e = 0
      else if sqe_Opcode e = OpConnect then
        sqe_Len e = 0 \<and> sqe_OpFlags e = 0 \<and> sqe_BufIndex e = 0 \<and> sqe_Flags e = 0
      else if sqe_Opcode e = OpAccept then
        sqe_Len e = 0 \<and> sqe_BufIndex e = 0 \<and> sqe_Flags e = 0
      else if sqe_Opcode e = OpRecv \<or> sqe_Opcode e = OpRead then
        sqe_Addr e = 0 \<and> sqe_Off e = 0 \<and> sqe_OpFlags e = 0 \<and> bit (sqe_Flags e) 5
      else if sqe_Opcode e = OpSend then
        sqe_Off e = 0 \<and> sqe_OpFlags e = 0 \<and> sqe_BufIndex e = 0
      else False)"

text \<open>A submission that queued one acceptable entry for the given call.\<close>

definition queued :: "uring_env \<Rightarrow> IOUring \<Rightarrow> (uring_error option \<times> IOUring) option \<Rightarrow> (SQEntry \<Rightarrow> bool) \<Rightarrow> bool" where
  "queued env r res P = (case res of None \<Rightarrow> False
     | Some (err, r') \<Rightarrow> err = push_error env r \<and>
         (case rev (sq_pending r') of [] \<Rightarrow> False
          | e # before \<Rightarrow> rev before = sq_pending r \<and> kernel_accepts e \<and> P e))"

lemma queued_Push:
  assumes "sq_ok m r" and "sq_count r < 2 ^ m" and "kernel_accepts e" and "P e"
  shows "queued env r (Push env e r) P"
  using assms by (simp add: queued_def Push_eq sq_pending_push)

lemmas builders = ExpectAccept_def ExpectClose_def ExpectConnect_def ExpectRead_def
  ExpectRecv_def ExpectSend_def ExpectSendAsync_def

section \<open>Examples\<close>

definition ex_env :: uring_env where
  "ex_env = \<lparr> env_enter = \<lambda>_ _ _ _. 0, env_dummyAddr = 4096, env_dummyLen = 8192,
     env_SOCK_CLOEXEC = 524288 \<rparr>"

definition ex_ring :: IOUring where
  "ex_ring = \<lparr> r_FD = 3, r_SQHead = 4294967295, r_SQTail = 4294967295, r_SQMask = 1, r_SQEntries = 2,
     r_SQFlags = 0, r_SQArray = [0, 0], r_SQ = [zero_sqe, zero_sqe], r_CQHead = 4294967295, r_CQTail = 1,
     r_CQ = [zero_cqe\<lparr>cqe_UserData := 7\<rparr>, zero_cqe\<lparr>cqe_UserData := 8\<rparr>], r_CQLengthMask = 1 \<rparr>"

definition ex_kernel :: "IOUring \<Rightarrow> IOUring \<Rightarrow> bool" where
  "ex_kernel r r' \<longleftrightarrow> r' = r\<lparr>r_SQHead := r_SQTail r\<rparr>"

lemma ex_ring_ok: "sq_ok 1 ex_ring" "sq_pending ex_ring = []" "sq_count ex_ring = 0"
  by (simp_all add: sq_ok_def sq_pending_def sq_count_def ex_ring_def mask_eq_exp_minus_1)

lemma ex_ring_cq: "cq_ok 1 ex_ring" "cq_count ex_ring = 2"
  by (simp_all add: cq_ok_def cq_count_def ex_ring_def mask_eq_exp_minus_1)

lemma ex_kernel_consumes: "kernel_consumes ex_kernel"
  unfolding kernel_consumes_def ex_kernel_def
proof (intro allI impI)
  fix r r' :: IOUring
  assume "r' = r\<lparr>r_SQHead := r_SQTail r\<rparr>"
  then have "sq_count r \<le> sq_count r \<and>
      r' = r\<lparr>r_SQHead := r_SQHead r + of_nat (sq_count r), r_SQFlags := r_SQFlags r\<rparr>"
    by (simp add: sq_count_def)
  then show "\<exists>k f. k \<le> sq_count r \<and> r' = r\<lparr>r_SQHead := r_SQHead r + of_nat k, r_SQFlags := f\<rparr>"
    by blast
qed

section \<open>Properties\<close>

text \<open>While the submission queue has room, a push puts the entry behind all pending
  ones and leaves the completion queue alone; it fails only if the kernel poller is asleep
  and cannot be woken, and even then the entry stays queued.\<close>

theorem Push_appends:
  assumes "sq_ok m r" and "sq_count r < 2 ^ m"
  shows "\<exists>err r'. Push env e r = Some (err, r') \<and> sq_ok m r' \<and> sq_pending r' = sq_pending r @ [e] \<and>
    r_CQHead r' = r_CQHead r \<and> r_CQTail r' = r_CQTail r \<and> r_CQ r' = r_CQ r \<and>
    (err = None \<longleftrightarrow> NeedWakeup r \<longrightarrow> env_enter env (r_FD r) 0 0 ioUringEnterSQWakeup = 0)"
  using Push_eq [OF assms(1)] sq_ok_push [OF assms] sq_pending_push [OF assms]
  by (simp add: push_error_def Wakeup_def syscall_error_def push_state_def Let_def)

theorem Push_appends_witness:
  "map_option (\<lambda>(err, r'). (err, map sqe_UserData (sq_pending r')))
     (Push ex_env (zero_sqe\<lparr>sqe_UserData := 5\<rparr>) ex_ring) = Some (None, [5])"
proof -
  obtain err r' where r': "Push ex_env (zero_sqe\<lparr>sqe_UserData := 5\<rparr>) ex_ring = Some (err, r')"
    "sq_pending r' = sq_pending ex_ring @ [zero_sqe\<lparr>sqe_UserData := 5\<rparr>]"
    "err = None \<longleftrightarrow> NeedWakeup ex_ring \<longrightarrow> env_enter ex_env (r_FD ex_ring) 0 0 ioUringEnterSQWakeup = 0"
    using Push_appends [OF ex_ring_ok(1), where env = ex_env and e = "zero_sqe\<lparr>sqe_UserData := 5\<rparr>"]
      ex_ring_ok(3) by auto
  then show ?thesis by (simp add: ex_ring_ok(2) ex_env_def)
qed

text \<open>C15. Submissions are a FIFO: over any interleaving of pushes that find room with
  kernel steps, what the kernel has taken followed by what is pending is exactly what was
  pushed, in order.\<close>

theorem submission_fifo:
  assumes "sq_run kstep m r0 pushed taken r"
    and "kernel_consumes kstep" and "sq_ok m r0" and "sq_pending r0 = []"
  shows "taken @ sq_pending r = pushed"
  using sq_run_split [OF assms] by simp

theorem submission_fifo_witness:
  "\<exists>taken r. sq_run ex_kernel 1 ex_ring [zero_sqe\<lparr>sqe_FD := 1\<rparr>, zero_sqe\<lparr>sqe_FD := 2\<rparr>] taken r \<and>
     length taken = 1 \<and> taken @ sq_pending r = [zero_sqe\<lparr>sqe_FD := 1\<rparr>, zero_sqe\<lparr>sqe_FD := 2\<rparr>]"
proof -
  let ?e1 = "zero_sqe\<lparr>sqe_FD := 1\<rparr>" and ?e2 = "zero_sqe\<lparr>sqe_FD := 2\<rparr>"
  define r1 where "r1 = push_state ?e1 ex_ring"
  define r2 where "r2 = r1\<lparr>r_SQHead := r_SQTail r1\<rparr>"
  have c1: "sq_count r1 = 1" using sq_count_push [OF ex_ring_ok(1)] ex_ring_ok(3) by (simp add: r1_def)
  have p1: "sq_pending r1 = [?e1]" using sq_pending_push [OF ex_ring_ok(1)] ex_ring_ok by (simp add: r1_def)
  have ok1: "sq_ok 1 r1" using sq_ok_push [OF ex_ring_ok(1)] ex_ring_ok(3) by (simp add: r1_def)
  have c2: "sq_count r2 = 0" by (simp add: r2_def sq_count_def)
  have run1: "sq_run ex_kernel 1 ex_ring ([] @ [?e1]) [] r1"
    unfolding r1_def
    by (rule sq_run.push [OF sq_run.start _ Push_eq [OF ex_ring_ok(1), of ex_env]]) (simp add: ex_ring_ok)
  have "sq_run ex_kernel 1 ex_ring ([] @ [?e1]) ([] @ take (unat (r_SQHead r2 - r_SQHead r1)) (sq_pending r1)) r2"
    by (rule sq_run.consume [OF run1]) (simp add: ex_kernel_def r2_def)
  moreover have "unat (r_SQHead r2 - r_SQHead r1) = 1" using c1 by (simp add: r2_def sq_count_def)
  ultimately have run2: "sq_run ex_kernel 1 ex_ring [?e1] [?e1] r2" by (simp add: p1)
  have ok2: "sq_ok 1 r2"
    using sq_pending_advance(2) [OF ok1, of "sq_count r1"] by (simp only: r2_def sq_head_all order_refl)
  have "sq_run ex_kernel 1 ex_ring ([?e1] @ [?e2]) [?e1] (push_state ?e2 r2)"
    by (rule sq_run.push [OF run2 _ Push_eq [OF ok2, of ex_env]]) (simp add: c2)
  then have run3: "sq_run ex_kernel 1 ex_ring [?e1, ?e2] [?e1] (push_state ?e2 r2)" by simp
  from submission_fifo [OF run3 ex_kernel_consumes ex_ring_ok(1,2)] run3 show ?thesis
    by (intro exI [of _ "[?e1]"] exI [of _ "push_state ?e2 r2"]) simp
qed

text \<open>A push onto a full submission queue is not refused: \<open>ErrSQFull\<close> is never
  returned, the oldest pending entry is overwritten by the new one, and the counters then
  claim one entry more than the ring has.\<close>

theorem Push_overruns_full_queue:
  assumes "sq_ok m r" and "sq_count r = 2 ^ m"
  shows "\<exists>err r'. Push env e r = Some (err, r') \<and> err \<noteq> Some ErrSQFull \<and>
    r_SQ r' ! (unat (r_SQHead r) mod 2 ^ m) = e \<and>
    hd (sq_pending r) = r_SQ r ! (unat (r_SQHead r) mod 2 ^ m) \<and> sq_count r' = 2 ^ m + 1"
proof -
  have slot: "unat (r_SQTail r AND r_SQMask r) = unat (r_SQHead r) mod 2 ^ m"
    using sq_tail_slot [OF assms(1)] assms(2) by simp
  have len: "length (r_SQ r) = 2 ^ m" using assms(1) by (simp add: sq_ok_def)
  have "sq_pending r = ring_list (r_SQ r) (unat (r_SQHead r)) (Suc (2 ^ m - 1))"
    using sq_pending_ring [OF assms(1)] assms(2) by simp
  then have "hd (sq_pending r) = r_SQ r ! (unat (r_SQHead r) mod 2 ^ m)"
    by (simp only: ring_list_Suc list.sel len)
  moreover have "r_SQ (push_state e r) ! (unat (r_SQHead r) mod 2 ^ m) = e"
    using len by (simp add: push_state_def Let_def slot)
  moreover have "push_error env r \<noteq> Some ErrSQFull" by (auto simp: push_error_def)
  ultimately show ?thesis
    using Push_eq [OF assms(1)] sq_count_push [OF assms(1)] assms(2) by simp
qed

theorem Push_overruns_full_queue_witness:
  "\<exists>r r'. sq_count r = 2 \<and> sqe_FD (hd (sq_pending r)) = 1 \<and>
     Push ex_env (zero_sqe\<lparr>sqe_FD := 9\<rparr>) r = Some (None, r') \<and> sqe_FD (r_SQ r' ! 1) = 9"
proof -
  let ?e1 = "zero_sqe\<lparr>sqe_FD := 1\<rparr>" and ?e2 = "zero_sqe\<lparr>sqe_FD := 2\<rparr>" and ?e = "zero_sqe\<lparr>sqe_FD := 9\<rparr>"
  define r where "r = push_state ?e2 (push_state ?e1 ex_ring)"
  have one: "sq_ok 1 (push_state ?e1 ex_ring)" "sq_count (push_state ?e1 ex_ring) = 1"
    "sq_pending (push_state ?e1 ex_ring) = [?e1]"
    using sq_ok_push [OF ex_ring_ok(1)] sq_count_push [OF ex_ring_ok(1)]
      sq_pending_push [OF ex_ring_ok(1)] ex_ring_ok by simp_all
  have two: "sq_ok 1 r" "sq_count r = 2 ^ 1" "sq_pending r = [?e1, ?e2]"
    using sq_ok_push [OF one(1)] sq_count_push [OF one(1)] sq_pending_push [OF one(1)] one
    by (simp_all add: r_def)
  have h: "unat (r_SQHead r) mod 2 ^ 1 = 1" by (simp add: r_def push_state_def ex_ring_def Let_def)
  have "push_error ex_env r = None" by (simp add: push_error_def Wakeup_def syscall_error_def ex_env_def)
  with Push_eq [OF two(1), of ex_env ?e]
  have push: "Push ex_env ?e r = Some (None, push_state ?e r)" by simp
  have "r_SQ (push_state ?e r) ! 1 = ?e"
    using Push_overruns_full_queue [OF two(1,2), of ex_env ?e] push h by simp
  then have "sq_count r = 2 \<and> sqe_FD (hd (sq_pending r)) = 1 \<and>
      Push ex_env ?e r = Some (None, push_state ?e r) \<and> sqe_FD (r_SQ (push_state ?e r) ! 1) = 9"
    using two(2) push by (simp add: two(3))
  then show ?thesis by blast
qed

text \<open>Reading completions until the queue reports it is empty returns every pending
  completion, once and in order, and leaves the queue empty.\<close>

theorem completions_drain_in_order:
  assumes "cq_ok m r" and "cq_count r < n"
  shows "\<exists>r'. cq.get_all n r = Some (cq_pending r, r') \<and> cq_ok m r' \<and> cq_pending r' = []"
  using cq.get_all_pending [OF assms(1)] assms(2) by simp

theorem completions_drain_in_order_witness:
  "map_option (\<lambda>(cs, r'). (map cqe_UserData cs, r_CQHead r')) (cq.get_all 3 ex_ring) =
     Some ([8, 7], 1)"
proof -
  obtain r' where r': "cq.get_all 3 ex_ring = Some (cq_pending ex_ring, r')" "cq_pending r' = []"
    using completions_drain_in_order [OF ex_ring_cq(1), of 3] ex_ring_cq(2) by auto
  have "cq_pending ex_ring = [zero_cqe\<lparr>cqe_UserData := 8\<rparr>, zero_cqe\<lparr>cqe_UserData := 7\<rparr>]"
  proof -
    have "cq_pending ex_ring = ring_list [zero_cqe\<lparr>cqe_UserData := 7\<rparr>, zero_cqe\<lparr>cqe_UserData := 8\<rparr>] 4294967295 2"
      unfolding cq_pending_def ex_ring_cq(2) by (simp add: ex_ring_def)
    moreover have "[0..<2] = [0, 1 :: nat]" by (simp add: upt_rec)
    ultimately show ?thesis
      by (simp add: ring_list_def numeral_2_eq_2 [symmetric] del: upt_conv_Cons upt_Suc)
  qed
  moreover have "map_option (\<lambda>(cs, r'). r_CQHead r') (cq.get_all 3 ex_ring) = Some 1"
    by (simp add: numeral_3_eq_3 cq_get_def GetTask_def ex_ring_def Let_def)
  ultimately show ?thesis using r' by simp
qed

text \<open>Each builder queues exactly one entry behind the pending ones; the entry meets
  the kernel's preparation checks for its opcode and carries the descriptor, the slot index
  and the buffer arguments of the call.\<close>

theorem builders_queue_accepted_entry:
  assumes "sq_ok m r" and "sq_count r < 2 ^ m"
  shows "queued env r (ExpectAccept env fd idx r) (\<lambda>e. sqe_Opcode e = OpAccept \<and> sqe_FD e = fd \<and> sqe_UserData e = idx)
    \<and> queued env r (ExpectClose env fd idx r) (\<lambda>e. sqe_Opcode e = OpClose \<and> sqe_FD e = fd \<and> sqe_UserData e = idx)
    \<and> queued env r (ExpectConnect env fd64 ptr n idx r) (\<lambda>e. sqe_Opcode e = OpConnect \<and> sqe_FD e = ucast fd64 \<and>
        sqe_Addr e = ptr \<and> sqe_Off e = ucast n \<and> sqe_UserData e = idx)
    \<and> queued env r (ExpectRead env fd bgid n idx r) (\<lambda>e. sqe_Opcode e = OpRead \<and> sqe_FD e = fd \<and>
        sqe_BufIndex e = bgid \<and> sqe_Len e = n \<and> sqe_UserData e = idx)
    \<and> queued env r (ExpectRecv env fd bgid n idx r) (\<lambda>e. sqe_Opcode e = OpRecv \<and> sqe_FD e = fd \<and>
        sqe_BufIndex e = bgid \<and> sqe_Len e = n \<and> sqe_UserData e = idx)
    \<and> queued env r (ExpectSend env fd ptr n idx r) (\<lambda>e. sqe_Opcode e = OpSend \<and> sqe_FD e = fd \<and> sqe_Addr e = ptr \<and>
        sqe_Len e = n \<and> sqe_Flags e = 0 \<and> sqe_UserData e = idx)
    \<and> queued env r (ExpectSendAsync env fd ptr n idx r) (\<lambda>e. sqe_Opcode e = OpSend \<and> sqe_FD e = fd \<and>
        sqe_Addr e = ptr \<and> sqe_Len e = n \<and> bit (sqe_Flags e) 4 \<and> sqe_UserData e = idx)"
  unfolding builders
  by (intro conjI; rule queued_Push [OF assms])
    (simp_all add: kernel_accepts_def plain_sqe_def zero_sqe_def uring_consts bit_simps)

theorem builders_queue_accepted_entry_witness:
  "queued ex_env ex_ring (ExpectClose ex_env 5 77 ex_ring)
     (\<lambda>e. sqe_Opcode e = OpClose \<and> sqe_FD e = 5 \<and> sqe_UserData e = 77)"
  using builders_queue_accepted_entry [OF ex_ring_ok(1), where env = ex_env and fd = 5 and idx = 77]
    ex_ring_ok(3) by simp

end
