(* ===== verification/Sys_Calls.thy ===== *)
theory Sys_Calls
  imports Prelude
begin

text \<open>
  The system calls the ring is set up and torn down with. What a call returns is the
  kernel's choice and a parameter: \<open>sys_env\<close> gives the result of every call from the
  calls that succeeded before it. The state is the trace of the successful calls, from
  which the live mappings and descriptors are read off.
\<close>

datatype sys_event = Mapped u64 nat | Unmapped u64 nat | Opened i64 | Closed i64
  | RingRegistered i64 u16 | RingUnregistered i64 u16

type_synonym sys_trace = "sys_event list"

text \<open>The argument \<open>params\<close> that \<open>io_uring_setup\<close> fills in (\<open>params.go\<close>), as far as the code reads it.\<close>

record TasksOffsets =
  sqo_Head :: u32
  sqo_Tail :: u32
  sqo_RingMask :: u32
  sqo_RingEntries :: u32
  sqo_Flags :: u32
  sqo_Array :: u32

record ResponsesOffsets =
  cqo_Head :: u32
  cqo_Tail :: u32
  cqo_RingMask :: u32
  cqo_RingEntries :: u32
  cqo_Cqes :: u32

record Params =
  p_SQEntries :: u32
  p_CQEntries :: u32
  p_Flags :: u32
  p_Features :: u32
  p_SQOff :: TasksOffsets
  p_CQOff :: ResponsesOffsets

text \<open>An errno on the left (a positive number), the result of a success on the right.\<close>

record sys_env =
  sys_setup :: "sys_trace \<Rightarrow> u32 \<Rightarrow> u32 \<Rightarrow> nat + (i64 \<times> Params)"
  sys_mmap :: "sys_trace \<Rightarrow> i64 \<Rightarrow> u64 \<Rightarrow> nat \<Rightarrow> nat + u64"
  sys_munmap :: "sys_trace \<Rightarrow> u64 \<Rightarrow> nat \<Rightarrow> nat"
  sys_close :: "sys_trace \<Rightarrow> i64 \<Rightarrow> nat"
  sys_register_pbuf :: "sys_trace \<Rightarrow> i64 \<Rightarrow> u64 \<Rightarrow> u32 \<Rightarrow> u16 \<Rightarrow> nat"
  sys_unregister_pbuf :: "sys_trace \<Rightarrow> i64 \<Rightarrow> u16 \<Rightarrow> nat"
  sys_pbuf_status :: "sys_trace \<Rightarrow> i64 \<Rightarrow> u16 \<Rightarrow> nat + u32"

definition mmap :: "sys_env \<Rightarrow> i64 \<Rightarrow> u64 \<Rightarrow> nat \<Rightarrow> sys_trace \<Rightarrow> (nat + u64) \<times> sys_trace" where
  "mmap env fd off len tr =
     (case sys_mmap env tr fd off len of Inl e \<Rightarrow> (Inl e, tr) | Inr a \<Rightarrow> (Inr a, tr @ [Mapped a len]))"

definition munmap :: "sys_env \<Rightarrow> u64 \<Rightarrow> nat \<Rightarrow> sys_trace \<Rightarrow> nat \<times> sys_trace" where
  "munmap env a len tr =
     (let e = sys_munmap env tr a len in (e, if e = 0 then tr @ [Unmapped a len] else tr))"

definition close_fd :: "sys_env \<Rightarrow> i64 \<Rightarrow> sys_trace \<Rightarrow> nat \<times> sys_trace" where
  "close_fd env fd tr = (let e = sys_close env tr fd in (e, if e = 0 then tr @ [Closed fd] else tr))"

text \<open>The mappings and descriptors a trace leaves open, oldest first.\<close>

fun live_step :: "(u64 \<times> nat) list \<Rightarrow> sys_event \<Rightarrow> (u64 \<times> nat) list" where
  "live_step ms (Mapped a n) = ms @ [(a, n)]"
| "live_step ms (Unmapped a n) = remove1 (a, n) ms"
| "live_step ms _ = ms"

definition live_maps :: "sys_trace \<Rightarrow> (u64 \<times> nat) list" where
  "live_maps tr = foldl live_step [] tr"

fun fd_step :: "i64 list \<Rightarrow> sys_event \<Rightarrow> i64 list" where
  "fd_step fs (Opened f) = fs @ [f]"
| "fd_step fs (Closed f) = remove1 f fs"
| "fd_step fs _ = fs"

definition live_fds :: "sys_trace \<Rightarrow> i64 list" where
  "live_fds tr = foldl fd_step [] tr"

lemma live_maps_append [simp]:
  "live_maps [] = []"
  "live_maps (tr @ es) = foldl live_step (live_maps tr) es"
  by (simp_all add: live_maps_def)

lemma live_maps_snoc:
  "live_maps (tr @ [Mapped a n]) = live_maps tr @ [(a, n)]"
  "live_maps (tr @ [Unmapped a n]) = remove1 (a, n) (live_maps tr)"
  "live_maps (tr @ [Opened f]) = live_maps tr"
  "live_maps (tr @ [Closed f]) = live_maps tr"
  "live_maps (tr @ [RingRegistered f b]) = live_maps tr"
  "live_maps (tr @ [RingUnregistered f b]) = live_maps tr"
  by (simp_all add: live_maps_def)

lemma live_fds_append [simp]:
  "live_fds [] = []"
  "live_fds (tr @ es) = foldl fd_step (live_fds tr) es"
  by (simp_all add: live_fds_def)

lemma live_fds_snoc:
  "live_fds (tr @ [Mapped a n]) = live_fds tr"
  "live_fds (tr @ [Unmapped a n]) = live_fds tr"
  "live_fds (tr @ [Opened f]) = live_fds tr @ [f]"
  "live_fds (tr @ [Closed f]) = remove1 f (live_fds tr)"
  "live_fds (tr @ [RingRegistered f b]) = live_fds tr"
  "live_fds (tr @ [RingUnregistered f b]) = live_fds tr"
  by (simp_all add: live_fds_def)

text \<open>
  What the code relies on, as documented: \<open>mmap\<close> returns a page-aligned address at
  which no live mapping starts, and the block does not wrap around the address space.
  \<open>munmap\<close> of a live mapping and \<open>close\<close> of an open descriptor succeed.
\<close>

definition mmap_fresh :: "sys_env \<Rightarrow> bool" where
  "mmap_fresh env \<longleftrightarrow> (\<forall>tr fd off len a. sys_mmap env tr fd off len = Inr a \<longrightarrow>
     unat a mod 4096 = 0 \<and> a \<noteq> 0 \<and> unat a + len < 2 ^ 64 \<and> a \<notin> fst ` set (live_maps tr))"

definition munmap_live :: "sys_env \<Rightarrow> bool" where
  "munmap_live env \<longleftrightarrow> (\<forall>tr a n. (a, n) \<in> set (live_maps tr) \<longrightarrow> sys_munmap env tr a n = 0)"

definition close_live :: "sys_env \<Rightarrow> bool" where
  "close_live env \<longleftrightarrow> (\<forall>tr f. f \<in> set (live_fds tr) \<longrightarrow> sys_close env tr f = 0)"

lemma mmap_Inr:
  assumes "mmap env fd off len tr = (Inr a, tr')"
  shows "tr' = tr @ [Mapped a len]" and "sys_mmap env tr fd off len = Inr a"
  using assms by (auto simp: mmap_def split: sum.splits)

lemma mmap_Inl:
  assumes "mmap env fd off len tr = (Inl e, tr')"
  shows "tr' = tr" and "sys_mmap env tr fd off len = Inl e"
  using assms by (auto simp: mmap_def split: sum.splits)

lemma munmap_success:
  "munmap_live env \<Longrightarrow> (a, n) \<in> set (live_maps tr) \<Longrightarrow> munmap env a n tr = (0, tr @ [Unmapped a n])"
  by (simp add: munmap_def munmap_live_def)

lemma close_fd_success:
  "close_live env \<Longrightarrow> f \<in> set (live_fds tr) \<Longrightarrow> close_fd env f tr = (0, tr @ [Closed f])"
  by (simp add: close_fd_def close_live_def)

section \<open>Example environment\<close>

text \<open>
  An address space that hands out fresh pages above everything live, whose descriptors
  count up, and whose \<open>io_uring_setup\<close> reports separately mapped rings.
\<close>

definition ex_params :: "u32 \<Rightarrow> Params" where
  "ex_params n = \<lparr> p_SQEntries = n, p_CQEntries = 2 * n, p_Flags = 6, p_Features = 0,
     p_SQOff = \<lparr> sqo_Head = 0, sqo_Tail = 4, sqo_RingMask = 8, sqo_RingEntries = 12, sqo_Flags = 16, sqo_Array = 64 \<rparr>,
     p_CQOff = \<lparr> cqo_Head = 0, cqo_Tail = 4, cqo_RingMask = 8, cqo_RingEntries = 12, cqo_Cqes = 64 \<rparr> \<rparr>"

definition ex_fresh :: "sys_trace \<Rightarrow> nat" where
  "ex_fresh tr = 4096 * Suc (sum_list (map (\<lambda>(a, n). (unat a + n) div 4096) (live_maps tr)))"

definition ex_sys :: sys_env where
  "ex_sys = \<lparr> sys_setup = \<lambda>tr n f. Inr (of_nat (length (live_fds tr)) + 3, ex_params n),
     sys_mmap = \<lambda>tr fd off len.
       (if ex_fresh tr + len < 2 ^ 63 then Inr (of_nat (ex_fresh tr)) else Inl 12),
     sys_munmap = \<lambda>tr a n. if (a, n) \<in> set (live_maps tr) then 0 else 22,
     sys_close = \<lambda>tr f. if f \<in> set (live_fds tr) then 0 else 9,
     sys_register_pbuf = \<lambda>tr fd a n b. 0,
     sys_unregister_pbuf = \<lambda>tr fd b. 0,
     sys_pbuf_status = \<lambda>tr fd b. Inr 0 \<rparr>"

lemma ex_sys_ok: "mmap_fresh ex_sys" "munmap_live ex_sys" "close_live ex_sys"
proof -
  show "mmap_fresh ex_sys"
    unfolding mmap_fresh_def
  proof (intro allI impI)
    fix tr fd off len a
    assume "sys_mmap ex_sys tr fd off len = Inr a"
    then have b: "ex_fresh tr + len < 2 ^ 63" and a: "a = of_nat (ex_fresh tr)"
      by (auto simp: ex_sys_def split: if_splits)
    then have ua: "unat a = ex_fresh tr" by (simp add: unat_of_nat_small)
    have "unat c < ex_fresh tr" if "(c, n) \<in> set (live_maps tr)" for c n
    proof -
      have "(unat c + n) div 4096 \<le> sum_list (map (\<lambda>(a, n). (unat a + n) div 4096) (live_maps tr))"
        by (rule member_le_sum_list) (use that in force, simp)
      then have "(unat c + n) div 4096 < Suc (sum_list (map (\<lambda>(a, n). (unat a + n) div 4096) (live_maps tr)))"
        by simp
      then show ?thesis unfolding ex_fresh_def by (simp add: div_less_iff_less_mult)
    qed
    then have "a \<notin> fst ` set (live_maps tr)" using ua by fastforce
    moreover have "unat a mod 4096 = 0" unfolding ua ex_fresh_def by simp
    moreover have "a \<noteq> 0" using ua by (auto simp: ex_fresh_def)
    ultimately show "unat a mod 4096 = 0 \<and> a \<noteq> 0 \<and> unat a + len < 2 ^ 64 \<and> a \<notin> fst ` set (live_maps tr)"
      using b ua by simp
  qed
qed (simp_all add: munmap_live_def close_live_def ex_sys_def)

end
