(* ===== verification/Uring_Setup.thy ===== *)
theory Uring_Setup
  imports Sys_Calls
begin

text \<open>
  Creating and closing a ring: \<open>New\<close> (\<open>internal/iouring/iouring.go\<close>) and \<open>Close\<close>
  (\<open>method_close.go\<close>). \<open>ring_handle\<close> holds what the struct keeps beside the shared
  contents modelled in \<open>Uring_Queue\<close>: the descriptor, the parameters the kernel filled
  in, and the addresses into the mappings. Errors carry the errno.
\<close>

section \<open>Data\<close>

definition ioUringSetupSQPoll :: u32 where "ioUringSetupSQPoll = push_bit 1 1"
definition ioUringSetupSQAff :: u32 where "ioUringSetupSQAff = push_bit 2 1"
definition ioUringFeatSingleMMap :: u32 where "ioUringFeatSingleMMap = push_bit 0 1"
definition sysOffSQes :: u64 where "sysOffSQes = 0x10000000"
definition sysOffSQRing :: u64 where "sysOffSQRing = 0"
definition sysOffCQRing :: u64 where "sysOffCQRing = 0x8000000"
definition sizeofSQEntry :: nat where "sizeofSQEntry = 64"
definition sizeofCQEntry :: u32 where "sizeofCQEntry = 16"
definition MaxInt32 :: i64 where "MaxInt32 = 0x7fffffff"

record ring_handle =
  h_FD :: i64
  h_Params :: Params
  h_SQRingPtr :: u64
  h_SQHead :: u64
  h_SQTail :: u64
  h_SQMask :: u64
  h_SQEntries :: u64
  h_SQFlags :: u64
  h_SQArray :: "u64 \<times> nat"
  h_SQ :: "u64 \<times> nat"
  h_CQRingPtr :: u64
  h_CQHead :: u64
  h_CQTail :: u64
  h_CQMask :: u64
  h_CQEntries :: u64
  h_CQ :: "u64 \<times> nat"
  h_CQLengthMask :: u32

datatype new_error = Entries_not_power_of_2 | Entries_below_256 | Setup_io_uring nat
  | Mmap_SQ nat | Mmap_SQes nat | Mmap_CQ nat

section \<open>New\<close>

definition single_mmap :: "Params \<Rightarrow> bool" where
  "single_mmap ps \<longleftrightarrow> p_Features ps AND ioUringFeatSingleMMap \<noteq> 0"

text \<open>The two ring sizes, in 32-bit arithmetic, as both \<open>New\<close> and \<open>Close\<close> compute them.\<close>

definition ring_sizes :: "Params \<Rightarrow> u32 \<times> u32" where
  "ring_sizes ps =
     (let sq = sqo_Array (p_SQOff ps) + p_SQEntries ps * 4;
          cq = cqo_Cqes (p_CQOff ps) + p_CQEntries ps * sizeofCQEntry
      in if single_mmap ps then (let sq' = (if sq < cq then cq else sq) in (sq', sq')) else (sq, cq))"

definition make_handle :: "i64 \<Rightarrow> Params \<Rightarrow> u64 \<Rightarrow> u64 \<Rightarrow> u64 \<Rightarrow> ring_handle" where
  "make_handle fd ps sq sqes cq =
     (let so = p_SQOff ps; co = p_CQOff ps in
      \<lparr> h_FD = fd, h_Params = ps, h_SQRingPtr = sq,
        h_SQHead = sq + ucast (sqo_Head so), h_SQTail = sq + ucast (sqo_Tail so),
        h_SQMask = sq + ucast (sqo_RingMask so), h_SQEntries = sq + ucast (sqo_RingEntries so),
        h_SQFlags = sq + ucast (sqo_Flags so),
        h_SQArray = (sq + ucast (sqo_Array so), unat (p_SQEntries ps)),
        h_SQ = (sqes, unat (p_SQEntries ps)), h_CQRingPtr = cq,
        h_CQHead = cq + ucast (cqo_Head co), h_CQTail = cq + ucast (cqo_Tail co),
        h_CQMask = cq + ucast (cqo_RingMask co), h_CQEntries = cq + ucast (cqo_RingEntries co),
        h_CQ = (cq + ucast (cqo_Cqes co), unat (p_CQEntries ps)),
        h_CQLengthMask = p_CQEntries ps - 1 \<rparr>)"

definition New :: "sys_env \<Rightarrow> u32 \<Rightarrow> sys_trace \<Rightarrow> (new_error + ring_handle) \<times> sys_trace" where
  "New env entries tr =
     (if ones_count entries \<noteq> 1 then (Inl Entries_not_power_of_2, tr)
      else if entries < 256 then (Inl Entries_below_256, tr)
      else
        case sys_setup env tr entries (ioUringSetupSQPoll OR ioUringSetupSQAff) of
          Inl e \<Rightarrow> (Inl (Setup_io_uring e), tr)
        | Inr (fd, ps) \<Rightarrow>
            (let tr0 = tr @ [Opened fd]; (sqSize, cqSize) = ring_sizes ps in
             case mmap env fd 0 (unat sqSize) tr0 of
               (Inl e, tr1) \<Rightarrow> (Inl (Mmap_SQ e), tr1)
             | (Inr sq, tr1) \<Rightarrow>
                 (case mmap env fd sysOffSQes (unat (p_SQEntries ps) * sizeofSQEntry) tr1 of
                    (Inl e, tr2) \<Rightarrow> (Inl (Mmap_SQes e), tr2)
                  | (Inr sqes, tr2) \<Rightarrow>
                      if single_mmap ps then (Inr (make_handle fd ps sq sqes sq), tr2)
                      else
                        (case mmap env fd sysOffCQRing (unat cqSize) tr2 of
                           (Inl e, tr3) \<Rightarrow> (Inl (Mmap_CQ e), tr3)
                         | (Inr cq, tr3) \<Rightarrow> (Inr (make_handle fd ps sq sqes cq), tr3)))))"

section \<open>Close\<close>

text \<open>
  \<open>Close\<close> in three stages, each reporting whether a call failed: the entries, the
  rings, the descriptor. A failure is logged and the next stage still runs.
\<close>

definition close_sqes :: "sys_env \<Rightarrow> ring_handle \<Rightarrow> sys_trace \<Rightarrow> bool \<times> sys_trace" where
  "close_sqes env h tr =
     (let (ptr, n) = h_SQ h in
      if 0 < n then (let (e, tr') = munmap env ptr (n * sizeofSQEntry) tr in (e \<noteq> 0, tr')) else (False, tr))"

definition close_rings :: "sys_env \<Rightarrow> ring_handle \<Rightarrow> sys_trace \<Rightarrow> bool \<times> sys_trace" where
  "close_rings env h tr =
     (if h_SQRingPtr h = 0 then (False, tr)
      else
        let (sqSize, cqSize) = ring_sizes (h_Params h);
            (e, tr1) = munmap env (h_SQRingPtr h) (unat sqSize) tr
        in if \<not> single_mmap (h_Params h) \<and> h_CQRingPtr h \<noteq> 0 then
             (let (e2, tr2) = munmap env (h_CQRingPtr h) (unat cqSize) tr1 in (e \<noteq> 0 \<or> e2 \<noteq> 0, tr2))
           else (e \<noteq> 0, tr1))"

definition Close_ring :: "sys_env \<Rightarrow> ring_handle \<Rightarrow> sys_trace \<Rightarrow> bool \<times> ring_handle \<times> sys_trace" where
  "Close_ring env h tr =
     (if h_FD h = 0 \<or> h_FD h = MaxInt32 then (False, h, tr)
      else
        let (f1, tr1) = close_sqes env h tr;
            (f2, tr2) = close_rings env h tr1;
            (e, tr3) = close_fd env (h_FD h) tr2
        in (f1 \<or> f2 \<or> e \<noteq> 0, h\<lparr>h_FD := MaxInt32, h_SQRingPtr := 0, h_CQRingPtr := 0\<rparr>, tr3))"

section \<open>Laws\<close>

text \<open>What \<open>io_uring_setup\<close> promises: a descriptor that was not open, any number from 0 on, and a non-empty queue.\<close>

definition setup_ok :: "sys_env \<Rightarrow> bool" where
  "setup_ok env \<longleftrightarrow> (\<forall>tr n f fd ps. sys_setup env tr n f = Inr (fd, ps) \<longrightarrow>
     fd \<notin> set (live_fds tr) \<and> 0 < unat (p_SQEntries ps))"

text \<open>The mappings of an open ring, oldest first.\<close>

definition ring_maps :: "ring_handle \<Rightarrow> (u64 \<times> nat) list" where
  "ring_maps h = (h_SQRingPtr h, unat (fst (ring_sizes (h_Params h)))) #
     (fst (h_SQ h), snd (h_SQ h) * sizeofSQEntry) #
     (if single_mmap (h_Params h) then [] else [(h_CQRingPtr h, unat (snd (ring_sizes (h_Params h))))])"

definition ring_open :: "ring_handle \<Rightarrow> bool" where
  "ring_open h \<longleftrightarrow> 0 < snd (h_SQ h) \<and> h_SQRingPtr h \<noteq> 0 \<and>
     (\<not> single_mmap (h_Params h) \<longrightarrow> h_CQRingPtr h \<noteq> 0)"

lemma make_handle_simps [simp]:
  "h_FD (make_handle fd ps sq sqes cq) = fd" "h_Params (make_handle fd ps sq sqes cq) = ps"
  "h_SQRingPtr (make_handle fd ps sq sqes cq) = sq" "h_CQRingPtr (make_handle fd ps sq sqes cq) = cq"
  "h_SQ (make_handle fd ps sq sqes cq) = (sqes, unat (p_SQEntries ps))"
  "h_CQLengthMask (make_handle fd ps sq sqes cq) = p_CQEntries ps - 1"
  by (simp_all add: make_handle_def Let_def)

text \<open>A successful \<open>New\<close>, call by call.\<close>

lemma New_cases:
  assumes opened: "New env entries tr = (Inr h, tr')"
  obtains fd ps sqSize cqSize sq sqes where
    "sys_setup env tr entries (ioUringSetupSQPoll OR ioUringSetupSQAff) = Inr (fd, ps)"
    and "ring_sizes ps = (sqSize, cqSize)"
    and "sys_mmap env (tr @ [Opened fd]) fd 0 (unat sqSize) = Inr sq"
    and "sys_mmap env (tr @ [Opened fd, Mapped sq (unat sqSize)]) fd sysOffSQes
      (unat (p_SQEntries ps) * sizeofSQEntry) = Inr sqes"
    and "single_mmap ps \<Longrightarrow> h = make_handle fd ps sq sqes sq \<and>
      tr' = tr @ [Opened fd, Mapped sq (unat sqSize), Mapped sqes (unat (p_SQEntries ps) * sizeofSQEntry)]"
    and "\<not> single_mmap ps \<Longrightarrow> \<exists>cq. h = make_handle fd ps sq sqes cq \<and>
      sys_mmap env (tr @ [Opened fd, Mapped sq (unat sqSize), Mapped sqes (unat (p_SQEntries ps) * sizeofSQEntry)])
        fd sysOffCQRing (unat cqSize) = Inr cq \<and>
      tr' = tr @ [Opened fd, Mapped sq (unat sqSize), Mapped sqes (unat (p_SQEntries ps) * sizeofSQEntry),
        Mapped cq (unat cqSize)]"
proof -
  obtain fd ps where s: "sys_setup env tr entries (ioUringSetupSQPoll OR ioUringSetupSQAff) = Inr (fd, ps)"
    using opened by (auto simp: New_def split: if_splits sum.splits)
  obtain sqSize cqSize where sz: "ring_sizes ps = (sqSize, cqSize)" by (cases "ring_sizes ps")
  note rest = opened [unfolded New_def Let_def s sz sum.case prod.case]
  obtain sq where m1: "sys_mmap env (tr @ [Opened fd]) fd 0 (unat sqSize) = Inr sq"
    using rest by (auto simp: mmap_def split: if_splits sum.splits)
  obtain sqes where m2: "sys_mmap env (tr @ [Opened fd, Mapped sq (unat sqSize)]) fd sysOffSQes
      (unat (p_SQEntries ps) * sizeofSQEntry) = Inr sqes"
    using rest by (auto simp: mmap_def m1 split: if_splits sum.splits)
  show thesis
  proof (rule that [OF s sz m1 m2])
    assume "single_mmap ps"
    then show "h = make_handle fd ps sq sqes sq \<and>
        tr' = tr @ [Opened fd, Mapped sq (unat sqSize), Mapped sqes (unat (p_SQEntries ps) * sizeofSQEntry)]"
      using rest by (auto simp: mmap_def m1 m2 split: if_splits)
  next
    assume "\<not> single_mmap ps"
    then show "\<exists>cq. h = make_handle fd ps sq sqes cq \<and>
      sys_mmap env (tr @ [Opened fd, Mapped sq (unat sqSize), Mapped sqes (unat (p_SQEntries ps) * sizeofSQEntry)])
        fd sysOffCQRing (unat cqSize) = Inr cq \<and>
      tr' = tr @ [Opened fd, Mapped sq (unat sqSize), Mapped sqes (unat (p_SQEntries ps) * sizeofSQEntry),
        Mapped cq (unat cqSize)]"
      using rest by (auto simp: mmap_def m1 m2 split: if_splits sum.splits)
  qed
qed

lemma New_success:
  assumes opened: "New env entries tr = (Inr h, tr')" and ok: "setup_ok env" and fresh: "mmap_fresh env"
  shows "ring_open h" and "live_maps tr' = live_maps tr @ ring_maps h"
    and "live_fds tr' = live_fds tr @ [h_FD h]" and "h_FD h \<notin> set (live_fds tr)"
    and "distinct (map fst (ring_maps h))"
    and "\<And>a n. (a, n) \<in> set (ring_maps h) \<Longrightarrow> a \<notin> fst ` set (live_maps tr)"
proof -
  have map_ok: "a \<noteq> 0 \<and> a \<notin> fst ` set (live_maps t)" if "sys_mmap env t f off n = Inr a" for t f off n a
    using fresh that unfolding mmap_fresh_def by blast
  have "ring_open h \<and> live_maps tr' = live_maps tr @ ring_maps h \<and> live_fds tr' = live_fds tr @ [h_FD h] \<and>
      h_FD h \<notin> set (live_fds tr) \<and> distinct (map fst (ring_maps h)) \<and>
      (\<forall>a n. (a, n) \<in> set (ring_maps h) \<longrightarrow> a \<notin> fst ` set (live_maps tr))"
    using opened
  proof (rule New_cases)
    fix fd ps sqSize cqSize sq sqes
    assume s: "sys_setup env tr entries (ioUringSetupSQPoll OR ioUringSetupSQAff) = Inr (fd, ps)"
      and sz: "ring_sizes ps = (sqSize, cqSize)"
      and m1: "sys_mmap env (tr @ [Opened fd]) fd 0 (unat sqSize) = Inr sq"
      and m2: "sys_mmap env (tr @ [Opened fd, Mapped sq (unat sqSize)]) fd sysOffSQes
        (unat (p_SQEntries ps) * sizeofSQEntry) = Inr sqes"
      and single: "single_mmap ps \<Longrightarrow> h = make_handle fd ps sq sqes sq \<and>
        tr' = tr @ [Opened fd, Mapped sq (unat sqSize), Mapped sqes (unat (p_SQEntries ps) * sizeofSQEntry)]"
      and double: "\<not> single_mmap ps \<Longrightarrow> \<exists>cq. h = make_handle fd ps sq sqes cq \<and>
        sys_mmap env (tr @ [Opened fd, Mapped sq (unat sqSize), Mapped sqes (unat (p_SQEntries ps) * sizeofSQEntry)])
          fd sysOffCQRing (unat cqSize) = Inr cq \<and>
        tr' = tr @ [Opened fd, Mapped sq (unat sqSize), Mapped sqes (unat (p_SQEntries ps) * sizeofSQEntry),
          Mapped cq (unat cqSize)]"
    have fd: "fd \<notin> set (live_fds tr)" "0 < unat (p_SQEntries ps)"
      using ok s unfolding setup_ok_def by blast+
    show ?thesis
    proof (cases "single_mmap ps")
      case True
      then show ?thesis
        using single [OF True] fd map_ok [OF m1] map_ok [OF m2] sz
        by (auto simp: ring_open_def ring_maps_def)
    next
      case False
      then obtain cq where h: "h = make_handle fd ps sq sqes cq"
        and m3: "sys_mmap env (tr @ [Opened fd, Mapped sq (unat sqSize), Mapped sqes (unat (p_SQEntries ps) * sizeofSQEntry)])
          fd sysOffCQRing (unat cqSize) = Inr cq"
        and tr': "tr' = tr @ [Opened fd, Mapped sq (unat sqSize), Mapped sqes (unat (p_SQEntries ps) * sizeofSQEntry),
          Mapped cq (unat cqSize)]"
        using double by blast
      show ?thesis
        using False fd map_ok [OF m1] map_ok [OF m2] map_ok [OF m3] sz
        by (auto simp: ring_open_def ring_maps_def h tr')
    qed
  qed
  then show "ring_open h" "live_maps tr' = live_maps tr @ ring_maps h"
    "live_fds tr' = live_fds tr @ [h_FD h]" "h_FD h \<notin> set (live_fds tr)" "distinct (map fst (ring_maps h))"
    "\<And>a n. (a, n) \<in> set (ring_maps h) \<Longrightarrow> a \<notin> fst ` set (live_maps tr)"
    by blast+
qed

text \<open>Closing an open ring over the mappings \<open>New\<close> made, under a descriptor that \<open>Close\<close> does not take for closed.\<close>

lemma Close_open:
  assumes op: "ring_open h" and maps: "live_maps tr = ms @ ring_maps h" and fds: "live_fds tr = fs @ [h_FD h]"
    and dist: "distinct (map fst (ring_maps h))" "\<And>a n. (a, n) \<in> set (ring_maps h) \<Longrightarrow> a \<notin> fst ` set ms"
    and fd: "h_FD h \<notin> set fs" "h_FD h \<noteq> 0" "h_FD h \<noteq> MaxInt32" and un: "munmap_live env" and cl: "close_live env"
  shows "\<exists>tr'. Close_ring env h tr = (False, h\<lparr>h_FD := MaxInt32, h_SQRingPtr := 0, h_CQRingPtr := 0\<rparr>, tr') \<and>
    live_maps tr' = ms \<and> live_fds tr' = fs"
proof -
  obtain sqSize cqSize where sz: "ring_sizes (h_Params h) = (sqSize, cqSize)" by (cases "ring_sizes (h_Params h)")
  obtain sqes n where sq: "h_SQ h = (sqes, n)" by (cases "h_SQ h")
  let ?R = "(h_SQRingPtr h, unat sqSize)" and ?E = "(sqes, n * sizeofSQEntry)" and ?C = "(h_CQRingPtr h, unat cqSize)"
  let ?rest = "if single_mmap (h_Params h) then [] else [?C]"
  have rm: "ring_maps h = ?R # ?E # ?rest" by (simp add: ring_maps_def sz sq)
  have notin: "?R \<notin> set ms" "?E \<notin> set ms" "\<not> single_mmap (h_Params h) \<Longrightarrow> ?C \<notin> set ms"
    using dist(2) unfolding rm by force+
  have ne: "?R \<noteq> ?E" "\<not> single_mmap (h_Params h) \<Longrightarrow> ?R \<noteq> ?C \<and> ?E \<noteq> ?C"
    using dist(1) unfolding rm by (auto split: if_splits)
  have "0 < n" using op sq by (simp add: ring_open_def)
  have u1: "munmap env sqes (n * sizeofSQEntry) tr = (0, tr @ [Unmapped sqes (n * sizeofSQEntry)])"
    by (rule munmap_success [OF un]) (simp add: maps rm)
  let ?t1 = "tr @ [Unmapped sqes (n * sizeofSQEntry)]"
  have l1: "live_maps ?t1 = ms @ ?R # ?rest" using notin ne by (simp add: maps rm remove1_append)
  have u2: "munmap env (h_SQRingPtr h) (unat sqSize) ?t1 = (0, ?t1 @ [Unmapped (h_SQRingPtr h) (unat sqSize)])"
    by (rule munmap_success [OF un]) (simp only: l1, simp)
  let ?t2 = "?t1 @ [Unmapped (h_SQRingPtr h) (unat sqSize)]"
  have l2: "live_maps ?t2 = ms @ ?rest"
    unfolding live_maps_append(2) [of ?t1] l1 using notin by (simp add: remove1_append)
  obtain t3 where r: "close_rings env h ?t1 = (False, t3)" and l3: "live_maps t3 = ms"
    and f3: "live_fds t3 = fs @ [h_FD h]"
  proof (cases "single_mmap (h_Params h)")
    case True
    then show thesis
      using that [of ?t2] op l2 fds by (simp add: close_rings_def sz u2 ring_open_def)
  next
    case False
    have u3: "munmap env (h_CQRingPtr h) (unat cqSize) ?t2 = (0, ?t2 @ [Unmapped (h_CQRingPtr h) (unat cqSize)])"
      by (rule munmap_success [OF un]) (use False in \<open>simp only: l2, simp\<close>)
    have "live_maps (?t2 @ [Unmapped (h_CQRingPtr h) (unat cqSize)]) = ms"
      unfolding live_maps_append(2) [of ?t2] l2 using notin(3) False by (simp add: remove1_append)
    then show thesis
      using that [of "?t2 @ [Unmapped (h_CQRingPtr h) (unat cqSize)]"] False op u3 fds
      by (simp only: close_rings_def sz u2 Let_def prod.case ring_open_def) simp
  qed
  have u4: "close_fd env (h_FD h) t3 = (0, t3 @ [Closed (h_FD h)])"
    by (rule close_fd_success [OF cl]) (simp add: f3)
  have s1: "close_sqes env h tr = (False, ?t1)" using \<open>0 < n\<close> by (simp add: close_sqes_def sq u1)
  have "Close_ring env h tr = (False, h\<lparr>h_FD := MaxInt32, h_SQRingPtr := 0, h_CQRingPtr := 0\<rparr>, t3 @ [Closed (h_FD h)])"
    using fd(2,3) by (simp only: Close_ring_def s1 r u4 Let_def prod.case) simp
  then show ?thesis using l3 f3 fd(1) by (simp add: remove1_append)
qed

text \<open>What each failure of \<open>New\<close> leaves behind.\<close>

definition leaked_maps :: "new_error \<Rightarrow> nat" where
  "leaked_maps e = (case e of Mmap_SQes _ \<Rightarrow> 1 | Mmap_CQ _ \<Rightarrow> 2 | _ \<Rightarrow> 0)"

definition leaked_fds :: "new_error \<Rightarrow> nat" where
  "leaked_fds e = (case e of Mmap_SQ _ \<Rightarrow> 1 | Mmap_SQes _ \<Rightarrow> 1 | Mmap_CQ _ \<Rightarrow> 1 | _ \<Rightarrow> 0)"

lemma New_failure:
  assumes "New env entries tr = (Inl e, tr')"
  shows "length (live_fds tr') = length (live_fds tr) + leaked_fds e"
    and "length (live_maps tr') = length (live_maps tr) + leaked_maps e"
  using assms
  by (auto simp: New_def Let_def mmap_def leaked_fds_def leaked_maps_def split: if_splits sum.splits prod.splits)

definition ex_opens :: "i64 \<Rightarrow> sys_env" where
  "ex_opens fd = ex_sys\<lparr>sys_setup := \<lambda>tr n f. if live_fds tr = [] \<and> n = 256 then Inr (fd, ex_params n) else Inl 12\<rparr>"

lemma ex_opens_ok: "setup_ok (ex_opens fd)" "mmap_fresh (ex_opens fd)" "munmap_live (ex_opens fd)" "close_live (ex_opens fd)"
  using ex_sys_ok by (simp_all add: ex_opens_def setup_ok_def ex_params_def mmap_fresh_def munmap_live_def close_live_def)

lemma ex_opens_New:
  "\<exists>h tr1. New (ex_opens fd) 256 [] = (Inr h, tr1) \<and> h_FD h = fd \<and> length (ring_maps h) = 3"
proof -
  have "ones_count (256 :: u32) = 1" using ones_count_exp [of 8, where 'a = 32] by simp
  then show ?thesis
    by (simp add: ex_opens_def New_def ex_sys_def ex_params_def ring_sizes_def single_mmap_def mmap_def ex_fresh_def ring_maps_def
        live_maps_def live_fds_def sizeofCQEntry_def sizeofSQEntry_def ioUringFeatSingleMMap_def Let_def)
qed

section \<open>Properties\<close>

text \<open>C27. Closing a ring undoes creating it, unless its descriptor is one that \<open>Close\<close> takes for closed. After \<open>New\<close> succeeds with
  any descriptor but 0 and \<open>MaxInt32\<close>, \<open>Close\<close> succeeds and the live mappings and open descriptors are those before
  \<open>New\<close>, with one or two ring mappings alike, and closing again does nothing; under descriptor 0, which a process that
  closed its standard input is given, \<open>Close\<close> returns at once and the descriptor and every mapping stay.\<close>

theorem New_Close_balanced:
  assumes "New env entries tr = (Inr h, tr1)" and "setup_ok env" and "mmap_fresh env"
    and "munmap_live env" and "close_live env"
  shows "if h_FD h = 0 \<or> h_FD h = MaxInt32 then Close_ring env h tr1 = (False, h, tr1) \<and>
      live_maps tr1 = live_maps tr @ ring_maps h \<and> live_fds tr1 = live_fds tr @ [h_FD h]
    else \<exists>h' tr2. Close_ring env h tr1 = (False, h', tr2) \<and> live_maps tr2 = live_maps tr \<and>
      live_fds tr2 = live_fds tr \<and> Close_ring env h' tr2 = (False, h', tr2)"
proof (cases "h_FD h = 0 \<or> h_FD h = MaxInt32")
  case True
  then show ?thesis using New_success(2,3) [OF assms(1-3)] by (simp add: Close_ring_def)
next
  case False
  note n = New_success [OF assms(1-3)]
  obtain tr2 where "Close_ring env h tr1 = (False, h\<lparr>h_FD := MaxInt32, h_SQRingPtr := 0, h_CQRingPtr := 0\<rparr>, tr2)"
    "live_maps tr2 = live_maps tr" "live_fds tr2 = live_fds tr"
    using Close_open [OF n(1,2,3,5) _ n(4) _ _ assms(4,5)] n(6) False by metis
  then show ?thesis using False by (simp add: Close_ring_def)
qed

theorem New_Close_balanced_witness:
  "(\<exists>h tr1 h' tr2. New (ex_opens 3) 256 [] = (Inr h, tr1) \<and> length (ring_maps h) = 3 \<and>
     Close_ring (ex_opens 3) h tr1 = (False, h', tr2) \<and> live_maps tr2 = [] \<and> live_fds tr2 = []) \<and>
   (\<exists>h tr1. New (ex_opens 0) 256 [] = (Inr h, tr1) \<and> Close_ring (ex_opens 0) h tr1 = (False, h, tr1) \<and>
     live_fds tr1 = [0] \<and> length (live_maps tr1) = 3)"
proof -
  obtain h tr1 where new: "New (ex_opens 3) 256 [] = (Inr h, tr1)" "h_FD h = 3" "length (ring_maps h) = 3"
    using ex_opens_New by blast
  obtain g tr2 where std: "New (ex_opens 0) 256 [] = (Inr g, tr2)" "h_FD g = 0" "length (ring_maps g) = 3"
    using ex_opens_New by blast
  show ?thesis
    using New_Close_balanced [OF new(1) ex_opens_ok] New_Close_balanced [OF std(1) ex_opens_ok] new std
    by (auto simp: MaxInt32_def)
qed

text \<open>A \<open>New\<close> that fails in one of its mappings leaves the descriptor open and the
  earlier mappings in place; the other failures leave nothing.\<close>

theorem New_failure_leaks:
  assumes "New env entries tr = (Inl e, tr')"
  shows "length (live_fds tr') = length (live_fds tr) + leaked_fds e \<and>
    length (live_maps tr') = length (live_maps tr) + leaked_maps e"
  using New_failure [OF assms] by simp

theorem New_failure_leaks_witness:
  "\<exists>tr'. New (ex_sys\<lparr>sys_mmap := \<lambda>_ _ _ _. Inl 12\<rparr>) 256 [] = (Inl (Mmap_SQ 12), tr') \<and> length (live_fds tr') = 1"
proof -
  have "ones_count (256 :: u32) = 1" using ones_count_exp [of 8, where 'a = 32] by simp
  then obtain tr' where new: "New (ex_sys\<lparr>sys_mmap := \<lambda>_ _ _ _. Inl 12\<rparr>) 256 [] = (Inl (Mmap_SQ 12), tr')"
    by (simp add: New_def ex_sys_def ex_params_def ring_sizes_def mmap_def Let_def split: prod.splits)
  then show ?thesis using New_failure_leaks [OF new] by (simp add: leaked_fds_def)
qed

end
