(* ===== verification/Pbuf_Ring.thy ===== *)
theory Pbuf_Ring
  imports Sys_Calls "HOL-Library.Multiset"
begin

text \<open>
  The provided buffer ring, \<open>internal/iouring/pbuf.go\<close>. \<open>pb_ring\<close> is the mapped
  descriptor memory as a list of 16-byte entries, page-rounded as the code maps it; the
  16-bit tail has no field of its own, it is \<open>be_Resv\<close> of entry 0, as in the shared
  layout. A read or write outside mapped memory or outside a slice is \<open>None\<close>. The
  kernel's private head is not part of the state: it is an argument, and what the kernel
  answers to a system call comes from \<open>sys_env\<close>.
\<close>

section \<open>Data\<close>

definition pbufRingEntrySize :: nat where "pbufRingEntrySize = 16"
definition pbufRingTailOffset :: u64 where "pbufRingTailOffset = 14"
definition maxPbufRingEntries :: u32 where "maxPbufRingEntries = 32768"

record bufEntry =
  be_Addr :: u64
  be_Len :: u32
  be_BID :: u16
  be_Resv :: u16

record ProvidedBufferRing =
  pb_bgid :: u16
  pb_capacity :: u32
  pb_bufSize :: u32
  pb_mask :: u32
  pb_dataLen :: nat
  pb_basePtr :: u64
  pb_bufPointers :: "u64 list"
  pb_ringPtr :: u64
  pb_ring :: "bufEntry list"
  pb_ringLength :: u32
  pb_fd :: i64
  pb_closed :: bool

datatype pbuf_error =
    Capacity_not_power_of_2 u32
  | Capacity_exceeds u32 u32
  | Buffer_size_zero
  | Buffer_size_not_multiple_of_64 u32
  | Mmap_pbuf_data nat
  | Mmap_pbuf_ring nat
  | Register_pbuf_ring nat
  | Unregister_pbuf_ring nat
  | Munmap_pbuf_ring nat
  | Munmap_pbuf_data nat
  | Get_pbuf_head nat
  | Foreign_view

section \<open>The tail\<close>

text \<open>
  The aligned 32-bit word that holds the tail: at offset 14 itself when that address is
  aligned (the tail and the low half of the next entry's address), at offset 12 otherwise
  (the buffer id of entry 0 and the tail). Little-endian, as on the supported platform.
\<close>

definition tail_word :: "bool \<Rightarrow> bufEntry list \<Rightarrow> u32" where
  "tail_word aligned ring =
     (if aligned then ucast (be_Resv (ring ! 0)) OR push_bit 16 (ucast (be_Addr (ring ! 1)))
      else ucast (be_BID (ring ! 0)) OR push_bit 16 (ucast (be_Resv (ring ! 0))))"

definition set_tail_word :: "bool \<Rightarrow> u32 \<Rightarrow> bufEntry list \<Rightarrow> bufEntry list" where
  "set_tail_word aligned w ring =
     (if aligned then
        ring[0 := (ring ! 0)\<lparr>be_Resv := ucast w\<rparr>,
             1 := (ring ! 1)\<lparr>be_Addr := (be_Addr (ring ! 1) AND NOT (mask 16)) OR ucast (drop_bit 16 w)\<rparr>]
      else
        ring[0 := (ring ! 0)\<lparr>be_BID := ucast w, be_Resv := ucast (drop_bit 16 w)\<rparr>])"

text \<open>
  The loop of loads and compare-and-swaps leaves at the first swap that succeeds, on the
  value the word has then; nobody else writes the word.
\<close>

definition storeTailRelease :: "u16 \<Rightarrow> ProvidedBufferRing \<Rightarrow> ProvidedBufferRing" where
  "storeTailRelease value p =
     (let addr = pb_ringPtr p + pbufRingTailOffset;
          aligned = (addr AND 3 = 0);
          shift = (if aligned then 0 else 16);
          tailBits = push_bit shift 65535 :: u32;
          old = tail_word aligned (pb_ring p);
          newWord = (old AND NOT tailBits) OR push_bit shift (ucast value)
      in p\<lparr>pb_ring := set_tail_word aligned newWord (pb_ring p)\<rparr>)"

definition ringTail :: "ProvidedBufferRing \<Rightarrow> u16" where
  "ringTail p = be_Resv (pb_ring p ! 0)"

section \<open>Operations\<close>

text \<open>\<open>entry(idx)\<close> and the three stores into the descriptor; \<open>be_Resv\<close> is left alone.\<close>

definition entry :: "ProvidedBufferRing \<Rightarrow> nat \<Rightarrow> bufEntry option" where
  "entry p idx = (if idx < length (pb_ring p) then Some (pb_ring p ! idx) else None)"

definition write_entry :: "nat \<Rightarrow> u64 \<Rightarrow> u32 \<Rightarrow> u16 \<Rightarrow> ProvidedBufferRing \<Rightarrow> ProvidedBufferRing option" where
  "write_entry idx addr len bid p =
     (case entry p idx of None \<Rightarrow> None
      | Some e \<Rightarrow> Some (p\<lparr>pb_ring := (pb_ring p)[idx := e\<lparr>be_Addr := addr, be_Len := len, be_BID := bid\<rparr>]\<rparr>))"

definition ReleaseBuffer :: "u16 \<Rightarrow> ProvidedBufferRing \<Rightarrow> ProvidedBufferRing option" where
  "ReleaseBuffer bid p =
     (let tail = ucast (ringTail p) :: u32;
          idx = tail AND pb_mask p
      in if length (pb_bufPointers p) \<le> unat bid then None
         else map_option (storeTailRelease (ucast (tail + 1)))
           (write_entry (unat idx) (pb_bufPointers p ! unat bid) (pb_bufSize p) bid p))"

definition Buffer :: "u16 \<Rightarrow> ProvidedBufferRing \<Rightarrow> (u64 \<times> nat) option" where
  "Buffer bid p =
     (if unat bid < length (pb_bufPointers p)
      then Some (pb_bufPointers p ! unat bid, unat (pb_bufSize p)) else None)"

definition ReleaseView :: "u64 \<Rightarrow> ProvidedBufferRing \<Rightarrow> (pbuf_error + ProvidedBufferRing) option" where
  "ReleaseView ptr p =
     (if ptr < pb_basePtr p then Some (Inl Foreign_view)
      else
        let offset = ptr - pb_basePtr p in
        if ucast (pb_capacity p) * ucast (pb_bufSize p) \<le> offset then Some (Inl Foreign_view)
        else if pb_bufSize p = 0 then None
        else if offset mod ucast (pb_bufSize p) \<noteq> 0 then Some (Inl Foreign_view)
        else map_option Inr (ReleaseBuffer (ucast (offset div ucast (pb_bufSize p))) p))"

definition Available :: "sys_env \<Rightarrow> sys_trace \<Rightarrow> ProvidedBufferRing \<Rightarrow> pbuf_error + u32" where
  "Available env tr p =
     (case sys_pbuf_status env tr (pb_fd p) (pb_bgid p) of
        Inl e \<Rightarrow> Inl (Get_pbuf_head e)
      | Inr head \<Rightarrow> Inr (ucast (ucast (ucast (ringTail p) - head :: u32) :: u16)))"

definition ReplenishOne :: "sys_env \<Rightarrow> sys_trace \<Rightarrow> ProvidedBufferRing \<Rightarrow> (pbuf_error option \<times> ProvidedBufferRing) option" where
  "ReplenishOne env tr p =
     (case sys_pbuf_status env tr (pb_fd p) (pb_bgid p) of
        Inl e \<Rightarrow> Some (Some (Get_pbuf_head e), p)
      | Inr head \<Rightarrow>
          (let tail = ucast (ringTail p) :: u32;
               avail = ucast (ucast (tail - head) :: u16) :: u32
           in if avail = pb_capacity p then Some (None, p)
              else
                let consumedIdx = (head - 1) AND pb_mask p in
                (case entry p (unat consumedIdx) of None \<Rightarrow> None
                 | Some e \<Rightarrow> map_option (\<lambda>p'. (None, p')) (ReleaseBuffer (be_BID e) p))))"

definition Unregister :: "sys_env \<Rightarrow> sys_trace \<Rightarrow> ProvidedBufferRing \<Rightarrow> (pbuf_error option \<times> ProvidedBufferRing) \<times> sys_trace" where
  "Unregister env tr p =
     (if pb_closed p then ((None, p), tr)
      else
        let errno = sys_unregister_pbuf env tr (pb_fd p) (pb_bgid p) in
        if errno \<noteq> 0 then ((Some (Unregister_pbuf_ring errno), p), tr)
        else
          let tr1 = tr @ [RingUnregistered (pb_fd p) (pb_bgid p)];
              (e2, tr2) = munmap env (pb_ringPtr p) (unat (pb_ringLength p)) tr1
          in if e2 \<noteq> 0 then ((Some (Munmap_pbuf_ring e2), p), tr2)
             else
               let (e3, tr3) = munmap env (pb_basePtr p) (pb_dataLen p) tr2 in
               if e3 \<noteq> 0 then ((Some (Munmap_pbuf_data e3), p), tr3)
               else ((None, p\<lparr>pb_closed := True\<rparr>), tr3))"

text \<open>
  \<open>RegisterBufferRing\<close>: the guards, the two mappings, the registration, the fill loop
  and the publication. Fresh anonymous memory reads as zero. The huge-page advice and the
  page touching do not change what the memory holds.
\<close>

definition zero_entry :: bufEntry where
  "zero_entry = \<lparr> be_Addr = 0, be_Len = 0, be_BID = 0, be_Resv = 0 \<rparr>"

definition fill_one :: "nat \<Rightarrow> ProvidedBufferRing \<Rightarrow> ProvidedBufferRing option" where
  "fill_one i p =
     (let addr = pb_basePtr p + of_nat i * ucast (pb_bufSize p) in
      if length (pb_bufPointers p) \<le> i then None
      else write_entry i addr (pb_bufSize p) (of_nat i)
             (p\<lparr>pb_bufPointers := (pb_bufPointers p)[i := addr]\<rparr>))"

fun fill_ring :: "nat \<Rightarrow> nat \<Rightarrow> ProvidedBufferRing \<Rightarrow> ProvidedBufferRing option" where
  "fill_ring i 0 p = Some p"
| "fill_ring i (Suc n) p = Option.bind (fill_one i p) (fill_ring (Suc i) n)"

definition new_pbr :: "i64 \<Rightarrow> u16 \<Rightarrow> u32 \<Rightarrow> u32 \<Rightarrow> u64 \<Rightarrow> u64 \<Rightarrow> ProvidedBufferRing" where
  "new_pbr fd bgid capacity bufSize base ring =
     (let ringLen = (ucast capacity * of_nat pbufRingEntrySize + 4095) AND NOT (4095 :: u64)
      in \<lparr> pb_bgid = bgid, pb_capacity = capacity, pb_bufSize = bufSize, pb_mask = capacity - 1,
           pb_dataLen = unat (ucast capacity * ucast bufSize :: u64), pb_basePtr = base,
           pb_bufPointers = replicate (unat capacity) 0, pb_ringPtr = ring,
           pb_ring = replicate (unat ringLen div pbufRingEntrySize) zero_entry,
           pb_ringLength = ucast ringLen, pb_fd = fd, pb_closed = False \<rparr>)"

definition check_ring_args :: "u32 \<Rightarrow> u32 \<Rightarrow> pbuf_error option" where
  "check_ring_args capacity bufSize =
     (if capacity = 0 \<or> ones_count capacity \<noteq> 1 then Some (Capacity_not_power_of_2 capacity)
      else if maxPbufRingEntries < capacity then Some (Capacity_exceeds maxPbufRingEntries capacity)
      else if bufSize = 0 then Some Buffer_size_zero
      else if bufSize AND 63 \<noteq> 0 then Some (Buffer_size_not_multiple_of_64 bufSize)
      else None)"

definition RegisterBufferRing ::
    "sys_env \<Rightarrow> i64 \<Rightarrow> u16 \<Rightarrow> u32 \<Rightarrow> u32 \<Rightarrow> sys_trace \<Rightarrow> ((pbuf_error + ProvidedBufferRing) \<times> sys_trace) option" where
  "RegisterBufferRing env fd bgid capacity bufSize tr =
     (case check_ring_args capacity bufSize of
        Some e \<Rightarrow> Some (Inl e, tr)
      | None \<Rightarrow>
          (let dataLen = ucast capacity * ucast bufSize :: u64;
               ringLen = (ucast capacity * of_nat pbufRingEntrySize + 4095) AND NOT (4095 :: u64)
           in case mmap env (- 1) 0 (unat dataLen) tr of
                (Inl e, tr1) \<Rightarrow> Some (Inl (Mmap_pbuf_data e), tr1)
              | (Inr base, tr1) \<Rightarrow>
                  (case mmap env (- 1) 0 (unat ringLen) tr1 of
                     (Inl e, tr2) \<Rightarrow> Some (Inl (Mmap_pbuf_ring e), snd (munmap env base (unat dataLen) tr2))
                   | (Inr ring, tr2) \<Rightarrow>
                       let errno = sys_register_pbuf env tr2 fd ring capacity bgid in
                       if errno \<noteq> 0 then
                         Some (Inl (Register_pbuf_ring errno),
                           snd (munmap env base (unat dataLen) (snd (munmap env ring (unat ringLen) tr2))))
                       else
                         map_option (\<lambda>p. (Inr (storeTailRelease (ucast capacity) p), tr2 @ [RingRegistered fd bgid]))
                           (fill_ring 0 (unat capacity) (new_pbr fd bgid capacity bufSize base ring)))))"

section \<open>The tail store\<close>

lemma tail_word_bits:
  "ucast ((ucast (b :: u16) OR push_bit 16 (ucast (t :: u16)) :: u32) AND NOT (push_bit 16 65535) OR
     push_bit 16 (ucast (v :: u16))) = b"
  "ucast (drop_bit 16 ((ucast (b :: u16) OR push_bit 16 (ucast (t :: u16)) :: u32) AND NOT (push_bit 16 65535) OR
     push_bit 16 (ucast (v :: u16)))) = v"
  "ucast ((ucast (t :: u16) OR push_bit 16 (ucast (a :: u64)) :: u32) AND NOT 65535 OR ucast (v :: u16)) = v"
  "(a AND NOT (mask 16)) OR
     ucast (drop_bit 16 ((ucast (t :: u16) OR push_bit 16 (ucast (a :: u64)) :: u32) AND NOT 65535 OR ucast (v :: u16))) = a"
proof -
  have m: "(65535 :: u32) = mask 16" by (simp add: mask_eq_exp_minus_1)
  show "ucast ((ucast b OR push_bit 16 (ucast t) :: u32) AND NOT (push_bit 16 65535) OR
     push_bit 16 (ucast v)) = b"
    unfolding m by (rule bit_word_eqI) (auto simp: bit_simps)
  show "ucast (drop_bit 16 ((ucast b OR push_bit 16 (ucast t) :: u32) AND NOT (push_bit 16 65535) OR
     push_bit 16 (ucast v))) = v"
    unfolding m by (rule bit_word_eqI) (auto simp: bit_simps)
  show "ucast ((ucast t OR push_bit 16 (ucast a) :: u32) AND NOT 65535 OR ucast v) = v"
    unfolding m by (rule bit_word_eqI) (auto simp: bit_simps)
  show "(a AND NOT (mask 16)) OR
     ucast (drop_bit 16 ((ucast t OR push_bit 16 (ucast a) :: u32) AND NOT 65535 OR ucast v)) = a"
    unfolding m by (rule bit_word_eqI) (auto simp: bit_simps dest: bit_imp_le_length)
qed

text \<open>Whatever the alignment, only the 16 bits of the tail change.\<close>

lemma storeTailRelease_eq:
  "storeTailRelease v p = p\<lparr>pb_ring := (pb_ring p)[0 := (pb_ring p ! 0)\<lparr>be_Resv := v\<rparr>]\<rparr>"
proof -
  have e1: "(pb_ring p)[0 := x, 1 := (pb_ring p ! 1)\<lparr>be_Addr := be_Addr (pb_ring p ! 1)\<rparr>] = (pb_ring p)[0 := x]" for x
    by (subst list_update_swap) simp_all
  show ?thesis
  proof (cases "pb_ringPtr p + pbufRingTailOffset AND 3 = 0")
    case True
    show ?thesis
      by (simp only: storeTailRelease_def Let_def tail_word_def set_tail_word_def True simp_thms if_True
          push_bit_0_id id_apply tail_word_bits e1)
  next
    case False
    show ?thesis
      by (simp only: storeTailRelease_def Let_def tail_word_def set_tail_word_def False simp_thms if_False
          tail_word_bits) simp
  qed
qed

section \<open>Views and well-formedness\<close>

text \<open>
  A descriptor as the kernel reads it, the buffers published between the kernel's head
  \<open>h\<close> and the tail, and the state \<open>RegisterBufferRing\<close> leaves: \<open>2 ^ k\<close> equal
  chunks of the data block, and every published descriptor describes the buffer it names.
\<close>

definition descr :: "bufEntry \<Rightarrow> u64 \<times> u32 \<times> u16" where
  "descr e = (be_Addr e, be_Len e, be_BID e)"

definition pb_descrs :: "ProvidedBufferRing \<Rightarrow> (u64 \<times> u32 \<times> u16) list" where
  "pb_descrs p = map descr (take (unat (pb_capacity p)) (pb_ring p))"

definition pb_count :: "u16 \<Rightarrow> ProvidedBufferRing \<Rightarrow> nat" where
  "pb_count h p = unat (ringTail p - h)"

definition pb_pending :: "u16 \<Rightarrow> ProvidedBufferRing \<Rightarrow> (u64 \<times> u32 \<times> u16) list" where
  "pb_pending h p = ring_list (pb_descrs p) (unat h) (pb_count h p)"

definition pb_bids :: "u16 \<Rightarrow> ProvidedBufferRing \<Rightarrow> u16 list" where
  "pb_bids h p = map (\<lambda>d. snd (snd d)) (pb_pending h p)"

definition pbr_ok :: "nat \<Rightarrow> ProvidedBufferRing \<Rightarrow> bool" where
  "pbr_ok k p \<longleftrightarrow> k \<le> 15 \<and> unat (pb_capacity p) = 2 ^ k \<and> pb_mask p = mask k \<and>
     0 < unat (pb_bufSize p) \<and> length (pb_bufPointers p) = 2 ^ k \<and> 2 ^ k \<le> length (pb_ring p) \<and>
     unat (pb_basePtr p) + 2 ^ k * unat (pb_bufSize p) < 2 ^ 64 \<and>
     (\<forall>i < 2 ^ k. pb_bufPointers p ! i = pb_basePtr p + of_nat (i * unat (pb_bufSize p)))"

definition buffer_descr :: "ProvidedBufferRing \<Rightarrow> u16 \<Rightarrow> u64 \<times> u32 \<times> u16" where
  "buffer_descr p b = (pb_bufPointers p ! unat b, pb_bufSize p, b)"

definition pb_valid :: "nat \<Rightarrow> u16 \<Rightarrow> ProvidedBufferRing \<Rightarrow> bool" where
  "pb_valid k h p \<longleftrightarrow> pbr_ok k p \<and> pb_count h p \<le> 2 ^ k \<and>
     list_all (\<lambda>b. unat b < 2 ^ k) (pb_bids h p) \<and> pb_pending h p = map (buffer_descr p) (pb_bids h p)"

lemma length_pb_bids [simp]: "length (pb_bids h p) = pb_count h p"
  by (simp add: pb_bids_def pb_pending_def)

lemma pb_count_less: "pb_count h p < 2 ^ 16"
  unfolding pb_count_def using unsigned_less [of "ringTail p - h"] by simp

text \<open>The stores of one release, on the descriptors and the tail.\<close>

lemma ReleaseBuffer_effect:
  assumes ok: "pbr_ok k p" and b: "unat b < 2 ^ k"
  shows "\<exists>p'. ReleaseBuffer b p = Some p' \<and>
    pb_descrs p' = (pb_descrs p)[unat (ringTail p) mod 2 ^ k := buffer_descr p b] \<and>
    ringTail p' = ringTail p + 1 \<and> pbr_ok k p' \<and> p' = p\<lparr>pb_ring := pb_ring p'\<rparr>"
proof -
  let ?j = "unat (ringTail p) mod 2 ^ k"
  let ?e = "(pb_ring p ! ?j)\<lparr>be_Addr := pb_bufPointers p ! unat b, be_Len := pb_bufSize p, be_BID := b\<rparr>"
  let ?r1 = "(pb_ring p)[?j := ?e]"
  let ?r2 = "?r1[0 := (?r1 ! 0)\<lparr>be_Resv := ringTail p + 1\<rparr>]"
  have shape: "unat (pb_capacity p) = 2 ^ k" "pb_mask p = mask k" "length (pb_bufPointers p) = 2 ^ k"
    "2 ^ k \<le> length (pb_ring p)" using ok by (auto simp: pbr_ok_def)
  have "?j < 2 ^ k" by simp
  then have j: "?j < length (pb_ring p)" using shape(4) by (rule less_le_trans)
  have ne: "pb_ring p \<noteq> []" using j by auto
  have idx: "unat (ucast (ringTail p) AND pb_mask p :: u32) = ?j"
    unfolding shape(2) by (simp add: unat_and_mask unat_ucast_up)
  have step: "ucast (ucast (ringTail p) + 1 :: u32) = ringTail p + 1"
    by (simp add: ucast_down_add ucast_ucast_same)
  let ?p' = "p\<lparr>pb_ring := ?r2\<rparr>"
  have "ReleaseBuffer b p = Some ?p'"
    using j b shape(3)
    by (simp add: ReleaseBuffer_def Let_def idx step write_entry_def entry_def storeTailRelease_eq not_le)
  moreover have "map descr ?r2 = map descr ?r1"
  proof (rule nth_equalityI)
    fix i
    assume "i < length (map descr ?r2)"
    then show "map descr ?r2 ! i = map descr ?r1 ! i"
      by (cases "i = 0") (simp_all add: descr_def)
  qed simp
  then have "pb_descrs ?p' = take (2 ^ k) (map descr ?r1)"
    unfolding pb_descrs_def by (simp only: take_map [symmetric]) (simp add: shape)
  then have "pb_descrs ?p' = (pb_descrs p)[?j := buffer_descr p b]"
    by (simp add: pb_descrs_def shape take_map map_update take_update_swap descr_def buffer_descr_def)
  moreover have "ringTail ?p' = ringTail p + 1" using ne by (simp add: ringTail_def)
  moreover have "pbr_ok k ?p'" using ok by (simp add: pbr_ok_def)
  ultimately show ?thesis by (intro exI [of _ ?p']) simp
qed

lemma ReleaseBuffer_valid:
  assumes v: "pb_valid k h p" and b: "unat b < 2 ^ k" and room: "pb_count h p < 2 ^ k"
  shows "\<exists>p'. ReleaseBuffer b p = Some p' \<and> pb_valid k h p' \<and> pb_bids h p' = pb_bids h p @ [b] \<and>
    pb_count h p' = Suc (pb_count h p) \<and> p' = p\<lparr>pb_ring := pb_ring p'\<rparr>"
proof -
  have ok: "pbr_ok k p" and k: "k \<le> 15" using v by (auto simp: pb_valid_def pbr_ok_def)
  obtain p' where p': "ReleaseBuffer b p = Some p'" "ringTail p' = ringTail p + 1" "pbr_ok k p'"
      "pb_descrs p' = (pb_descrs p)[unat (ringTail p) mod 2 ^ k := buffer_descr p b]"
      "p' = p\<lparr>pb_ring := pb_ring p'\<rparr>"
    using ReleaseBuffer_effect [OF ok b] by blast
  have same: "pb_bufPointers p' = pb_bufPointers p" "pb_bufSize p' = pb_bufSize p"
    by (subst p'(5), simp)+
  have len: "length (pb_descrs p) = 2 ^ k" using ok by (simp add: pb_descrs_def pbr_ok_def)
  have "(2::nat) ^ k \<le> 2 ^ 15" using k by (intro power_increasing) auto
  then have "pb_count h p + 1 < 2 ^ LENGTH(16)" using room by simp
  then have cnt: "pb_count h p' = Suc (pb_count h p)"
    unfolding pb_count_def p'(2) by (rule unat_dist_Suc)
  have "ringTail p = h + (ringTail p - h)" by simp
  then have "unat (ringTail p) mod 2 ^ k = (unat h + pb_count h p) mod 2 ^ k"
    using unat_add_mod_exp [of k h "ringTail p - h"] k by (simp add: pb_count_def)
  then have pend: "pb_pending h p' = pb_pending h p @ [buffer_descr p b]"
    using ring_list_snoc [of "pb_count h p" "pb_descrs p" "unat h" "buffer_descr p b"] room len
    by (simp add: pb_pending_def cnt p'(4))
  moreover have "buffer_descr p' = buffer_descr p" by (simp add: buffer_descr_def same fun_eq_iff)
  ultimately have "pb_valid k h p'"
    using v p'(3) cnt room b by (simp add: pb_valid_def pb_bids_def buffer_descr_def)
  then show ?thesis using p'(1,5) pend cnt by (simp add: pb_bids_def buffer_descr_def)
qed

text \<open>The kernel consumes by advancing its head.\<close>

lemma pb_advance:
  assumes v: "pb_valid k h p" and n: "n \<le> pb_count h p"
  shows "pb_valid k (h + of_nat n) p" and "pb_bids (h + of_nat n) p = drop n (pb_bids h p)"
    and "pb_count (h + of_nat n) p = pb_count h p - n"
proof -
  have k: "k \<le> LENGTH(16)" and len: "length (pb_descrs p) = 2 ^ k"
    using v by (auto simp: pb_valid_def pbr_ok_def pb_descrs_def)
  show cnt: "pb_count (h + of_nat n) p = pb_count h p - n"
    unfolding pb_count_def by (rule unat_dist_drop) (use n in \<open>simp add: pb_count_def\<close>)
  have "unat (h + of_nat n) mod 2 ^ k = (unat h + n) mod 2 ^ k" by (rule unat_word_plus_nat_mod [OF k])
  then have "pb_pending (h + of_nat n) p = ring_list (pb_descrs p) (unat h + n) (pb_count h p - n)"
    using ring_list_mod [of "pb_descrs p"] len unfolding pb_pending_def cnt by metis
  then have pend: "pb_pending (h + of_nat n) p = drop n (pb_pending h p)"
    using ring_list_drop [OF n] by (simp add: pb_pending_def)
  then show bids: "pb_bids (h + of_nat n) p = drop n (pb_bids h p)" by (simp add: pb_bids_def drop_map)
  show "pb_valid k (h + of_nat n) p"
    using v cnt n by (auto simp: pb_valid_def pend bids drop_map list_all_iff dest: in_set_dropD)
qed

section \<open>Buffers and views\<close>

lemma pbr_pointer:
  assumes ok: "pbr_ok k p" and i: "i < 2 ^ k"
  shows "unat (pb_bufPointers p ! i) = unat (pb_basePtr p) + i * unat (pb_bufSize p)"
    and "pb_bufPointers p ! i - pb_basePtr p = of_nat (i * unat (pb_bufSize p))"
    and "unat (pb_bufPointers p ! i - pb_basePtr p) = i * unat (pb_bufSize p)"
    and "i * unat (pb_bufSize p) < 2 ^ k * unat (pb_bufSize p)"
proof -
  have ptr: "pb_bufPointers p ! i = pb_basePtr p + of_nat (i * unat (pb_bufSize p))"
    and top: "unat (pb_basePtr p) + 2 ^ k * unat (pb_bufSize p) < 2 ^ 64" and pos: "0 < unat (pb_bufSize p)"
    using ok i by (auto simp: pbr_ok_def)
  have top': "unat (pb_basePtr p) + 2 ^ k * unat (pb_bufSize p) < 2 ^ LENGTH(64)" using top by simp
  show less: "i * unat (pb_bufSize p) < 2 ^ k * unat (pb_bufSize p)" using i pos by simp
  then show "unat (pb_bufPointers p ! i) = unat (pb_basePtr p) + i * unat (pb_bufSize p)"
    unfolding ptr using top' by (intro unat_add_small) linarith
  show eq: "pb_bufPointers p ! i - pb_basePtr p = of_nat (i * unat (pb_bufSize p))" unfolding ptr by simp
  show "unat (pb_bufPointers p ! i - pb_basePtr p) = i * unat (pb_bufSize p)"
    unfolding eq using less top' by (intro unat_of_nat_small) linarith
qed

lemma pbr_data_len:
  assumes ok: "pbr_ok k p"
  shows "unat (ucast (pb_capacity p) * ucast (pb_bufSize p) :: u64) = 2 ^ k * unat (pb_bufSize p)"
proof -
  have "2 ^ k * unat (pb_bufSize p) < 2 ^ 64" and c: "unat (pb_capacity p) = 2 ^ k"
    using ok by (auto simp: pbr_ok_def)
  then show ?thesis by (simp add: unat_word_ariths unat_ucast_up)
qed

lemma ReleaseView_hit:
  assumes ok: "pbr_ok k p" and b: "unat (b :: u16) < 2 ^ k"
  shows "ReleaseView (pb_bufPointers p ! unat b) p = map_option Inr (ReleaseBuffer b p)"
proof -
  note ptr = pbr_pointer [OF ok b]
  let ?off = "pb_bufPointers p ! unat b - pb_basePtr p"
  have ge: "\<not> pb_bufPointers p ! unat b < pb_basePtr p" by (simp add: word_less_nat_alt ptr(1))
  have inside: "\<not> ucast (pb_capacity p) * ucast (pb_bufSize p) \<le> ?off"
    unfolding word_le_nat_alt ptr(3) pbr_data_len [OF ok] using ptr(4) by simp
  have nz: "pb_bufSize p \<noteq> 0" using ok by (auto simp: pbr_ok_def)
  have mod0: "?off mod ucast (pb_bufSize p) = 0"
    by (simp add: word_unat_eq_iff unat_mod_distrib ptr(3) unat_ucast_up)
  have "unat (?off div ucast (pb_bufSize p)) = unat b"
    using ok by (simp add: unat_div_distrib ptr(3) pbr_ok_def unat_ucast_up)
  moreover have "unat b < 2 ^ LENGTH(16)" by (rule unsigned_less)
  ultimately have "ucast (?off div ucast (pb_bufSize p)) = b"
    by (simp add: word_unat_eq_iff unat_ucast_mod)
  then show ?thesis using ge inside nz mod0 by (simp add: ReleaseView_def Let_def)
qed

lemma ReleaseView_miss:
  assumes ok: "pbr_ok k p" and foreign: "ptr \<notin> set (pb_bufPointers p)"
  shows "ReleaseView ptr p = Some (Inl Foreign_view)"
proof (rule ccontr)
  assume not: "ReleaseView ptr p \<noteq> Some (Inl Foreign_view)"
  let ?off = "ptr - pb_basePtr p" and ?n = "unat (pb_bufSize p)"
  have nz: "pb_bufSize p \<noteq> 0" using ok by (auto simp: pbr_ok_def)
  then have ge: "\<not> ptr < pb_basePtr p" and inside: "\<not> ucast (pb_capacity p) * ucast (pb_bufSize p) \<le> ?off"
    and mod0: "?off mod ucast (pb_bufSize p) = 0"
    using not by (auto simp: ReleaseView_def Let_def split: if_splits)
  have "unat ?off < 2 ^ k * ?n" using inside unfolding word_le_nat_alt pbr_data_len [OF ok] by simp
  moreover have "?n dvd unat ?off"
    using mod0 by (simp add: word_unat_eq_iff unat_mod_distrib mod_eq_0_iff_dvd unat_ucast_up)
  then obtain i where i: "unat ?off = i * ?n" by (metis dvdE mult.commute)
  ultimately have "i < 2 ^ k" by simp
  moreover have "ptr = pb_basePtr p + of_nat (i * ?n)"
    by (metis i add_diff_cancel_left' diff_add_cancel add.commute ucast_id of_nat_unat)
  ultimately have "ptr = pb_bufPointers p ! i" and "i < length (pb_bufPointers p)"
    using ok by (auto simp: pbr_ok_def)
  then show False using foreign by simp
qed

section \<open>Replenishing\<close>

text \<open>
  After the kernel has consumed \<open>n > 0\<close> of the pending buffers, the descriptor before
  its head is the last one consumed, and that buffer is published again.
\<close>

lemma ReplenishOne_last:
  assumes v: "pb_valid k h p" and n: "0 < n" "n \<le> pb_count h p"
    and status: "sys_pbuf_status env tr (pb_fd p) (pb_bgid p) = Inr (ucast (h + of_nat n :: u16))"
  shows "\<exists>p'. ReplenishOne env tr p = Some (None, p') \<and> pb_valid k (h + of_nat n) p' \<and>
    pb_bids (h + of_nat n) p' = drop n (pb_bids h p) @ [pb_bids h p ! (n - 1)]"
proof -
  let ?h = "h + of_nat n"
  have k: "k \<le> 15" and cap: "unat (pb_capacity p) = 2 ^ k" and msk: "pb_mask p = mask k"
    and len: "2 ^ k \<le> length (pb_ring p)" and cnt: "pb_count h p \<le> 2 ^ k"
    using v by (auto simp: pb_valid_def pbr_ok_def)
  note adv = pb_advance [OF v n(2)]
  have room: "pb_count ?h p < 2 ^ k" using adv(3) n cnt by simp
  have "ucast (ucast (ringTail p) - ucast ?h :: u32) = ringTail p - ?h"
    by (simp add: ucast_down_diff ucast_ucast_same)
  then have avail: "unat (ucast (ucast (ucast (ringTail p) - ucast ?h :: u32) :: u16) :: u32) = pb_count ?h p"
    by (simp add: pb_count_def unat_ucast_up)
  then have notfull: "ucast (ucast (ucast (ringTail p) - ucast ?h :: u32) :: u16) \<noteq> pb_capacity p"
    using room cap by (auto dest!: arg_cong [of _ _ unat])
  let ?i = "(unat h + (n - 1)) mod 2 ^ k"
  have "unat ((ucast ?h - 1) AND pb_mask p :: u32) = unat (ucast ?h - 1 :: u32) mod 2 ^ k"
    by (simp add: msk unat_and_mask)
  also have "\<dots> = unat (ucast (ucast ?h - 1 :: u32) :: u16) mod 2 ^ k"
    unfolding unat_ucast_mod by (rule mod_mod_cancel [symmetric]) (use k in \<open>simp only: len_num1 len_bit0 le_imp_power_dvd\<close>)
  also have "ucast (ucast ?h - 1 :: u32) = (?h - 1 :: u16)"
    by (simp add: ucast_down_diff ucast_ucast_same)
  also have "?h - 1 = h + of_nat (n - 1)" using n by (simp add: of_nat_diff)
  also have "unat \<dots> mod 2 ^ k = ?i" by (rule unat_word_plus_nat_mod) (use k in simp)
  finally have idx: "unat ((ucast ?h - 1) AND pb_mask p :: u32) = ?i" .
  have il: "?i < length (pb_ring p)" by (rule less_le_trans [OF _ len]) simp
  have dl: "length (pb_descrs p) = 2 ^ k" using len cap by (simp add: pb_descrs_def)
  have "pb_bids h p ! (n - 1) = snd (snd (pb_pending h p ! (n - 1)))"
    using n by (simp add: pb_bids_def pb_pending_def)
  also have "pb_pending h p ! (n - 1) = pb_descrs p ! ?i"
    using n by (simp add: pb_pending_def nth_ring_list dl)
  finally have bid: "be_BID (pb_ring p ! ?i) = pb_bids h p ! (n - 1)"
    using len cap by (simp add: pb_descrs_def descr_def)
  have small: "unat (pb_bids h p ! (n - 1)) < 2 ^ k"
    using v n by (simp add: pb_valid_def list_all_length)
  obtain p' where p': "ReleaseBuffer (pb_bids h p ! (n - 1)) p = Some p'" "pb_valid k ?h p'"
      "pb_bids ?h p' = pb_bids ?h p @ [pb_bids h p ! (n - 1)]"
    using ReleaseBuffer_valid [OF adv(1) small room] by blast
  have "ReplenishOne env tr p = Some (None, p')"
    using status notfull idx il bid p'(1)
    by (simp add: ReplenishOne_def Let_def entry_def)
  then show ?thesis using p' adv(2) by simp
qed

section \<open>Registration\<close>

text \<open>After \<open>i\<close> rounds of the fill loop on the fresh ring \<open>q\<close>.\<close>

definition filled :: "ProvidedBufferRing \<Rightarrow> nat \<Rightarrow> ProvidedBufferRing \<Rightarrow> bool" where
  "filled q i p \<longleftrightarrow> p = q\<lparr>pb_bufPointers := pb_bufPointers p, pb_ring := pb_ring p\<rparr> \<and>
     length (pb_bufPointers p) = length (pb_bufPointers q) \<and> length (pb_ring p) = length (pb_ring q) \<and>
     (\<forall>j < i. pb_bufPointers p ! j = pb_basePtr q + of_nat (j * unat (pb_bufSize q)) \<and>
        descr (pb_ring p ! j) = (pb_basePtr q + of_nat (j * unat (pb_bufSize q)), pb_bufSize q, of_nat j))"

lemma filled_step:
  assumes f: "filled q i p" and i: "i < length (pb_bufPointers q)" "i < length (pb_ring q)"
  shows "\<exists>p'. fill_one i p = Some p' \<and> filled q (Suc i) p'"
proof -
  let ?a = "pb_basePtr q + of_nat (i * unat (pb_bufSize q))"
  let ?p' = "p\<lparr>pb_bufPointers := (pb_bufPointers p)[i := ?a],
    pb_ring := (pb_ring p)[i := (pb_ring p ! i)\<lparr>be_Addr := ?a, be_Len := pb_bufSize q, be_BID := of_nat i\<rparr>]\<rparr>"
  obtain bs rs where p: "p = q\<lparr>pb_bufPointers := bs, pb_ring := rs\<rparr>"
    and len: "length bs = length (pb_bufPointers q)" "length rs = length (pb_ring q)"
    using f unfolding filled_def by blast
  have "fill_one i p = Some ?p'"
    using i len by (simp add: fill_one_def Let_def write_entry_def entry_def not_le p)
  moreover have "filled q (Suc i) ?p'"
    using f i len by (auto simp: p filled_def nth_list_update descr_def less_Suc_eq)
  ultimately show ?thesis by blast
qed

lemma fill_ring_filled:
  "filled q i p \<Longrightarrow> i + n \<le> length (pb_bufPointers q) \<Longrightarrow> i + n \<le> length (pb_ring q) \<Longrightarrow>
   \<exists>p'. fill_ring i n p = Some p' \<and> filled q (i + n) p'"
proof (induction n arbitrary: i p)
  case (Suc n)
  then obtain p1 where p1: "fill_one i p = Some p1" "filled q (Suc i) p1"
    using filled_step [of q i p] by auto
  from Suc.IH [OF p1(2)] Suc.prems p1(1) show ?case by simp
qed simp

text \<open>The accepted arguments, and the fresh ring for them.\<close>

lemma check_ring_args_None:
  assumes "check_ring_args capacity bufSize = None"
  obtains k where "k \<le> 15" and "unat capacity = 2 ^ k" and "capacity = 2 ^ k" and "0 < unat bufSize"
    and "unat bufSize mod 64 = 0"
proof -
  have "ones_count capacity = 1" and "capacity \<le> maxPbufRingEntries" and "bufSize \<noteq> 0" and b: "bufSize AND 63 = 0"
    using assms by (auto simp: check_ring_args_def split: if_splits)
  moreover obtain k where k: "k < LENGTH(32)" "capacity = push_bit k 1"
    using ones_count_1_imp [OF \<open>ones_count capacity = 1\<close>] .
  have cap: "unat capacity = 2 ^ k" using unat_exp_word [OF k(1)] k(2) by simp
  have "unat capacity \<le> unat maxPbufRingEntries"
    using \<open>capacity \<le> maxPbufRingEntries\<close> by (simp only: word_le_nat_alt)
  then have "(2::nat) ^ k \<le> 2 ^ 15" by (simp add: cap maxPbufRingEntries_def)
  then have "k \<le> 15" by (simp only: power_increasing_iff)
  moreover have "0 < unat bufSize" using \<open>bufSize \<noteq> 0\<close> by (simp add: unat_gt_0)
  moreover have "unat (bufSize AND mask 6) = unat bufSize mod 2 ^ 6" by (rule unat_and_mask)
  then have "unat bufSize mod 64 = 0" using b by (simp add: mask_eq_exp_minus_1)
  ultimately show ?thesis using that cap k(2) by simp
qed

lemma ring_bytes:
  assumes "unat (capacity :: u32) = 2 ^ k" and "k \<le> 15"
  shows "16 * 2 ^ k \<le> unat ((ucast capacity * of_nat pbufRingEntrySize + 4095) AND NOT (4095 :: u64))"
    and "unat ((ucast capacity * of_nat pbufRingEntrySize + 4095) AND NOT (4095 :: u64)) < 2 ^ 32"
proof -
  have "(2::nat) ^ k \<le> 2 ^ 15" using assms(2) by (intro power_increasing) auto
  then have c: "unat (ucast capacity * of_nat pbufRingEntrySize + 4095 :: u64) = 16 * 2 ^ k + 4095"
    using assms(1) by (simp add: unat_word_ariths unat_ucast_up pbufRingEntrySize_def)
  have m: "(4095 :: u64) = mask 12" by (simp add: mask_eq_exp_minus_1)
  have "(16 * 2 ^ k :: nat) \<le> (16 * 2 ^ k + 4095) div 2 ^ 12 * 2 ^ 12"
    using dividend_less_times_div [of "2 ^ 12" "16 * 2 ^ k + 4095"] by simp
  then show "16 * 2 ^ k \<le> unat ((ucast capacity * of_nat pbufRingEntrySize + 4095) AND NOT (4095 :: u64))"
    unfolding m unat_and_not_mask unfolding m [symmetric] c .
  have "(16 * 2 ^ k + 4095) div 2 ^ 12 * 2 ^ 12 \<le> (16 * 2 ^ k + 4095 :: nat)"
    by (rule div_times_less_eq_dividend)
  also have "\<dots> < 2 ^ 32" using \<open>(2::nat) ^ k \<le> 2 ^ 15\<close> by simp
  finally show "unat ((ucast capacity * of_nat pbufRingEntrySize + 4095) AND NOT (4095 :: u64)) < 2 ^ 32"
    unfolding m unat_and_not_mask unfolding m [symmetric] c .
qed

text \<open>The ring that filling and publishing leave is well-formed and full.\<close>

lemma filled_valid:
  assumes f: "filled q (2 ^ k) p0" and k: "k \<le> 15"
    and cap: "unat (pb_capacity q) = 2 ^ k" "pb_mask q = mask k" "0 < unat (pb_bufSize q)"
    and len: "length (pb_bufPointers q) = 2 ^ k" "2 ^ k \<le> length (pb_ring q)"
    and room: "unat (pb_basePtr q) + 2 ^ k * unat (pb_bufSize q) < 2 ^ 64"
  defines "p \<equiv> storeTailRelease (ucast (pb_capacity q)) p0"
  shows "pb_valid k 0 p" and "pb_bids 0 p = map of_nat [0..<2 ^ k]"
    and "\<exists>bs rs. p = q\<lparr>pb_bufPointers := bs, pb_ring := rs\<rparr>"
proof -
  let ?a = "\<lambda>j. pb_basePtr q + of_nat (j * unat (pb_bufSize q))"
  let ?t = "ucast (pb_capacity q) :: u16"
  have k2: "(2::nat) ^ k \<le> 2 ^ 15" using k by (intro power_increasing) auto
  obtain bs rs where p0: "p0 = q\<lparr>pb_bufPointers := bs, pb_ring := rs\<rparr>"
    and l: "length bs = 2 ^ k" "length rs = length (pb_ring q)"
    and e: "\<forall>j < 2 ^ k. bs ! j = ?a j \<and> descr (rs ! j) = (?a j, pb_bufSize q, of_nat j)"
    using f len unfolding filled_def by fastforce
  let ?rs = "rs[0 := (rs ! 0)\<lparr>be_Resv := ?t\<rparr>]"
  have p: "p = q\<lparr>pb_bufPointers := bs, pb_ring := ?rs\<rparr>"
    by (simp add: p_def storeTailRelease_eq p0)
  then show "\<exists>bs rs. p = q\<lparr>pb_bufPointers := bs, pb_ring := rs\<rparr>" by blast
  have ok: "pbr_ok k p"
    using k cap len room l e by (simp add: pbr_ok_def p)
  have "rs \<noteq> []" using l len k2 by auto
  then have "ringTail p = ?t" by (simp add: ringTail_def p)
  then have cnt: "pb_count 0 p = 2 ^ k" using k2 by (simp add: pb_count_def unat_ucast_mod cap)
  have "descr (?rs ! j) = (?a j, pb_bufSize q, of_nat j)" if "j < 2 ^ k" for j
  proof -
    have "descr (?rs ! j) = descr (rs ! j)" by (cases "j = 0"; cases "rs = []") (simp_all add: descr_def)
    then show ?thesis using e that by simp
  qed
  then have d: "pb_descrs p = map (\<lambda>j. (?a j, pb_bufSize q, of_nat j)) [0..<2 ^ k]"
    by (intro nth_equalityI) (use len l in \<open>simp_all add: pb_descrs_def p cap min_absorb2\<close>)
  have pend: "pb_pending 0 p = pb_descrs p"
    using ring_list_all [of "pb_descrs p"] by (simp add: pb_pending_def cnt d)
  then show bids: "pb_bids 0 p = map of_nat [0..<2 ^ k]" by (simp add: pb_bids_def d)
  have small: "unat (of_nat j :: u16) = j" if "j < 2 ^ k" for j
    by (rule unat_of_nat_small) (use that k2 in simp)
  have "buffer_descr p (of_nat j) = (?a j, pb_bufSize q, of_nat j)" if "j < 2 ^ k" for j
    using that e by (simp add: buffer_descr_def small p)
  then show "pb_valid k 0 p"
    using ok cnt small by (simp add: pb_valid_def bids pend d list_all_iff)
qed

lemma RegisterBufferRing_cases:
  assumes "RegisterBufferRing env fd bgid capacity bufSize tr = Some (Inr p, tr')"
  obtains base ring p0 where "check_ring_args capacity bufSize = None"
    and "sys_mmap env tr (- 1) 0 (unat (ucast capacity * ucast bufSize :: u64)) = Inr base"
    and "fill_ring 0 (unat capacity) (new_pbr fd bgid capacity bufSize base ring) = Some p0"
    and "p = storeTailRelease (ucast capacity) p0"
    and "tr' = ((tr @ [Mapped base (unat (ucast capacity * ucast bufSize :: u64))]) @
      [Mapped ring (unat ((ucast capacity * of_nat pbufRingEntrySize + 4095) AND NOT (4095 :: u64)))]) @
      [RingRegistered fd bgid]"
proof -
  let ?dl = "unat (ucast capacity * ucast bufSize :: u64)"
  let ?rl = "unat ((ucast capacity * of_nat pbufRingEntrySize + 4095) AND NOT (4095 :: u64))"
  have args: "check_ring_args capacity bufSize = None"
    using assms by (auto simp: RegisterBufferRing_def split: option.splits)
  note reg = assms [unfolded RegisterBufferRing_def Let_def args option.case]
  obtain base tr1 where m1: "mmap env (- 1) 0 ?dl tr = (Inr base, tr1)"
    using reg by (cases "mmap env (- 1) 0 ?dl tr" rule: prod.exhaust) (auto split: sum.splits)
  note reg = reg [unfolded m1 prod.case sum.case]
  obtain ring tr2 where m2: "mmap env (- 1) 0 ?rl tr1 = (Inr ring, tr2)"
    using reg by (cases "mmap env (- 1) 0 ?rl tr1" rule: prod.exhaust) (auto split: sum.splits)
  note reg = reg [unfolded m2 prod.case sum.case]
  obtain p0 where "fill_ring 0 (unat capacity) (new_pbr fd bgid capacity bufSize base ring) = Some p0"
    and "p = storeTailRelease (ucast capacity) p0" and "tr' = tr2 @ [RingRegistered fd bgid]"
    using reg by (auto split: if_splits)
  then show thesis
    using that [OF args mmap_Inr(2) [OF m1]] mmap_Inr(1) [OF m1] mmap_Inr(1) [OF m2] by blast
qed

lemma RegisterBufferRing_success:
  assumes reg: "RegisterBufferRing env fd bgid capacity bufSize tr = Some (Inr p, tr')"
    and fresh: "mmap_fresh env"
  shows "\<exists>k. pb_valid k 0 p \<and> unat capacity = 2 ^ k \<and> pb_bids 0 p = map of_nat [0..<2 ^ k] \<and>
    live_maps tr' = live_maps tr @ [(pb_basePtr p, pb_dataLen p), (pb_ringPtr p, unat (pb_ringLength p))] \<and>
    \<not> pb_closed p \<and> pb_fd p = fd \<and> pb_bgid p = bgid \<and> pb_bufSize p = bufSize"
proof -
  let ?dl = "unat (ucast capacity * ucast bufSize :: u64)"
  let ?rl = "unat ((ucast capacity * of_nat pbufRingEntrySize + 4095) AND NOT (4095 :: u64))"
  obtain base ring p0 where args: "check_ring_args capacity bufSize = None"
    and m: "sys_mmap env tr (- 1) 0 ?dl = Inr base"
    and fill: "fill_ring 0 (unat capacity) (new_pbr fd bgid capacity bufSize base ring) = Some p0"
    and p: "p = storeTailRelease (ucast capacity) p0"
    and tr': "tr' = ((tr @ [Mapped base ?dl]) @ [Mapped ring ?rl]) @ [RingRegistered fd bgid]"
    using RegisterBufferRing_cases [OF reg] .
  let ?q = "new_pbr fd bgid capacity bufSize base ring"
  obtain k where k: "k \<le> 15" "unat capacity = 2 ^ k" "capacity = 2 ^ k" "0 < unat bufSize"
    using check_ring_args_None [OF args] by blast
  have q: "pb_capacity ?q = capacity" "pb_mask ?q = mask k" "pb_bufSize ?q = bufSize" "pb_basePtr ?q = base"
    "length (pb_bufPointers ?q) = 2 ^ k" "length (pb_ring ?q) = ?rl div 16" "pb_dataLen ?q = ?dl"
    "pb_ringPtr ?q = ring" "pb_ringLength ?q = ucast ((ucast capacity * of_nat pbufRingEntrySize + 4095) AND NOT (4095 :: u64))"
    "pb_closed ?q = False" "pb_fd ?q = fd" "pb_bgid ?q = bgid"
    using k by (simp_all add: new_pbr_def Let_def mask_eq_minus_1 pbufRingEntrySize_def)
  have size: "unat bufSize < 2 ^ LENGTH(32)" by (rule unsigned_less)
  have "2 ^ k * unat bufSize \<le> 2 ^ 15 * 2 ^ 32"
    using k(1) size by (intro mult_mono power_increasing) auto
  then have dl: "?dl = 2 ^ k * unat bufSize" using k by (simp add: unat_word_ariths unat_ucast_up)
  have rl: "16 * 2 ^ k \<le> ?rl" "?rl < 2 ^ 32" using ring_bytes [OF k(2,1)] by simp_all
  have room: "unat base + 2 ^ k * unat bufSize < 2 ^ 64"
    using fresh m unfolding mmap_fresh_def dl by blast
  have "filled ?q 0 ?q" by (simp add: filled_def)
  moreover have "0 + 2 ^ k \<le> length (pb_ring ?q)" using rl(1) q by simp
  ultimately have f: "filled ?q (2 ^ k) p0"
    using fill_ring_filled [of ?q 0 ?q "2 ^ k"] fill q k(2) by simp
  have v: "pb_valid k 0 p" "pb_bids 0 p = map of_nat [0..<2 ^ k]"
      "\<exists>bs rs. p = ?q\<lparr>pb_bufPointers := bs, pb_ring := rs\<rparr>"
    using filled_valid [OF f k(1)] k rl room unfolding q p by simp_all
  have "unat (pb_ringLength ?q) = ?rl" using rl(2) by (simp add: q unat_ucast_mod)
  then show ?thesis using v k(2) q by (intro exI [of _ k]) (auto simp: tr')
qed

text \<open>A registration that fails leaves nothing mapped.\<close>

lemma RegisterBufferRing_failure:
  assumes reg: "RegisterBufferRing env fd bgid capacity bufSize tr = Some (Inl e, tr')"
    and fresh: "mmap_fresh env" and un: "munmap_live env"
  shows "live_maps tr' = live_maps tr"
proof (cases "check_ring_args capacity bufSize")
  case (Some e')
  then show ?thesis using reg by (simp add: RegisterBufferRing_def)
next
  case None
  let ?dl = "unat (ucast capacity * ucast bufSize :: u64)"
  let ?rl = "unat ((ucast capacity * of_nat pbufRingEntrySize + 4095) AND NOT (4095 :: u64))"
  note reg = reg [unfolded RegisterBufferRing_def Let_def None option.case]
  show ?thesis
  proof (cases "sys_mmap env tr (- 1) 0 ?dl")
    case (Inl e1)
    then show ?thesis using reg by (simp add: mmap_def)
  next
    case (Inr base)
    have b: "base \<notin> fst ` set (live_maps tr)" using fresh Inr unfolding mmap_fresh_def by blast
    have m1: "mmap env (- 1) 0 ?dl tr = (Inr base, tr @ [Mapped base ?dl])" using Inr by (simp only: mmap_def sum.case)
    note reg = reg [unfolded m1 prod.case sum.case]
    let ?t1 = "tr @ [Mapped base ?dl]"
    show ?thesis
    proof (cases "sys_mmap env ?t1 (- 1) 0 ?rl")
      case (Inl e1)
      then have "mmap env (- 1) 0 ?rl ?t1 = (Inl e1, ?t1)" by (simp only: mmap_def sum.case)
      moreover have "munmap env base ?dl ?t1 = (0, ?t1 @ [Unmapped base ?dl])"
        by (rule munmap_success [OF un]) simp
      moreover have "(base, ?dl) \<notin> set (live_maps tr)" using b by force
      ultimately show ?thesis using reg by (auto simp: remove1_append)
    next
      case (Inr ring)
      have r: "ring \<notin> fst ` set (live_maps ?t1)" using fresh Inr unfolding mmap_fresh_def by blast
      let ?t2 = "?t1 @ [Mapped ring ?rl]"
      have m2: "mmap env (- 1) 0 ?rl ?t1 = (Inr ring, ?t2)" using Inr by (simp only: mmap_def sum.case)
      note reg = reg [unfolded m2 prod.case sum.case]
      have u1: "munmap env ring ?rl ?t2 = (0, ?t2 @ [Unmapped ring ?rl])"
        by (rule munmap_success [OF un]) simp
      have l2: "live_maps (?t2 @ [Unmapped ring ?rl]) = live_maps ?t1"
        using r by (simp only: live_maps_snoc) (auto simp: remove1_append image_iff)
      have u2: "munmap env base ?dl (?t2 @ [Unmapped ring ?rl]) =
          (0, (?t2 @ [Unmapped ring ?rl]) @ [Unmapped base ?dl])"
        by (rule munmap_success [OF un]) (simp only: l2, simp)
      have "tr' = (?t2 @ [Unmapped ring ?rl]) @ [Unmapped base ?dl]"
        using reg by (simp only: u1 u2 snd_conv) (auto split: if_splits)
      moreover have "(base, ?dl) \<notin> set (live_maps tr)" using b by force
      moreover have "(ring, ?rl) \<notin> set (live_maps tr)" "ring \<noteq> base" using r by force+
      ultimately show ?thesis by (simp add: remove1_append)
    qed
  qed
qed

lemma Unregister_releases:
  assumes maps: "live_maps tr = ms @ [(pb_basePtr p, pb_dataLen p), (pb_ringPtr p, unat (pb_ringLength p))]"
    and dist: "distinct (map fst (live_maps tr))"
    and un: "munmap_live env" and open1: "\<not> pb_closed p"
    and errno: "sys_unregister_pbuf env tr (pb_fd p) (pb_bgid p) = 0"
  shows "\<exists>tr'. Unregister env tr p = ((None, p\<lparr>pb_closed := True\<rparr>), tr') \<and> live_maps tr' = ms"
proof -
  let ?d = "(pb_basePtr p, pb_dataLen p)" and ?r = "(pb_ringPtr p, unat (pb_ringLength p))"
  have notin: "?d \<notin> set ms" "?r \<notin> set ms" "?d \<noteq> ?r" using dist unfolding maps by force+
  let ?t1 = "tr @ [RingUnregistered (pb_fd p) (pb_bgid p)]"
  have u1: "munmap env (pb_ringPtr p) (unat (pb_ringLength p)) ?t1 =
      (0, ?t1 @ [Unmapped (pb_ringPtr p) (unat (pb_ringLength p))])"
    by (rule munmap_success [OF un]) (simp add: maps)
  let ?t2 = "?t1 @ [Unmapped (pb_ringPtr p) (unat (pb_ringLength p))]"
  have l2: "live_maps ?t2 = ms @ [?d]" using notin by (simp add: maps remove1_append)
  have u2: "munmap env (pb_basePtr p) (pb_dataLen p) ?t2 = (0, ?t2 @ [Unmapped (pb_basePtr p) (pb_dataLen p)])"
    by (rule munmap_success [OF un]) (simp only: l2, simp)
  have "live_maps (?t2 @ [Unmapped (pb_basePtr p) (pb_dataLen p)]) = ms"
    using notin by (simp add: maps remove1_append)
  moreover have "Unregister env tr p =
      ((None, p\<lparr>pb_closed := True\<rparr>), ?t2 @ [Unmapped (pb_basePtr p) (pb_dataLen p)])"
    unfolding Unregister_def Let_def
    by (simp only: open1 errno u1 u2 prod.case simp_thms if_False if_True)
  ultimately show ?thesis by blast
qed

section \<open>Ownership\<close>

text \<open>
  The ring at work: the kernel picks the oldest published buffer (its head advances and
  the buffer belongs to the caller), or a caller hands a buffer it holds back with
  \<open>ReleaseBuffer\<close>.
\<close>

inductive pb_step :: "u16 \<times> u16 list \<times> ProvidedBufferRing \<Rightarrow> u16 \<times> u16 list \<times> ProvidedBufferRing \<Rightarrow> bool" where
  pick: "pb_bids h p = b # bs \<Longrightarrow> pb_step (h, held, p) (h + 1, b # held, p)"
| release: "b \<in> set held \<Longrightarrow> ReleaseBuffer b p = Some p' \<Longrightarrow> pb_step (h, held, p) (h, remove1 b held, p')"

inductive_cases pb_step_cases: "pb_step (h, held, p) s"

definition pb_owned :: "nat \<Rightarrow> u16 \<times> u16 list \<times> ProvidedBufferRing \<Rightarrow> bool" where
  "pb_owned k s = (case s of (h, held, p) \<Rightarrow>
     pb_valid k h p \<and> mset (pb_bids h p) + mset held = mset (map of_nat [0..<2 ^ k]))"

lemma all_bids:
  assumes "k \<le> 15"
  shows "distinct (map of_nat [0..<2 ^ k] :: u16 list)"
    and "set (map of_nat [0..<2 ^ k] :: u16 list) = {b. unat b < 2 ^ k}"
proof -
  have k: "(2::nat) ^ k \<le> 2 ^ 15" using assms by (intro power_increasing) auto
  have small: "unat (of_nat j :: u16) = j" if "j < 2 ^ k" for j
    by (rule unat_of_nat_small) (use that k in simp)
  have "inj_on (of_nat :: nat \<Rightarrow> u16) {0..<2 ^ k}"
    by (rule inj_on_inverseI [where g = unat]) (simp add: small)
  then show "distinct (map of_nat [0..<2 ^ k] :: u16 list)" by (simp add: distinct_map)
  show "set (map of_nat [0..<2 ^ k] :: u16 list) = {b. unat b < 2 ^ k}"
  proof (intro set_eqI iffI)
    fix b :: u16
    assume "b \<in> {b. unat b < 2 ^ k}"
    then have "unat b \<in> set [0..<2 ^ k]" and "b = of_nat (unat b)" by simp_all
    then show "b \<in> set (map of_nat [0..<2 ^ k])" unfolding set_map by (metis imageI)
  qed (auto simp: small)
qed

lemma pb_owned_held:
  assumes "pb_owned k (h, held, p)"
  shows "k \<le> 15" and "pb_count h p + length held = 2 ^ k" and "distinct (pb_bids h p @ held)"
    and "b \<in> set held \<Longrightarrow> unat b < 2 ^ k"
proof -
  have m: "mset (pb_bids h p @ held) = mset (map of_nat [0..<2 ^ k])"
    using assms by (simp add: pb_owned_def)
  show k: "k \<le> 15" using assms by (auto simp: pb_owned_def pb_valid_def pbr_ok_def)
  show "pb_count h p + length held = 2 ^ k" using arg_cong [OF m, of size] by simp
  show "distinct (pb_bids h p @ held)" using mset_eq_imp_distinct_iff [OF m] all_bids(1) [OF k] by simp
  show "b \<in> set held \<Longrightarrow> unat b < 2 ^ k"
    using arg_cong [OF m, of set_mset] all_bids(2) [OF k] by auto
qed

lemma pb_owned_fresh:
  "pb_valid k 0 p \<Longrightarrow> pb_bids 0 p = map of_nat [0..<2 ^ k] \<Longrightarrow> pb_owned k (0, [], p)"
  unfolding pb_owned_def by simp

lemma pb_owned_valid: "pb_owned k (h, held, p) \<Longrightarrow> pb_valid k h p"
  by (simp add: pb_owned_def)

lemma pb_valid_pending: "pb_valid k h p \<Longrightarrow> pb_pending h p = map (buffer_descr p) (pb_bids h p)"
  by (simp add: pb_valid_def)

lemma pb_owned_step:
  assumes "pb_step s s'" and "pb_owned k s"
  shows "pb_owned k s'"
  using assms
proof (induction rule: pb_step.induct)
  case (pick h p b bs held)
  then have v: "pb_valid k h p" by (simp add: pb_owned_def)
  have "1 \<le> pb_count h p" using pick.hyps length_pb_bids [of h p] by simp
  from pb_advance [OF v this] pick show ?case by (simp add: pb_owned_def)
next
  case (release b held p p' h)
  note own = pb_owned_held [OF release.prems]
  have v: "pb_valid k h p" using release.prems by (simp add: pb_owned_def)
  have "0 < length held" using release.hyps(1) by (cases held) auto
  then have "pb_count h p < 2 ^ k" using own(2) by linarith
  with ReleaseBuffer_valid [OF v own(4) [OF release.hyps(1)]] release.hyps(2)
  have "pb_valid k h p'" "pb_bids h p' = pb_bids h p @ [b]" by auto
  moreover have "mset (pb_bids h p @ [b]) + mset (remove1 b held) = mset (pb_bids h p) + mset held"
    using release.hyps(1) by simp
  ultimately show ?case using release.prems by (simp only: pb_owned_def prod.case)
qed

lemma pb_owned_run:
  assumes "pb_step\<^sup>*\<^sup>* s s'" and "pb_owned k s"
  shows "pb_owned k s'"
  using assms by (induction rule: rtranclp_induct) (auto intro: pb_owned_step)

interpretation pbuf: ring_producer "pb_valid k h" "pb_bids h" "\<lambda>p. 2 ^ k" "\<lambda>b :: u16. unat b < 2 ^ k" ReleaseBuffer for k h
proof unfold_locales
  fix p :: ProvidedBufferRing and b :: u16
  assume "pb_valid k h p" and "unat b < 2 ^ k" and "length (pb_bids h p) < 2 ^ k"
  then show "\<exists>p'. ReleaseBuffer b p = Some p' \<and> pb_valid k h p' \<and> pb_bids h p' = pb_bids h p @ [b] \<and> (2::nat) ^ k = 2 ^ k"
    using ReleaseBuffer_valid [of k h p b] by auto
qed

section \<open>Examples\<close>

definition ex_pbr :: ProvidedBufferRing where
  "ex_pbr = \<lparr> pb_bgid = 7, pb_capacity = 2, pb_bufSize = 64, pb_mask = 1, pb_dataLen = 128,
     pb_basePtr = 4096, pb_bufPointers = [4096, 4160], pb_ringPtr = 8192,
     pb_ring = [\<lparr>be_Addr = 4096, be_Len = 64, be_BID = 0, be_Resv = 2\<rparr>,
                \<lparr>be_Addr = 4160, be_Len = 64, be_BID = 1, be_Resv = 0\<rparr>],
     pb_ringLength = 4096, pb_fd = 3, pb_closed = False \<rparr>"

lemma ex_pbr_count: "pb_count 0 ex_pbr = 2" "pb_descrs ex_pbr = [(4096, 64, 0), (4160, 64, 1)]"
  by (simp_all add: pb_count_def ringTail_def ex_pbr_def pb_descrs_def descr_def)

lemma ex_pbr_bids: "pb_bids 0 ex_pbr = [0, 1]" "pb_pending 0 ex_pbr = [(4096, 64, 0), (4160, 64, 1)]"
proof -
  show "pb_pending 0 ex_pbr = [(4096, 64, 0), (4160, 64, 1)]"
    using ring_list_all [of "pb_descrs ex_pbr"] by (simp add: pb_pending_def ex_pbr_count numeral_2_eq_2)
  then show "pb_bids 0 ex_pbr = [0, 1]" by (simp add: pb_bids_def)
qed

lemma ex_pbr_ok: "pbr_ok 1 ex_pbr"
  by (auto simp: pbr_ok_def ex_pbr_def mask_eq_exp_minus_1 less_2_cases_iff)

lemma ex_pbr_valid: "pb_valid 1 0 ex_pbr"
  using ex_pbr_ok by (simp add: pb_valid_def ex_pbr_count ex_pbr_bids buffer_descr_def) (simp add: ex_pbr_def)

text \<open>Registration succeeds whenever the arguments are accepted and the system calls succeed.\<close>

lemma RegisterBufferRing_total:
  assumes args: "check_ring_args capacity bufSize = None"
    and m1: "mmap env (- 1) 0 (unat (ucast capacity * ucast bufSize :: u64)) tr = (Inr base, tr1)"
    and m2: "mmap env (- 1) 0 (unat ((ucast capacity * of_nat pbufRingEntrySize + 4095) AND NOT (4095 :: u64))) tr1 =
      (Inr ring, tr2)"
    and reg: "sys_register_pbuf env tr2 fd ring capacity bgid = 0"
  shows "\<exists>p. RegisterBufferRing env fd bgid capacity bufSize tr = Some (Inr p, tr2 @ [RingRegistered fd bgid])"
proof -
  let ?rl = "unat ((ucast capacity * of_nat pbufRingEntrySize + 4095) AND NOT (4095 :: u64))"
  let ?q = "new_pbr fd bgid capacity bufSize base ring"
  obtain k where k: "k \<le> 15" "unat capacity = 2 ^ k" using check_ring_args_None [OF args] by blast
  have q: "length (pb_bufPointers ?q) = 2 ^ k" "length (pb_ring ?q) = ?rl div 16"
    using k by (simp_all add: new_pbr_def Let_def pbufRingEntrySize_def)
  have "16 * 2 ^ k \<le> ?rl" using ring_bytes [OF k(2,1)] by simp
  then have "0 + 2 ^ k \<le> length (pb_ring ?q)" by (simp add: q)
  moreover have "filled ?q 0 ?q" by (simp add: filled_def)
  ultimately obtain p0 where "fill_ring 0 (unat capacity) ?q = Some p0"
    using fill_ring_filled [of ?q 0 ?q "2 ^ k"] q(1) k(2) by auto
  then show ?thesis
    unfolding RegisterBufferRing_def Let_def args option.case m1 prod.case sum.case m2 using reg by simp
qed

lemma ex_register:
  "\<exists>p tr'. RegisterBufferRing ex_sys 3 7 2 64 [] = Some (Inr p, tr')"
proof -
  have "check_ring_args 2 64 = None"
    using ones_count_exp [of 1, where 'a = 32] by (simp add: check_ring_args_def maxPbufRingEntries_def)
  moreover have "mmap ex_sys (- 1) 0 (unat (ucast (2 :: u32) * ucast (64 :: u32) :: u64)) [] =
      (Inr 4096, [Mapped 4096 128])"
    by (simp add: mmap_def ex_sys_def ex_fresh_def)
  moreover have "mmap ex_sys (- 1) 0
      (unat ((ucast (2 :: u32) * of_nat pbufRingEntrySize + 4095) AND NOT (4095 :: u64))) [Mapped 4096 128] =
      (Inr 8192, [Mapped 4096 128, Mapped 8192 4096])"
    by (simp add: mmap_def ex_sys_def ex_fresh_def live_maps_def pbufRingEntrySize_def)
  moreover have "sys_register_pbuf ex_sys [Mapped 4096 128, Mapped 8192 4096] 3 8192 2 7 = 0"
    by (simp add: ex_sys_def)
  ultimately show ?thesis using RegisterBufferRing_total by blast
qed

section \<open>Properties\<close>

text \<open>C25. Registration hands the kernel every buffer: on success the published ids are
  \<open>0, 1, \<dots>, capacity - 1\<close>, each descriptor describes its own chunk of the data block, the
  ring can be released to and recycled, and exactly the two blocks recorded for teardown
  have been mapped.\<close>

theorem RegisterBufferRing_publishes_all:
  assumes "RegisterBufferRing env fd bgid capacity bufSize tr = Some (Inr p, tr')"
    and "mmap_fresh env"
  shows "\<exists>k. pb_valid k 0 p \<and> unat capacity = 2 ^ k \<and> pb_bids 0 p = map of_nat [0..<2 ^ k] \<and>
    live_maps tr' = live_maps tr @ [(pb_basePtr p, pb_dataLen p), (pb_ringPtr p, unat (pb_ringLength p))]"
  using RegisterBufferRing_success [OF assms] by blast

theorem RegisterBufferRing_publishes_all_witness:
  "\<exists>p tr'. RegisterBufferRing ex_sys 3 7 2 64 [] = Some (Inr p, tr') \<and> pb_bids 0 p = [0, 1] \<and>
     length (live_maps tr') = 2"
proof -
  obtain p tr' where reg: "RegisterBufferRing ex_sys 3 7 2 64 [] = Some (Inr p, tr')"
    using ex_register by blast
  obtain k where k: "unat (2 :: u32) = 2 ^ k" "pb_bids 0 p = map of_nat [0..<2 ^ k]"
    "live_maps tr' = live_maps [] @ [(pb_basePtr p, pb_dataLen p), (pb_ringPtr p, unat (pb_ringLength p))]"
    using RegisterBufferRing_publishes_all [OF reg ex_sys_ok(1)] by blast
  have "[0..<2] = [0, 1 :: nat]" by (simp add: upt_rec)
  then have "pb_bids 0 p = [0, 1]" using k(1,2) by simp
  then show ?thesis using reg k(3) by simp
qed

text \<open>C28. A registration that is refused for its arguments makes no system call, and one
  that fails at any later step unmaps whatever it had mapped.\<close>

theorem failed_registration_leaks_nothing:
  assumes "RegisterBufferRing env fd bgid capacity bufSize tr = Some (Inl e, tr')"
    and "mmap_fresh env" and "munmap_live env"
  shows "live_maps tr' = live_maps tr \<and> (check_ring_args capacity bufSize = Some e \<longrightarrow> tr' = tr)"
proof -
  have "tr' = tr" if "check_ring_args capacity bufSize = Some e"
    using assms(1) that by (simp add: RegisterBufferRing_def)
  then show ?thesis using RegisterBufferRing_failure [OF assms] by simp
qed

theorem failed_registration_leaks_nothing_witness:
  "\<exists>tr'. RegisterBufferRing (ex_sys\<lparr>sys_register_pbuf := \<lambda>_ _ _ _ _. 17\<rparr>) 3 7 2 64 [] =
     Some (Inl (Register_pbuf_ring 17), tr') \<and> live_maps tr' = []"
proof -
  let ?env = "ex_sys\<lparr>sys_register_pbuf := \<lambda>_ _ _ _ _. 17\<rparr>"
  have "check_ring_args 2 64 = None"
    using ones_count_exp [of 1, where 'a = 32] by (simp add: check_ring_args_def maxPbufRingEntries_def)
  then obtain tr' where reg: "RegisterBufferRing ?env 3 7 2 64 [] = Some (Inl (Register_pbuf_ring 17), tr')"
    by (simp add: RegisterBufferRing_def mmap_def Let_def ex_sys_def ex_fresh_def live_maps_def pbufRingEntrySize_def)
  have "mmap_fresh ?env" "munmap_live ?env"
    using ex_sys_ok by (simp_all add: mmap_fresh_def munmap_live_def)
  with failed_registration_leaks_nothing [OF reg] reg show ?thesis by auto
qed

text \<open>C23. Every buffer has one owner: from a fresh ring, whatever the kernel picks and the
  callers release in whatever order, the published ids and the held ids are together
  exactly the ids of the ring, without repetition, and every published descriptor gives the
  address and length of its buffer.\<close>

theorem buffers_have_one_owner:
  assumes "RegisterBufferRing env fd bgid capacity bufSize tr = Some (Inr p, tr')" and "mmap_fresh env"
    and "pb_step\<^sup>*\<^sup>* (0, [], p) (h, held, q)"
  shows "distinct (pb_bids h q @ held) \<and> length (pb_bids h q) + length held = unat capacity \<and>
    pb_pending h q = map (buffer_descr q) (pb_bids h q)"
proof -
  obtain k where k: "pb_valid k 0 p" "unat capacity = 2 ^ k" "pb_bids 0 p = map of_nat [0..<2 ^ k]"
    using RegisterBufferRing_success [OF assms(1,2)] by blast
  have own: "pb_owned k (h, held, q)"
    by (rule pb_owned_run [OF assms(3) pb_owned_fresh [OF k(1,3)]])
  show ?thesis
    using pb_owned_held(2,3) [OF own] pb_valid_pending [OF pb_owned_valid [OF own]] k(2)
    by (simp only: length_pb_bids simp_thms)
qed

theorem buffers_have_one_owner_witness:
  "\<exists>p tr' q. RegisterBufferRing ex_sys 3 7 2 64 [] = Some (Inr p, tr') \<and>
     pb_step\<^sup>*\<^sup>* (0, [], p) (1, [], q) \<and> length (pb_bids 1 q) = 2 \<and> distinct (pb_bids 1 q)"
proof -
  obtain p tr' where reg: "RegisterBufferRing ex_sys 3 7 2 64 [] = Some (Inr p, tr')"
    using ex_register by blast
  obtain k where k: "pb_valid k 0 p" "unat (2 :: u32) = 2 ^ k" "pb_bids 0 p = map of_nat [0..<2 ^ k]"
    using RegisterBufferRing_success [OF reg ex_sys_ok(1)] by blast
  have "pb_bids 0 p = of_nat 0 # map of_nat [1..<2 ^ k]" using k(3) by (simp add: upt_conv_Cons)
  then have s1: "pb_step (0, [], p) (0 + 1, [0], p)" using pb_step.pick [of 0 p 0] by simp
  have own: "pb_owned k (1, [0], p)" using pb_owned_step [OF s1 pb_owned_fresh [OF k(1,3)]] by simp
  note o = pb_owned_held [OF own]
  have "pb_valid k 1 p" by (rule pb_owned_valid [OF own])
  moreover have "pb_count 1 p < 2 ^ k" using o(2) by simp
  ultimately obtain q where "ReleaseBuffer 0 p = Some q"
    using ReleaseBuffer_valid [of k 1 p 0] o(4) by auto
  then have "pb_step (1, [0], p) (1, [], q)" using pb_step.release [of 0 "[0]" p q 1] by simp
  with s1 have run: "pb_step\<^sup>*\<^sup>* (0, [], p) (1, [], q)" by (simp add: rtranclp.rtrancl_into_rtrancl)
  from buffers_have_one_owner [OF reg ex_sys_ok(1) this] reg run show ?thesis by auto
qed

text \<open>Publishing the tail is invisible to the descriptors: the compare-and-swap on the
  enclosing 32-bit word replaces the 16-bit tail and leaves the buffer id that shares the
  word, and every other field of the ring, as they were.\<close>

theorem storeTailRelease_only_tail:
  assumes "pb_ring p \<noteq> []"
  shows "ringTail (storeTailRelease v p) = v \<and>
    map descr (pb_ring (storeTailRelease v p)) = map descr (pb_ring p) \<and>
    tl (pb_ring (storeTailRelease v p)) = tl (pb_ring p)"
proof -
  obtain e es where "pb_ring p = e # es" using assms by (cases "pb_ring p") auto
  then show ?thesis by (simp add: storeTailRelease_eq ringTail_def descr_def)
qed

theorem storeTailRelease_only_tail_witness:
  "ringTail (storeTailRelease 65535 ex_pbr) = 65535 \<and> be_BID (pb_ring (storeTailRelease 65535 ex_pbr) ! 0) = 0"
proof -
  have ne: "pb_ring ex_pbr \<noteq> []" by (simp add: ex_pbr_def)
  have "map descr (pb_ring (storeTailRelease 65535 ex_pbr)) ! 0 = map descr (pb_ring ex_pbr) ! 0"
    using storeTailRelease_only_tail [OF ne, of 65535] by simp
  then have "be_BID (pb_ring (storeTailRelease 65535 ex_pbr) ! 0) = 0"
    by (simp add: storeTailRelease_eq) (simp add: descr_def ex_pbr_def)
  then show ?thesis using storeTailRelease_only_tail [OF ne, of 65535] by simp
qed

text \<open>C24. Handing a view back by its address releases exactly the buffer it is a view of,
  and an address that is not the start of one of the ring's buffers is refused.\<close>

theorem ReleaseView_round_trip:
  assumes "pbr_ok k p" and "unat bid < 2 ^ k"
  shows "Buffer bid p = Some (pb_bufPointers p ! unat bid, unat (pb_bufSize p)) \<and>
    ReleaseView (pb_bufPointers p ! unat bid) p = map_option Inr (ReleaseBuffer bid p) \<and>
    (ptr \<notin> set (pb_bufPointers p) \<longrightarrow> ReleaseView ptr p = Some (Inl Foreign_view))"
  using ReleaseView_hit [OF assms] ReleaseView_miss [OF assms(1)] assms
  by (simp add: Buffer_def pbr_ok_def)

theorem ReleaseView_round_trip_witness:
  "ReleaseView 4160 ex_pbr = map_option Inr (ReleaseBuffer 1 ex_pbr) \<and>
   ReleaseView 4096 ex_pbr = map_option Inr (ReleaseBuffer 0 ex_pbr) \<and>
   ReleaseView 4000 ex_pbr = Some (Inl Foreign_view) \<and> ReleaseView 4100 ex_pbr = Some (Inl Foreign_view)"
  using ReleaseView_round_trip [OF ex_pbr_ok, of 1 4000] ReleaseView_round_trip [OF ex_pbr_ok, of 0 4100]
  by (simp add: ex_pbr_def)

text \<open>\<open>ReplenishOne\<close> publishes the buffer the kernel consumed last: right when that
  is the only consumed buffer nobody holds, but after two picks it republishes the second
  one, whoever holds it, and not the one the end of file consumed.\<close>

theorem ReplenishOne_republishes_last:
  assumes "pb_valid k h p" and "0 < n" and "n \<le> pb_count h p"
    and "sys_pbuf_status env tr (pb_fd p) (pb_bgid p) = Inr (ucast (h + of_nat n :: u16))"
  shows "\<exists>p'. ReplenishOne env tr p = Some (None, p') \<and>
    pb_bids (h + of_nat n) p' = drop n (pb_bids h p) @ [pb_bids h p ! (n - 1)]"
  using ReplenishOne_last [OF assms] by blast

theorem ReplenishOne_republishes_last_witness:
  "\<exists>p'. ReplenishOne (ex_sys\<lparr>sys_pbuf_status := \<lambda>_ _ _. Inr 2\<rparr>) [] ex_pbr = Some (None, p') \<and>
     pb_bids 2 p' = [1]"
  using ReplenishOne_republishes_last [OF ex_pbr_valid, of 2 "ex_sys\<lparr>sys_pbuf_status := \<lambda>_ _ _. Inr 2\<rparr>" "[]"]
  by (simp add: ex_pbr_count ex_pbr_bids)

text \<open>\<open>Unregister\<close> of a live ring unmaps exactly the ring's two blocks and marks it
  closed, and a second call changes nothing and succeeds.\<close>

theorem Unregister_releases_once:
  assumes "live_maps tr = ms @ [(pb_basePtr p, pb_dataLen p), (pb_ringPtr p, unat (pb_ringLength p))]"
    and "distinct (map fst (live_maps tr))" and "munmap_live env" and "\<not> pb_closed p"
    and "sys_unregister_pbuf env tr (pb_fd p) (pb_bgid p) = 0"
  shows "\<exists>p' tr'. Unregister env tr p = ((None, p'), tr') \<and> live_maps tr' = ms \<and>
    Unregister env tr' p' = ((None, p'), tr')"
  using Unregister_releases [OF assms] by (fastforce simp: Unregister_def)

theorem Unregister_releases_once_witness:
  "\<exists>p' tr'. Unregister ex_sys [Mapped 4096 128, Mapped 8192 4096] ex_pbr = ((None, p'), tr') \<and> live_maps tr' = []"
proof -
  have "live_maps [Mapped 4096 128, Mapped 8192 4096] =
      [] @ [(pb_basePtr ex_pbr, pb_dataLen ex_pbr), (pb_ringPtr ex_pbr, unat (pb_ringLength ex_pbr))]"
    by (simp add: live_maps_def ex_pbr_def)
  moreover have "sys_unregister_pbuf ex_sys [Mapped 4096 128, Mapped 8192 4096] (pb_fd ex_pbr) (pb_bgid ex_pbr) = 0"
    by (simp add: ex_sys_def)
  ultimately show ?thesis
    using Unregister_releases_once [of "[Mapped 4096 128, Mapped 8192 4096]" "[]" ex_pbr ex_sys] ex_sys_ok(2)
    by (auto simp: ex_pbr_def)
qed

end
