(* ===== verification/Park_Handshake.thy ===== *)
theory Park_Handshake
  imports Prelude
begin

text \<open>
  The park handshake between an issuing goroutine and its waker: \<open>netringParkUnlock\<close>
  (\<open>goruntime.go\<close>), the wake-up ends of the poller (\<open>method_poller.go\<close>) and of
  \<open>abortIssuer\<close> (\<open>method_submit.go\<close>), and the \<open>taskState\<close> values
  (\<open>netring_private.go\<close>), as an interleaving of atomic steps. \<open>gopark\<close> and
  \<open>goready\<close> are the runtime's: \<open>gopark\<close> puts the goroutine into the waiting state
  and then runs the callback, resuming it at once if the callback returns false;
  \<open>goready\<close> makes a waiting goroutine runnable and panics on any other.
\<close>

section \<open>States\<close>

definition taskStateInCore :: u32 where "taskStateInCore = 0"
definition taskStateDone :: u32 where "taskStateDone = 1"
definition taskStateParked :: u32 where "taskStateParked = 2"

lemmas task_states = taskStateInCore_def taskStateDone_def taskStateParked_def

text \<open>The atomic swap of the callback: the new state, and whether the goroutine stays parked.\<close>

definition netringParkUnlock :: "u32 \<Rightarrow> u32 \<times> bool" where
  "netringParkUnlock state = (taskStateParked, state = taskStateInCore)"

text \<open>The waker's compare-and-swap: the new state, and whether it must call \<open>goready\<close>.\<close>

definition waker_cas :: "u32 \<Rightarrow> u32 \<times> bool" where
  "waker_cas state = (if state = taskStateInCore then (taskStateDone, False) else (state, True))"

datatype gstatus = Grunning | Gwaiting

text \<open>The issuer: after \<open>submit\<close>, inside \<open>gopark\<close> before the callback, asleep, resumed, result read.\<close>

datatype worker_pc = Submitted | Parking | Asleep | Resumed | Returned

text \<open>A waker: about to write the result, result written, due to call \<open>goready\<close>, done.\<close>

datatype waker_pc = Due i32 | Wrote | Must_ready | Finished

record park_state =
  pk_task :: u32
  pk_g :: gstatus
  pk_pc :: worker_pc
  pk_wakers :: "waker_pc list"
  pk_res :: "i32 option"
  pk_got :: "i32 option"
  pk_ready :: nat
  pk_panic :: bool

definition park_init :: "i32 list \<Rightarrow> park_state" where
  "park_init results = \<lparr> pk_task = taskStateInCore, pk_g = Grunning, pk_pc = Submitted,
     pk_wakers = map Due results, pk_res = None, pk_got = None, pk_ready = 0, pk_panic = False \<rparr>"

section \<open>Steps\<close>

inductive park_step :: "park_state \<Rightarrow> park_state \<Rightarrow> bool" where
  park: "pk_pc s = Submitted \<Longrightarrow>
    park_step s (s\<lparr>pk_pc := Parking, pk_g := Gwaiting\<rparr>)"
| unlock_stay: "pk_pc s = Parking \<Longrightarrow> netringParkUnlock (pk_task s) = (t, True) \<Longrightarrow>
    park_step s (s\<lparr>pk_task := t, pk_pc := Asleep\<rparr>)"
| unlock_go: "pk_pc s = Parking \<Longrightarrow> netringParkUnlock (pk_task s) = (t, False) \<Longrightarrow>
    park_step s (s\<lparr>pk_task := t, pk_pc := Resumed, pk_g := Grunning\<rparr>)"
| read_result: "pk_pc s = Resumed \<Longrightarrow>
    park_step s (s\<lparr>pk_pc := Returned, pk_got := pk_res s\<rparr>)"
| write_result: "i < length (pk_wakers s) \<Longrightarrow> pk_wakers s ! i = Due r \<Longrightarrow>
    park_step s (s\<lparr>pk_wakers := (pk_wakers s)[i := Wrote], pk_res := Some r\<rparr>)"
| cas: "i < length (pk_wakers s) \<Longrightarrow> pk_wakers s ! i = Wrote \<Longrightarrow> waker_cas (pk_task s) = (t, wake) \<Longrightarrow>
    park_step s (s\<lparr>pk_wakers := (pk_wakers s)[i := if wake then Must_ready else Finished], pk_task := t\<rparr>)"
| ready: "i < length (pk_wakers s) \<Longrightarrow> pk_wakers s ! i = Must_ready \<Longrightarrow> pk_g s = Gwaiting \<Longrightarrow>
    park_step s (s\<lparr>pk_wakers := (pk_wakers s)[i := Finished], pk_ready := pk_ready s + 1,
      pk_g := Grunning, pk_pc := Resumed\<rparr>)"
| ready_panic: "i < length (pk_wakers s) \<Longrightarrow> pk_wakers s ! i = Must_ready \<Longrightarrow> pk_g s \<noteq> Gwaiting \<Longrightarrow>
    park_step s (s\<lparr>pk_wakers := (pk_wakers s)[i := Finished], pk_panic := True\<rparr>)"

inductive_cases park_stepE: "park_step s s'"

section \<open>One waker\<close>

text \<open>
  The invariant with a single waker: a goroutine that has not swapped sees \<open>InCore\<close>
  until the waker's compare-and-swap; one that sleeps has published \<open>Parked\<close>; one that
  was resumed has its result and the waker has finished with the cell.
\<close>

definition park_ok :: "i32 \<Rightarrow> waker_pc \<Rightarrow> park_state \<Rightarrow> bool" where
  "park_ok r w s \<longleftrightarrow> \<not> pk_panic s \<and>
     (if w = Due r then pk_res s = None else pk_res s = Some r \<and> w \<in> {Wrote, Must_ready, Finished}) \<and>
     (case pk_pc s of
        Submitted \<Rightarrow> pk_g s = Grunning \<and> pk_ready s = 0 \<and> pk_got s = None \<and> w \<noteq> Must_ready \<and>
          pk_task s = (if w = Finished then taskStateDone else taskStateInCore)
      | Parking \<Rightarrow> pk_g s = Gwaiting \<and> pk_ready s = 0 \<and> pk_got s = None \<and> w \<noteq> Must_ready \<and>
          pk_task s = (if w = Finished then taskStateDone else taskStateInCore)
      | Asleep \<Rightarrow> pk_g s = Gwaiting \<and> pk_ready s = 0 \<and> pk_got s = None \<and> w \<noteq> Finished \<and>
          pk_task s = taskStateParked
      | Resumed \<Rightarrow> pk_g s = Grunning \<and> pk_ready s \<le> 1 \<and> pk_got s = None \<and> w = Finished \<and>
          pk_task s = taskStateParked
      | Returned \<Rightarrow> pk_g s = Grunning \<and> pk_ready s \<le> 1 \<and> pk_got s = Some r \<and> w = Finished \<and>
          pk_task s = taskStateParked)"

definition park_inv :: "i32 \<Rightarrow> park_state \<Rightarrow> bool" where
  "park_inv r s \<longleftrightarrow> (\<exists>w. pk_wakers s = [w] \<and> park_ok r w s)"

lemma park_inv_init: "park_inv r (park_init [r])"
  by (simp add: park_inv_def park_ok_def park_init_def task_states)

lemma park_inv_step:
  assumes "park_step s s'" and "park_inv r s"
  shows "park_inv r s'"
proof -
  obtain w where w: "pk_wakers s = [w]" "park_ok r w s" using assms(2) unfolding park_inv_def by blast
  have "\<exists>w'. pk_wakers s' = [w'] \<and> park_ok r w' s'"
    using assms(1) w
    by (induction rule: park_step.induct)
      (auto simp: park_ok_def netringParkUnlock_def waker_cas_def task_states split: if_splits worker_pc.splits)
  then show ?thesis by (simp add: park_inv_def)
qed

lemma park_inv_reachable: "park_step\<^sup>*\<^sup>* (park_init [r]) s \<Longrightarrow> park_inv r s"
  by (induction rule: rtranclp_induct) (auto intro: park_inv_init park_inv_step)

text \<open>Every step makes progress, so no run is infinite.\<close>

definition worker_left :: "worker_pc \<Rightarrow> nat" where
  "worker_left pc = (case pc of Submitted \<Rightarrow> 4 | Parking \<Rightarrow> 3 | Asleep \<Rightarrow> 2 | Resumed \<Rightarrow> 1 | Returned \<Rightarrow> 0)"

definition waker_left :: "waker_pc \<Rightarrow> nat" where
  "waker_left w = (case w of Due _ \<Rightarrow> 3 | Wrote \<Rightarrow> 2 | Must_ready \<Rightarrow> 1 | Finished \<Rightarrow> 0)"

definition park_measure :: "park_state \<Rightarrow> nat" where
  "park_measure s = worker_left (pk_pc s) + sum_list (map waker_left (pk_wakers s))"

lemma park_step_progress:
  assumes "park_step s s'" and "park_inv r s"
  shows "park_measure s' < park_measure s"
proof -
  obtain w where w: "pk_wakers s = [w]" "park_ok r w s" using assms(2) unfolding park_inv_def by blast
  show ?thesis
    using assms(1) w
    by (induction rule: park_step.induct)
      (auto simp: park_ok_def park_measure_def worker_left_def waker_left_def split: if_splits worker_pc.splits)
qed

lemma park_stuck_returned:
  assumes inv: "park_inv r s" and stuck: "\<And>s'. \<not> park_step s s'"
  shows "pk_pc s = Returned"
proof (rule ccontr)
  assume not: "pk_pc s \<noteq> Returned"
  obtain w where w: "pk_wakers s = [w]" and ok: "park_ok r w s" using inv by (auto simp: park_inv_def)
  show False
  proof (cases "pk_pc s")
    case Submitted
    then show ?thesis using stuck park_step.park by blast
  next
    case Parking
    then show ?thesis
      using stuck park_step.unlock_stay [of s] park_step.unlock_go [of s] by (metis surj_pair)
  next
    case Asleep
    then have g: "pk_g s = Gwaiting" "w \<noteq> Finished" using ok by (auto simp: park_ok_def)
    show ?thesis
    proof (cases w)
      case (Due r')
      then show ?thesis using stuck park_step.write_result [of 0 s r'] w by simp
    next
      case Wrote
      then show ?thesis using stuck park_step.cas [of 0 s] w by (metis length_Cons nth_Cons_0 surj_pair zero_less_Suc)
    next
      case Must_ready
      then show ?thesis using stuck park_step.ready [of 0 s] w g by simp
    qed (use g in simp)
  next
    case Resumed
    then show ?thesis using stuck park_step.read_result by blast
  qed (use not in simp)
qed

section \<open>Example runs\<close>

text \<open>A goroutine that goes to sleep, with the wakers still due.\<close>

definition park_asleep :: "waker_pc list \<Rightarrow> i32 option \<Rightarrow> park_state" where
  "park_asleep ws res = \<lparr> pk_task = taskStateParked, pk_g = Gwaiting, pk_pc = Asleep, pk_wakers = ws,
     pk_res = res, pk_got = None, pk_ready = 0, pk_panic = False \<rparr>"

lemma run_to_sleep: "park_step\<^sup>*\<^sup>* (park_init rs) (park_asleep (map Due rs) None)"
proof -
  let ?s1 = "(park_init rs)\<lparr>pk_pc := Parking, pk_g := Gwaiting\<rparr>"
  have "park_step (park_init rs) ?s1" by (rule park_step.park) (simp add: park_init_def)
  moreover have "park_step ?s1 (?s1\<lparr>pk_task := taskStateParked, pk_pc := Asleep\<rparr>)"
    by (rule park_step.unlock_stay) (simp_all add: park_init_def netringParkUnlock_def)
  moreover have "?s1\<lparr>pk_task := taskStateParked, pk_pc := Asleep\<rparr> = park_asleep (map Due rs) None"
    by (simp add: park_init_def park_asleep_def)
  ultimately show ?thesis by (metis r_into_rtranclp rtranclp.rtrancl_into_rtrancl)
qed

text \<open>A waker that finds the goroutine asleep writes its result and owes it a \<open>goready\<close>.\<close>

lemma run_wake:
  assumes i: "i < length ws" "ws ! i = Due r"
  shows "park_step\<^sup>*\<^sup>* (park_asleep ws res) (park_asleep (ws[i := Must_ready]) (Some r))"
proof -
  let ?s = "park_asleep ws res" and ?s1 = "park_asleep (ws[i := Wrote]) (Some r)"
  have "park_step ?s (?s\<lparr>pk_wakers := (pk_wakers ?s)[i := Wrote], pk_res := Some r\<rparr>)"
    by (rule park_step.write_result) (use i in \<open>simp_all add: park_asleep_def\<close>)
  then have "park_step ?s ?s1" by (simp add: park_asleep_def)
  moreover have "park_step ?s1 (?s1\<lparr>pk_wakers := (pk_wakers ?s1)[i := if True then Must_ready else Finished],
      pk_task := taskStateParked\<rparr>)"
    by (rule park_step.cas) (use i in \<open>simp_all add: park_asleep_def waker_cas_def task_states\<close>)
  then have "park_step ?s1 (park_asleep (ws[i := Must_ready]) (Some r))" by (simp add: park_asleep_def)
  ultimately show ?thesis by (metis r_into_rtranclp rtranclp.rtrancl_into_rtrancl)
qed

lemma step_ready:
  assumes "i < length ws" "ws ! i = Must_ready"
  shows "park_step (park_asleep ws res) (park_asleep ws res\<lparr>pk_wakers := ws[i := Finished], pk_ready := 1,
    pk_g := Grunning, pk_pc := Resumed\<rparr>)"
  using park_step.ready [of i "park_asleep ws res"] assms by (simp add: park_asleep_def)

section \<open>Properties\<close>

text \<open>C17. One waker, every interleaving: \<open>goready\<close> is never called on a goroutine that is
  not waiting and at most once; the issuer resumes only after the waker has finished with
  its cell, so the cell can be recycled; and it returns the result the waker wrote.\<close>

theorem handshake_safe:
  assumes "park_step\<^sup>*\<^sup>* (park_init [r]) s"
  shows "\<not> pk_panic s \<and> pk_ready s \<le> 1 \<and>
    (pk_pc s = Resumed \<or> pk_pc s = Returned \<longrightarrow> pk_wakers s = [Finished] \<and> pk_res s = Some r) \<and>
    (pk_pc s = Returned \<longrightarrow> pk_got s = Some r)"
proof -
  obtain w where "pk_wakers s = [w]" "park_ok r w s"
    using park_inv_reachable [OF assms] unfolding park_inv_def by blast
  then show ?thesis by (cases "pk_pc s") (auto simp: park_ok_def split: if_splits)
qed

theorem handshake_safe_witness:
  "\<exists>s. park_step\<^sup>*\<^sup>* (park_init [5]) s \<and> pk_pc s = Resumed \<and> pk_ready s = 1 \<and> pk_res s = Some 5"
proof -
  let ?s = "park_asleep [Must_ready] (Some 5)\<lparr>pk_wakers := [Finished], pk_ready := 1, pk_g := Grunning, pk_pc := Resumed\<rparr>"
  have "park_step\<^sup>*\<^sup>* (park_init [5]) (park_asleep [Must_ready] (Some 5))"
    using run_to_sleep [of "[5]"] run_wake [of 0 "[Due 5]" 5 None] by simp
  moreover have "park_step (park_asleep [Must_ready] (Some 5)) ?s"
    using step_ready [of 0 "[Must_ready]" "Some 5"] by simp
  ultimately have run: "park_step\<^sup>*\<^sup>* (park_init [5]) ?s" by (rule rtranclp.rtrancl_into_rtrancl)
  from handshake_safe [OF run] run show ?thesis by (intro exI [of _ ?s]) simp
qed

text \<open>C18. No wake-up is lost: in every reachable state the issuer has returned or some step
  is possible, and every step decreases a natural-number measure, so every run ends with
  the issuer back from its call.\<close>

theorem handshake_returns:
  assumes "park_step\<^sup>*\<^sup>* (park_init [r]) s"
  shows "(pk_pc s = Returned \<or> (\<exists>s'. park_step s s')) \<and>
    (\<forall>s'. park_step s s' \<longrightarrow> park_measure s' < park_measure s)"
  using park_inv_reachable [OF assms] park_stuck_returned park_step_progress by blast

theorem handshake_returns_witness:
  "\<exists>s'. park_step (park_asleep [Due 5] None) s'"
proof -
  have "park_step\<^sup>*\<^sup>* (park_init [5]) (park_asleep [Due 5] None)" using run_to_sleep [of "[5]"] by simp
  from handshake_returns [OF this] show ?thesis by (simp add: park_asleep_def)
qed

text \<open>The handshake does not stand a second waker: when a submission is aborted although
  its entry stays queued, the completion wakes the issuer again, and a run ends in a
  \<open>goready\<close> of a running goroutine.\<close>

theorem second_waker_panics:
  "\<exists>s. park_step\<^sup>*\<^sup>* (park_init [0, r]) s \<and> pk_panic s"
proof -
  let ?a = "park_asleep [Must_ready, Must_ready] (Some r)"
  let ?b = "?a\<lparr>pk_wakers := [Finished, Must_ready], pk_ready := 1, pk_g := Grunning, pk_pc := Resumed\<rparr>"
  let ?c = "?b\<lparr>pk_wakers := (pk_wakers ?b)[1 := Finished], pk_panic := True\<rparr>"
  have "park_step\<^sup>*\<^sup>* (park_init [0, r]) (park_asleep [Due 0, Due r] None)" using run_to_sleep [of "[0, r]"] by simp
  also have "park_step\<^sup>*\<^sup>* (park_asleep [Due 0, Due r] None) (park_asleep [Must_ready, Due r] (Some 0))"
    using run_wake [of 0 "[Due 0, Due r]" 0 None] by simp
  also (rtranclp_trans) have "park_step\<^sup>*\<^sup>* (park_asleep [Must_ready, Due r] (Some 0)) ?a"
    using run_wake [of 1 "[Must_ready, Due r]" r "Some 0"] by simp
  finally (rtranclp_trans) have "park_step\<^sup>*\<^sup>* (park_init [0, r]) ?a" .
  moreover have "park_step ?a ?b" using step_ready [of 0 "[Must_ready, Must_ready]" "Some r"] by simp
  moreover have "park_step ?b ?c" by (rule park_step.ready_panic) simp_all
  ultimately have "park_step\<^sup>*\<^sup>* (park_init [0, r]) ?c" by (meson rtranclp.rtrancl_into_rtrancl)
  then show ?thesis by (intro exI [of _ ?c]) simp
qed

end
