(* ===== verification/Netring_State.thy ===== *)
theory Netring_State
  imports Task_Slots Uring_Queue Pbuf_Ring Park_Handshake
begin

text \<open>
  The state of a \<open>NetRing\<close> and its helpers: \<open>netring.go\<close>, \<open>netring_private.go\<close>,
  \<open>netring_private_send_cell.go\<close>, \<open>netring_options.go\<close>. Task cells are objects shared
  by pointer between the issuer, the slot table and the poller: they live in the store
  \<open>nr_cells\<close> and a pointer is its address, 0 being nil. \<open>nr_pool\<close> is the recycling
  pool, \<open>nr_ready\<close> the goroutines made ready so far, \<open>nr_logged\<close> the number of log
  entries written.
\<close>

section \<open>Opcodes, size classes, errors\<close>

datatype opcodeType = opcodeTypeInvalid | opcodeTypeReleaseBuffer | opcodeTypeTimer
  | opcodeTypeAccept | opcodeTypeClose | opcodeTypeConnect
  | opcodeTypeRecv | opcodeTypeSend | opcodeTypeRead | opcodeTypeOther u32

definition isAsyncOp :: "opcodeType \<Rightarrow> bool option" where
  "isAsyncOp t = (case t of opcodeTypeOther _ \<Rightarrow> None | opcodeTypeSend \<Rightarrow> Some True | _ \<Rightarrow> Some False)"

definition noWaiterTaskID :: u64 where "noWaiterTaskID = - 1"
definition periodicalTimerTaskID :: u64 where "periodicalTimerTaskID = 0xFFFFFFFFFFFFFFFF - 0xFFFFFFFF"
definition defaultSlotsCapacity :: i64 where "defaultSlotsCapacity = 8192"
definition defaultShardsCount :: i64 where "defaultShardsCount = 64"
definition defaultShardBuffering :: i64 where "defaultShardBuffering = 256"
definition maxSpinLimit :: i64 where "maxSpinLimit = 50000"
definition statusFallbackActive :: u64 where "statusFallbackActive = push_bit 63 1"
definition epochMask :: u64 where "epochMask = NOT statusFallbackActive"

definition sizeClassesCapacity :: "u32 list" where
  "sizeClassesCapacity = [128, 512, 1024, 4096, 16384]"

text \<open>\<open>Size\<close> compares the class as a signed integer and indexes with it unsigned: \<open>None\<close> is the panic.\<close>

definition SizeClass_Size :: "u64 \<Rightarrow> u32 option" where
  "SizeClass_Size s =
     (if sint s < int (length sizeClassesCapacity) then
        (if unat s < length sizeClassesCapacity then Some (sizeClassesCapacity ! unat s) else None)
      else Some 0)"

text \<open>The names that log entries and errors show; \<open>%d\<close> prints a decimal number.\<close>

fun decimal :: "nat \<Rightarrow> string" where
  "decimal n = (if n < 10 then [char_of (48 + n)] else decimal (n div 10) @ [char_of (48 + n mod 10)])"

declare decimal.simps [simp del]

definition SizeClass_String :: "u64 \<Rightarrow> string" where
  "SizeClass_String s = (if s = 0 then ''tiny'' else if s = 1 then ''small'' else if s = 2 then ''medium''
     else if s = 3 then ''big'' else if s = 4 then ''huge''
     else ''invalid-size-class('' @ decimal (unat s) @ '')'')"

fun opcodeType_String :: "opcodeType \<Rightarrow> string" where
  "opcodeType_String opcodeTypeInvalid = ''Invalid''"
| "opcodeType_String opcodeTypeReleaseBuffer = ''ReleaseBuffer''"
| "opcodeType_String opcodeTypeTimer = ''Timer''"
| "opcodeType_String opcodeTypeAccept = ''Accept''"
| "opcodeType_String opcodeTypeClose = ''Close''"
| "opcodeType_String opcodeTypeConnect = ''Connect''"
| "opcodeType_String opcodeTypeRecv = ''Recv''"
| "opcodeType_String opcodeTypeSend = ''Send''"
| "opcodeType_String opcodeTypeRead = ''Read''"
| "opcodeType_String (opcodeTypeOther n) = ''opcodeType('' @ decimal (unat n) @ '')''"

datatype netring_error =
    Logger_missing
  | Buffer_size_not_positive i64
  | Channels_not_positive i64
  | Channels_not_power_of_two i64
  | Slots slots_error
  | Invalid_descriptor i64
  | Sockaddr_missing
  | Sockaddr_unsupported
  | Failed_to_submit
  | Kernel_errno u64
  | Uring uring_error
  | No_buffer_flag
  | Size_class_invalid u64
  | Size_class_not_provisioned u64
  | Size_class_already_provisioned u64
  | Register_buffer_ring pbuf_error
  | Unregister_buffer_ring pbuf_error
  | Previous_send netring_error
  | Compensation_failed "netring_error option"

text \<open>\<open>syscall.Errno(-res)\<close>: the negation is 32-bit, the conversion sign-extends.\<close>

definition kernelResultToError :: "i32 \<Rightarrow> netring_error option" where
  "kernelResultToError res = (if 0 \<le> sint res then None else Some (Kernel_errno (scast (- res))))"

section \<open>Cells and tasks\<close>

type_synonym cell_ref = nat

record taskCell =
  tc_taskState :: u32
  tc_g :: u64
  tc_res :: i32
  tc_flags :: u32
  tc_err :: "netring_error option"
  tc_opCode :: opcodeType
  tc_fd :: u64

record ringTask =
  rt_Opcode :: opcodeType
  rt_Addr :: u64
  rt_Len :: u32
  rt_BGID :: u16
  rt_Offset :: u64
  rt_Ctx :: cell_ref
  rt_Payload :: u64

record sendCell =
  sc_finished :: u64
  sc_queued :: u64
  sc_err :: "netring_error option"
  sc_buf :: u64
  sc_len :: u64
  sc_sent :: u64

record NetRing =
  nr_r :: IOUring
  nr_slots :: "cell_ref slots"
  nr_cells :: "cell_ref \<rightharpoonup> taskCell"
  nr_next :: cell_ref
  nr_pool :: "cell_ref list"
  nr_pbrs :: "ProvidedBufferRing option list"
  nr_fallbackChan :: "ringTask list"
  nr_chanCap :: nat
  nr_barrier :: u64
  nr_finishedPushes :: u64
  nr_ticketTail :: u32
  nr_sendCells :: "sendCell list"
  nr_timerTask :: nat
  nr_stop :: bool
  nr_ready :: "u64 list"
  nr_logged :: nat

definition zero_sendCell :: sendCell where
  "zero_sendCell = \<lparr> sc_finished = 0, sc_queued = 0, sc_err = None, sc_buf = 0, sc_len = 0, sc_sent = 0 \<rparr>"

text \<open>\<open>taskCell(opCode, fd)\<close>: take a cell from the pool or allocate one, and overwrite it.\<close>

definition armed_cell :: "u64 \<Rightarrow> opcodeType \<Rightarrow> i64 \<Rightarrow> taskCell" where
  "armed_cell g opCode fd = \<lparr> tc_taskState = taskStateInCore, tc_g = g, tc_res = 0, tc_flags = 0,
     tc_err = None, tc_opCode = opCode, tc_fd = fd \<rparr>"

definition take_cell :: "u64 \<Rightarrow> opcodeType \<Rightarrow> i64 \<Rightarrow> NetRing \<Rightarrow> cell_ref \<times> NetRing" where
  "take_cell g opCode fd nr =
     (case nr_pool nr of
        c # cs \<Rightarrow> (c, nr\<lparr>nr_pool := cs, nr_cells := (nr_cells nr)(c \<mapsto> armed_cell g opCode fd)\<rparr>)
      | [] \<Rightarrow> (let c = nr_next nr in
          (c, nr\<lparr>nr_next := c + 1, nr_cells := (nr_cells nr)(c \<mapsto> armed_cell g opCode fd)\<rparr>)))"

definition pool_put :: "cell_ref \<Rightarrow> NetRing \<Rightarrow> NetRing" where
  "pool_put c nr = nr\<lparr>nr_pool := c # nr_pool nr\<rparr>"

definition log_entry :: "NetRing \<Rightarrow> NetRing" where
  "log_entry nr = nr\<lparr>nr_logged := nr_logged nr + 1\<rparr>"

text \<open>
  The waker's end of the park handshake on a cell of the store: the compare-and-swap, and
  \<open>goready\<close> of the recorded goroutine when it fails.
\<close>

definition wake_cell :: "cell_ref \<Rightarrow> NetRing \<Rightarrow> NetRing option" where
  "wake_cell c nr =
     (case nr_cells nr c of None \<Rightarrow> None
      | Some cell \<Rightarrow>
          (let (st, wake) = waker_cas (tc_taskState cell);
               nr' = nr\<lparr>nr_cells := (nr_cells nr)(c \<mapsto> cell\<lparr>tc_taskState := st\<rparr>)\<rparr>
           in Some (if wake then nr'\<lparr>nr_ready := nr_ready nr' @ [tc_g cell]\<rparr> else nr')))"

text \<open>The issuer's end, inside \<open>gopark\<close>: the cell is parked, and whether the goroutine sleeps.\<close>

definition park_cell :: "cell_ref \<Rightarrow> NetRing \<Rightarrow> (bool \<times> NetRing) option" where
  "park_cell c nr =
     (case nr_cells nr c of None \<Rightarrow> None
      | Some cell \<Rightarrow>
          (let (st, sleeps) = netringParkUnlock (tc_taskState cell)
           in Some (sleeps, nr\<lparr>nr_cells := (nr_cells nr)(c \<mapsto> cell\<lparr>tc_taskState := st\<rparr>)\<rparr>)))"

section \<open>Options and construction\<close>

datatype OptionSetter = WithTasksBufferSize i64 | WithTasksChannelsCount i64 | WithSlots i64

record netringOptions =
  op_tasksChanBuffer :: i64
  op_tasksChanShards :: i64
  op_slots :: "cell_ref slots option"

text \<open>\<open>None\<close> is the panic of \<open>taskslots.New\<close> for a table that is too big.\<close>

definition apply_slots :: "i64 \<Rightarrow> netringOptions \<Rightarrow> (netring_error + netringOptions) option" where
  "apply_slots n opts =
     (case new_slots (0 :: cell_ref) 8 n of
        None \<Rightarrow> None | Some (Inl e) \<Rightarrow> Some (Inl (Slots e)) | Some (Inr s) \<Rightarrow> Some (Inr (opts\<lparr>op_slots := Some s\<rparr>)))"

definition apply_option :: "OptionSetter \<Rightarrow> netringOptions \<Rightarrow> (netring_error + netringOptions) option" where
  "apply_option setter opts =
     (case setter of
        WithTasksBufferSize n \<Rightarrow>
          Some (if sint n \<le> 0 then Inl (Buffer_size_not_positive n)
           else Inr (opts\<lparr>op_tasksChanBuffer := n\<rparr>))
      | WithTasksChannelsCount n \<Rightarrow>
          Some (if sint n \<le> 0 then Inl (Channels_not_positive n)
           else if ones_count n \<noteq> 1 then Inl (Channels_not_power_of_two n)
           else Inr (opts\<lparr>op_tasksChanShards := n\<rparr>))
      | WithSlots n \<Rightarrow> apply_slots n opts)"

fun apply_options :: "OptionSetter list \<Rightarrow> netringOptions \<Rightarrow> (netring_error + netringOptions) option" where
  "apply_options [] opts = Some (Inr opts)"
| "apply_options (o1 # os) opts =
     (case apply_option o1 opts of None \<Rightarrow> None | Some (Inl e) \<Rightarrow> Some (Inl e)
      | Some (Inr opts') \<Rightarrow> apply_options os opts')"

definition is_slots_option :: "OptionSetter \<Rightarrow> bool" where
  "is_slots_option o1 = (case o1 of WithSlots _ \<Rightarrow> True | _ \<Rightarrow> False)"

definition resolve_options :: "OptionSetter list \<Rightarrow> (netring_error + netringOptions) option" where
  "resolve_options os =
     (case apply_options os \<lparr> op_tasksChanBuffer = defaultShardBuffering,
         op_tasksChanShards = defaultShardsCount, op_slots = None \<rparr> of
        None \<Rightarrow> None
      | Some (Inl e) \<Rightarrow> Some (Inl e)
      | Some (Inr opts) \<Rightarrow> if list_ex is_slots_option os then Some (Inr opts) else apply_slots defaultSlotsCapacity opts)"

text \<open>
  \<open>New\<close> after \<open>iouring.New\<close> has succeeded with the ring \<open>r\<close>. The translator goroutine
  it starts is \<open>fallbackLoop\<close>.
\<close>

definition new_netring :: "IOUring \<Rightarrow> bool \<Rightarrow> OptionSetter list \<Rightarrow> (netring_error + NetRing) option" where
  "new_netring r logger os =
     (if \<not> logger then Some (Inl Logger_missing)
      else case resolve_options os of
        None \<Rightarrow> None
      | Some (Inl e) \<Rightarrow> Some (Inl e)
      | Some (Inr opts) \<Rightarrow>
          map_option (\<lambda>s.
              Inr \<lparr> nr_r = r, nr_slots = s, nr_cells = Map.empty, nr_next = 1, nr_pool = [],
                nr_pbrs = replicate 5 None, nr_fallbackChan = [], nr_chanCap = unat (op_tasksChanBuffer opts),
                nr_barrier = 0, nr_finishedPushes = 0, nr_ticketTail = 0,
                nr_sendCells = replicate 65536 zero_sendCell, nr_timerTask = 0, nr_stop = False,
                nr_ready = [], nr_logged = 0 \<rparr>)
            (op_slots opts))"

section \<open>Lemmas\<close>

text \<open>Whatever the options, a table of slots is there in the end.\<close>

lemma apply_option_slots:
  "apply_option o1 opts = Some (Inr opts') \<Longrightarrow> is_slots_option o1 \<or> op_slots opts \<noteq> None \<Longrightarrow> op_slots opts' \<noteq> None"
  by (auto simp: apply_option_def apply_slots_def is_slots_option_def
      split: OptionSetter.splits if_splits option.splits sum.splits)

lemma apply_options_slots:
  "apply_options os opts = Some (Inr opts') \<Longrightarrow> list_ex is_slots_option os \<or> op_slots opts \<noteq> None \<Longrightarrow>
   op_slots opts' \<noteq> None"
proof (induction os arbitrary: opts)
  case (Cons o1 os)
  then obtain o2 where o2: "apply_option o1 opts = Some (Inr o2)" "apply_options os o2 = Some (Inr opts')"
    by (auto split: option.splits sum.splits)
  then show ?case using Cons apply_option_slots [OF o2(1)] by auto
qed simp

lemma resolve_options_slots: "resolve_options os = Some (Inr opts) \<Longrightarrow> op_slots opts \<noteq> None"
  using apply_options_slots
  by (fastforce simp: resolve_options_def apply_slots_def split: option.splits sum.splits if_splits)

text \<open>An armed cell is reachable by its pointer and no other cell changes.\<close>

lemma take_cell_armed:
  assumes "take_cell g opCode fd nr = (c, nr')"
  shows "nr_cells nr' = (nr_cells nr)(c \<mapsto> armed_cell g opCode fd)"
    and "nr_r nr' = nr_r nr" and "nr_slots nr' = nr_slots nr"
  using assms by (auto simp: take_cell_def Let_def split: list.splits)

end
