(* ===== verification/Netring_Submit.thy ===== *)
theory Netring_Submit
  imports Netring_State
begin

text \<open>
  Submission, \<open>method_submit.go\<close> and \<open>method_submit_fallback.go\<close>, by one goroutine
  at a time: \<open>dispatch\<close>, \<open>abortIssuer\<close>, \<open>submitIntention\<close>, \<open>setFallbackActive\<close>,
  \<open>submit\<close> and the draining of the fallback channel. \<open>None\<close> is a panic, or a loop
  that only another goroutine can end. The interleaving of several submitters with the
  translator is in \<open>Submit_Protocol\<close>.
\<close>

section \<open>Dispatch\<close>

text \<open>
  \<open>abortIssuer\<close>: the error goes into the cell the slot names, then the issuer is woken
  when asked. The slot is not released.
\<close>

definition abortIssuer :: "u64 \<Rightarrow> bool \<Rightarrow> netring_error \<Rightarrow> NetRing \<Rightarrow> NetRing option" where
  "abortIssuer slotIdx needWake err nr =
     (let c = fst (Get 0 slotIdx (nr_slots nr)) in
      case nr_cells nr c of None \<Rightarrow> None
      | Some cell \<Rightarrow>
          (let nr' = nr\<lparr>nr_cells := (nr_cells nr)(c \<mapsto> cell\<lparr>tc_err := Some err\<rparr>)\<rparr>
           in if needWake then wake_cell c nr' else Some nr'))"

text \<open>A slot for the cell, then the request for it; \<open>build\<close> is the builder call of the opcode.\<close>

definition submit_request ::
    "(u64 \<Rightarrow> u64 \<Rightarrow> IOUring \<Rightarrow> (uring_error option \<times> IOUring) option) \<Rightarrow> bool \<Rightarrow> ringTask \<Rightarrow> NetRing \<Rightarrow> NetRing option" where
  "submit_request build needWake task nr =
     (case Add (rt_Ctx task) (nr_slots nr) of None \<Rightarrow> None
      | Some (slotIdx, slots') \<Rightarrow>
          (case nr_cells nr (rt_Ctx task) of None \<Rightarrow> None
           | Some cell \<Rightarrow>
               (case build (tc_fd cell) slotIdx (nr_r nr) of None \<Rightarrow> None
                | Some (err, r') \<Rightarrow>
                    (let nr' = nr\<lparr>nr_slots := slots', nr_r := r'\<rparr> in
                     case err of None \<Rightarrow> Some nr'
                     | Some e \<Rightarrow> abortIssuer slotIdx needWake (Uring e) nr'))))"

definition dispatch :: "uring_env \<Rightarrow> ringTask \<Rightarrow> NetRing \<Rightarrow> NetRing option" where
  "dispatch env task nr =
     (case rt_Opcode task of
        opcodeTypeAccept \<Rightarrow> submit_request (\<lambda>fd idx. ExpectAccept env (ucast fd) idx) True task nr
      | opcodeTypeConnect \<Rightarrow>
          submit_request (\<lambda>fd idx. ExpectConnect env fd (rt_Payload task) (ucast (rt_Addr task)) idx) True task nr
      | opcodeTypeRecv \<Rightarrow>
          submit_request (\<lambda>fd idx. ExpectRecv env (ucast fd) (rt_BGID task) (rt_Len task) idx) True task nr
      | opcodeTypeRead \<Rightarrow>
          submit_request (\<lambda>fd idx. ExpectRead env (ucast fd) (rt_BGID task) (rt_Len task) idx) True task nr
      | opcodeTypeSend \<Rightarrow>
          submit_request (\<lambda>fd idx. ExpectSend env (ucast fd) (rt_Payload task) (rt_Len task) idx) False task nr
      | opcodeTypeClose \<Rightarrow> submit_request (\<lambda>fd idx. ExpectClose env (ucast fd) idx) True task nr
      | opcodeTypeReleaseBuffer \<Rightarrow> None
      | _ \<Rightarrow> Some (log_entry (nr\<lparr>nr_ticketTail := r_SQTail (nr_r nr)\<rparr>)))"

section \<open>Submit\<close>

definition submitIntention :: "NetRing \<Rightarrow> u64 \<times> NetRing" where
  "submitIntention nr =
     (let b = nr_barrier nr;
          status = b AND statusFallbackActive;
          epoch = b AND epochMask
      in (status, nr\<lparr>nr_barrier := status OR ((epoch + 1) AND epochMask)\<rparr>))"

definition setFallbackActive :: "NetRing \<Rightarrow> NetRing" where
  "setFallbackActive nr = nr\<lparr>nr_barrier := statusFallbackActive OR nr_barrier nr\<rparr>"

text \<open>
  The select between the channel send and the stop signal; when both are ready the runtime
  picks, which is \<open>choice\<close>, and when neither is the goroutine blocks.
\<close>

definition send_fallback :: "bool \<Rightarrow> ringTask \<Rightarrow> NetRing \<Rightarrow> (bool \<times> NetRing) option" where
  "send_fallback choice task nr =
     (let room = length (nr_fallbackChan nr) < nr_chanCap nr in
      if room \<and> (choice \<or> \<not> nr_stop nr) then Some (True, nr\<lparr>nr_fallbackChan := nr_fallbackChan nr @ [task]\<rparr>)
      else if nr_stop nr then Some (False, nr)
      else None)"

definition release_task :: "ringTask \<Rightarrow> NetRing \<Rightarrow> NetRing option" where
  "release_task task nr =
     (let i = unat (rt_BGID task) in
      if length (nr_pbrs nr) \<le> i then None
      else case nr_pbrs nr ! i of None \<Rightarrow> None
      | Some pbr \<Rightarrow>
          (case ReleaseView (rt_Payload task) pbr of None \<Rightarrow> None
           | Some (Inl e) \<Rightarrow> Some (log_entry nr)
           | Some (Inr pbr') \<Rightarrow> Some (nr\<lparr>nr_pbrs := (nr_pbrs nr)[i := Some pbr']\<rparr>)))"

definition submit :: "uring_env \<Rightarrow> bool \<Rightarrow> ringTask \<Rightarrow> NetRing \<Rightarrow> (bool \<times> NetRing) option" where
  "submit env choice task nr =
     (if rt_Opcode task = opcodeTypeReleaseBuffer then map_option (\<lambda>nr'. (True, nr')) (release_task task nr)
      else
        let (status, nr1) = submitIntention nr in
        if status = statusFallbackActive then send_fallback choice task nr1
        else
          let tail = r_SQTail (nr_r nr1) in
          if nr_ticketTail nr1 \<noteq> tail then None
          else
            let nr2 = nr1\<lparr>nr_ticketTail := tail + 1\<rparr> in
            if tail - r_SQHead (nr_r nr2) = r_SQEntries (nr_r nr2) then
              send_fallback choice task (setFallbackActive nr2)
            else
              map_option (\<lambda>nr3. (True, nr3\<lparr>nr_finishedPushes := nr_finishedPushes nr3 + 1\<rparr>))
                (dispatch env task nr2))"

section \<open>Draining after stop\<close>

text \<open>One turn of the drain loop; with the channel empty it waits, on a deadline that ends nothing.\<close>

definition drain_one :: "NetRing \<Rightarrow> NetRing option" where
  "drain_one nr =
     (case nr_fallbackChan nr of
        [] \<Rightarrow> Some nr
      | task # tasks \<Rightarrow>
          (let nr1 = nr\<lparr>nr_fallbackChan := tasks\<rparr> in
           case isAsyncOp (rt_Opcode task) of None \<Rightarrow> None
           | Some needWake \<Rightarrow>
               (if needWake then
                  map_option (\<lambda>nr2. nr2\<lparr>nr_finishedPushes := nr_finishedPushes nr2 + 1\<rparr>) (wake_cell (rt_Ctx task) nr1)
                else Some nr1)))"

primrec drainFallback :: "nat \<Rightarrow> NetRing \<Rightarrow> NetRing option" where
  "drainFallback 0 nr = Some nr"
| "drainFallback (Suc n) nr = Option.bind (drain_one nr) (drainFallback n)"

section \<open>What dispatch queues\<close>

text \<open>The entry of a request, for the opcodes that have one.\<close>

definition request :: "uring_env \<Rightarrow> ringTask \<Rightarrow> u64 \<Rightarrow> u64 \<Rightarrow> SQEntry option" where
  "request env task fd idx =
     (let base = zero_sqe\<lparr>sqe_FD := ucast fd, sqe_UserData := idx\<rparr> in
      case rt_Opcode task of
        opcodeTypeAccept \<Rightarrow> Some (base\<lparr>sqe_Opcode := OpAccept, sqe_Addr := env_dummyAddr env,
          sqe_Off := env_dummyLen env, sqe_OpFlags := env_SOCK_CLOEXEC env\<rparr>)
      | opcodeTypeConnect \<Rightarrow> Some (base\<lparr>sqe_Opcode := OpConnect, sqe_Addr := rt_Payload task,
          sqe_Off := ucast (ucast (rt_Addr task) :: u32)\<rparr>)
      | opcodeTypeRecv \<Rightarrow> Some (base\<lparr>sqe_Opcode := OpRecv, sqe_Flags := ioUringSQEBufferSelect,
          sqe_BufIndex := rt_BGID task, sqe_Len := rt_Len task\<rparr>)
      | opcodeTypeRead \<Rightarrow> Some (base\<lparr>sqe_Opcode := OpRead, sqe_Flags := ioUringSQEBufferSelect,
          sqe_BufIndex := rt_BGID task, sqe_Len := rt_Len task\<rparr>)
      | opcodeTypeSend \<Rightarrow> Some (base\<lparr>sqe_Opcode := OpSend, sqe_Addr := rt_Payload task, sqe_Len := rt_Len task\<rparr>)
      | opcodeTypeClose \<Rightarrow> Some (base\<lparr>sqe_Opcode := OpClose\<rparr>)
      | _ \<Rightarrow> None)"

definition wakes_on_abort :: "ringTask \<Rightarrow> bool" where
  "wakes_on_abort task \<longleftrightarrow> rt_Opcode task \<noteq> opcodeTypeSend"

lemma request_UserData: "request env task fd idx = Some e \<Longrightarrow> sqe_UserData e = idx \<and> sqe_FD e = ucast fd"
  by (auto simp: request_def Let_def split: opcodeType.splits)

lemma request_fields:
  assumes "request env task fd idx = Some e"
  shows "rt_Opcode task = opcodeTypeAccept \<Longrightarrow> sqe_Opcode e = OpAccept"
    and "rt_Opcode task = opcodeTypeRecv \<Longrightarrow>
      sqe_Opcode e = OpRecv \<and> sqe_BufIndex e = rt_BGID task \<and> sqe_Len e = rt_Len task"
  using assms by (auto simp: request_def Let_def)

lemma request_accepted: "request env task fd idx = Some e \<Longrightarrow> kernel_accepts e"
  by (auto simp: request_def Let_def kernel_accepts_def plain_sqe_def zero_sqe_def uring_consts bit_simps
      split: opcodeType.splits)

lemma dispatch_request:
  assumes "request env task fd0 idx0 \<noteq> None"
  shows "dispatch env task nr =
    submit_request (\<lambda>fd idx r. Push env (the (request env task fd idx)) r) (wakes_on_abort task) task nr"
  using assms
  by (cases "rt_Opcode task")
    (simp_all add: dispatch_def request_def Let_def builders [abs_def] wakes_on_abort_def zero_sqe_def)

lemma request_dom: "request env task fd idx = None \<longleftrightarrow> request env task fd0 idx0 = None"
  by (simp add: request_def Let_def split: opcodeType.splits)

text \<open>The state between operations: slots and submission ring well formed.\<close>

definition nr_ok :: "nat \<Rightarrow> nat \<Rightarrow> NetRing \<Rightarrow> bool" where
  "nr_ok k m nr \<longleftrightarrow> slots_inv k (nr_slots nr) \<and> sq_ok m (nr_r nr)"

definition nr_room :: "nat \<Rightarrow> nat \<Rightarrow> NetRing \<Rightarrow> bool" where
  "nr_room k m nr \<longleftrightarrow> fallback_room k (nr_slots nr) \<and> sq_count (nr_r nr) < 2 ^ m"

text \<open>
  One dispatched request: a fresh slot holding the issuer's cell, one entry behind the
  pending ones that carries the slot, and nothing else unless the wakeup failed.
\<close>

lemma dispatch_spec:
  assumes ok: "nr_ok k m nr" and room: "nr_room k m nr" and cell: "nr_cells nr (rt_Ctx task) = Some cell"
    and req: "request env task (tc_fd cell) 0 \<noteq> None"
  shows "\<exists>idx s' e. request env task (tc_fd cell) idx = Some e \<and> live (nr_slots nr) idx = None \<and>
    slots_inv k s' \<and> live s' = (live (nr_slots nr))(idx \<mapsto> rt_Ctx task) \<and>
    dispatch env task nr =
      (let nr' = nr\<lparr>nr_slots := s', nr_r := push_state e (nr_r nr)\<rparr> in
       case push_error env (nr_r nr) of None \<Rightarrow> Some nr'
       | Some err \<Rightarrow> abortIssuer idx (wakes_on_abort task) (Uring err) nr')"
proof -
  have inv: "slots_inv k (nr_slots nr)" and sq: "sq_ok m (nr_r nr)" using ok by (auto simp: nr_ok_def)
  have fr: "fallback_room k (nr_slots nr)" using room by (simp add: nr_room_def)
  obtain idx s' where add: "Add (rt_Ctx task) (nr_slots nr) = Some (idx, s')" "slots_inv k s'"
      "live (nr_slots nr) idx = None" "live s' = (live (nr_slots nr))(idx \<mapsto> rt_Ctx task)"
    using task_slots.add_law [OF inv fr, of "rt_Ctx task"] by blast
  obtain e where e: "request env task (tc_fd cell) idx = Some e"
    using req request_dom [of env task "tc_fd cell" idx "tc_fd cell" 0] by auto
  have "dispatch env task nr =
      (let nr' = nr\<lparr>nr_slots := s', nr_r := push_state e (nr_r nr)\<rparr> in
       case push_error env (nr_r nr) of None \<Rightarrow> Some nr'
       | Some err \<Rightarrow> abortIssuer idx (wakes_on_abort task) (Uring err) nr')"
    unfolding dispatch_request [OF req] submit_request_def
    by (simp add: add(1) cell Push_eq [OF sq] e Let_def cong: option.case_cong)
  then show ?thesis using add e by blast
qed

lemma dispatch_success:
  assumes ok: "nr_ok k m nr" and room: "nr_room k m nr" and cell: "nr_cells nr (rt_Ctx task) = Some cell"
    and req: "request env task (tc_fd cell) 0 \<noteq> None" and awake: "push_error env (nr_r nr) = None"
  shows "\<exists>idx s' e nr'. dispatch env task nr = Some nr' \<and> nr' = nr\<lparr>nr_slots := s', nr_r := push_state e (nr_r nr)\<rparr> \<and>
    nr_ok k m nr' \<and> live (nr_slots nr) idx = None \<and> live s' = (live (nr_slots nr))(idx \<mapsto> rt_Ctx task) \<and>
    request env task (tc_fd cell) idx = Some e \<and> sq_pending (nr_r nr') = sq_pending (nr_r nr) @ [e]"
proof -
  obtain idx s' e where d: "request env task (tc_fd cell) idx = Some e" "live (nr_slots nr) idx = None"
    "slots_inv k s'" "live s' = (live (nr_slots nr))(idx \<mapsto> rt_Ctx task)"
    "dispatch env task nr = Some (nr\<lparr>nr_slots := s', nr_r := push_state e (nr_r nr)\<rparr>)"
    using dispatch_spec [OF ok room cell req] awake by auto
  have sq: "sq_ok m (nr_r nr)" "sq_count (nr_r nr) < 2 ^ m" using ok room by (auto simp: nr_ok_def nr_room_def)
  show ?thesis
    using d sq_ok_push [OF sq] sq_pending_push [OF sq] by (auto simp: nr_ok_def)
qed

text \<open>An abort leaves the request and its slot in place and wakes the issuer with the error.\<close>

lemma abortIssuer_live:
  assumes inv: "slots_inv k (nr_slots nr)" and live: "live (nr_slots nr) idx = Some c"
    and cell: "nr_cells nr c = Some cell"
  shows "abortIssuer idx w err nr = (let nr' = nr\<lparr>nr_cells := (nr_cells nr)(c \<mapsto> cell\<lparr>tc_err := Some err\<rparr>)\<rparr>
    in if w then wake_cell c nr' else Some nr')"
  using Get_live [OF inv live, of 0] cell by (simp add: abortIssuer_def Let_def)

section \<open>The fast path by itself\<close>

text \<open>
  Quiescent: nobody is between an intention and its completion. The ticket counter agrees
  with the ring's tail, and every counted intention has a finished push.
\<close>

definition quiescent :: "NetRing \<Rightarrow> bool" where
  "quiescent nr \<longleftrightarrow> nr_barrier nr AND statusFallbackActive = 0 \<and> nr_ticketTail nr = r_SQTail (nr_r nr) \<and>
     nr_finishedPushes nr AND epochMask = nr_barrier nr AND epochMask"

lemma bit_statusFallbackActive: "bit statusFallbackActive i \<longleftrightarrow> i = 63"
proof -
  have "bit (push_bit 63 1 :: u64) i \<longleftrightarrow> i = 63"
    by (simp only: bit_push_bit_iff bit_1_iff) auto
  then show ?thesis by (simp only: statusFallbackActive_def)
qed

lemma epochMask_mask: "epochMask = mask 63"
  by (rule bit_word_eqI) (auto simp: epochMask_def bit_statusFallbackActive bit_simps)

lemma status_cases: "w AND statusFallbackActive = (if bit w 63 then statusFallbackActive else 0)"
  by (rule bit_word_eqI) (auto simp: bit_statusFallbackActive bit_simps)

lemma status_0_iff: "w AND statusFallbackActive = 0 \<longleftrightarrow> \<not> bit w 63"
  using bit_statusFallbackActive [of 63] by (auto simp: status_cases)

lemma epochMask_idle: "\<not> bit w 63 \<Longrightarrow> w AND epochMask = w"
  unfolding epochMask_mask
  by (rule bit_word_eqI) (auto simp: bit_simps less_Suc_eq numeral_eq_Suc)

lemma not_bit_and_epochMask [simp]: "\<not> bit (w AND epochMask) 63"
  by (simp add: epochMask_mask bit_simps)

lemma epoch_step:
  assumes "f AND epochMask = b AND epochMask"
  shows "(f + 1) AND epochMask = (b AND epochMask) + 1 AND epochMask"
proof -
  have t: "unat (x AND epochMask) = unat x mod 2 ^ 63" for x :: u64
    by (simp only: epochMask_mask unat_and_mask)
  have add: "unat (x + 1) mod 2 ^ 63 = (unat x mod 2 ^ 63 + 1) mod 2 ^ 63" for x :: u64
    using unat_add_mod_exp [of 63 x 1] by (simp add: mod_simps)
  have "unat f mod 2 ^ 63 = unat b mod 2 ^ 63" using assms t by metis
  then have "unat ((f + 1) AND epochMask) = unat ((b AND epochMask) + 1 AND epochMask)"
    by (simp only: t add mod_mod_trivial)
  then show ?thesis by (simp only: word_unat_eq_iff)
qed

text \<open>The ring's advertised size is its real one.\<close>

definition sq_sized :: "nat \<Rightarrow> IOUring \<Rightarrow> bool" where
  "sq_sized m r \<longleftrightarrow> unat (r_SQEntries r) = 2 ^ m"

lemma full_test:
  "sq_sized m r \<Longrightarrow> (r_SQTail r - r_SQHead r = r_SQEntries r) \<longleftrightarrow> sq_count r = 2 ^ m"
  by (simp add: sq_sized_def sq_count_def word_unat_eq_iff)

lemma submit_quiescent:
  assumes q: "quiescent nr" and size: "sq_sized m (nr_r nr)" and op: "rt_Opcode task \<noteq> opcodeTypeReleaseBuffer"
  defines "nr2 \<equiv> nr\<lparr>nr_barrier := ((nr_barrier nr AND epochMask) + 1) AND epochMask, nr_ticketTail := r_SQTail (nr_r nr) + 1\<rparr>"
  shows "submit env choice task nr =
    (if sq_count (nr_r nr) = 2 ^ m then send_fallback choice task (setFallbackActive nr2)
     else map_option (\<lambda>nr3. (True, nr3\<lparr>nr_finishedPushes := nr_finishedPushes nr3 + 1\<rparr>)) (dispatch env task nr2))"
proof -
  have s0: "nr_barrier nr AND statusFallbackActive = 0" and t: "nr_ticketTail nr = r_SQTail (nr_r nr)"
    using q by (auto simp: quiescent_def)
  have ne: "(0 :: u64) \<noteq> statusFallbackActive" using bit_statusFallbackActive [of 63] by auto
  show ?thesis
    using op ne full_test [OF size] by (simp add: submit_def submitIntention_def Let_def s0 t nr2_def)
qed

lemma submit_fast:
  assumes q: "quiescent nr" and size: "sq_sized m (nr_r nr)" and ok: "nr_ok k m nr" and room: "nr_room k m nr"
    and cell: "nr_cells nr (rt_Ctx task) = Some cell" and req: "request env task (tc_fd cell) 0 \<noteq> None"
    and awake: "push_error env (nr_r nr) = None"
  shows "\<exists>nr' idx e. submit env choice task nr = Some (True, nr') \<and> quiescent nr' \<and> nr_ok k m nr' \<and>
    sq_pending (nr_r nr') = sq_pending (nr_r nr) @ [e] \<and> request env task (tc_fd cell) idx = Some e \<and>
    live (nr_slots nr) idx = None \<and> live (nr_slots nr') = (live (nr_slots nr))(idx \<mapsto> rt_Ctx task) \<and>
    nr_cells nr' = nr_cells nr \<and> nr_pbrs nr' = nr_pbrs nr \<and> nr_ready nr' = nr_ready nr"
proof -
  let ?nr2 = "nr\<lparr>nr_barrier := ((nr_barrier nr AND epochMask) + 1) AND epochMask, nr_ticketTail := r_SQTail (nr_r nr) + 1\<rparr>"
  have op: "rt_Opcode task \<noteq> opcodeTypeReleaseBuffer" using req by (auto simp: request_def Let_def)
  have "nr_ok k m ?nr2" "nr_room k m ?nr2" "nr_cells ?nr2 (rt_Ctx task) = Some cell"
    "push_error env (nr_r ?nr2) = None"
    using ok room cell awake by (simp_all add: nr_ok_def nr_room_def)
  from dispatch_success [OF this(1-3) req this(4)] obtain idx s' e nr3 where d:
    "dispatch env task ?nr2 = Some nr3" "nr3 = ?nr2\<lparr>nr_slots := s', nr_r := push_state e (nr_r nr)\<rparr>" "nr_ok k m nr3"
    "live (nr_slots nr) idx = None" "live s' = (live (nr_slots nr))(idx \<mapsto> rt_Ctx task)"
    "request env task (tc_fd cell) idx = Some e" "sq_pending (nr_r nr3) = sq_pending (nr_r nr) @ [e]"
    by auto
  let ?nr4 = "nr3\<lparr>nr_finishedPushes := nr_finishedPushes nr3 + 1\<rparr>"
  have "sq_count (nr_r nr) \<noteq> 2 ^ m" using room by (simp add: nr_room_def)
  then have "submit env choice task nr = Some (True, ?nr4)"
    using submit_quiescent [OF q size op] d(1) by simp
  moreover have "quiescent ?nr4"
    using q epoch_step [of "nr_finishedPushes nr" "nr_barrier nr"]
    by (simp add: quiescent_def d(2) status_0_iff push_state_def Let_def)
  moreover have "nr_ok k m ?nr4" using d(3) by (simp add: nr_ok_def)
  ultimately show ?thesis using d by (intro exI [of _ ?nr4] exI [of _ idx] exI [of _ e]) simp
qed

text \<open>The drain loop, on tasks whose issuers are parked.\<close>

definition parks :: "opcodeType \<Rightarrow> bool" where
  "parks t \<longleftrightarrow> t \<in> {opcodeTypeAccept, opcodeTypeConnect, opcodeTypeRecv, opcodeTypeRead, opcodeTypeClose}"

lemma drain_parked:
  "list_all (\<lambda>t. parks (rt_Opcode t)) (nr_fallbackChan nr) \<Longrightarrow>
   drainFallback n nr = Some (nr\<lparr>nr_fallbackChan := drop n (nr_fallbackChan nr)\<rparr>)"
proof (induction n arbitrary: nr)
  case (Suc n)
  show ?case
  proof (cases "nr_fallbackChan nr")
    case Nil
    then show ?thesis using Suc.IH [of nr] by (simp add: drain_one_def)
  next
    case (Cons t ts)
    let ?nr = "nr\<lparr>nr_fallbackChan := ts\<rparr>"
    have "isAsyncOp (rt_Opcode t) = Some False"
      using Suc.prems Cons by (auto simp: isAsyncOp_def parks_def)
    moreover have "drainFallback n ?nr = Some (?nr\<lparr>nr_fallbackChan := drop n ts\<rparr>)"
      using Suc.IH [of ?nr] Suc.prems Cons by simp
    ultimately show ?thesis using Cons by (simp add: drain_one_def)
  qed
qed simp

section \<open>Examples\<close>

definition ex_nslots :: "cell_ref slots" where
  "ex_nslots = projr (the (new_slots 0 8 4096))"

definition ex_nr :: NetRing where
  "ex_nr = \<lparr> nr_r = ex_ring, nr_slots = ex_nslots, nr_cells = [1 \<mapsto> armed_cell 77 opcodeTypeAccept 5],
     nr_next = 2, nr_pool = [], nr_pbrs = [Some ex_pbr, None, None, None, None], nr_fallbackChan = [], nr_chanCap = 256,
     nr_barrier = 0, nr_finishedPushes = 0, nr_ticketTail = 4294967295,
     nr_sendCells = [zero_sendCell, zero_sendCell], nr_timerTask = 0, nr_stop = False, nr_ready = [], nr_logged = 0 \<rparr>"

definition ex_task :: "opcodeType \<Rightarrow> ringTask" where
  "ex_task t = \<lparr> rt_Opcode = t, rt_Addr = 0, rt_Len = 0, rt_BGID = 0, rt_Offset = 0, rt_Ctx = 1, rt_Payload = 0 \<rparr>"

definition ex_asleep_env :: uring_env where
  "ex_asleep_env = ex_env\<lparr>env_enter := \<lambda>_ _ _ _. 5\<rparr>"

lemma ex_nslots_valid: "slots_inv 12 ex_nslots" "live ex_nslots = Map.empty" "fallback_room 12 ex_nslots"
proof -
  have "(2 ^ 12 :: i64) = 4096" by simp
  then obtain s :: "cell_ref slots" where s: "new_slots 0 8 4096 = Some (Inr s)" "slots_inv 12 s"
    "live s = Map.empty" "fallback_room 12 s"
    using new_slots_valid [of 12 8 0] by (auto simp: maxAlloc_def)
  then have "ex_nslots = s" by (simp add: ex_nslots_def)
  with s show "slots_inv 12 ex_nslots" "live ex_nslots = Map.empty" "fallback_room 12 ex_nslots" by simp_all
qed

lemma ex_nr_simps [simp]:
  "nr_r ex_nr = ex_ring" "nr_slots ex_nr = ex_nslots" "nr_cells ex_nr = [1 \<mapsto> armed_cell 77 opcodeTypeAccept 5]"
  "nr_fallbackChan ex_nr = []" "nr_chanCap ex_nr = 256" "nr_stop ex_nr = False" "nr_ready ex_nr = []"
  "nr_sendCells ex_nr = [zero_sendCell, zero_sendCell]" "nr_pool ex_nr = []"
  by (simp_all add: ex_nr_def)

lemma ex_nr_ok: "nr_ok 12 1 ex_nr" "nr_room 12 1 ex_nr" "sq_sized 1 (nr_r ex_nr)" "quiescent ex_nr"
proof -
  show "nr_ok 12 1 ex_nr" "nr_room 12 1 ex_nr" "sq_sized 1 (nr_r ex_nr)"
    using ex_nslots_valid ex_ring_ok by (simp_all add: nr_ok_def nr_room_def sq_sized_def) (simp add: ex_ring_def)
  show "quiescent ex_nr" by (simp add: quiescent_def) (simp add: ex_nr_def ex_ring_def)
qed

lemma ex_awake: "push_error env ex_ring = None"
  by (simp add: push_error_def NeedWakeup_def ex_ring_def)

section \<open>Properties\<close>

text \<open>The fast path: with nobody else submitting and room in the queue, \<open>submit\<close>
  accepts a request, queues exactly its entry under a slot that was free and now holds the
  issuer's cell, and leaves the counters balanced for the next submitter.\<close>

theorem submit_fast_path:
  assumes "quiescent nr" and "sq_sized m (nr_r nr)" and "nr_ok k m nr" and "nr_room k m nr"
    and "nr_cells nr (rt_Ctx task) = Some cell" and "request env task (tc_fd cell) 0 \<noteq> None"
    and "push_error env (nr_r nr) = None"
  shows "\<exists>nr' idx e. submit env choice task nr = Some (True, nr') \<and> quiescent nr' \<and> nr_ok k m nr' \<and>
    sq_pending (nr_r nr') = sq_pending (nr_r nr) @ [e] \<and> request env task (tc_fd cell) idx = Some e \<and>
    sqe_UserData e = idx \<and> kernel_accepts e \<and>
    live (nr_slots nr) idx = None \<and> live (nr_slots nr') = (live (nr_slots nr))(idx \<mapsto> rt_Ctx task)"
  using submit_fast [OF assms, of choice] request_UserData request_accepted by blast

theorem submit_fast_path_witness:
  "\<exists>nr' idx. submit ex_env True (ex_task opcodeTypeAccept) ex_nr = Some (True, nr') \<and> quiescent nr' \<and>
     length (sq_pending (nr_r nr')) = 1 \<and> live (nr_slots nr') = [idx \<mapsto> 1]"
proof -
  have cell: "nr_cells ex_nr (rt_Ctx (ex_task opcodeTypeAccept)) = Some (armed_cell 77 opcodeTypeAccept 5)"
    by (simp add: ex_task_def)
  have req: "request ex_env (ex_task opcodeTypeAccept) (tc_fd (armed_cell 77 opcodeTypeAccept 5)) 0 \<noteq> None"
    by (simp add: request_def ex_task_def Let_def)
  have aw: "push_error ex_env (nr_r ex_nr) = None" by (simp add: ex_awake)
  obtain nr' idx e where r: "submit ex_env True (ex_task opcodeTypeAccept) ex_nr = Some (True, nr')" "quiescent nr'"
    "sq_pending (nr_r nr') = sq_pending (nr_r ex_nr) @ [e]"
    "live (nr_slots nr') = (live (nr_slots ex_nr))(idx \<mapsto> rt_Ctx (ex_task opcodeTypeAccept))"
    using submit_fast_path [OF ex_nr_ok(4,3,1,2) cell req aw, of True] by blast
  then have "length (sq_pending (nr_r nr')) = 1" using ex_ring_ok(2) by simp
  moreover have "live (nr_slots nr') = [idx \<mapsto> 1]" using r(4) ex_nslots_valid(2) by (simp add: ex_task_def)
  ultimately show ?thesis using r(1,2) by blast
qed

text \<open>C14. \<open>submit\<close> never pushes onto a full queue: it hands the task to the fallback channel
  instead (or gives up when stopped), switches the fallback on, and leaves the ring and the
  slots as they were.\<close>

theorem submit_full_falls_back:
  assumes "quiescent nr" and "sq_sized m (nr_r nr)" and "rt_Opcode task \<noteq> opcodeTypeReleaseBuffer"
    and "sq_count (nr_r nr) = 2 ^ m" and "length (nr_fallbackChan nr) < nr_chanCap nr"
  shows "\<exists>accepted nr'. submit env choice task nr = Some (accepted, nr') \<and>
    nr_r nr' = nr_r nr \<and> nr_slots nr' = nr_slots nr \<and> bit (nr_barrier nr') 63 \<and>
    (accepted \<longleftrightarrow> choice \<or> \<not> nr_stop nr) \<and>
    nr_fallbackChan nr' = nr_fallbackChan nr @ (if accepted then [task] else [])"
  unfolding submit_quiescent [OF assms(1-3)]
  using assms(4,5) bit_statusFallbackActive [of 63]
  by (auto simp: send_fallback_def setFallbackActive_def Let_def bit_simps)

theorem submit_full_falls_back_witness:
  "\<exists>nr nr'. sq_count (nr_r nr) = 2 \<and> submit ex_env True (ex_task opcodeTypeRecv) nr = Some (True, nr') \<and>
     nr_fallbackChan nr' = [ex_task opcodeTypeRecv] \<and> nr_r nr' = nr_r nr"
proof -
  define r where "r = push_state zero_sqe (push_state zero_sqe ex_ring)"
  have "sq_ok 1 (push_state zero_sqe ex_ring)" "sq_count (push_state zero_sqe ex_ring) = 1"
    using sq_ok_push [OF ex_ring_ok(1)] sq_count_push [OF ex_ring_ok(1)] ex_ring_ok(3) by simp_all
  then have full: "sq_count r = 2 ^ 1" using sq_count_push by (simp add: r_def)
  let ?nr = "ex_nr\<lparr>nr_r := r, nr_ticketTail := r_SQTail r\<rparr>"
  have "quiescent ?nr" "sq_sized 1 (nr_r ?nr)"
    using ex_nr_ok(3,4) by (simp_all add: quiescent_def sq_sized_def r_def push_state_def Let_def)
  moreover have "rt_Opcode (ex_task opcodeTypeRecv) \<noteq> opcodeTypeReleaseBuffer" by (simp add: ex_task_def)
  moreover have "sq_count (nr_r ?nr) = 2 ^ 1" "length (nr_fallbackChan ?nr) < nr_chanCap ?nr" using full by simp_all
  ultimately obtain accepted nr' where "submit ex_env True (ex_task opcodeTypeRecv) ?nr = Some (accepted, nr')"
    "nr_r nr' = nr_r ?nr" "accepted \<longleftrightarrow> True \<or> \<not> nr_stop ?nr"
    "nr_fallbackChan nr' = nr_fallbackChan ?nr @ (if accepted then [ex_task opcodeTypeRecv] else [])"
    using submit_full_falls_back [of ?nr 1 "ex_task opcodeTypeRecv" ex_env True] by blast
  with full show ?thesis by (intro exI [of _ ?nr] exI [of _ nr']) simp
qed

text \<open>When the kernel poller sleeps and cannot be woken, \<open>dispatch\<close> reports the error to
  the issuer and wakes it, yet the entry stays in the queue and the slot stays occupied, so
  the completion will reach a cell whose issuer has gone.\<close>

theorem aborted_request_stays_queued:
  assumes "nr_ok k m nr" and "nr_room k m nr" and "nr_cells nr (rt_Ctx task) = Some cell"
    and "request env task (tc_fd cell) 0 \<noteq> None" and "push_error env (nr_r nr) = Some err"
    and "wakes_on_abort task" and "tc_taskState cell = taskStateInCore"
  shows "\<exists>nr' idx e. dispatch env task nr = Some nr' \<and>
    nr_cells nr' (rt_Ctx task) = Some (cell\<lparr>tc_err := Some (Uring err), tc_taskState := taskStateDone\<rparr>) \<and>
    sq_pending (nr_r nr') = sq_pending (nr_r nr) @ [e] \<and> sqe_UserData e = idx \<and>
    live (nr_slots nr') idx = Some (rt_Ctx task)"
proof -
  obtain idx s' e where d: "request env task (tc_fd cell) idx = Some e" "slots_inv k s'"
    "live s' = (live (nr_slots nr))(idx \<mapsto> rt_Ctx task)"
    "dispatch env task nr = abortIssuer idx True (Uring err) (nr\<lparr>nr_slots := s', nr_r := push_state e (nr_r nr)\<rparr>)"
    using dispatch_spec [OF assms(1-4)] assms(5,6) by auto
  let ?nr = "nr\<lparr>nr_slots := s', nr_r := push_state e (nr_r nr)\<rparr>"
  have a: "abortIssuer idx True (Uring err) ?nr =
      wake_cell (rt_Ctx task) (?nr\<lparr>nr_cells := (nr_cells nr)(rt_Ctx task \<mapsto> cell\<lparr>tc_err := Some (Uring err)\<rparr>)\<rparr>)"
    using abortIssuer_live [of k ?nr idx "rt_Ctx task" cell] d(2,3) assms(3) by simp
  have sq: "sq_ok m (nr_r nr)" "sq_count (nr_r nr) < 2 ^ m" using assms(1,2) by (auto simp: nr_ok_def nr_room_def)
  show ?thesis
    using d sq_pending_push [OF sq] request_UserData [OF d(1)] assms(7)
    by (auto simp: a wake_cell_def waker_cas_def)
qed

theorem aborted_request_stays_queued_witness:
  "\<exists>nr' idx. dispatch ex_asleep_env (ex_task opcodeTypeAccept) (ex_nr\<lparr>nr_r := ex_ring\<lparr>r_SQFlags := 1\<rparr>\<rparr>) = Some nr' \<and>
     length (sq_pending (nr_r nr')) = 1 \<and> live (nr_slots nr') idx = Some 1 \<and>
     map_option tc_err (nr_cells nr' 1) = Some (Some (Uring (Wakeup_kernel_poller (Errno 5))))"
proof -
  let ?nr = "ex_nr\<lparr>nr_r := ex_ring\<lparr>r_SQFlags := 1\<rparr>\<rparr>" and ?t = "ex_task opcodeTypeAccept"
    and ?c = "armed_cell 77 opcodeTypeAccept 5"
  have ok: "nr_ok 12 1 ?nr" "nr_room 12 1 ?nr"
    using ex_nr_ok by (simp_all add: nr_ok_def nr_room_def sq_flags_irrelevant sq_count_def)
  have cell: "nr_cells ?nr (rt_Ctx ?t) = Some ?c" by (simp add: ex_task_def)
  have req: "request ex_asleep_env ?t (tc_fd ?c) 0 \<noteq> None" by (simp add: request_def ex_task_def Let_def)
  have err: "push_error ex_asleep_env (nr_r ?nr) = Some (Wakeup_kernel_poller (Errno 5))"
    by (simp add: push_error_def NeedWakeup_def Wakeup_def syscall_error_def ex_asleep_env_def ioUringSQNeedWakeup_def)
  have w: "wakes_on_abort ?t" by (simp add: wakes_on_abort_def ex_task_def)
  have st: "tc_taskState ?c = taskStateInCore" by (simp add: armed_cell_def)
  obtain nr' idx e where r: "dispatch ex_asleep_env ?t ?nr = Some nr'"
    "nr_cells nr' (rt_Ctx ?t) = Some (?c\<lparr>tc_err := Some (Uring (Wakeup_kernel_poller (Errno 5))), tc_taskState := taskStateDone\<rparr>)"
    "sq_pending (nr_r nr') = sq_pending (nr_r ?nr) @ [e]" "live (nr_slots nr') idx = Some (rt_Ctx ?t)"
    using aborted_request_stays_queued [OF ok cell req err w st] by blast
  have "sq_count (nr_r ?nr) = 0" using ex_ring_ok(3) by (simp add: sq_count_def)
  then have "length (sq_pending (nr_r nr')) = 1" using arg_cong [OF r(3), of length] by simp
  then show ?thesis using r(1,2,4) by (auto simp: ex_task_def)
qed

text \<open>After a stop, draining the fallback channel takes the tasks of parked issuers off the
  channel without waking anyone or touching a cell, so those issuers sleep on.\<close>

theorem drain_leaves_parked_asleep:
  assumes "list_all (\<lambda>t. parks (rt_Opcode t)) (nr_fallbackChan nr)"
  shows "drainFallback (length (nr_fallbackChan nr)) nr = Some (nr\<lparr>nr_fallbackChan := []\<rparr>)"
  using drain_parked [OF assms] by simp

theorem drain_leaves_parked_asleep_witness:
  "drainFallback 2 (ex_nr\<lparr>nr_fallbackChan := [ex_task opcodeTypeAccept, ex_task opcodeTypeRecv]\<rparr>) =
     Some (ex_nr\<lparr>nr_fallbackChan := []\<rparr>)"
  using drain_leaves_parked_asleep [of "ex_nr\<lparr>nr_fallbackChan := [ex_task opcodeTypeAccept, ex_task opcodeTypeRecv]\<rparr>"]
  by (simp add: parks_def ex_task_def numeral_2_eq_2)

end
