(* ===== verification/Netring_Poller.thy ===== *)
theory Netring_Poller
  imports Netring_Submit
begin

text \<open>
  The completion poller, \<open>method_poller.go\<close>: one turn of the loop of \<open>Poll\<close> as a
  function of the ring, the spin count and the limit \<open>idleAfter\<close>. The blocking system
  call returns through \<open>uring_env\<close>; what the kernel posts while it blocks is a change of
  the ring between turns. \<open>None\<close> is a panic.
\<close>

definition EINTR :: nat where "EINTR = 4"

section \<open>One completion\<close>

text \<open>The send branch: result into the send cell of the descriptor, which counts one more completion.\<close>

definition record_send :: "i32 \<Rightarrow> sendCell \<Rightarrow> sendCell" where
  "record_send res sc =
     (let sc' = (if sint res < 0 then sc\<lparr>sc_err := Some (Kernel_errno (scast (- res)))\<rparr>
                 else sc\<lparr>sc_sent := sc_sent sc + scast res\<rparr>)
      in sc'\<lparr>sc_finished := sc_finished sc' + 1\<rparr>)"

definition dispatch_cqe :: "CQEntry \<Rightarrow> NetRing \<Rightarrow> NetRing option" where
  "dispatch_cqe resp nr =
     (if cqe_UserData resp = periodicalTimerTaskID then
        Some (if nr_timerTask nr < 1 then nr\<lparr>nr_timerTask := nr_timerTask nr + 1\<rparr> else nr)
      else if cqe_UserData resp = noWaiterTaskID then
        Some (if sint (cqe_Res resp) < 0 then log_entry nr else nr)
      else
        let (c, ok) = Get 0 (cqe_UserData resp) (nr_slots nr) in
        if \<not> ok then Some (log_entry nr)
        else
          case nr_cells nr c of None \<Rightarrow> None
          | Some cell \<Rightarrow>
              (let cell' = cell\<lparr>tc_res := cqe_Res resp, tc_flags := cqe_Flags resp\<rparr>;
                   nr1 = nr\<lparr>nr_cells := (nr_cells nr)(c \<mapsto> cell')\<rparr>
               in if tc_opCode cell' = opcodeTypeSend then
                    (let fd = unat (tc_fd cell') in
                     if length (nr_sendCells nr1) \<le> fd then None
                     else
                       let nr2 = pool_put c nr1;
                           nr3 = nr2\<lparr>nr_slots := Del (cqe_UserData resp) (nr_slots nr2)\<rparr>
                       in Some (nr3\<lparr>nr_sendCells := (nr_sendCells nr3)[fd := record_send (cqe_Res resp) (nr_sendCells nr3 ! fd)]\<rparr>))
                  else wake_cell c nr1))"

section \<open>One turn of the loop\<close>

definition poll_turn :: "uring_env \<Rightarrow> int \<Rightarrow> int \<times> NetRing \<Rightarrow> (int \<times> NetRing) option" where
  "poll_turn env idleAfter s =
     (let (spin, nr) = s in
      case GetTask (nr_r nr) of None \<Rightarrow> None
      | Some ((resp, ready), r') \<Rightarrow>
          (let nr1 = nr\<lparr>nr_r := r'\<rparr> in
           if \<not> ready then
             let spin1 = spin + 1 in
             if spin1 < idleAfter then Some (spin1, nr1)
             else
               case WaitEvents env (nr_r nr1) of
                 Some err \<Rightarrow>
                   if err = Errno EINTR then Some (0, nr1)
                   else map_option (\<lambda>nr'. (0, nr')) (dispatch_cqe resp (log_entry nr1))
               | None \<Rightarrow> map_option (\<lambda>nr'. (0, nr')) (dispatch_cqe resp nr1)
           else map_option (\<lambda>nr'. (0, nr')) (dispatch_cqe resp nr1)))"

text \<open>
  The end of a turn that had nothing to read and waited: what follows the system call. The entry that
  is dispatched is the empty one \<open>GetTask\<close> gave before the wait.
\<close>

definition after_wait :: "uring_env \<Rightarrow> NetRing \<Rightarrow> NetRing option" where
  "after_wait env nr =
     (case WaitEvents env (nr_r nr) of
        Some err \<Rightarrow> if err = Errno EINTR then Some nr else dispatch_cqe zero_cqe (log_entry nr)
      | None \<Rightarrow> dispatch_cqe zero_cqe nr)"

section \<open>The loop and its options\<close>

datatype CQPollerOption = cqPollerOptionTimerPeriod int | cqPollerOptionIdleAfter int

record cqPollerOptions =
  po_timePeriod :: int
  po_idleAfter :: int

definition WithCQPollerOptionTimer :: "int \<Rightarrow> CQPollerOption" where
  "WithCQPollerOptionTimer dur = cqPollerOptionTimerPeriod dur"

definition applyPollerOption :: "CQPollerOption \<Rightarrow> cqPollerOptions \<Rightarrow> cqPollerOptions" where
  "applyPollerOption opt options = (case opt of
     cqPollerOptionTimerPeriod c \<Rightarrow> options\<lparr>po_timePeriod := c\<rparr>
   | cqPollerOptionIdleAfter c \<Rightarrow> options\<lparr>po_idleAfter := c\<rparr>)"

text \<open>
  The loop over a sequence of turns: for each, whether the stop flag is set at its start and what
  the kernel and the other goroutines did to the state since the turn before. The first component
  of the result tells whether the loop was left.
\<close>

fun poll_loop :: "uring_env \<Rightarrow> int \<Rightarrow> (bool \<times> (NetRing \<Rightarrow> NetRing)) list \<Rightarrow> int \<times> NetRing \<Rightarrow> (bool \<times> NetRing) option" where
  "poll_loop env idleAfter [] (spin, nr) = Some (False, nr)"
| "poll_loop env idleAfter ((stop, others) # turns) (spin, nr) =
    (if stop then Some (True, others nr)
     else Option.bind (poll_turn env idleAfter (spin, others nr)) (poll_loop env idleAfter turns))"

definition Poll :: "uring_env \<Rightarrow> CQPollerOption list \<Rightarrow> (bool \<times> (NetRing \<Rightarrow> NetRing)) list \<Rightarrow> NetRing \<Rightarrow> (bool \<times> NetRing) option" where
  "Poll env options turns nr =
    (let opts = fold applyPollerOption options \<lparr>po_timePeriod = 500000000, po_idleAfter = sint maxSpinLimit\<rparr>
     in poll_loop env (po_idleAfter opts) turns (0, nr))"

text \<open>The timer period is stored and never read.\<close>

lemma timer_option_has_no_effect: "Poll env [WithCQPollerOptionTimer dur] turns nr = Poll env [] turns nr"
  by (simp add: Poll_def WithCQPollerOptionTimer_def applyPollerOption_def)

section \<open>Lemmas\<close>

text \<open>An outstanding index is none of the reserved ids.\<close>

lemma live_not_reserved:
  assumes inv: "slots_inv k s" and live: "live s idx = Some c"
  shows "idx \<noteq> periodicalTimerTaskID" and "idx \<noteq> noWaiterTaskID"
proof -
  have "\<not> sysIds < idx"
  proof (cases "idx < ts_cap s")
    case True
    have shape: "slots_shape k s" using inv by auto
    have "(2::nat) ^ k \<le> 2 ^ 62" using shape by (intro power_increasing) (auto simp: slots_shape_def)
    then have "unat idx < 2 ^ 62"
      using True slots_shape_cap [OF shape] by (simp add: word_less_nat_alt)
    then show ?thesis by (simp add: word_less_nat_alt sysIds_def)
  next
    case False
    then show ?thesis using slots_fallback_range(2) [OF inv] live by (simp add: live_def)
  qed
  then show "idx \<noteq> periodicalTimerTaskID" "idx \<noteq> noWaiterTaskID"
    by (auto simp: sysIds_def periodicalTimerTaskID_def noWaiterTaskID_def)
qed

text \<open>What the poller does to a parked operation's cell.\<close>

definition delivered :: "CQEntry \<Rightarrow> taskCell \<Rightarrow> taskCell" where
  "delivered resp cell = cell\<lparr>tc_res := cqe_Res resp, tc_flags := cqe_Flags resp,
     tc_taskState := fst (waker_cas (tc_taskState cell))\<rparr>"

definition woken :: "taskCell \<Rightarrow> u64 list" where
  "woken cell = (if snd (waker_cas (tc_taskState cell)) then [tc_g cell] else [])"

lemma dispatch_cqe_parked:
  assumes inv: "slots_inv k (nr_slots nr)" and live: "live (nr_slots nr) (cqe_UserData resp) = Some c"
    and cell: "nr_cells nr c = Some cell" and op: "tc_opCode cell \<noteq> opcodeTypeSend"
  shows "dispatch_cqe resp nr = Some (nr\<lparr>nr_cells := (nr_cells nr)(c \<mapsto> delivered resp cell),
    nr_ready := nr_ready nr @ woken cell\<rparr>)"
  using live_not_reserved [OF inv live] Get_live [OF inv live, of 0] cell op
  by (simp add: dispatch_cqe_def Let_def wake_cell_def delivered_def woken_def split: prod.splits)

lemma dispatch_cqe_send:
  assumes inv: "slots_inv k (nr_slots nr)" and live: "live (nr_slots nr) (cqe_UserData resp) = Some c"
    and cell: "nr_cells nr c = Some cell" and op: "tc_opCode cell = opcodeTypeSend"
    and fd: "unat (tc_fd cell) < length (nr_sendCells nr)"
  shows "\<exists>nr'. dispatch_cqe resp nr = Some nr' \<and> slots_inv k (nr_slots nr') \<and>
    live (nr_slots nr') = (live (nr_slots nr))(cqe_UserData resp := None) \<and> nr_pool nr' = c # nr_pool nr \<and>
    nr_sendCells nr' = (nr_sendCells nr)[unat (tc_fd cell) :=
      record_send (cqe_Res resp) (nr_sendCells nr ! unat (tc_fd cell))] \<and>
    nr_cells nr' = (nr_cells nr)(c \<mapsto> cell\<lparr>tc_res := cqe_Res resp, tc_flags := cqe_Flags resp\<rparr>) \<and>
    nr_ready nr' = nr_ready nr \<and> nr_r nr' = nr_r nr"
  using live_not_reserved [OF inv live] Get_live [OF inv live, of 0] cell op fd Del_spec [OF inv live]
  by (simp add: dispatch_cqe_def Let_def pool_put_def)

lemma poll_turn_ready:
  assumes cq: "cq_ok n (nr_r nr)" and pend: "cq_pending (nr_r nr) = resp # rest"
  shows "poll_turn env idleAfter (spin, nr) =
      map_option (\<lambda>nr'. (0, nr')) (dispatch_cqe resp (nr\<lparr>nr_r := (nr_r nr)\<lparr>r_CQHead := r_CQHead (nr_r nr) + 1\<rparr>\<rparr>))"
  using GetTask_Cons(1) [OF cq pend] by (simp add: poll_turn_def)

lemma poll_turn_idle:
  assumes "cq_pending (nr_r nr) = []" and "idleAfter \<le> spin + 1" and "WaitEvents env (nr_r nr) = None"
  shows "poll_turn env idleAfter (spin, nr) = map_option (\<lambda>nr'. (0, nr')) (dispatch_cqe zero_cqe nr)"
  using GetTask_empty [OF assms(1)] assms(2,3) by (simp add: poll_turn_def)

text \<open>A turn that waits is the wait and its end; where slot 0 is free, or the wait was interrupted, it at most logs.\<close>

lemma poll_turn_waits:
  assumes "cq_pending (nr_r nr) = []" and "idleAfter \<le> spin + 1"
  shows "poll_turn env idleAfter (spin, nr) = map_option (\<lambda>nr'. (0, nr')) (after_wait env nr)"
  using GetTask_empty [OF assms(1)] assms(2) by (simp add: poll_turn_def after_wait_def split: option.split)

lemma dispatch_zero_free: "\<not> snd (Get 0 0 (nr_slots nr)) \<Longrightarrow> dispatch_cqe zero_cqe nr = Some (log_entry nr)"
  by (auto simp: dispatch_cqe_def zero_cqe_def periodicalTimerTaskID_def noWaiterTaskID_def sysIds_def Let_def split: prod.splits)

lemma after_wait_harmless:
  assumes "after_wait env nr = Some nr'" and "WaitEvents env (nr_r nr) = Some (Errno EINTR) \<or> \<not> snd (Get 0 0 (nr_slots nr))"
  shows "nr' = nr \<or> nr' = log_entry nr \<or> nr' = log_entry (log_entry nr)"
proof (cases "snd (Get 0 0 (nr_slots nr))")
  case True
  then show ?thesis using assms by (simp add: after_wait_def)
next
  case False
  moreover have "nr_slots (log_entry nr) = nr_slots nr" by (simp add: log_entry_def)
  ultimately have d: "dispatch_cqe zero_cqe nr = Some (log_entry nr)" "dispatch_cqe zero_cqe (log_entry nr) = Some (log_entry (log_entry nr))"
    by (simp_all add: dispatch_zero_free)
  show ?thesis using assms(1) by (simp add: after_wait_def d split: option.splits if_splits)
qed

section \<open>Examples\<close>

definition ex_busy :: "opcodeType \<Rightarrow> NetRing" where
  "ex_busy t = ex_nr\<lparr>nr_slots := snd (the (Add 1 ex_nslots)), nr_cells := [1 \<mapsto> armed_cell 77 t 0]\<rparr>"

definition ex_index :: u64 where
  "ex_index = fst (the (Add 1 ex_nslots))"

lemma ex_busy_slots:
  "slots_inv 12 (nr_slots (ex_busy t))" "live (nr_slots (ex_busy t)) ex_index = Some 1"
proof -
  obtain i s where "Add 1 ex_nslots = Some (i, s)" "slots_inv 12 s" "live s = (live ex_nslots)(i \<mapsto> 1)"
    using task_slots.add_law [OF ex_nslots_valid(1,3), of 1] by blast
  then show "slots_inv 12 (nr_slots (ex_busy t))" "live (nr_slots (ex_busy t)) ex_index = Some 1"
    by (simp_all add: ex_busy_def ex_index_def)
qed

lemma ex_index_0: "ex_index = 0"
  unfolding ex_index_def ex_nslots_def by (rule fresh_add_index)

lemma ex_busy_simps [simp]:
  "nr_cells (ex_busy t) = [1 \<mapsto> armed_cell 77 t 0]" "nr_r (ex_busy t) = ex_ring" "nr_ready (ex_busy t) = []"
  "nr_sendCells (ex_busy t) = [zero_sendCell, zero_sendCell]" "nr_pool (ex_busy t) = []"
  by (simp_all add: ex_busy_def)

definition ex_cq :: "u64 \<Rightarrow> i32 \<Rightarrow> IOUring" where
  "ex_cq idx res = ex_ring\<lparr>r_CQHead := 0, r_CQTail := 1, r_CQ := [\<lparr>cqe_UserData = idx, cqe_Res = res, cqe_Flags = 0\<rparr>, zero_cqe]\<rparr>"

lemma ex_cq_ok: "cq_ok 1 (ex_cq idx res)"
  "cq_pending (ex_cq idx res) = [\<lparr>cqe_UserData = idx, cqe_Res = res, cqe_Flags = 0\<rparr>]"
  using ex_ring_cq(1)
  by (simp_all add: cq_ok_def ex_cq_def cq_count_def cq_pending_def ring_list_def upt_rec)

section \<open>Properties\<close>

text \<open>C16. A completion that carries an outstanding slot index reaches its issuer. Of an operation that parks, the turn writes
  result and flags into the issuer's cell, marks the operation done or, if the issuer sleeps, readies exactly that
  goroutine, and leaves the slot taken. Of a send nobody waits: the turn adds the result to the send cell of
  its descriptor (the bytes taken, or the error) and counts it as finished there, recycles the cell and releases the slot.
  Either way the completion is off the queue and no other cell and no other send cell changes.\<close>

theorem completion_reaches_issuer:
  assumes "slots_inv k (nr_slots nr)" and "cq_ok n (nr_r nr)" and "cq_pending (nr_r nr) = resp # rest"
    and "live (nr_slots nr) (cqe_UserData resp) = Some c" and "nr_cells nr c = Some cell"
    and "tc_opCode cell = opcodeTypeSend \<longrightarrow> unat (tc_fd cell) < length (nr_sendCells nr)"
  shows "\<exists>nr'. poll_turn env idleAfter (spin, nr) = Some (0, nr') \<and> cq_pending (nr_r nr') = rest \<and>
    (if tc_opCode cell = opcodeTypeSend then
       live (nr_slots nr') = (live (nr_slots nr))(cqe_UserData resp := None) \<and> nr_pool nr' = c # nr_pool nr \<and>
       nr_sendCells nr' = (nr_sendCells nr)[unat (tc_fd cell) :=
         record_send (cqe_Res resp) (nr_sendCells nr ! unat (tc_fd cell))] \<and> nr_ready nr' = nr_ready nr \<and>
       nr_cells nr' = (nr_cells nr)(c \<mapsto> cell\<lparr>tc_res := cqe_Res resp, tc_flags := cqe_Flags resp\<rparr>)
     else
       nr_cells nr' = (nr_cells nr)(c \<mapsto> cell\<lparr>tc_res := cqe_Res resp, tc_flags := cqe_Flags resp,
         tc_taskState := (if tc_taskState cell = taskStateInCore then taskStateDone else tc_taskState cell)\<rparr>) \<and>
       nr_ready nr' = nr_ready nr @ (if tc_taskState cell = taskStateInCore then [] else [tc_g cell]) \<and>
       live (nr_slots nr') = live (nr_slots nr) \<and> nr_sendCells nr' = nr_sendCells nr \<and> nr_pool nr' = nr_pool nr)"
proof -
  let ?nr = "nr\<lparr>nr_r := (nr_r nr)\<lparr>r_CQHead := r_CQHead (nr_r nr) + 1\<rparr>\<rparr>"
  note turn = poll_turn_ready [OF assms(2,3), of env idleAfter spin] and got = GetTask_Cons(3) [OF assms(2,3)]
  show ?thesis
  proof (cases "tc_opCode cell = opcodeTypeSend")
    case True
    then show ?thesis using dispatch_cqe_send [of k ?nr resp c cell] assms turn got by auto
  next
    case False
    then show ?thesis using dispatch_cqe_parked [of k ?nr resp c cell] assms turn got
      by (simp add: delivered_def woken_def waker_cas_def)
  qed
qed

text \<open>A receive and a send.\<close>

theorem completion_reaches_issuer_witness:
  "(\<exists>nr'. poll_turn ex_env 10 (3, (ex_busy opcodeTypeRecv)\<lparr>nr_r := ex_cq ex_index 42\<rparr>) = Some (0, nr') \<and>
     map_option tc_res (nr_cells nr' 1) = Some 42 \<and> live (nr_slots nr') ex_index = Some 1) \<and>
   (\<exists>nr'. poll_turn ex_env 10 (3, (ex_busy opcodeTypeSend)\<lparr>nr_r := ex_cq ex_index 42\<rparr>) = Some (0, nr') \<and>
     sc_sent (nr_sendCells nr' ! 0) = 42 \<and> sc_finished (nr_sendCells nr' ! 0) = 1 \<and> live (nr_slots nr') ex_index = None)"
proof -
  let ?nr = "\<lambda>t. (ex_busy t)\<lparr>nr_r := ex_cq ex_index 42\<rparr>"
  let ?resp = "\<lparr>cqe_UserData = ex_index, cqe_Res = 42, cqe_Flags = 0\<rparr> :: CQEntry"
  have inv: "slots_inv 12 (nr_slots (?nr t))" and live: "live (nr_slots (?nr t)) (cqe_UserData ?resp) = Some 1" for t
    using ex_busy_slots by simp_all
  have cq: "cq_ok 1 (nr_r (?nr t))" "cq_pending (nr_r (?nr t)) = ?resp # []" for t using ex_cq_ok by simp_all
  have cell: "nr_cells (?nr t) 1 = Some (armed_cell 77 t 0)"
    "tc_opCode (armed_cell 77 t 0) = opcodeTypeSend \<longrightarrow> unat (tc_fd (armed_cell 77 t 0)) < length (nr_sendCells (?nr t))" for t
    by (simp_all add: armed_cell_def)
  note reach = completion_reaches_issuer [OF inv cq live cell, of ex_env 10 3]
  show ?thesis using reach [of opcodeTypeRecv] reach [of opcodeTypeSend] live [of opcodeTypeRecv]
    by (auto simp: armed_cell_def record_send_def zero_sendCell_def Let_def)
qed

text \<open>Whoever waits for a completion: the cell of its slot, of an operation that parks.\<close>

definition awaits :: "NetRing \<Rightarrow> CQEntry \<Rightarrow> cell_ref \<times> taskCell \<Rightarrow> bool" where
  "awaits nr resp w \<longleftrightarrow> live (nr_slots nr) (cqe_UserData resp) = Some (fst w) \<and> nr_cells nr (fst w) = Some (snd w) \<and>
     tc_opCode (snd w) \<noteq> opcodeTypeSend"

lemma awaits_turn:
  assumes inv: "slots_inv k (nr_slots nr)" and cq: "cq_ok n (nr_r nr)" and pend: "cq_pending (nr_r nr) = resp # rest"
    and w: "awaits nr resp w"
  shows "\<exists>nr'. poll_turn env idleAfter (spin, nr) = Some (0, nr') \<and> slots_inv k (nr_slots nr') \<and> cq_ok n (nr_r nr') \<and>
    cq_pending (nr_r nr') = rest \<and> nr_slots nr' = nr_slots nr \<and>
    nr_cells nr' = (nr_cells nr)(fst w \<mapsto> delivered resp (snd w)) \<and> nr_ready nr' = nr_ready nr @ woken (snd w)"
  using poll_turn_ready [OF cq pend] GetTask_Cons(2,3) [OF cq pend] inv w
    dispatch_cqe_parked [of k "nr\<lparr>nr_r := (nr_r nr)\<lparr>r_CQHead := r_CQHead (nr_r nr) + 1\<rparr>\<rparr>" resp "fst w" "snd w"]
  by (simp add: awaits_def)

lemma deliver_batch:
  "slots_inv k (nr_slots nr) \<Longrightarrow> cq_ok n (nr_r nr) \<Longrightarrow> cq_pending (nr_r nr) = resps @ rest \<Longrightarrow>
   list_all2 (awaits nr) resps ws \<Longrightarrow> distinct (map fst ws) \<Longrightarrow>
   \<exists>nr'. poll_loop env idleAfter (replicate (length resps) (False, \<lambda>nr. nr)) (spin, nr) = Some (False, nr') \<and>
     cq_pending (nr_r nr') = rest \<and> nr_ready nr' = nr_ready nr @ concat (map (\<lambda>w. woken (snd w)) ws) \<and>
     (\<forall>c. c \<notin> fst ` set ws \<longrightarrow> nr_cells nr' c = nr_cells nr c) \<and>
     list_all2 (\<lambda>resp w. nr_cells nr' (fst w) = Some (delivered resp (snd w))) resps ws"
proof (induction resps arbitrary: nr spin ws)
  case (Cons resp resps)
  then obtain w ws' where ws: "ws = w # ws'" "awaits nr resp w" "list_all2 (awaits nr) resps ws'" "distinct (map fst ws')"
    "fst w \<notin> fst ` set ws'" by (auto simp: list_all2_Cons1)
  have p: "cq_pending (nr_r nr) = resp # (resps @ rest)" using Cons.prems(3) by simp
  obtain nr1 where nr1: "poll_turn env idleAfter (spin, nr) = Some (0, nr1)" "slots_inv k (nr_slots nr1)" "cq_ok n (nr_r nr1)"
    "cq_pending (nr_r nr1) = resps @ rest" "nr_slots nr1 = nr_slots nr"
    "nr_cells nr1 = (nr_cells nr)(fst w \<mapsto> delivered resp (snd w))" "nr_ready nr1 = nr_ready nr @ woken (snd w)"
    using awaits_turn [OF Cons.prems(1,2) p ws(2), of env idleAfter spin] by blast
  have "awaits nr1 r v" if "awaits nr r v" "v \<in> set ws'" for r v
  proof -
    have "fst v \<noteq> fst w" using that(2) ws(5) by (metis image_eqI)
    then show ?thesis using that(1) nr1(5,6) by (simp add: awaits_def)
  qed
  then have "list_all2 (awaits nr1) resps ws'"
    using ws(3) by (auto simp: list_all2_conv_all_nth)
  from Cons.IH [OF nr1(2-4) this ws(4), of 0] obtain nr' where nr': "poll_loop env idleAfter (replicate (length resps) (False, \<lambda>nr. nr)) (0, nr1) = Some (False, nr')"
    "cq_pending (nr_r nr') = rest" "nr_ready nr' = nr_ready nr1 @ concat (map (\<lambda>w. woken (snd w)) ws')"
    "\<forall>c. c \<notin> fst ` set ws' \<longrightarrow> nr_cells nr' c = nr_cells nr1 c"
    "list_all2 (\<lambda>resp w. nr_cells nr' (fst w) = Some (delivered resp (snd w))) resps ws'" by blast
  have "nr_cells nr' (fst w) = Some (delivered resp (snd w))" using nr'(4) ws(5) nr1(6) by simp
  then show ?case using nr' nr1(1,6,7) ws(1) by auto
qed simp

text \<open>A running poller works off a batch: as many turns as there are completions at the front of the
  queue deliver every one of them to its own issuer, in order, wake exactly the issuers that sleep, each
  once, and change no other cell.\<close>

theorem poller_delivers_batch:
  assumes "slots_inv k (nr_slots nr)" and "cq_ok n (nr_r nr)" and "cq_pending (nr_r nr) = resps @ rest"
    and "list_all2 (awaits nr) resps ws" and "distinct (map fst ws)"
  shows "\<exists>nr'. Poll env options (replicate (length resps) (False, \<lambda>nr. nr)) nr = Some (False, nr') \<and>
    cq_pending (nr_r nr') = rest \<and> nr_ready nr' = nr_ready nr @ concat (map (\<lambda>w. woken (snd w)) ws) \<and>
    (\<forall>c. c \<notin> fst ` set ws \<longrightarrow> nr_cells nr' c = nr_cells nr c) \<and>
    list_all2 (\<lambda>resp w. nr_cells nr' (fst w) = Some (delivered resp (snd w))) resps ws"
  unfolding Poll_def Let_def by (rule deliver_batch [OF assms])

theorem poller_delivers_batch_witness:
  "\<exists>nr'. Poll ex_env [] [(False, \<lambda>nr. nr)] ((ex_busy opcodeTypeRecv)\<lparr>nr_r := ex_cq ex_index 42\<rparr>) = Some (False, nr') \<and>
     cq_pending (nr_r nr') = [] \<and> map_option tc_res (nr_cells nr' 1) = Some 42"
proof -
  let ?nr = "(ex_busy opcodeTypeRecv)\<lparr>nr_r := ex_cq ex_index 42\<rparr>"
  let ?resp = "\<lparr>cqe_UserData = ex_index, cqe_Res = 42, cqe_Flags = 0\<rparr> :: CQEntry"
  have "awaits ?nr ?resp (1, armed_cell 77 opcodeTypeRecv 0)"
    using ex_busy_slots(2) by (simp add: awaits_def armed_cell_def)
  then have "list_all2 (awaits ?nr) [?resp] [(1, armed_cell 77 opcodeTypeRecv 0)]" by simp
  moreover have "slots_inv 12 (nr_slots ?nr)" "cq_ok 1 (nr_r ?nr)" "cq_pending (nr_r ?nr) = [?resp] @ []"
    using ex_busy_slots(1) ex_cq_ok by simp_all
  ultimately show ?thesis
    using poller_delivers_batch [of 12 ?nr 1 "[?resp]" "[]" "[(1, armed_cell 77 opcodeTypeRecv 0)]" ex_env "[]"]
    by (fastforce simp: delivered_def)
qed

text \<open>C40. An idle poller invents a completion: when the blocking wait returns, the turn goes
  on with the empty entry it read before waiting, so whoever holds slot 0 is told that its
  operation finished with result 0, with nothing in the completion queue.\<close>

theorem idle_turn_completes_slot_0:
  assumes "slots_inv k (nr_slots nr)" and "cq_pending (nr_r nr) = []" and "idleAfter \<le> spin + 1"
    and "WaitEvents env (nr_r nr) = None"
    and "live (nr_slots nr) 0 = Some c" and "nr_cells nr c = Some cell" and "tc_opCode cell \<noteq> opcodeTypeSend"
  shows "\<exists>nr' cell'. poll_turn env idleAfter (spin, nr) = Some (0, nr') \<and> nr_cells nr' c = Some cell' \<and>
    tc_res cell' = 0 \<and> tc_taskState cell' \<noteq> taskStateInCore \<and>
    nr_ready nr' = nr_ready nr @ (if tc_taskState cell = taskStateInCore then [] else [tc_g cell])"
  using poll_turn_idle [OF assms(2-4)] dispatch_cqe_parked [of k nr zero_cqe c cell] assms
  by (simp add: zero_cqe_def delivered_def woken_def waker_cas_def task_states)

theorem idle_turn_completes_slot_0_witness:
  "\<exists>nr'. poll_turn ex_env 10 (9, (ex_busy opcodeTypeAccept)\<lparr>nr_r := ex_ring\<lparr>r_CQHead := r_CQTail ex_ring\<rparr>\<rparr>) = Some (0, nr') \<and>
     map_option tc_taskState (nr_cells nr' 1) \<noteq> Some taskStateInCore"
proof -
  let ?nr = "(ex_busy opcodeTypeAccept)\<lparr>nr_r := ex_ring\<lparr>r_CQHead := r_CQTail ex_ring\<rparr>\<rparr>"
  have inv: "slots_inv 12 (nr_slots ?nr)" and live: "live (nr_slots ?nr) 0 = Some 1"
    using ex_busy_slots [of opcodeTypeAccept] by (simp_all add: ex_index_0)
  have pend: "cq_pending (nr_r ?nr) = []" by (simp add: cq_pending_def cq_count_def)
  have wait: "WaitEvents ex_env (nr_r ?nr) = None" by (simp add: WaitEvents_def syscall_error_def ex_env_def)
  have cell: "nr_cells ?nr 1 = Some (armed_cell 77 opcodeTypeAccept 0)"
    "tc_opCode (armed_cell 77 opcodeTypeAccept 0) \<noteq> opcodeTypeSend" by (simp_all add: armed_cell_def)
  show ?thesis
    using idle_turn_completes_slot_0 [OF inv pend _ wait live cell, of 10 9] by auto
qed

end
