(* ===== verification/Netring_Send.thy ===== *)
theory Netring_Send
  imports Netring_Poller
begin

text \<open>
  Sending, \<open>method_send.go\<close>. \<open>Send\<close> and \<open>FlushFDSends\<close> wait for the previous send of
  the descriptor, and complete it when it was partial, before they go on.
  \<open>previousSendWait\<close> loops until the poller reports; one pass from its label is
  \<open>previousSendWait_pass\<close>, which returns, spins (nothing changes until the poller runs),
  or has submitted the remainder and starts over. A slice is its address and length.
\<close>

section \<open>Operations\<close>

datatype wait_out = Wait_return "netring_error option" | Wait_spin | Wait_again

text \<open>The bookkeeping of a compensating send, and the request it submits.\<close>

definition compensation_task :: "cell_ref \<Rightarrow> sendCell \<Rightarrow> ringTask" where
  "compensation_task c sc = \<lparr> rt_Opcode = opcodeTypeSend, rt_Addr = 0, rt_Len = ucast (sc_len sc - sc_sent sc),
     rt_BGID = 0, rt_Offset = 0, rt_Ctx = c, rt_Payload = sc_buf sc + sc_sent sc \<rparr>"

definition compensate :: "sendCell \<Rightarrow> sendCell" where
  "compensate sc = sc\<lparr>sc_queued := sc_queued sc + 1, sc_buf := sc_buf sc + sc_len sc,
     sc_len := sc_len sc - sc_sent sc, sc_sent := 0\<rparr>"

definition previousSendWait_pass :: "uring_env \<Rightarrow> bool \<Rightarrow> u64 \<Rightarrow> i64 \<Rightarrow> NetRing \<Rightarrow> (wait_out \<times> NetRing) option" where
  "previousSendWait_pass env choice g fd nr =
     (if sint fd < 0 \<or> length (nr_sendCells nr) \<le> unat fd then None
      else
        let sc = nr_sendCells nr ! unat fd in
        if sc_queued sc = 0 then Some (Wait_return None, nr)
        else case sc_err sc of Some e \<Rightarrow> Some (Wait_return (Some (Previous_send e)), nr)
        | None \<Rightarrow>
            if sc_finished sc \<noteq> sc_queued sc then Some (Wait_spin, nr)
            else if sc_sent sc = sc_len sc then Some (Wait_return None, nr)
            else
              let (c, nr1) = take_cell g opcodeTypeSend fd nr;
                  task = compensation_task c sc;
                  nr2 = nr1\<lparr>nr_sendCells := (nr_sendCells nr1)[unat fd := compensate sc]\<rparr>
              in (case submit env choice task nr2 of None \<Rightarrow> None
                  | Some (True, nr3) \<Rightarrow> Some (Wait_again, nr3)
                  | Some (False, nr3) \<Rightarrow>
                      Some (Wait_return (Some (Compensation_failed (sc_err (nr_sendCells nr3 ! unat fd)))), nr3)))"

definition FlushFDSends_pass :: "uring_env \<Rightarrow> bool \<Rightarrow> u64 \<Rightarrow> i64 \<Rightarrow> NetRing \<Rightarrow> (wait_out \<times> NetRing) option" where
  "FlushFDSends_pass env choice g fd nr = previousSendWait_pass env choice g fd nr"

definition send_task :: "cell_ref \<Rightarrow> u64 \<Rightarrow> u64 \<Rightarrow> ringTask" where
  "send_task c ptr len = \<lparr> rt_Opcode = opcodeTypeSend, rt_Addr = 0, rt_Len = ucast len, rt_BGID = 0,
     rt_Offset = 0, rt_Ctx = c, rt_Payload = ptr \<rparr>"

definition start_send :: "u64 \<Rightarrow> u64 \<Rightarrow> sendCell \<Rightarrow> sendCell" where
  "start_send ptr len sc = sc\<lparr>sc_len := len, sc_sent := 0, sc_buf := ptr, sc_queued := sc_queued sc + 1\<rparr>"

text \<open>
  \<open>Send\<close> up to its next wait: \<open>Wait_spin\<close> and \<open>Wait_again\<close> mean it is still inside
  \<open>previousSendWait\<close>.
\<close>

definition Send_pass :: "uring_env \<Rightarrow> bool \<Rightarrow> u64 \<Rightarrow> i64 \<Rightarrow> u64 \<Rightarrow> u64 \<Rightarrow> NetRing \<Rightarrow> (wait_out \<times> NetRing) option" where
  "Send_pass env choice g fd ptr len nr =
     (if sint fd < 0 \<or> 65535 < sint fd then Some (Wait_return (Some (Invalid_descriptor fd)), nr)
      else if len = 0 then Some (Wait_return None, nr)
      else case previousSendWait_pass env choice g fd nr of None \<Rightarrow> None
      | Some (Wait_return (Some e), nr1) \<Rightarrow> Some (Wait_return (Some e), nr1)
      | Some (Wait_return None, nr1) \<Rightarrow>
          (let (c, nr2) = take_cell g opcodeTypeSend fd nr1;
               nr3 = nr2\<lparr>nr_sendCells := (nr_sendCells nr2)[unat fd := start_send ptr len (nr_sendCells nr2 ! unat fd)]\<rparr>
           in (case submit env choice (send_task c ptr len) nr3 of None \<Rightarrow> None
               | Some (True, nr4) \<Rightarrow> Some (Wait_return None, nr4)
               | Some (False, nr4) \<Rightarrow> Some (Wait_return (Some Failed_to_submit), nr4)))
      | Some (w, nr1) \<Rightarrow> Some (w, nr1))"

section \<open>Lemmas\<close>

text \<open>The conditions under which a submission goes through, for a task with a fresh cell.\<close>

definition nr_free :: "nat \<Rightarrow> nat \<Rightarrow> uring_env \<Rightarrow> NetRing \<Rightarrow> bool" where
  "nr_free k m env nr \<longleftrightarrow> quiescent nr \<and> sq_sized m (nr_r nr) \<and> nr_ok k m nr \<and> nr_room k m nr \<and>
     push_error env (nr_r nr) = None"

lemma take_cell_frame:
  assumes "take_cell g op fd nr = (c, nr1)"
  shows "nr_sendCells nr1 = nr_sendCells nr" and "nr_free k m env nr1 = nr_free k m env nr"
    and "nr_cells nr1 c = Some (armed_cell g op fd)" and "nr_r nr1 = nr_r nr"
  using assms
  by (auto simp: take_cell_def Let_def nr_free_def quiescent_def nr_ok_def nr_room_def split: list.splits)

lemma nr_free_sendCells: "nr_free k m env (nr\<lparr>nr_sendCells := scs\<rparr>) = nr_free k m env nr"
  by (simp add: nr_free_def quiescent_def nr_ok_def nr_room_def)

lemma dispatch_sendCells:
  "dispatch env task nr = Some nr' \<Longrightarrow> nr_sendCells nr' = nr_sendCells nr"
  by (auto simp: dispatch_def submit_request_def abortIssuer_def wake_cell_def Let_def log_entry_def
      split: opcodeType.splits option.splits prod.splits if_splits)

lemma submit_sendCells:
  "submit env choice task nr = Some (b, nr') \<Longrightarrow> nr_sendCells nr' = nr_sendCells nr"
  by (auto simp: submit_def submitIntention_def setFallbackActive_def send_fallback_def release_task_def
      log_entry_def Let_def dest!: dispatch_sendCells split: option.splits if_splits sum.splits)

text \<open>A submitted send: accepted, and its entry carries the address and length of the task.\<close>

lemma submit_send:
  assumes free: "nr_free k m env nr" and cell: "nr_cells nr (rt_Ctx task) = Some cell"
    and op: "rt_Opcode task = opcodeTypeSend"
  shows "\<exists>nr' e. submit env choice task nr = Some (True, nr') \<and> sq_pending (nr_r nr') = sq_pending (nr_r nr) @ [e] \<and>
    sqe_Opcode e = OpSend \<and> sqe_FD e = ucast (tc_fd cell) \<and> sqe_Addr e = rt_Payload task \<and> sqe_Len e = rt_Len task \<and>
    live (nr_slots nr') (sqe_UserData e) = Some (rt_Ctx task) \<and> nr_sendCells nr' = nr_sendCells nr"
proof -
  have req: "request env task (tc_fd cell) 0 \<noteq> None" using op by (simp add: request_def Let_def)
  obtain nr' idx e where s: "submit env choice task nr = Some (True, nr')"
    "sq_pending (nr_r nr') = sq_pending (nr_r nr) @ [e]" "request env task (tc_fd cell) idx = Some e"
    "live (nr_slots nr') = (live (nr_slots nr))(idx \<mapsto> rt_Ctx task)"
    using submit_fast [OF _ _ _ _ cell req, of m k choice] free unfolding nr_free_def by metis
  have e: "sqe_Opcode e = OpSend" "sqe_FD e = ucast (tc_fd cell)" "sqe_Addr e = rt_Payload task"
    "sqe_Len e = rt_Len task" "sqe_UserData e = idx"
    using s(3) op by (auto simp: request_def Let_def)
  show ?thesis using s e submit_sendCells [OF s(1)] by auto
qed

lemma pass_compensates:
  assumes free: "nr_free k m env nr" and fd: "0 \<le> sint fd" "unat fd < length (nr_sendCells nr)"
    and sc: "nr_sendCells nr ! unat fd = sc" "sc_queued sc \<noteq> 0" "sc_err sc = None" "sc_finished sc = sc_queued sc"
      "sc_sent sc \<noteq> sc_len sc"
  shows "\<exists>nr' e. previousSendWait_pass env choice g fd nr = Some (Wait_again, nr') \<and>
    sq_pending (nr_r nr') = sq_pending (nr_r nr) @ [e] \<and> sqe_Opcode e = OpSend \<and> sqe_FD e = ucast fd \<and>
    sqe_Addr e = sc_buf sc + sc_sent sc \<and> sqe_Len e = ucast (sc_len sc - sc_sent sc) \<and>
    nr_sendCells nr' = (nr_sendCells nr)[unat fd := compensate sc]"
proof -
  obtain c nr1 where t: "take_cell g opcodeTypeSend fd nr = (c, nr1)" by fastforce
  note f = take_cell_frame [OF t]
  let ?nr2 = "nr1\<lparr>nr_sendCells := (nr_sendCells nr1)[unat fd := compensate sc]\<rparr>"
  have free2: "nr_free k m env ?nr2" using free f(2) nr_free_sendCells by metis
  have cell2: "nr_cells ?nr2 (rt_Ctx (compensation_task c sc)) = Some (armed_cell g opcodeTypeSend fd)"
    by (simp add: f(3) compensation_task_def)
  have op2: "rt_Opcode (compensation_task c sc) = opcodeTypeSend" by (simp add: compensation_task_def)
  obtain nr' e where s: "submit env choice (compensation_task c sc) ?nr2 = Some (True, nr')"
    "sq_pending (nr_r nr') = sq_pending (nr_r ?nr2) @ [e]" "sqe_Opcode e = OpSend"
    "sqe_FD e = ucast (tc_fd (armed_cell g opcodeTypeSend fd))"
    "sqe_Addr e = rt_Payload (compensation_task c sc)" "sqe_Len e = rt_Len (compensation_task c sc)"
    "nr_sendCells nr' = nr_sendCells ?nr2"
    using submit_send [OF free2 cell2 op2, of choice] by blast
  have "previousSendWait_pass env choice g fd nr = Some (Wait_again, nr')"
    using fd sc s(1) by (simp add: previousSendWait_pass_def t Let_def)
  then show ?thesis using s f by (simp add: compensation_task_def armed_cell_def)
qed

text \<open>A send cell with nothing outstanding, and one whose current send got a partial result.\<close>

definition send_idle :: "sendCell \<Rightarrow> bool" where
  "send_idle sc \<longleftrightarrow> sc_err sc = None \<and> sc_finished sc = sc_queued sc \<and> sc_sent sc = sc_len sc \<and> sc_queued sc \<noteq> - 1"

lemma pass_idle:
  assumes "0 \<le> sint fd" and "unat fd < length (nr_sendCells nr)" and "send_idle (nr_sendCells nr ! unat fd)"
  shows "previousSendWait_pass env choice g fd nr = Some (Wait_return None, nr)"
  using assms by (simp add: previousSendWait_pass_def Let_def send_idle_def)

lemma send_idle_count: "send_idle sc \<Longrightarrow> sc_queued sc + 1 \<noteq> 0"
  by (simp add: send_idle_def eq_neg_iff_add_eq_0 [symmetric])

lemma wait_after_start:
  assumes "0 \<le> sint fd" and "unat fd < length (nr_sendCells nr)" and "send_idle (nr_sendCells nr ! unat fd)"
    and "nr_sendCells nr' = (nr_sendCells nr)[unat fd := start_send ptr len (nr_sendCells nr ! unat fd)]"
  shows "previousSendWait_pass env choice g fd nr' = Some (Wait_spin, nr')"
  using assms send_idle_count [OF assms(3)]
  by (simp add: previousSendWait_pass_def start_send_def Let_def) (simp add: send_idle_def)

lemma Send_idle:
  assumes free: "nr_free k m env nr" and fd: "0 \<le> sint fd" "sint fd \<le> 65535" "unat fd < length (nr_sendCells nr)"
    and idle: "send_idle (nr_sendCells nr ! unat fd)" and len: "len \<noteq> 0"
  shows "\<exists>nr' e. Send_pass env choice g fd ptr len nr = Some (Wait_return None, nr') \<and>
    sq_pending (nr_r nr') = sq_pending (nr_r nr) @ [e] \<and> sqe_Opcode e = OpSend \<and> sqe_FD e = ucast fd \<and>
    sqe_Addr e = ptr \<and> sqe_Len e = ucast len \<and>
    nr_sendCells nr' = (nr_sendCells nr)[unat fd := start_send ptr len (nr_sendCells nr ! unat fd)]"
proof -
  obtain c nr1 where t: "take_cell g opcodeTypeSend fd nr = (c, nr1)" by fastforce
  note f = take_cell_frame [OF t]
  let ?nr2 = "nr1\<lparr>nr_sendCells := (nr_sendCells nr1)[unat fd := start_send ptr len (nr_sendCells nr1 ! unat fd)]\<rparr>"
  have free2: "nr_free k m env ?nr2" using free f(2) nr_free_sendCells by metis
  have cell2: "nr_cells ?nr2 (rt_Ctx (send_task c ptr len)) = Some (armed_cell g opcodeTypeSend fd)"
    by (simp add: f(3) send_task_def)
  have op2: "rt_Opcode (send_task c ptr len) = opcodeTypeSend" by (simp add: send_task_def)
  obtain nr' e where s: "submit env choice (send_task c ptr len) ?nr2 = Some (True, nr')"
    "sq_pending (nr_r nr') = sq_pending (nr_r ?nr2) @ [e]" "sqe_Opcode e = OpSend"
    "sqe_FD e = ucast (tc_fd (armed_cell g opcodeTypeSend fd))"
    "sqe_Addr e = rt_Payload (send_task c ptr len)" "sqe_Len e = rt_Len (send_task c ptr len)"
    "nr_sendCells nr' = nr_sendCells ?nr2"
    using submit_send [OF free2 cell2 op2, of choice] by blast
  have "Send_pass env choice g fd ptr len nr = Some (Wait_return None, nr')"
    using fd len s(1) pass_idle [OF fd(1,3) idle] by (simp add: Send_pass_def t Let_def)
  then show ?thesis using s f by (simp add: send_task_def armed_cell_def)
qed

text \<open>The cell after a send was started and got a first and a second partial result.\<close>

definition after_first :: "u64 \<Rightarrow> u64 \<Rightarrow> i32 \<Rightarrow> sendCell \<Rightarrow> sendCell" where
  "after_first ptr len r1 sc = record_send r1 (start_send ptr len sc)"

definition after_second :: "u64 \<Rightarrow> u64 \<Rightarrow> i32 \<Rightarrow> i32 \<Rightarrow> sendCell \<Rightarrow> sendCell" where
  "after_second ptr len r1 r2 sc = record_send r2 (compensate (after_first ptr len r1 sc))"

lemma after_first_simps:
  assumes "send_idle sc" and "0 \<le> sint r1"
  shows "sc_buf (after_first ptr len r1 sc) = ptr" "sc_len (after_first ptr len r1 sc) = len"
    "sc_sent (after_first ptr len r1 sc) = scast r1" "sc_err (after_first ptr len r1 sc) = None"
    "sc_finished (after_first ptr len r1 sc) = sc_queued (after_first ptr len r1 sc)"
    "sc_queued (after_first ptr len r1 sc) = sc_queued sc + 1"
  using assms by (simp_all add: after_first_def record_send_def start_send_def send_idle_def Let_def)


lemma after_second_simps:
  assumes "send_idle sc" and "0 \<le> sint r1" and "0 \<le> sint r2"
  shows "sc_buf (after_second ptr len r1 r2 sc) = ptr + len" "sc_len (after_second ptr len r1 r2 sc) = len - scast r1"
    "sc_sent (after_second ptr len r1 r2 sc) = scast r2" "sc_err (after_second ptr len r1 r2 sc) = None"
    "sc_finished (after_second ptr len r1 r2 sc) = sc_queued (after_second ptr len r1 r2 sc)"
    "sc_queued (after_second ptr len r1 r2 sc) = sc_queued sc + 2"
  using after_first_simps [OF assms(1,2), of ptr len] assms(3)
  by (simp_all add: after_second_def record_send_def compensate_def Let_def)

section \<open>Errors\<close>

text \<open>An error stays with the descriptor: no completion clears it, and every later send reports it.\<close>

lemma failed_send_is_sticky:
  assumes "0 \<le> sint fd" and "sint fd \<le> 65535" and "unat fd < length (nr_sendCells nr)" and "len \<noteq> 0"
    and "sc_queued (nr_sendCells nr ! unat fd) \<noteq> 0" and "sc_err (nr_sendCells nr ! unat fd) = Some e"
  shows "Send_pass env choice g fd ptr len nr = Some (Wait_return (Some (Previous_send e)), nr)"
    and "sc_err (record_send r (nr_sendCells nr ! unat fd)) \<noteq> None"
  using assms by (simp_all add: Send_pass_def previousSendWait_pass_def record_send_def Let_def)

text \<open>A send whose submission is refused is counted all the same, and its descriptor then waits
  for a completion that nobody asked for.\<close>

lemma refused_send_blocks_descriptor:
  assumes fd: "0 \<le> sint fd" "sint fd \<le> 65535" "unat fd < length (nr_sendCells nr)"
    and idle: "send_idle (nr_sendCells nr ! unat fd)" and len: "len \<noteq> 0"
    and active: "bit (nr_barrier nr) 63" and stopped: "nr_stop nr"
  shows "\<exists>nr'. Send_pass env False g fd ptr len nr = Some (Wait_return (Some Failed_to_submit), nr') \<and>
    previousSendWait_pass env choice g fd nr' = Some (Wait_spin, nr')"
proof -
  obtain c nr1 where t: "take_cell g opcodeTypeSend fd nr = (c, nr1)" by fastforce
  have f: "nr_barrier nr1 = nr_barrier nr" "nr_stop nr1 = nr_stop nr" "nr_sendCells nr1 = nr_sendCells nr"
    using t by (auto simp: take_cell_def Let_def split: list.splits)
  let ?nr2 = "nr1\<lparr>nr_sendCells := (nr_sendCells nr1)[unat fd := start_send ptr len (nr_sendCells nr1 ! unat fd)]\<rparr>"
  have "submit env False (send_task c ptr len) ?nr2 = Some (False, snd (submitIntention ?nr2))"
    using active stopped f
    by (simp add: submit_def submitIntention_def send_task_def send_fallback_def status_cases Let_def)
  moreover have cells: "nr_sendCells (snd (submitIntention ?nr2)) =
      (nr_sendCells nr)[unat fd := start_send ptr len (nr_sendCells nr ! unat fd)]"
    by (simp add: submitIntention_def Let_def f)
  ultimately have "Send_pass env False g fd ptr len nr =
      Some (Wait_return (Some Failed_to_submit), snd (submitIntention ?nr2))"
    using fd len pass_idle [OF fd(1,3) idle] by (simp add: Send_pass_def t Let_def)
  moreover have "previousSendWait_pass env choice g fd (snd (submitIntention ?nr2)) =
      Some (Wait_spin, snd (submitIntention ?nr2))"
    by (rule wait_after_start [OF fd(1,3) idle cells])
  ultimately show ?thesis by blast
qed

section \<open>Examples\<close>

definition ex_send_nr :: "sendCell \<Rightarrow> NetRing" where
  "ex_send_nr sc = ex_nr\<lparr>nr_sendCells := [sc, zero_sendCell]\<rparr>"

lemma ex_send_free: "nr_free 12 1 ex_env (ex_send_nr sc)"
  unfolding ex_send_nr_def nr_free_sendCells using ex_nr_ok ex_awake by (simp add: nr_free_def)

lemma ex_send_idle: "send_idle zero_sendCell"
  by (simp add: send_idle_def zero_sendCell_def)

section \<open>Properties\<close>

text \<open>A send on a descriptor with nothing outstanding returns at once, having queued exactly
  one request for the whole payload, and the descriptor then counts one send more than it
  has seen finished, so the next send on it waits.\<close>

theorem Send_queues_payload:
  assumes "nr_free k m env nr" and "0 \<le> sint fd" and "sint fd \<le> 65535" and "unat fd < length (nr_sendCells nr)"
    and "send_idle (nr_sendCells nr ! unat fd)" and "len \<noteq> 0"
  shows "\<exists>nr' e. Send_pass env choice g fd ptr len nr = Some (Wait_return None, nr') \<and>
    sq_pending (nr_r nr') = sq_pending (nr_r nr) @ [e] \<and> sqe_Opcode e = OpSend \<and> sqe_FD e = ucast fd \<and>
    sqe_Addr e = ptr \<and> sqe_Len e = ucast len \<and>
    previousSendWait_pass env choice g fd nr' = Some (Wait_spin, nr')"
proof -
  obtain nr' e where s: "Send_pass env choice g fd ptr len nr = Some (Wait_return None, nr')"
    "sq_pending (nr_r nr') = sq_pending (nr_r nr) @ [e]" "sqe_Opcode e = OpSend" "sqe_FD e = ucast fd"
    "sqe_Addr e = ptr" "sqe_Len e = ucast len"
    "nr_sendCells nr' = (nr_sendCells nr)[unat fd := start_send ptr len (nr_sendCells nr ! unat fd)]"
    using Send_idle [OF assms, of choice g ptr] by blast
  have "previousSendWait_pass env choice g fd nr' = Some (Wait_spin, nr')"
    by (rule wait_after_start [OF assms(2,4,5) s(7)])
  then show ?thesis using s by blast
qed

theorem Send_queues_payload_witness:
  "\<exists>nr'. Send_pass ex_env True 77 0 4096 100 (ex_send_nr zero_sendCell) = Some (Wait_return None, nr') \<and>
     map sqe_Addr (sq_pending (nr_r nr')) = [4096] \<and> map sqe_Len (sq_pending (nr_r nr')) = [100]"
  using Send_queues_payload [OF ex_send_free, of 0 zero_sendCell 100 True 77 4096] ex_send_idle ex_ring_ok(2)
  by (auto simp: ex_send_nr_def)

text \<open>A partial send is completed by whoever waits next: the remainder is submitted, from
  the first byte the kernel did not take to the end of the payload, and when it goes
  through in full the wait returns success.\<close>

theorem partial_send_is_completed:
  assumes "nr_free k m env nr" and "0 \<le> sint fd" and "unat fd < length (nr_sendCells nr)"
    and "send_idle sc" and "0 \<le> sint r1" and "scast r1 \<noteq> len"
    and "nr_sendCells nr ! unat fd = after_first ptr len r1 sc"
  shows "\<exists>nr' e. previousSendWait_pass env choice g fd nr = Some (Wait_again, nr') \<and>
    sq_pending (nr_r nr') = sq_pending (nr_r nr) @ [e] \<and> sqe_FD e = ucast fd \<and>
    sqe_Addr e = ptr + scast r1 \<and> sqe_Len e = ucast (len - scast r1) \<and>
    (\<forall>nr2 r2. nr_sendCells nr2 = (nr_sendCells nr')[unat fd := record_send r2 (nr_sendCells nr' ! unat fd)] \<and>
       0 \<le> sint r2 \<and> scast r2 = len - scast r1 \<and> sc_queued sc + 2 \<noteq> 0 \<longrightarrow>
       previousSendWait_pass env choice g fd nr2 = Some (Wait_return None, nr2))"
proof -
  note f = after_first_simps [OF assms(4,5), of ptr len]
  have q: "sc_queued (after_first ptr len r1 sc) \<noteq> 0" using f(6) send_idle_count [OF assms(4)] by simp
  have ne: "sc_sent (after_first ptr len r1 sc) \<noteq> sc_len (after_first ptr len r1 sc)"
    using f(2,3) assms(6) by simp
  obtain nr' e where s: "previousSendWait_pass env choice g fd nr = Some (Wait_again, nr')"
    "sq_pending (nr_r nr') = sq_pending (nr_r nr) @ [e]" "sqe_FD e = ucast fd"
    "sqe_Addr e = ptr + scast r1" "sqe_Len e = ucast (len - scast r1)"
    "nr_sendCells nr' = (nr_sendCells nr)[unat fd := compensate (after_first ptr len r1 sc)]"
    using pass_compensates [OF assms(1,2,3,7) q f(4,5) ne, of choice g] f(1,2,3) by auto
  have "previousSendWait_pass env choice g fd nr2 = Some (Wait_return None, nr2)"
    if "nr_sendCells nr2 = (nr_sendCells nr')[unat fd := record_send r2 (nr_sendCells nr' ! unat fd)]"
      and "0 \<le> sint r2" and "scast r2 = len - scast r1" and "sc_queued sc + 2 \<noteq> 0" for nr2 r2
  proof -
    have "nr_sendCells nr2 ! unat fd = after_second ptr len r1 r2 sc" and "length (nr_sendCells nr2) = length (nr_sendCells nr)"
      using that(1) assms(3) by (simp_all add: s(6) after_second_def)
    then show ?thesis
      using after_second_simps [OF assms(4,5) that(2), of ptr len] that(3,4) assms(2,3)
      by (simp add: previousSendWait_pass_def Let_def)
  qed
  then show ?thesis using s by blast
qed

theorem partial_send_is_completed_witness:
  "\<exists>nr'. previousSendWait_pass ex_env True 77 0 (ex_send_nr (after_first 4096 100 30 zero_sendCell)) = Some (Wait_again, nr') \<and>
     map sqe_Addr (sq_pending (nr_r nr')) = [4126] \<and> map sqe_Len (sq_pending (nr_r nr')) = [70]"
proof -
  let ?nr = "ex_send_nr (after_first 4096 100 30 zero_sendCell)"
  have "(scast (30 :: i32) :: u64) = 30" by (simp add: scast_eq)
  then obtain nr' e where "previousSendWait_pass ex_env True 77 0 ?nr = Some (Wait_again, nr')"
    "sq_pending (nr_r nr') = sq_pending (nr_r ?nr) @ [e]" "sqe_Addr e = 4126" "sqe_Len e = 70"
    using partial_send_is_completed [OF ex_send_free, of 0 "after_first 4096 100 30 zero_sendCell" zero_sendCell 30 100 4096 True 77]
      ex_send_idle by (auto simp: ex_send_nr_def)
  then show ?thesis using ex_ring_ok(2) by (simp add: ex_send_nr_def)
qed

text \<open>The compensation does not survive a second partial result: the next remainder is
  submitted from behind the end of the payload, not from its first unsent byte.\<close>

theorem second_partial_send_reads_past_payload:
  assumes "nr_free k m env nr" and "0 \<le> sint fd" and "unat fd < length (nr_sendCells nr)"
    and "send_idle sc" and "0 \<le> sint r1" and "0 \<le> sint r2" and "scast r2 \<noteq> len - scast r1"
    and "sc_queued sc + 2 \<noteq> 0" and "scast r1 \<noteq> len"
    and "nr_sendCells nr ! unat fd = after_second ptr len r1 r2 sc"
  shows "\<exists>nr' e. previousSendWait_pass env choice g fd nr = Some (Wait_again, nr') \<and>
    sq_pending (nr_r nr') = sq_pending (nr_r nr) @ [e] \<and>
    sqe_Addr e = ptr + len + scast r2 \<and> sqe_Addr e \<noteq> ptr + scast r1 + scast r2"
proof -
  note f = after_second_simps [OF assms(4,5,6), of ptr len]
  have q: "sc_queued (after_second ptr len r1 r2 sc) \<noteq> 0" using f(6) assms(8) by simp
  have ne: "sc_sent (after_second ptr len r1 r2 sc) \<noteq> sc_len (after_second ptr len r1 r2 sc)"
    using f(2,3) assms(7) by simp
  show ?thesis
    using pass_compensates [OF assms(1,2,3,10) q f(4,5) ne, of choice g] f(1,3) assms(9) by auto
qed

theorem second_partial_send_reads_past_payload_witness:
  "\<exists>nr' e. previousSendWait_pass ex_env True 77 0 (ex_send_nr (after_second 4096 100 30 20 zero_sendCell)) = Some (Wait_again, nr') \<and>
     sq_pending (nr_r nr') = [e] \<and> sqe_Addr e = 4096 + 100 + 20"
proof -
  let ?nr = "ex_send_nr (after_second 4096 100 30 20 zero_sendCell)"
  have s: "(scast (30 :: i32) :: u64) = 30" "(scast (20 :: i32) :: u64) = 20" by (simp_all add: scast_eq)
  then obtain nr' e where "previousSendWait_pass ex_env True 77 0 ?nr = Some (Wait_again, nr')"
    "sq_pending (nr_r nr') = sq_pending (nr_r ?nr) @ [e]" "sqe_Addr e = 4096 + 100 + 20"
    using second_partial_send_reads_past_payload [OF ex_send_free, of 0 "after_second 4096 100 30 20 zero_sendCell" zero_sendCell 30 20 100 4096 True 77]
      ex_send_idle by (auto simp: ex_send_nr_def zero_sendCell_def)
  then show ?thesis using ex_ring_ok(2) by (simp add: ex_send_nr_def)
qed

end
