(* ===== verification/Netring_Ops.thy ===== *)
theory Netring_Ops
  imports Netring_Send
begin

text \<open>
  The operations that park their caller, \<open>Accept\<close>, \<open>Connect\<close>, \<open>Close\<close>, \<open>Recv\<close> and
  \<open>Read\<close>, and \<open>ReleaseBuffer\<close>, \<open>RegisterBufferRing\<close>, \<open>UnregisterBufferRing\<close> and
  \<open>Stop\<close>. A parking operation is two functions: up to the park, which yields the cell it
  parked on, and from the wake-up, which reads the cell. \<open>None\<close> is a panic.
\<close>

section \<open>Parking\<close>

text \<open>Arm a cell, submit the task for it, park on it.\<close>

definition start_op :: "uring_env \<Rightarrow> bool \<Rightarrow> u64 \<Rightarrow> opcodeType \<Rightarrow> i64 \<Rightarrow> (cell_ref \<Rightarrow> ringTask) \<Rightarrow> NetRing \<Rightarrow>
    ((netring_error + cell_ref) \<times> NetRing) option" where
  "start_op env choice g opc fd task nr =
     (let (c, nr1) = take_cell g opc fd nr in
      case submit env choice (task c) nr1 of None \<Rightarrow> None
      | Some (False, nr2) \<Rightarrow> Some (Inl Failed_to_submit, nr2)
      | Some (True, nr2) \<Rightarrow> map_option (\<lambda>(sleeps, nr3). (Inr c, nr3)) (park_cell c nr2))"

definition plain_task :: "opcodeType \<Rightarrow> u32 \<Rightarrow> u16 \<Rightarrow> cell_ref \<Rightarrow> ringTask" where
  "plain_task opc len bgid c = \<lparr> rt_Opcode = opc, rt_Addr = 0, rt_Len = len, rt_BGID = bgid, rt_Offset = 0,
     rt_Ctx = c, rt_Payload = 0 \<rparr>"

text \<open>The error of a finished operation: the kernel's, else the one \<open>abortIssuer\<close> left.\<close>

definition cell_error :: "taskCell \<Rightarrow> netring_error option" where
  "cell_error cell = (if sint (tc_res cell) < 0 then kernelResultToError (tc_res cell) else tc_err cell)"

definition finish_op :: "cell_ref \<Rightarrow> NetRing \<Rightarrow> ((netring_error + i32) \<times> NetRing) option" where
  "finish_op c nr =
     map_option (\<lambda>cell. (case cell_error cell of Some e \<Rightarrow> Inl e | None \<Rightarrow> Inr (tc_res cell), pool_put c nr))
       (nr_cells nr c)"

section \<open>Accept, Connect, Close\<close>

definition Accept_start :: "uring_env \<Rightarrow> bool \<Rightarrow> u64 \<Rightarrow> i64 \<Rightarrow> NetRing \<Rightarrow> ((netring_error + cell_ref) \<times> NetRing) option" where
  "Accept_start env choice g listenFD nr =
     (if sint listenFD < 0 then Some (Inl (Invalid_descriptor listenFD), nr)
      else start_op env choice g opcodeTypeAccept listenFD (plain_task opcodeTypeAccept 0 0) nr)"

definition Accept_finish :: "cell_ref \<Rightarrow> NetRing \<Rightarrow> ((netring_error + i32) \<times> NetRing) option" where
  "Accept_finish c nr = finish_op c nr"

datatype Sockaddr = SockaddrNil | SockaddrInet4 i64 "8 word list" | SockaddrUnsupported

record RawSockaddrInet4 =
  raw_Family :: u16
  raw_Port :: u16
  raw_Addr :: "8 word list"

definition AF_INET :: u16 where "AF_INET = 2"
definition sizeof_RawSockaddrInet4 :: u32 where "sizeof_RawSockaddrInet4 = 16"

definition marshal_inet4 :: "i64 \<Rightarrow> 8 word list \<Rightarrow> RawSockaddrInet4" where
  "marshal_inet4 port addr = \<lparr> raw_Family = AF_INET,
     raw_Port = ucast (signed_drop_bit 8 port OR push_bit 8 port), raw_Addr = addr \<rparr>"

text \<open>\<open>rawptr\<close> is where the marshalled address lives until the completion.\<close>

definition Connect_start :: "uring_env \<Rightarrow> bool \<Rightarrow> u64 \<Rightarrow> u64 \<Rightarrow> i64 \<Rightarrow> Sockaddr \<Rightarrow> NetRing \<Rightarrow>
    ((netring_error + cell_ref) \<times> NetRing) option" where
  "Connect_start env choice g rawptr fd sa nr =
     (if sint fd < 0 then Some (Inl (Invalid_descriptor fd), nr)
      else case sa of
        SockaddrNil \<Rightarrow> Some (Inl Sockaddr_missing, nr)
      | SockaddrUnsupported \<Rightarrow> Some (Inl Sockaddr_unsupported, nr)
      | SockaddrInet4 port addr \<Rightarrow>
          start_op env choice g opcodeTypeConnect fd
            (\<lambda>c. (plain_task opcodeTypeConnect 0 0 c)\<lparr>rt_Addr := ucast sizeof_RawSockaddrInet4, rt_Payload := rawptr\<rparr>) nr)"

definition Connect_finish :: "cell_ref \<Rightarrow> NetRing \<Rightarrow> (netring_error option \<times> NetRing) option" where
  "Connect_finish c nr =
     map_option (\<lambda>(r, nr'). (case r of Inl e \<Rightarrow> Some e | Inr _ \<Rightarrow> None, nr')) (finish_op c nr)"

definition Close_start :: "uring_env \<Rightarrow> bool \<Rightarrow> u64 \<Rightarrow> i64 \<Rightarrow> NetRing \<Rightarrow> ((netring_error + cell_ref) \<times> NetRing) option" where
  "Close_start env choice g fd nr =
     (if sint fd < 0 then Some (Inl (Invalid_descriptor fd), nr)
      else start_op env choice g opcodeTypeClose fd (plain_task opcodeTypeClose 0 0) nr)"

definition Close_finish :: "cell_ref \<Rightarrow> NetRing \<Rightarrow> (netring_error option \<times> NetRing) option" where
  "Close_finish c nr =
     map_option (\<lambda>(r, nr'). (case r of Inl e \<Rightarrow> Some e | Inr _ \<Rightarrow> None, nr')) (finish_op c nr)"

section \<open>Recv and Read\<close>

text \<open>The checks both share; \<open>None\<close> where \<open>Size\<close> panics.\<close>

definition check_class :: "i64 \<Rightarrow> u64 \<Rightarrow> NetRing \<Rightarrow> (netring_error + u32) option" where
  "check_class fd sizeClass nr =
     (if sint fd < 0 then Some (Inl (Invalid_descriptor fd))
      else case SizeClass_Size sizeClass of None \<Rightarrow> None
      | Some capacity \<Rightarrow>
          if capacity = 0 then Some (Inl (Size_class_invalid sizeClass))
          else if length (nr_pbrs nr) \<le> unat sizeClass then None
          else if nr_pbrs nr ! unat sizeClass = None then Some (Inl (Size_class_not_provisioned sizeClass))
          else Some (Inr capacity))"

definition Recv_start :: "uring_env \<Rightarrow> bool \<Rightarrow> u64 \<Rightarrow> i64 \<Rightarrow> u64 \<Rightarrow> NetRing \<Rightarrow>
    ((netring_error + cell_ref) \<times> NetRing) option" where
  "Recv_start env choice g fd sizeClass nr =
     (case check_class fd sizeClass nr of None \<Rightarrow> None
      | Some (Inl e) \<Rightarrow> Some (Inl e, nr)
      | Some (Inr capacity) \<Rightarrow>
          start_op env choice g opcodeTypeRecv fd (plain_task opcodeTypeRecv capacity (ucast sizeClass)) nr)"

definition Read_start :: "uring_env \<Rightarrow> bool \<Rightarrow> u64 \<Rightarrow> i64 \<Rightarrow> u64 \<Rightarrow> NetRing \<Rightarrow>
    ((netring_error + cell_ref) \<times> NetRing) option" where
  "Read_start env choice g fd sizeClass nr =
     (case check_class fd sizeClass nr of None \<Rightarrow> None
      | Some (Inl e) \<Rightarrow> Some (Inl e, nr)
      | Some (Inr capacity) \<Rightarrow>
          start_op env choice g opcodeTypeRead fd (plain_task opcodeTypeRead 0 (ucast sizeClass)) nr)"

text \<open>A view is its address and length; \<open>None\<close> inside the result is the nil slice of an end of file.\<close>

type_synonym view = "u64 \<times> nat"

definition bid_of_flags :: "u32 \<Rightarrow> u16" where
  "bid_of_flags flags = ucast (drop_bit CQEBufferShift flags)"

definition received_view :: "u64 \<Rightarrow> taskCell \<Rightarrow> NetRing \<Rightarrow> (netring_error + view) option" where
  "received_view sizeClass cell nr =
     (if tc_flags cell AND CQEFBuffer = 0 then Some (Inl No_buffer_flag)
      else if length (nr_pbrs nr) \<le> unat sizeClass then None
      else case nr_pbrs nr ! unat sizeClass of None \<Rightarrow> None
      | Some pbr \<Rightarrow>
          (case Buffer (bid_of_flags (tc_flags cell)) pbr of None \<Rightarrow> None
           | Some (ptr, cap) \<Rightarrow> if cap < nat (sint (tc_res cell)) then None
               else Some (Inr (ptr, nat (sint (tc_res cell))))))"

definition Recv_finish :: "u64 \<Rightarrow> cell_ref \<Rightarrow> NetRing \<Rightarrow> ((netring_error + view option) \<times> NetRing) option" where
  "Recv_finish sizeClass c nr =
     (case nr_cells nr c of None \<Rightarrow> None
      | Some cell \<Rightarrow>
          (case cell_error cell of Some e \<Rightarrow> Some (Inl e, pool_put c nr)
           | None \<Rightarrow>
               if tc_res cell = 0 then Some (Inr None, pool_put c nr)
               else map_option (\<lambda>r. (map_sum id Some r, pool_put c nr)) (received_view sizeClass cell nr)))"

definition Read_finish :: "sys_env \<Rightarrow> sys_trace \<Rightarrow> u64 \<Rightarrow> cell_ref \<Rightarrow> NetRing \<Rightarrow>
    ((netring_error + view option) \<times> NetRing) option" where
  "Read_finish env tr sizeClass c nr =
     (case nr_cells nr c of None \<Rightarrow> None
      | Some cell \<Rightarrow>
          (case cell_error cell of Some e \<Rightarrow> Some (Inl e, pool_put c nr)
           | None \<Rightarrow>
               if tc_res cell = 0 then
                 (if length (nr_pbrs nr) \<le> unat sizeClass then None
                  else case nr_pbrs nr ! unat sizeClass of None \<Rightarrow> None
                  | Some pbr \<Rightarrow>
                      map_option (\<lambda>(err, pbr').
                          let nr1 = nr\<lparr>nr_pbrs := (nr_pbrs nr)[unat sizeClass := Some pbr']\<rparr>;
                              nr2 = (if err = None then nr1 else log_entry nr1)
                          in (Inr None, pool_put c nr2))
                        (ReplenishOne env tr pbr))
               else map_option (\<lambda>r. (map_sum id Some r, pool_put c nr)) (received_view sizeClass cell nr)))"

section \<open>Buffers and shutdown\<close>

definition ReleaseBuffer_op :: "uring_env \<Rightarrow> u64 \<Rightarrow> view \<Rightarrow> NetRing \<Rightarrow> NetRing option" where
  "ReleaseBuffer_op env sizeClass v nr =
     (if snd v = 0 then Some nr
      else map_option snd (submit env True
        \<lparr> rt_Opcode = opcodeTypeReleaseBuffer, rt_Addr = 0, rt_Len = 0, rt_BGID = ucast sizeClass, rt_Offset = 0,
          rt_Ctx = 0, rt_Payload = fst v \<rparr> nr))"

definition RegisterBufferRing_op :: "sys_env \<Rightarrow> u64 \<Rightarrow> u32 \<Rightarrow> NetRing \<times> sys_trace \<Rightarrow>
    (netring_error option \<times> NetRing \<times> sys_trace) option" where
  "RegisterBufferRing_op env sizeClass capacity s =
     (let (nr, tr) = s in
      case SizeClass_Size sizeClass of None \<Rightarrow> None
      | Some sz \<Rightarrow>
          if sz = 0 then Some (Some (Size_class_invalid sizeClass), nr, tr)
          else if length (nr_pbrs nr) \<le> unat sizeClass then None
          else if nr_pbrs nr ! unat sizeClass \<noteq> None then Some (Some (Size_class_already_provisioned sizeClass), nr, tr)
          else
            case RegisterBufferRing env (r_FD (nr_r nr)) (ucast sizeClass) capacity sz tr of None \<Rightarrow> None
            | Some (Inl e, tr') \<Rightarrow> Some (Some (Register_buffer_ring e), nr, tr')
            | Some (Inr pbr, tr') \<Rightarrow>
                Some (None, nr\<lparr>nr_pbrs := (nr_pbrs nr)[unat sizeClass := Some pbr]\<rparr>, tr'))"

definition UnregisterBufferRing_op :: "sys_env \<Rightarrow> u64 \<Rightarrow> NetRing \<times> sys_trace \<Rightarrow>
    (netring_error option \<times> NetRing \<times> sys_trace) option" where
  "UnregisterBufferRing_op env sizeClass s =
     (let (nr, tr) = s; i = unat sizeClass in
      if length (nr_pbrs nr) \<le> i then None
      else case nr_pbrs nr ! i of None \<Rightarrow> Some (Some (Size_class_not_provisioned sizeClass), nr, tr)
      | Some pbr \<Rightarrow>
          (case Unregister env tr pbr of
             ((Some e, pbr'), tr') \<Rightarrow>
               Some (Some (Unregister_buffer_ring e), nr\<lparr>nr_pbrs := (nr_pbrs nr)[i := Some pbr']\<rparr>, tr')
           | ((None, pbr'), tr') \<Rightarrow> Some (None, nr\<lparr>nr_pbrs := (nr_pbrs nr)[i := None]\<rparr>, tr')))"

text \<open>\<open>Stop\<close> closes the channel and returns there; the rest of its body is not reached.\<close>

definition Stop :: "NetRing \<Rightarrow> NetRing option" where
  "Stop nr = (if nr_stop nr then None else Some (nr\<lparr>nr_stop := True\<rparr>))"

section \<open>Lemmas\<close>

text \<open>
  An operation that goes through: its entry is queued under a slot that holds the cell it
  parks on, and the cell is as armed, but parked.
\<close>

lemma start_op_parks:
  assumes free: "nr_free k m env nr" and ctx: "rt_Ctx (task (fst (take_cell g opc fd nr))) = fst (take_cell g opc fd nr)"
    and req: "request env (task (fst (take_cell g opc fd nr))) fd 0 \<noteq> None"
  shows "\<exists>c nr1 e. start_op env choice g opc fd task nr = Some (Inr c, nr1) \<and>
    sq_pending (nr_r nr1) = sq_pending (nr_r nr) @ [e] \<and> request env (task c) fd (sqe_UserData e) = Some e \<and>
    slots_inv k (nr_slots nr1) \<and> live (nr_slots nr1) (sqe_UserData e) = Some c \<and>
    nr_cells nr1 c = Some ((armed_cell g opc fd)\<lparr>tc_taskState := taskStateParked\<rparr>) \<and>
    nr_pbrs nr1 = nr_pbrs nr \<and> nr_ready nr1 = nr_ready nr"
proof -
  obtain c nr0 where t: "take_cell g opc fd nr = (c, nr0)" by fastforce
  note f = take_cell_frame [OF t]
  have f2: "nr_pbrs nr0 = nr_pbrs nr" "nr_ready nr0 = nr_ready nr"
    using t by (auto simp: take_cell_def Let_def split: list.splits)
  have free0: "nr_free k m env nr0" using free f(2) by metis
  have c: "rt_Ctx (task c) = c" and rq: "request env (task c) (tc_fd (armed_cell g opc fd)) 0 \<noteq> None"
    using ctx req by (simp_all add: t armed_cell_def)
  have cell: "nr_cells nr0 (rt_Ctx (task c)) = Some (armed_cell g opc fd)" using f(3) c by simp
  obtain nr2 idx e where s: "submit env choice (task c) nr0 = Some (True, nr2)" "nr_ok k m nr2"
    "sq_pending (nr_r nr2) = sq_pending (nr_r nr0) @ [e]" "request env (task c) (tc_fd (armed_cell g opc fd)) idx = Some e"
    "live (nr_slots nr2) = (live (nr_slots nr0))(idx \<mapsto> rt_Ctx (task c))"
    "nr_cells nr2 = nr_cells nr0" "nr_pbrs nr2 = nr_pbrs nr0" "nr_ready nr2 = nr_ready nr0"
    using submit_fast [OF _ _ _ _ cell rq, of m k choice] free0 unfolding nr_free_def by metis
  have idx: "sqe_UserData e = idx" using request_UserData [OF s(4)] by simp
  let ?nr1 = "nr2\<lparr>nr_cells := (nr_cells nr2)(c \<mapsto> (armed_cell g opc fd)\<lparr>tc_taskState := taskStateParked\<rparr>)\<rparr>"
  have "park_cell c nr2 = Some (True, ?nr1)"
    by (simp add: park_cell_def s(6) f(3) netringParkUnlock_def armed_cell_def)
  then have "start_op env choice g opc fd task nr = Some (Inr c, ?nr1)"
    by (simp add: start_op_def t s(1))
  then show ?thesis
    using s idx c f f2 by (intro exI [of _ c] exI [of _ ?nr1] exI [of _ e]) (simp add: nr_ok_def armed_cell_def)
qed

text \<open>
  Its completion: the poller readies the issuer and \<open>finish_op\<close> returns what the kernel
  reported for that very entry.
\<close>

lemma parked_completion:
  assumes inv: "slots_inv k (nr_slots nr)" and live: "live (nr_slots nr) (cqe_UserData resp) = Some c"
    and cell: "nr_cells nr c = Some ((armed_cell g opc fd)\<lparr>tc_taskState := taskStateParked\<rparr>)"
    and opc: "opc \<noteq> opcodeTypeSend" and cq: "cq_ok n (nr_r nr)" and pend: "cq_pending (nr_r nr) = resp # rest"
  shows "\<exists>nr2 cell2. poll_turn env idleAfter (spin, nr) = Some (0, nr2) \<and> nr_ready nr2 = nr_ready nr @ [g] \<and>
    nr_cells nr2 c = Some cell2 \<and> tc_res cell2 = cqe_Res resp \<and> tc_flags cell2 = cqe_Flags resp \<and>
    tc_err cell2 = None \<and> nr_pbrs nr2 = nr_pbrs nr"
  using poll_turn_ready [OF cq pend, of env idleAfter spin] opc assms(1-3)
    dispatch_cqe_parked [of k "nr\<lparr>nr_r := (nr_r nr)\<lparr>r_CQHead := r_CQHead (nr_r nr) + 1\<rparr>\<rparr>" resp c
      "(armed_cell g opc fd)\<lparr>tc_taskState := taskStateParked\<rparr>"]
  by (simp add: armed_cell_def delivered_def woken_def waker_cas_def task_states)

lemma finish_op_result:
  assumes "nr_cells nr c = Some cell" and "tc_err cell = None"
  shows "finish_op c nr = Some (if sint (tc_res cell) < 0 then Inl (Kernel_errno (scast (- tc_res cell)))
    else Inr (tc_res cell), pool_put c nr)"
  using assms by (simp add: finish_op_def cell_error_def kernelResultToError_def)

text \<open>The buffer id a completion carries, and the view it gives.\<close>

lemma bid_of_flags_round: "bid_of_flags (push_bit 16 (ucast (bid :: u16)) OR CQEFBuffer) = bid"
  by (rule bit_word_eqI) (auto simp: bid_of_flags_def CQEFBuffer_def CQEBufferShift_def bit_simps)

lemma buffer_flag_set: "(push_bit 16 (ucast (bid :: u16)) OR CQEFBuffer) AND CQEFBuffer \<noteq> (0 :: u32)"
proof
  assume "(push_bit 16 (ucast bid) OR CQEFBuffer) AND CQEFBuffer = (0 :: u32)"
  then have "\<not> bit ((push_bit 16 (ucast bid) OR CQEFBuffer) AND CQEFBuffer :: u32) 0" by simp
  then show False by (simp add: CQEFBuffer_def bit_simps)
qed

section \<open>Properties\<close>

text \<open>\<open>Connect\<close> marshals an IPv4 address for the kernel: the port is stored so that its
  high byte comes first in memory, the address bytes and the family are passed on.\<close>

theorem marshal_inet4_network_order:
  "raw_Family (marshal_inet4 (ucast (port :: u16)) addr) = 2 \<and> raw_Addr (marshal_inet4 (ucast port) addr) = addr \<and>
   ucast (raw_Port (marshal_inet4 (ucast port) addr)) = (ucast (drop_bit 8 port) :: 8 word) \<and>
   ucast (drop_bit 8 (raw_Port (marshal_inet4 (ucast port) addr))) = (ucast port :: 8 word)"
proof -
  have b: "bit (raw_Port (marshal_inet4 (ucast port) addr)) i \<longleftrightarrow>
      i < 16 \<and> (bit port (8 + i) \<or> 8 \<le> i \<and> bit port (i - 8))" for i
    by (auto simp: marshal_inet4_def bit_simps bit_signed_drop_bit_iff dest: bit_imp_le_length)
  have "ucast (raw_Port (marshal_inet4 (ucast port) addr)) = (ucast (drop_bit 8 port) :: 8 word)"
    by (rule bit_word_eqI) (auto simp: b bit_simps)
  moreover have "ucast (drop_bit 8 (raw_Port (marshal_inet4 (ucast port) addr))) = (ucast port :: 8 word)"
    by (rule bit_word_eqI) (auto simp: b bit_simps dest: bit_imp_le_length)
  ultimately show ?thesis by (simp add: marshal_inet4_def AF_INET_def)
qed

end
