(* ===== verification/Submit_Protocol.thy ===== *)
theory Submit_Protocol
  imports Prelude
begin

text \<open>
  The submission protocol with many submitters, one translator and the kernel, interleaved
  at their atomic operations: \<open>submit\<close>, \<open>submitIntention\<close>, \<open>setFallbackActive\<close>
  (\<open>method_submit.go\<close>), \<open>fallbackLoop\<close> (\<open>method_submit_fallback.go\<close>) and the two
  halves of \<open>Push\<close> (\<open>method_push.go\<close>). A retry loop around a compare-and-swap is one step,
  its successful turn; the failed turns change nothing. The word \<open>barrier\<close> is its two parts,
  and the counters are unbounded: a comparison can only be fooled by a wrap-around if a
  goroutine stands still for \<open>2 ^ 32\<close> pushes. The model is of the time before \<open>Stop\<close> and
  of the opcodes that queue a request.
\<close>

section \<open>States\<close>

text \<open>Where a submitter stands in \<open>submit\<close>; the arguments are its local variables.\<close>

datatype sub_pc =
    S_idle
  | S_intend
  | S_check bool
  | S_ticket nat
  | S_cas nat
  | S_reload
  | S_full nat
  | S_mark
  | S_send
  | S_push
  | S_store nat
  | S_add

text \<open>
  Where the translator stands in \<open>fallbackLoop\<close>. Its locals are the epoch \<open>cur\<close> of the
  snapshot, the active bit \<open>old\<close> of it, and the count \<open>M\<close>.
\<close>

datatype tr_pc =
    T_wait
  | T_snap
  | T_count bool nat
  | T_space bool nat nat
  | T_room bool nat nat
  | T_push bool nat nat
  | T_store bool nat nat nat
  | T_next bool nat nat
  | T_finish bool nat
  | T_release bool nat
  | T_again
  | T_resync

record proto =
  pr_active :: bool
  pr_epoch :: nat
  pr_finished :: nat
  pr_ticket :: nat
  pr_tail :: nat
  pr_head :: nat
  pr_size :: nat
  pr_chan :: nat
  pr_cap :: nat
  pr_subs :: "sub_pc list"
  pr_tr :: tr_pc
  pr_slots :: "nat list"
  pr_done :: nat

text \<open>
  \<open>pr_chan\<close> is the number of tasks in the fallback channel, \<open>pr_slots\<close> the ring
  positions written so far, newest first, and \<open>pr_done\<close> counts, for the proof only, the
  tasks whose push is complete and accounted for.
\<close>

definition set_sub :: "nat \<Rightarrow> sub_pc \<Rightarrow> proto \<Rightarrow> proto" where
  "set_sub i pc s = s\<lparr>pr_subs := (pr_subs s)[i := pc]\<rparr>"

definition at_sub :: "proto \<Rightarrow> nat \<Rightarrow> sub_pc \<Rightarrow> bool" where
  "at_sub s i pc \<longleftrightarrow> i < length (pr_subs s) \<and> pr_subs s ! i = pc"

section \<open>Steps of a submitter\<close>

inductive sub_step :: "nat \<Rightarrow> proto \<Rightarrow> proto \<Rightarrow> bool" where
  call: "at_sub s i S_idle \<Longrightarrow> sub_step i s (set_sub i S_intend s)"
| intend: "at_sub s i S_intend \<Longrightarrow>
    sub_step i s (set_sub i (S_check (pr_active s)) (s\<lparr>pr_epoch := pr_epoch s + 1\<rparr>))"
| divert: "at_sub s i (S_check True) \<Longrightarrow> sub_step i s (set_sub i S_send s)"
| load_ticket: "at_sub s i (S_check False) \<Longrightarrow> sub_step i s (set_sub i (S_ticket (pr_ticket s)) s)"
| load_tail: "at_sub s i (S_ticket t) \<Longrightarrow>
    sub_step i s (set_sub i (if t = pr_tail s then S_cas t else S_reload) s)"
| take_ticket: "at_sub s i (S_cas t) \<Longrightarrow> pr_ticket s = t \<Longrightarrow>
    sub_step i s (set_sub i (S_full t) (s\<lparr>pr_ticket := t + 1\<rparr>))"
| miss_ticket: "at_sub s i (S_cas t) \<Longrightarrow> pr_ticket s \<noteq> t \<Longrightarrow> sub_step i s (set_sub i S_reload s)"
| reload: "at_sub s i S_reload \<Longrightarrow> sub_step i s (set_sub i (S_check (pr_active s)) s)"
| test_full: "at_sub s i (S_full t) \<Longrightarrow>
    sub_step i s (set_sub i (if t - pr_head s = pr_size s then S_mark else S_push) s)"
| mark: "at_sub s i S_mark \<Longrightarrow> sub_step i s (set_sub i S_send (s\<lparr>pr_active := True\<rparr>))"
| send: "at_sub s i S_send \<Longrightarrow> pr_chan s < pr_cap s \<Longrightarrow>
    sub_step i s (set_sub i S_idle (s\<lparr>pr_chan := pr_chan s + 1\<rparr>))"
| push_entry: "at_sub s i S_push \<Longrightarrow>
    sub_step i s (set_sub i (S_store (pr_tail s)) (s\<lparr>pr_slots := pr_tail s # pr_slots s\<rparr>))"
| push_tail: "at_sub s i (S_store t) \<Longrightarrow> sub_step i s (set_sub i S_add (s\<lparr>pr_tail := t + 1\<rparr>))"
| finish: "at_sub s i S_add \<Longrightarrow>
    sub_step i s (set_sub i S_idle (s\<lparr>pr_finished := pr_finished s + 1, pr_done := pr_done s + 1\<rparr>))"

section \<open>Steps of the translator and of the kernel\<close>

inductive tr_step :: "proto \<Rightarrow> proto \<Rightarrow> bool" where
  receive: "pr_tr s = T_wait \<Longrightarrow> 0 < pr_chan s \<Longrightarrow>
    tr_step s (s\<lparr>pr_tr := T_snap, pr_chan := pr_chan s - 1\<rparr>)"
| snapshot: "pr_tr s = T_snap \<Longrightarrow> tr_step s (s\<lparr>pr_tr := T_count (pr_active s) (pr_epoch s)\<rparr>)"
| count: "pr_tr s = T_count old cur \<Longrightarrow> tr_step s (s\<lparr>pr_tr := T_space old cur (cur - pr_finished s)\<rparr>)"
| space: "pr_tr s = T_space old cur m \<Longrightarrow> pr_tail s - pr_head s < pr_size s \<Longrightarrow>
    tr_step s (s\<lparr>pr_tr := T_room old cur m\<rparr>)"
| make_room: "pr_tr s = T_room old cur m \<Longrightarrow>
    tr_step s (s\<lparr>pr_tr := T_push old cur m, pr_ticket := pr_ticket s + 1\<rparr>)"
| tr_entry: "pr_tr s = T_push old cur m \<Longrightarrow>
    tr_step s (s\<lparr>pr_tr := T_store old cur m (pr_tail s), pr_slots := pr_tail s # pr_slots s\<rparr>)"
| tr_tail: "pr_tr s = T_store old cur m t \<Longrightarrow>
    tr_step s (s\<lparr>pr_tr := (if m - 1 = 0 then T_finish old cur else T_next old cur (m - 1)),
      pr_tail := t + 1, pr_done := pr_done s + 1\<rparr>)"
| more: "pr_tr s = T_next old cur m \<Longrightarrow> 0 < pr_chan s \<Longrightarrow>
    tr_step s (s\<lparr>pr_tr := T_space old cur m, pr_chan := pr_chan s - 1\<rparr>)"
| store_finished: "pr_tr s = T_finish old cur \<Longrightarrow>
    tr_step s (s\<lparr>pr_tr := T_release old cur, pr_finished := cur\<rparr>)"
| release: "pr_tr s = T_release old cur \<Longrightarrow> pr_active s = old \<Longrightarrow> pr_epoch s = cur \<Longrightarrow>
    tr_step s (s\<lparr>pr_tr := T_resync, pr_active := False\<rparr>)"
| no_release: "pr_tr s = T_release old cur \<Longrightarrow> \<not> (pr_active s = old \<and> pr_epoch s = cur) \<Longrightarrow>
    tr_step s (s\<lparr>pr_tr := T_again\<rparr>)"
| again: "pr_tr s = T_again \<Longrightarrow> 0 < pr_chan s \<Longrightarrow>
    tr_step s (s\<lparr>pr_tr := T_snap, pr_chan := pr_chan s - 1\<rparr>)"
| resync: "pr_tr s = T_resync \<Longrightarrow> tr_step s (s\<lparr>pr_tr := T_wait, pr_ticket := pr_tail s\<rparr>)"

inductive proto_step :: "proto \<Rightarrow> proto \<Rightarrow> bool" where
  submitter: "sub_step i s s' \<Longrightarrow> proto_step s s'"
| translator: "tr_step s s' \<Longrightarrow> proto_step s s'"
| kernel_takes: "pr_head s + n \<le> pr_tail s \<Longrightarrow> proto_step s (s\<lparr>pr_head := pr_head s + n\<rparr>)"

text \<open>A quiescent start: nobody submits, the counters agree.\<close>

definition proto_init :: "nat \<Rightarrow> nat \<Rightarrow> nat \<Rightarrow> nat \<Rightarrow> nat \<Rightarrow> nat \<Rightarrow> proto" where
  "proto_init submitters entries cap epoch head used = \<lparr> pr_active = False, pr_epoch = epoch, pr_finished = epoch,
     pr_ticket = head + used, pr_tail = head + used, pr_head = head, pr_size = entries, pr_chan = 0, pr_cap = cap,
     pr_subs = replicate submitters S_idle, pr_tr = T_wait, pr_slots = [], pr_done = epoch \<rparr>"

section \<open>The invariant\<close>

text \<open>A submitter that holds the ticket; that has an unfinished intention; that still has to count its push; that trusts the fallback.\<close>

definition holds :: "sub_pc \<Rightarrow> bool" where
  "holds pc = (case pc of S_full _ \<Rightarrow> True | S_mark \<Rightarrow> True | S_push \<Rightarrow> True | S_store _ \<Rightarrow> True | _ \<Rightarrow> False)"

definition midway :: "sub_pc \<Rightarrow> bool" where
  "midway pc = (case pc of S_idle \<Rightarrow> False | S_intend \<Rightarrow> False | _ \<Rightarrow> True)"

definition late :: "sub_pc \<Rightarrow> bool" where
  "late pc = (pc = S_add)"

definition diverted :: "sub_pc \<Rightarrow> bool" where
  "diverted pc = (pc = S_send \<or> pc = S_check True)"

abbreviation number :: "(sub_pc \<Rightarrow> bool) \<Rightarrow> proto \<Rightarrow> nat" where
  "number P s \<equiv> length (filter P (pr_subs s))"

text \<open>What the translator has in hand, and where it is between raising the ticket and the tail.\<close>

definition in_hand :: "tr_pc \<Rightarrow> nat" where
  "in_hand pc = (case pc of T_snap \<Rightarrow> 1 | T_count _ _ \<Rightarrow> 1 | T_space _ _ _ \<Rightarrow> 1 | T_room _ _ _ \<Rightarrow> 1
     | T_push _ _ _ \<Rightarrow> 1 | T_store _ _ _ _ \<Rightarrow> 1 | _ \<Rightarrow> 0)"

definition raised :: "tr_pc \<Rightarrow> nat" where
  "raised pc = (case pc of T_push _ _ _ \<Rightarrow> 1 | T_store _ _ _ _ \<Rightarrow> 1 | _ \<Rightarrow> 0)"

definition fallback_on :: "proto \<Rightarrow> bool" where
  "fallback_on s \<longleftrightarrow> pr_active s \<or> pr_tr s = T_resync"

definition inv_ticket :: "proto \<Rightarrow> bool" where
  "inv_ticket s \<longleftrightarrow>
     (if fallback_on s then number holds s = 0 \<and> pr_ticket s = pr_tail s + 1 + raised (pr_tr s)
      else number holds s \<le> 1 \<and> pr_ticket s = pr_tail s + number holds s \<and> pr_tr s = T_wait) \<and>
     (pr_tr s = T_resync \<longrightarrow> \<not> pr_active s) \<and>
     (\<not> pr_active s \<longrightarrow> pr_chan s = 0 \<and> number diverted s = 0)"

definition inv_count :: "proto \<Rightarrow> bool" where
  "inv_count s \<longleftrightarrow> pr_epoch s = pr_done s + number midway s + pr_chan s + in_hand (pr_tr s) \<and>
     pr_finished s \<le> pr_done s \<and>
     (case pr_tr s of
        T_count _ cur \<Rightarrow> pr_done s + number late s + 1 \<le> cur
      | T_space _ cur m \<Rightarrow> 1 \<le> m \<and> cur \<le> pr_done s + m
      | T_room _ cur m \<Rightarrow> 1 \<le> m \<and> cur \<le> pr_done s + m
      | T_push _ cur m \<Rightarrow> 1 \<le> m \<and> cur \<le> pr_done s + m
      | T_store _ cur m _ \<Rightarrow> 1 \<le> m \<and> cur \<le> pr_done s + m
      | T_next _ cur m \<Rightarrow> 1 \<le> m \<and> cur \<le> pr_done s + m
      | T_finish _ cur \<Rightarrow> cur \<le> pr_done s
      | T_release _ cur \<Rightarrow> cur \<le> pr_done s
      | _ \<Rightarrow> True)"

text \<open>What a submitter and the translator know of the ring where they stand.\<close>

definition room :: "proto \<Rightarrow> bool" where
  "room s \<longleftrightarrow> pr_tail s < pr_head s + pr_size s"

definition sub_ok :: "proto \<Rightarrow> sub_pc \<Rightarrow> bool" where
  "sub_ok s pc = (case pc of S_cas t \<Rightarrow> t \<le> pr_tail s | S_full t \<Rightarrow> t = pr_tail s | S_push \<Rightarrow> room s
     | S_store t \<Rightarrow> t = pr_tail s \<and> room s | _ \<Rightarrow> True)"

definition tr_ok :: "proto \<Rightarrow> tr_pc \<Rightarrow> bool" where
  "tr_ok s pc = (case pc of T_room _ _ _ \<Rightarrow> room s | T_push _ _ _ \<Rightarrow> room s
     | T_store _ _ _ t \<Rightarrow> t = pr_tail s \<and> room s | _ \<Rightarrow> True)"

definition inv_ring :: "proto \<Rightarrow> bool" where
  "inv_ring s \<longleftrightarrow> pr_head s \<le> pr_tail s \<and> pr_tail s \<le> pr_head s + pr_size s \<and>
     (\<forall>pc \<in> set (pr_subs s). sub_ok s pc) \<and> tr_ok s (pr_tr s)"

definition proto_inv :: "proto \<Rightarrow> bool" where
  "proto_inv s \<longleftrightarrow> inv_ticket s \<and> inv_count s \<and> inv_ring s"

section \<open>Preservation\<close>

lemma number_update:
  "i < length xs \<Longrightarrow> length (filter P (xs[i := y])) =
    length (filter P xs) + (if P y then 1 else 0) - (if P (xs ! i) then 1 else 0)"
  using count_update [of i xs P y] by (auto split: if_splits)

lemma holds_simps [simp]: "holds (S_full t)" "holds S_mark" "holds S_push" "holds (S_store t)"
  by (simp_all add: holds_def)

lemmas pc_defs = holds_def midway_def late_def diverted_def

lemma late_midway: "number late s \<le> number midway s"
proof -
  have "filter late (pr_subs s) = filter late (filter midway (pr_subs s))"
    by (auto simp: pc_defs intro!: filter_cong)
  then show ?thesis by (metis length_filter_le)
qed

lemma at_sub_holds: "at_sub s i pc \<Longrightarrow> holds pc \<Longrightarrow> Suc 0 \<le> number holds s"
  unfolding at_sub_def using count_pos by (metis Suc_leI)

lemma at_sub_midway: "at_sub s i pc \<Longrightarrow> midway pc \<Longrightarrow> Suc 0 \<le> number midway s"
  unfolding at_sub_def using count_pos by (metis Suc_leI)

lemma at_sub_diverted: "at_sub s i pc \<Longrightarrow> diverted pc \<Longrightarrow> Suc 0 \<le> number diverted s"
  unfolding at_sub_def using count_pos by (metis Suc_leI)

lemma at_sub_late: "at_sub s i pc \<Longrightarrow> late pc \<Longrightarrow> Suc 0 \<le> number late s"
  unfolding at_sub_def using count_pos by (metis Suc_leI)

lemma one_holder:
  assumes "inv_ticket s" "at_sub s i pc" "holds pc" "at_sub s j pc'" "holds pc'"
  shows "i = j"
proof -
  have "number holds s \<le> 1" using assms(1) by (auto simp: inv_ticket_def split: if_splits)
  then show ?thesis using assms count_one_unique unfolding at_sub_def by metis
qed

lemma holder_off:
  assumes "inv_ticket s" "at_sub s i pc" "holds pc"
  shows "\<not> fallback_on s" "number holds s = 1" "pr_ticket s = pr_tail s + 1" "pr_tr s = T_wait"
    "\<not> pr_active s"
  using assms at_sub_holds [OF assms(2,3)] by (auto simp: inv_ticket_def fallback_on_def split: if_splits)

lemma room_simps [simp]:
  "room (s\<lparr>pr_subs := x\<rparr>) = room s" "room (s\<lparr>pr_tr := pc\<rparr>) = room s" "room (s\<lparr>pr_active := b\<rparr>) = room s"
  "room (s\<lparr>pr_epoch := n\<rparr>) = room s" "room (s\<lparr>pr_finished := n\<rparr>) = room s"
  "room (s\<lparr>pr_ticket := n\<rparr>) = room s" "room (s\<lparr>pr_chan := n\<rparr>) = room s"
  "room (s\<lparr>pr_slots := l\<rparr>) = room s" "room (s\<lparr>pr_done := n\<rparr>) = room s"
  by (simp_all add: room_def)

lemma ok_cong:
  assumes "pr_tail s' = pr_tail s" "room s' = room s"
  shows "sub_ok s' = sub_ok s" "tr_ok s' = tr_ok s"
  using assms by (auto simp: fun_eq_iff sub_ok_def tr_ok_def split: sub_pc.split tr_pc.split)

lemma sub_ok_at: "inv_ring s \<Longrightarrow> at_sub s i pc \<Longrightarrow> sub_ok s pc"
  by (auto simp: inv_ring_def at_sub_def)

text \<open>A step that moves one submitter and leaves both ends of the ring alone.\<close>

lemma inv_ring_move:
  assumes "inv_ring s" "sub_ok s pc" "pr_head s' = pr_head s" "pr_tail s' = pr_tail s"
    "pr_size s' = pr_size s" "pr_subs s' = (pr_subs s)[i := pc]" "pr_tr s' = pr_tr s"
  shows "inv_ring s'"
proof -
  have "room s' = room s" using assms by (simp add: room_def)
  note ok = ok_cong [OF assms(4) this]
  show ?thesis using assms set_update_subset_insert [of "pr_subs s" i pc] by (auto simp: inv_ring_def ok)
qed

text \<open>A step of the translator that leaves both ends of the ring alone.\<close>

lemma inv_ring_tr_move:
  assumes "inv_ring s" "tr_ok s pc" "pr_head s' = pr_head s" "pr_tail s' = pr_tail s"
    "pr_size s' = pr_size s" "pr_subs s' = pr_subs s" "pr_tr s' = pc"
  shows "inv_ring s'"
proof -
  have "room s' = room s" using assms by (simp add: room_def)
  note ok = ok_cong [OF assms(4) this]
  show ?thesis using assms by (simp add: inv_ring_def ok)
qed

text \<open>A step that raises the tail: nobody else relies on the old one.\<close>

lemma inv_ring_tail:
  assumes "inv_ring s" "room s" "pr_head s' = pr_head s" "pr_tail s' = pr_tail s + 1" "pr_size s' = pr_size s"
    "\<And>pc. pc \<in> set (pr_subs s') \<Longrightarrow> pc \<in> set (pr_subs s) \<and> \<not> holds pc \<or> pc = S_add"
    "tr_ok s' (pr_tr s')"
  shows "inv_ring s'"
proof -
  have "sub_ok s' pc" if "pc \<in> set (pr_subs s')" for pc
    using assms(1,4) assms(6) [OF that]
    by (cases pc) (auto simp: inv_ring_def sub_ok_def holds_def)
  then show ?thesis using assms by (auto simp: inv_ring_def room_def)
qed

lemma proto_inv_init: "used \<le> entries \<Longrightarrow> proto_inv (proto_init n entries cap epoch head used)"
  by (auto simp: proto_inv_def inv_ticket_def inv_count_def inv_ring_def proto_init_def fallback_on_def
      in_hand_def pc_defs sub_ok_def tr_ok_def)

lemma inv_ticket_sub:
  assumes "sub_step i s s'" "proto_inv s"
  shows "inv_ticket s'"
proof -
  have t: "inv_ticket s" and r: "inv_ring s" and c: "inv_count s" using assms(2) by (auto simp: proto_inv_def)
  show ?thesis using assms(1)
  proof cases
    case (take_ticket t)
    have "t \<le> pr_tail s" using sub_ok_at [OF r take_ticket(2)] by (simp add: sub_ok_def)
    then show ?thesis using t take_ticket
      by (auto simp: inv_ticket_def fallback_on_def set_sub_def at_sub_def number_update pc_defs split: if_splits)
  next
    case mark
    then show ?thesis using t holder_off [OF t mark(2)]
      by (auto simp: inv_ticket_def fallback_on_def set_sub_def at_sub_def number_update pc_defs raised_def split: if_splits)
  next
    case send
    then show ?thesis using t at_sub_diverted [OF send(2)]
      by (auto simp: inv_ticket_def fallback_on_def set_sub_def at_sub_def number_update pc_defs split: if_splits)
  next
    case (push_tail t)
    have "t = pr_tail s" using sub_ok_at [OF r push_tail(2)] by (simp add: sub_ok_def)
    then show ?thesis using t push_tail holder_off [OF t push_tail(2)]
      by (auto simp: inv_ticket_def fallback_on_def set_sub_def at_sub_def number_update pc_defs split: if_splits)
  qed (use t in \<open>auto simp: inv_ticket_def fallback_on_def set_sub_def at_sub_def number_update pc_defs split: if_splits\<close>)
qed

lemma inv_count_sub:
  assumes "sub_step i s s'" "proto_inv s"
  shows "inv_count s'"
proof -
  have t: "inv_ticket s" and c: "inv_count s" using assms(2) by (auto simp: proto_inv_def)
  show ?thesis using assms(1)
  proof cases
    case finish
    then show ?thesis using c at_sub_midway [OF finish(2)] at_sub_late [OF finish(2)]
      by (auto simp: inv_count_def set_sub_def at_sub_def number_update pc_defs split: tr_pc.splits)
  next
    case send
    then show ?thesis using c at_sub_midway [OF send(2)]
      by (auto simp: inv_count_def set_sub_def at_sub_def number_update pc_defs split: tr_pc.splits)
  next
    case (push_tail t)
    then show ?thesis using c holder_off [OF t push_tail(2)]
      by (auto simp: inv_count_def set_sub_def at_sub_def number_update pc_defs)
  qed (use c in \<open>auto simp: inv_count_def set_sub_def at_sub_def number_update pc_defs split: tr_pc.splits\<close>)
qed

lemma inv_ring_sub:
  assumes "sub_step i s s'" "proto_inv s"
  shows "inv_ring s'"
proof -
  have t: "inv_ticket s" and r: "inv_ring s" using assms(2) by (auto simp: proto_inv_def)
  note move = inv_ring_move [OF r]
  show ?thesis using assms(1)
  proof cases
    case (load_tail u)
    have "pr_ticket s = u \<Longrightarrow> sub_ok s (S_cas u)" if "u = pr_tail s" using that by (simp add: sub_ok_def)
    then show ?thesis using load_tail by (intro move) (auto simp: set_sub_def sub_ok_def split: if_splits)
  next
    case (take_ticket u)
    then have "u \<le> pr_tail s" using sub_ok_at [OF r take_ticket(2)] by (simp add: sub_ok_def)
    then have "sub_ok s (S_full u)" using t take_ticket by (auto simp: inv_ticket_def sub_ok_def split: if_splits)
    then show ?thesis using take_ticket by (intro move) (auto simp: set_sub_def)
  next
    case (test_full u)
    then have "u = pr_tail s" using sub_ok_at [OF r test_full(2)] by (simp add: sub_ok_def)
    moreover have "u - pr_head s \<noteq> pr_size s \<Longrightarrow> u = pr_tail s \<Longrightarrow> room s" using r by (auto simp: inv_ring_def room_def)
    ultimately have "sub_ok s (if u - pr_head s = pr_size s then S_mark else S_push)" by (simp add: sub_ok_def)
    then show ?thesis by (rule move) (simp_all add: test_full set_sub_def)
  next
    case push_entry
    have "room s" using sub_ok_at [OF r push_entry(2)] by (simp add: sub_ok_def)
    then have "sub_ok s (S_store (pr_tail s))" by (simp add: sub_ok_def)
    then show ?thesis using push_entry by (intro move) (auto simp: set_sub_def)
  next
    case (push_tail u)
    have u: "u = pr_tail s" "room s" using sub_ok_at [OF r push_tail(2)] by (simp_all add: sub_ok_def)
    have "pc \<in> set (pr_subs s) \<and> \<not> holds pc \<or> pc = S_add" if "pc \<in> set ((pr_subs s)[i := S_add])" for pc
    proof (rule ccontr)
      assume no: "\<not> ?thesis"
      from that obtain j where j: "j < length ((pr_subs s)[i := S_add])" "(pr_subs s)[i := S_add] ! j = pc"
        unfolding in_set_conv_nth by blast
      have "j \<noteq> i" using j no by auto
      then have "at_sub s j pc" using j by (simp add: at_sub_def)
      moreover have "holds pc" using no calculation by (auto simp: at_sub_def)
      ultimately show False using one_holder [OF t push_tail(2), of j pc] \<open>j \<noteq> i\<close> by simp
    qed
    then show ?thesis
      using push_tail u holder_off(4) [OF t push_tail(2)]
      by (intro inv_ring_tail [OF r u(2)]) (auto simp: set_sub_def tr_ok_def)
  qed (auto intro!: move simp: set_sub_def sub_ok_def)
qed

lemma inv_ticket_tr:
  assumes "tr_step s s'" "proto_inv s"
  shows "inv_ticket s'"
proof -
  have t: "inv_ticket s" and c: "inv_count s" and r: "inv_ring s" using assms(2) by (auto simp: proto_inv_def)
  show ?thesis using assms(1)
  proof cases
    case (release old cur)
    have "cur \<le> pr_done s" using c release by (auto simp: inv_count_def)
    then have "number midway s = 0" "pr_chan s = 0" using c release by (auto simp: inv_count_def in_hand_def)
    moreover have "filter diverted (pr_subs s) = filter diverted (filter midway (pr_subs s))"
      by (auto simp: pc_defs intro!: filter_cong)
    ultimately have "number diverted s = 0" "pr_chan s = 0" by auto
    then show ?thesis using t release
      by (auto simp: inv_ticket_def fallback_on_def raised_def split: if_splits)
  next
    case (tr_tail old cur m t')
    have "t' = pr_tail s" using r tr_tail by (simp add: inv_ring_def tr_ok_def)
    then show ?thesis using t tr_tail
      by (auto simp: inv_ticket_def fallback_on_def raised_def split: if_splits)
  qed (use t in \<open>auto simp: inv_ticket_def fallback_on_def raised_def split: if_splits\<close>)
qed

lemma inv_count_tr:
  assumes "tr_step s s'" "proto_inv s"
  shows "inv_count s'"
proof -
  have t: "inv_ticket s" and c: "inv_count s" using assms(2) by (auto simp: proto_inv_def)
  show ?thesis using assms(1)
  proof cases
    case snapshot
    then show ?thesis using c late_midway [of s] by (auto simp: inv_count_def in_hand_def)
  qed (use c in \<open>auto simp: inv_count_def in_hand_def split: if_splits\<close>)
qed

lemma inv_ring_tr:
  assumes "tr_step s s'" "proto_inv s"
  shows "inv_ring s'"
proof -
  have t: "inv_ticket s" and r: "inv_ring s" using assms(2) by (auto simp: proto_inv_def)
  have ok: "tr_ok s (pr_tr s)" using r by (simp add: inv_ring_def)
  note move = inv_ring_tr_move [OF r]
  show ?thesis using assms(1)
  proof cases
    case (space old cur m)
    then have "room s" using r by (auto simp: inv_ring_def room_def)
    then show ?thesis using space by (intro move) (auto simp: tr_ok_def)
  next
    case (tr_tail old cur m u)
    then have u: "u = pr_tail s" "room s" using ok by (simp_all add: tr_ok_def)
    have "\<not> holds pc" if pc: "pc \<in> set (pr_subs s)" for pc
    proof
      assume "holds pc"
      moreover obtain i where "at_sub s i pc" using pc by (auto simp: at_sub_def in_set_conv_nth)
      ultimately show False using holder_off(4) [OF t] tr_tail by fastforce
    qed
    then show ?thesis using tr_tail u by (intro inv_ring_tail [OF r u(2)]) (auto simp: tr_ok_def)
  qed (use ok in \<open>auto intro!: move simp: tr_ok_def\<close>)
qed

lemma inv_ticket_kernel: "inv_ticket s \<Longrightarrow> inv_ticket (s\<lparr>pr_head := h\<rparr>)"
  by (cases "fallback_on s") (auto simp: inv_ticket_def fallback_on_def)

lemma inv_count_kernel: "inv_count s \<Longrightarrow> inv_count (s\<lparr>pr_head := h\<rparr>)"
  unfolding inv_count_def by (simp cong: tr_pc.case_cong)

lemma inv_ring_kernel:
  assumes "pr_head s + n \<le> pr_tail s" "inv_ring s"
  shows "inv_ring (s\<lparr>pr_head := pr_head s + n\<rparr>)"
proof -
  have "room s \<Longrightarrow> room (s\<lparr>pr_head := pr_head s + n\<rparr>)" by (simp add: room_def)
  then have "sub_ok s pc \<Longrightarrow> sub_ok (s\<lparr>pr_head := pr_head s + n\<rparr>) pc"
    and "tr_ok s (pr_tr s) \<Longrightarrow> tr_ok (s\<lparr>pr_head := pr_head s + n\<rparr>) (pr_tr s)" for pc
    by (auto simp: sub_ok_def tr_ok_def split: sub_pc.split tr_pc.split)
  then show ?thesis using assms by (auto simp: inv_ring_def)
qed

lemma proto_inv_step:
  assumes "proto_step s s'" "proto_inv s"
  shows "proto_inv s'"
  using assms(1)
proof cases
  case (submitter i)
  then show ?thesis
    using assms(2) inv_ticket_sub inv_count_sub inv_ring_sub by (metis proto_inv_def)
next
  case translator
  then show ?thesis
    using assms(2) inv_ticket_tr inv_count_tr inv_ring_tr by (metis proto_inv_def)
next
  case (kernel_takes n)
  then show ?thesis using assms(2) inv_ticket_kernel inv_count_kernel inv_ring_kernel by (metis proto_inv_def)
qed

definition proto_reaches :: "proto \<Rightarrow> proto \<Rightarrow> bool" where
  "proto_reaches = proto_step\<^sup>*\<^sup>*"

lemma proto_inv_reaches: "proto_reaches s s' \<Longrightarrow> proto_inv s \<Longrightarrow> proto_inv s'"
  unfolding proto_reaches_def by (induction rule: rtranclp_induct) (auto intro: proto_inv_step)

section \<open>Schedules\<close>

text \<open>
  Who moves next is the scheduler's choice; what it does then is determined. \<open>sub_move\<close> and
  \<open>tr_move\<close> compute the step, \<open>None\<close> when the goroutine is blocked.
\<close>

definition sub_move :: "nat \<Rightarrow> proto \<Rightarrow> proto option" where
  "sub_move i s = (if i < length (pr_subs s) then (case pr_subs s ! i of
     S_idle \<Rightarrow> Some (set_sub i S_intend s)
   | S_intend \<Rightarrow> Some (set_sub i (S_check (pr_active s)) (s\<lparr>pr_epoch := pr_epoch s + 1\<rparr>))
   | S_check b \<Rightarrow> Some (set_sub i (if b then S_send else S_ticket (pr_ticket s)) s)
   | S_ticket t \<Rightarrow> Some (set_sub i (if t = pr_tail s then S_cas t else S_reload) s)
   | S_cas t \<Rightarrow> Some (if pr_ticket s = t then set_sub i (S_full t) (s\<lparr>pr_ticket := t + 1\<rparr>) else set_sub i S_reload s)
   | S_reload \<Rightarrow> Some (set_sub i (S_check (pr_active s)) s)
   | S_full t \<Rightarrow> Some (set_sub i (if t - pr_head s = pr_size s then S_mark else S_push) s)
   | S_mark \<Rightarrow> Some (set_sub i S_send (s\<lparr>pr_active := True\<rparr>))
   | S_send \<Rightarrow> if pr_chan s < pr_cap s then Some (set_sub i S_idle (s\<lparr>pr_chan := pr_chan s + 1\<rparr>)) else None
   | S_push \<Rightarrow> Some (set_sub i (S_store (pr_tail s)) (s\<lparr>pr_slots := pr_tail s # pr_slots s\<rparr>))
   | S_store t \<Rightarrow> Some (set_sub i S_add (s\<lparr>pr_tail := t + 1\<rparr>))
   | S_add \<Rightarrow> Some (set_sub i S_idle (s\<lparr>pr_finished := pr_finished s + 1, pr_done := pr_done s + 1\<rparr>)))
   else None)"

definition tr_move :: "proto \<Rightarrow> proto option" where
  "tr_move s = (case pr_tr s of
     T_wait \<Rightarrow> if 0 < pr_chan s then Some (s\<lparr>pr_tr := T_snap, pr_chan := pr_chan s - 1\<rparr>) else None
   | T_snap \<Rightarrow> Some (s\<lparr>pr_tr := T_count (pr_active s) (pr_epoch s)\<rparr>)
   | T_count old cur \<Rightarrow> Some (s\<lparr>pr_tr := T_space old cur (cur - pr_finished s)\<rparr>)
   | T_space old cur m \<Rightarrow> if pr_tail s - pr_head s < pr_size s then Some (s\<lparr>pr_tr := T_room old cur m\<rparr>) else None
   | T_room old cur m \<Rightarrow> Some (s\<lparr>pr_tr := T_push old cur m, pr_ticket := pr_ticket s + 1\<rparr>)
   | T_push old cur m \<Rightarrow> Some (s\<lparr>pr_tr := T_store old cur m (pr_tail s), pr_slots := pr_tail s # pr_slots s\<rparr>)
   | T_store old cur m t \<Rightarrow> Some (s\<lparr>pr_tr := (if m - 1 = 0 then T_finish old cur else T_next old cur (m - 1)),
       pr_tail := t + 1, pr_done := pr_done s + 1\<rparr>)
   | T_next old cur m \<Rightarrow> if 0 < pr_chan s then Some (s\<lparr>pr_tr := T_space old cur m, pr_chan := pr_chan s - 1\<rparr>) else None
   | T_finish old cur \<Rightarrow> Some (s\<lparr>pr_tr := T_release old cur, pr_finished := cur\<rparr>)
   | T_release old cur \<Rightarrow> Some (if pr_active s = old \<and> pr_epoch s = cur then s\<lparr>pr_tr := T_resync, pr_active := False\<rparr>
       else s\<lparr>pr_tr := T_again\<rparr>)
   | T_again \<Rightarrow> if 0 < pr_chan s then Some (s\<lparr>pr_tr := T_snap, pr_chan := pr_chan s - 1\<rparr>) else None
   | T_resync \<Rightarrow> Some (s\<lparr>pr_tr := T_wait, pr_ticket := pr_tail s\<rparr>))"

lemma sub_move_step: "sub_move i s = Some s' \<longleftrightarrow> sub_step i s s'"
proof
  show "sub_move i s = Some s' \<Longrightarrow> sub_step i s s'"
    by (cases "pr_subs s ! i")
      (auto simp: sub_move_def at_sub_def sub_step.simps split: if_splits)
  show "sub_step i s s' \<Longrightarrow> sub_move i s = Some s'"
    by (induction rule: sub_step.induct) (auto simp: sub_move_def at_sub_def)
qed

lemma tr_move_step: "tr_move s = Some s' \<longleftrightarrow> tr_step s s'"
proof
  show "tr_move s = Some s' \<Longrightarrow> tr_step s s'"
    by (cases "pr_tr s") (auto simp: tr_move_def tr_step.simps split: if_splits)
  show "tr_step s s' \<Longrightarrow> tr_move s = Some s'"
    by (induction rule: tr_step.induct) (auto simp: tr_move_def)
qed

datatype actor = Submitter nat | Translator | Kernel nat

fun move :: "actor \<Rightarrow> proto \<Rightarrow> proto option" where
  "move (Submitter i) s = sub_move i s"
| "move Translator s = tr_move s"
| "move (Kernel n) s = (if pr_head s + n \<le> pr_tail s then Some (s\<lparr>pr_head := pr_head s + n\<rparr>) else None)"

fun schedule :: "actor list \<Rightarrow> proto \<Rightarrow> proto option" where
  "schedule [] s = Some s"
| "schedule (a # as) s = Option.bind (move a s) (schedule as)"

lemma move_step: "(\<exists>a. move a s = Some s') \<longleftrightarrow> proto_step s s'"
proof
  assume "\<exists>a. move a s = Some s'"
  then obtain a where "move a s = Some s'" by blast
  then show "proto_step s s'"
    by (cases a) (auto simp: sub_move_step tr_move_step split: if_splits intro: proto_step.intros)
next
  assume "proto_step s s'"
  then show "\<exists>a. move a s = Some s'"
  proof cases
    case (submitter i) then show ?thesis by (metis move.simps(1) sub_move_step)
  next
    case translator then show ?thesis by (metis move.simps(2) tr_move_step)
  next
    case (kernel_takes n) then show ?thesis by (metis move.simps(3))
  qed
qed

lemma schedule_reaches: "schedule as s = Some s' \<Longrightarrow> proto_reaches s s'"
  unfolding proto_reaches_def
proof (induction as arbitrary: s)
  case (Cons a as)
  then obtain s1 where "move a s = Some s1" "schedule as s1 = Some s'" by (auto simp: bind_eq_Some_conv)
  then show ?case using Cons.IH move_step by (metis converse_rtranclp_into_rtranclp)
qed simp

section \<open>What is written to the ring\<close>

definition storing :: "sub_pc \<Rightarrow> bool" where
  "storing pc = (case pc of S_store _ \<Rightarrow> True | _ \<Rightarrow> False)"

definition tr_storing :: "tr_pc \<Rightarrow> bool" where
  "tr_storing pc = (case pc of T_store _ _ _ _ \<Rightarrow> True | _ \<Rightarrow> False)"

definition writing :: "proto \<Rightarrow> bool" where
  "writing s \<longleftrightarrow> list_ex storing (pr_subs s) \<or> tr_storing (pr_tr s)"

definition inv_slots :: "nat \<Rightarrow> nat \<Rightarrow> proto \<Rightarrow> bool" where
  "inv_slots start entries s \<longleftrightarrow> start \<le> pr_tail s \<and> pr_size s = entries \<and>
     pr_slots s = (if writing s then [pr_tail s] else []) @ rev [start..<pr_tail s]"

lemma storing_holds: "storing pc \<Longrightarrow> holds pc"
  by (simp add: storing_def split: sub_pc.splits)

text \<open>Setting a submitter that does not store, where it did not store before, changes nothing.\<close>

lemma list_ex_update:
  assumes "i < length xs" "\<And>j. j < length xs \<Longrightarrow> j \<noteq> i \<Longrightarrow> \<not> P (xs ! j)"
  shows "list_ex P (xs[i := y]) = P y"
  using assms by (auto simp: list_ex_length nth_list_update split: if_splits)

lemma list_ex_update_same:
  "P y = P (xs ! i) \<Longrightarrow> list_ex P (xs[i := y]) = list_ex P xs"
  by (cases "i < length xs") (auto simp: list_ex_length nth_list_update split: if_splits)

lemma others_not_storing:
  assumes "inv_ticket s" "at_sub s i pc" "holds pc" "j < length (pr_subs s)" "j \<noteq> i"
  shows "\<not> storing (pr_subs s ! j)"
  using one_holder [OF assms(1-3), of j "pr_subs s ! j"] assms(4,5) storing_holds
  by (auto simp: at_sub_def)

lemma inv_slots_sub:
  assumes "sub_step i s s'" "proto_inv s" "inv_slots start entries s"
  shows "inv_slots start entries s'"
proof -
  have t: "inv_ticket s" and r: "inv_ring s" using assms(2) by (auto simp: proto_inv_def)
  show ?thesis using assms(1)
  proof cases
    case push_entry
    note at = push_entry(2) [unfolded at_sub_def]
    have "list_ex storing ((pr_subs s)[i := pc]) = storing pc" for pc
      using at others_not_storing [OF t push_entry(2)] by (intro list_ex_update) auto
    from this [of S_push] this [of "S_store (pr_tail s)"] show ?thesis
      using assms(3) push_entry at holder_off(4) [OF t push_entry(2)]
      by (auto simp: inv_slots_def writing_def set_sub_def storing_def tr_storing_def list_update_same_conv [THEN iffD2])
  next
    case (push_tail u)
    note at = push_tail(2) [unfolded at_sub_def]
    have u: "u = pr_tail s" using sub_ok_at [OF r push_tail(2)] by (simp add: sub_ok_def)
    have "list_ex storing ((pr_subs s)[i := pc]) = storing pc" for pc
      using at others_not_storing [OF t push_tail(2)] by (intro list_ex_update) auto
    from this [of "S_store u"] this [of S_add] show ?thesis
      using assms(3) push_tail at u holder_off(4) [OF t push_tail(2)]
      by (auto simp: inv_slots_def writing_def set_sub_def storing_def tr_storing_def list_update_same_conv [THEN iffD2])
  qed (use assms(3) in \<open>auto simp: inv_slots_def writing_def set_sub_def at_sub_def storing_def list_ex_update_same split: if_splits\<close>)
qed

lemma inv_slots_tr:
  assumes "tr_step s s'" "proto_inv s" "inv_slots start entries s"
  shows "inv_slots start entries s'"
proof -
  have t: "inv_ticket s" and r: "tr_ok s (pr_tr s)" using assms(2) by (auto simp: proto_inv_def inv_ring_def)
  have none: "\<not> list_ex storing (pr_subs s)" if "pr_tr s \<noteq> T_wait"
  proof
    assume "list_ex storing (pr_subs s)"
    then obtain i where "at_sub s i (pr_subs s ! i)" "holds (pr_subs s ! i)"
      using storing_holds by (auto simp: list_ex_length at_sub_def)
    then show False using holder_off(4) [OF t] that by blast
  qed
  show ?thesis using assms(1)
  proof cases
    case tr_entry
    then show ?thesis using assms(3) none
      by (auto simp: inv_slots_def writing_def tr_storing_def)
  next
    case (tr_tail old cur m u)
    then show ?thesis using assms(3) none r
      by (auto simp: inv_slots_def writing_def tr_storing_def tr_ok_def)
  qed (use assms(3) in \<open>auto simp: inv_slots_def writing_def tr_storing_def\<close>)
qed

lemma inv_slots_step:
  assumes "proto_step s s'" "proto_inv s" "inv_slots start entries s"
  shows "inv_slots start entries s'"
  using assms(1)
proof cases
  case (submitter i) then show ?thesis using assms inv_slots_sub by blast
next
  case translator then show ?thesis using assms inv_slots_tr by blast
next
  case (kernel_takes n) then show ?thesis using assms(3) by (auto simp: inv_slots_def writing_def)
qed

lemma inv_slots_reaches:
  assumes "proto_reaches s s'" "proto_inv s" "inv_slots start entries s"
  shows "inv_slots start entries s'"
proof -
  have "proto_inv s' \<and> inv_slots start entries s'"
    using assms(1) unfolding proto_reaches_def
  proof (induction rule: rtranclp_induct)
    case (step y z)
    then show ?case using proto_inv_step inv_slots_step by blast
  qed (simp add: assms)
  then show ?thesis by simp
qed

lemma inv_slots_init: "inv_slots (head + used) entries (proto_init n entries cap epoch head used)"
  by (simp add: inv_slots_def proto_init_def writing_def tr_storing_def list_ex_iff storing_def)

text \<open>Everything that holds in a state reached from a quiescent start.\<close>

lemma reached:
  assumes "used \<le> entries" "proto_reaches (proto_init n entries cap epoch head used) s"
  shows "proto_inv s" "inv_slots (head + used) entries s"
proof -
  note start = proto_inv_init [OF assms(1), of n cap epoch head]
  show "proto_inv s" by (rule proto_inv_reaches [OF assms(2) start])
  show "inv_slots (head + used) entries s" by (rule inv_slots_reaches [OF assms(2) start inv_slots_init])
qed

section \<open>Properties\<close>

text \<open>A goroutine that has decided to push and has not yet published the new tail.\<close>

definition pushing :: "sub_pc \<Rightarrow> bool" where
  "pushing pc = (case pc of S_push \<Rightarrow> True | S_store _ \<Rightarrow> True | _ \<Rightarrow> False)"

definition tr_pushing :: "tr_pc \<Rightarrow> bool" where
  "tr_pushing pc = (case pc of T_push _ _ _ \<Rightarrow> True | T_store _ _ _ _ \<Rightarrow> True | _ \<Rightarrow> False)"

definition pushers :: "proto \<Rightarrow> nat" where
  "pushers s = number pushing s + (if tr_pushing (pr_tr s) then 1 else 0)"

lemma pushing_le_holds: "number pushing s \<le> number holds s"
proof -
  have "filter pushing (pr_subs s) = filter pushing (filter holds (pr_subs s))"
    by (auto simp: pushing_def holds_def split: sub_pc.splits intro!: filter_cong)
  then show ?thesis by (metis length_filter_le)
qed

lemma ok_room: "sub_ok s pc \<Longrightarrow> pushing pc \<Longrightarrow> room s" "tr_ok s tpc \<Longrightarrow> tr_pushing tpc \<Longrightarrow> room s"
  by (auto simp: sub_ok_def pushing_def tr_ok_def tr_pushing_def split: sub_pc.splits tr_pc.splits)

lemma storing_pushing: "storing pc \<Longrightarrow> pushing pc" "tr_storing tpc \<Longrightarrow> tr_pushing tpc"
  by (auto simp: storing_def pushing_def tr_storing_def tr_pushing_def split: sub_pc.splits tr_pc.splits)

text \<open>C8. In every reachable interleaving at most one goroutine, submitter or translator, is
  inside \<open>Push\<close>, and while one is, the queue has room for its entry.\<close>

theorem one_pusher_with_room:
  assumes "used \<le> entries" "proto_reaches (proto_init n entries cap epoch head used) s"
  shows "pushers s \<le> 1 \<and> (pushers s = 1 \<longrightarrow> pr_tail s < pr_head s + entries)"
proof -
  note inv = reached [OF assms]
  have t: "inv_ticket s" and r: "inv_ring s" using inv by (auto simp: proto_inv_def)
  have one: "pushers s \<le> 1"
    using t pushing_le_holds [of s]
    by (auto simp: pushers_def inv_ticket_def tr_pushing_def split: if_splits)
  moreover have "room s" if "pushers s = 1"
  proof (cases "tr_pushing (pr_tr s)")
    case True
    then show ?thesis using r ok_room(2) by (auto simp: inv_ring_def)
  next
    case False
    then have "filter pushing (pr_subs s) \<noteq> []" using that by (auto simp: pushers_def)
    then obtain pc where "pc \<in> set (pr_subs s)" "pushing pc" by (auto simp: filter_empty_conv)
    then show ?thesis using r ok_room(1) by (auto simp: inv_ring_def)
  qed
  ultimately show ?thesis using inv(2) by (simp add: inv_slots_def room_def)
qed

text \<open>C9. In every reachable interleaving the ring positions are written one after the other,
  each exactly once, and no entry is written over one the kernel has not taken.\<close>

theorem ring_positions_written_once:
  assumes "used \<le> entries" "proto_reaches (proto_init n entries cap epoch head used) s"
  shows "pr_slots s = (if writing s then [pr_tail s] else []) @ rev [head + used..<pr_tail s] \<and>
    list_all (\<lambda>p. p < pr_head s + entries) (pr_slots s)"
proof -
  note inv = reached [OF assms]
  have r: "inv_ring s" and slots: "pr_size s = entries"
    "pr_slots s = (if writing s then [pr_tail s] else []) @ rev [head + used..<pr_tail s]"
    using inv by (auto simp: proto_inv_def inv_slots_def)
  have "pr_tail s < pr_head s + entries" if "writing s"
  proof -
    have "room s" using that r ok_room storing_pushing unfolding writing_def list_ex_iff inv_ring_def by blast
    then show ?thesis using slots by (simp add: room_def)
  qed
  moreover have "pr_tail s \<le> pr_head s + entries" using r slots by (simp add: inv_ring_def)
  ultimately show ?thesis using slots(2) by (auto simp: list_all_iff)
qed

text \<open>C10. The fallback is switched off only when nothing is left to do: no submitter is between
  its intention and its accounting, the channel is empty and every intended push is done.\<close>

theorem fallback_released_when_idle:
  assumes "used \<le> entries" "proto_reaches (proto_init n entries cap epoch head used) s"
    "proto_step s s'" "pr_active s" "\<not> pr_active s'"
  shows "number midway s = 0 \<and> pr_chan s = 0 \<and> pr_epoch s = pr_done s"
proof -
  have c: "inv_count s" using reached [OF assms(1,2)] by (simp add: proto_inv_def)
  obtain old where "pr_tr s = T_release old (pr_epoch s)"
    using assms(3-5) by cases (auto simp: set_sub_def elim!: sub_step.cases tr_step.cases)
  then show ?thesis using c by (auto simp: inv_count_def in_hand_def)
qed

text \<open>
  The count \<open>M\<close> of the translator covers the tasks it has to wait for, but it may be too high: a
  submitter that pushed and has not counted its push is counted again.
\<close>

definition overcounted :: "proto \<Rightarrow> bool" where
  "overcounted s \<longleftrightarrow> pr_active s \<and> pr_finished s < pr_done s \<and>
     (case pr_tr s of
        T_space _ cur m \<Rightarrow> cur < pr_done s + m
      | T_room _ cur m \<Rightarrow> cur < pr_done s + m
      | T_push _ cur m \<Rightarrow> cur < pr_done s + m
      | T_store _ cur m _ \<Rightarrow> cur < pr_done s + m
      | T_next _ cur m \<Rightarrow> cur < pr_done s + m
      | T_finish _ cur \<Rightarrow> cur < pr_done s
      | T_release _ cur \<Rightarrow> cur < pr_done s
      | T_resync \<Rightarrow> False
      | _ \<Rightarrow> True)"

lemma overcounted_sub: "sub_step i s s' \<Longrightarrow> overcounted s \<Longrightarrow> overcounted s'"
  by (erule sub_step.cases) (auto simp: overcounted_def set_sub_def split: tr_pc.splits)

lemma overcounted_tr: "tr_step s s' \<Longrightarrow> inv_count s \<Longrightarrow> overcounted s \<Longrightarrow> overcounted s'"
  by (erule tr_step.cases) (auto simp: overcounted_def inv_count_def)

lemma overcounted_step:
  assumes "proto_step s s'" "proto_inv s" "overcounted s"
  shows "overcounted s'"
  using assms(1)
proof cases
  case (submitter i) then show ?thesis using assms overcounted_sub by blast
next
  case translator then show ?thesis using assms overcounted_tr by (auto simp: proto_inv_def)
next
  case (kernel_takes n) then show ?thesis using assms(3) by (simp add: overcounted_def cong: tr_pc.case_cong)
qed


section \<open>Example runs\<close>

text \<open>
  Two submitters over a queue of one entry. The first pushes; the second finds the queue full
  before the first has counted its push, and switches the fallback on.
\<close>

definition ex_start :: proto where
  "ex_start = proto_init 2 1 4 5 10 0"

definition ex_push :: "actor list" where
  "ex_push = replicate 7 (Submitter 0)"

definition ex_fall :: "actor list" where
  "ex_fall = ex_push @ [Submitter 0] @ replicate 8 (Submitter 1)"

definition ex_late :: "actor list" where
  "ex_late = ex_fall @ replicate 3 Translator @ [Kernel 1] @ replicate 4 Translator @ [Submitter 0]"

definition ex_pushing :: proto where
  "ex_pushing = \<lparr>pr_active = False, pr_epoch = 6, pr_finished = 5, pr_ticket = 11, pr_tail = 10, pr_head = 10,
     pr_size = 1, pr_chan = 0, pr_cap = 4, pr_subs = [S_store 10, S_idle], pr_tr = T_wait, pr_slots = [10], pr_done = 5\<rparr>"

definition ex_stuck :: proto where
  "ex_stuck = \<lparr>pr_active = True, pr_epoch = 7, pr_finished = 6, pr_ticket = 13, pr_tail = 12, pr_head = 11,
     pr_size = 1, pr_chan = 0, pr_cap = 4, pr_subs = [S_idle, S_idle], pr_tr = T_next True 7 1, pr_slots = [11, 10],
     pr_done = 7\<rparr>"

lemma ex_pushing_run: "schedule ex_push ex_start = Some ex_pushing"
  by code_simp

lemma ex_stuck_run: "schedule ex_late ex_start = Some ex_stuck"
  by code_simp

definition ex_full :: proto where
  "ex_full = proto_init 1 1 4 5 10 1"

definition ex_drain :: "actor list" where
  "ex_drain = replicate 8 (Submitter 0) @ replicate 3 Translator @ [Kernel 1] @ replicate 5 Translator"

definition ex_release :: proto where
  "ex_release = \<lparr>pr_active = True, pr_epoch = 6, pr_finished = 6, pr_ticket = 13, pr_tail = 12, pr_head = 11,
     pr_size = 1, pr_chan = 0, pr_cap = 4, pr_subs = [S_idle], pr_tr = T_release True 6, pr_slots = [11], pr_done = 6\<rparr>"

lemma ex_release_run: "schedule ex_drain ex_full = Some ex_release"
  by code_simp

lemma ex_release_step: "proto_step ex_release (ex_release\<lparr>pr_tr := T_resync, pr_active := False\<rparr>)"
  by (intro proto_step.translator tr_step.release [where old = True and cur = 6]) (simp_all add: ex_release_def)

lemma ex_reach: "proto_reaches (proto_init 2 1 4 5 10 0) ex_pushing" "proto_reaches (proto_init 2 1 4 5 10 0) ex_stuck"
  "proto_reaches (proto_init 1 1 4 5 10 1) ex_release"
  using schedule_reaches [OF ex_pushing_run] schedule_reaches [OF ex_stuck_run] schedule_reaches [OF ex_release_run]
  by (simp_all add: ex_start_def ex_full_def)

theorem one_pusher_with_room_witness: "pushers ex_pushing = 1 \<and> pr_tail ex_pushing < pr_head ex_pushing + 1"
proof -
  have "pushers ex_pushing = 1"
    by (simp add: pushers_def ex_pushing_def pushing_def tr_pushing_def)
  then show ?thesis using one_pusher_with_room [of 0 1 2 4 5 10 ex_pushing] ex_reach(1) by simp
qed

theorem ring_positions_written_once_witness:
  "pr_slots ex_stuck = [11, 10] \<and> list_all (\<lambda>p. p < pr_head ex_stuck + 1) (pr_slots ex_stuck)"
proof -
  have "\<not> writing ex_stuck" by (simp add: writing_def ex_stuck_def storing_def tr_storing_def)
  moreover have "pr_tail ex_stuck = 12" by (simp add: ex_stuck_def)
  ultimately show ?thesis
    using ring_positions_written_once [of 0 1 2 4 5 10 ex_stuck] ex_reach(2) by (auto simp: upt_rec)
qed

theorem fallback_released_when_idle_witness: "pr_epoch ex_release = pr_done ex_release \<and> pr_chan ex_release = 0"
  using fallback_released_when_idle [OF _ ex_reach(3) ex_release_step] by (simp add: ex_release_def)


end
