(* ===== verification/Submit_Refinement.thy ===== *)
theory Submit_Refinement
  imports Netring_Submit Submit_Protocol
begin

text \<open>
  The submission code on the ring's own words refines the interleaved protocol: an undisturbed run of
  \<open>submit\<close>, and a round of \<open>fallbackLoop\<close>, each correspond to a sequence of protocol steps of
  one submitter and of the translator. \<open>represents\<close> relates the 32-bit and 64-bit words of
  \<open>NetRing\<close> to the unbounded counters of the protocol.
\<close>

section \<open>The translator on words\<close>

text \<open>The snapshot: the barrier, its epoch, and the number of outstanding pushes.\<close>

definition take_snapshot :: "NetRing \<Rightarrow> u64 \<times> u64 \<times> u64" where
  "take_snapshot nr = (let oldBarrier = nr_barrier nr; currentEpoch = oldBarrier AND epochMask
     in (oldBarrier, currentEpoch, currentEpoch - (nr_finishedPushes nr AND epochMask)))"

text \<open>One task: \<open>None\<close> while the queue has no room, which only the kernel can end.\<close>

definition fallback_push :: "uring_env \<Rightarrow> ringTask \<Rightarrow> NetRing \<Rightarrow> NetRing option" where
  "fallback_push env task nr =
    (if r_SQTail (nr_r nr) - r_SQHead (nr_r nr) \<ge> r_SQEntries (nr_r nr) then None
     else dispatch env task (nr\<lparr>nr_ticketTail := nr_ticketTail nr + 1\<rparr>))"

text \<open>
  The inner loop; \<open>None\<close> also stands for waiting at an empty channel. \<open>n\<close> bounds the turns: one more
  than the channel holds are enough, since every turn but the first takes a task from it.
\<close>

fun fallback_pushes :: "nat \<Rightarrow> uring_env \<Rightarrow> ringTask \<Rightarrow> u64 \<Rightarrow> NetRing \<Rightarrow> NetRing option" where
  "fallback_pushes 0 env task M nr = None"
| "fallback_pushes (Suc n) env task M nr =
    Option.bind (fallback_push env task nr) (\<lambda>nr1.
      let M1 = M - 1 in
      if M1 = 0 then Some nr1
      else case nr_fallbackChan nr1 of
        [] \<Rightarrow> None
      | next_task # tasks \<Rightarrow> fallback_pushes n env next_task M1 (nr1\<lparr>nr_fallbackChan := tasks\<rparr>))"

text \<open>The accounting after the loop, and whether the fallback was switched off.\<close>

definition fallback_finish :: "u64 \<Rightarrow> u64 \<Rightarrow> NetRing \<Rightarrow> bool \<times> NetRing" where
  "fallback_finish oldBarrier currentEpoch nr =
    (let nr1 = nr\<lparr>nr_finishedPushes := currentEpoch\<rparr> in
     if nr_barrier nr1 = oldBarrier then (True, nr1\<lparr>nr_barrier := currentEpoch, nr_ticketTail := r_SQTail (nr_r nr1)\<rparr>)
     else (False, nr1))"

text \<open>A round, from a task that was received to the end of its accounting.\<close>

definition fallback_round :: "nat \<Rightarrow> uring_env \<Rightarrow> ringTask \<Rightarrow> NetRing \<Rightarrow> (bool \<times> NetRing) option" where
  "fallback_round n env task nr = (let (oldBarrier, currentEpoch, M) = take_snapshot nr
     in map_option (fallback_finish oldBarrier currentEpoch) (fallback_pushes n env task M nr))"

section \<open>What a dispatch leaves alone\<close>

lemma Push_frame:
  "Push env e r = Some (err, r') \<Longrightarrow> r_SQTail r' = r_SQTail r + 1 \<and> r_SQHead r' = r_SQHead r \<and> r_SQEntries r' = r_SQEntries r"
  by (auto simp: Push_def Let_def split: if_splits option.splits)

definition same_words :: "NetRing \<Rightarrow> NetRing \<Rightarrow> bool" where
  "same_words nr nr' \<longleftrightarrow> nr_barrier nr' = nr_barrier nr \<and> nr_finishedPushes nr' = nr_finishedPushes nr \<and>
     nr_ticketTail nr' = nr_ticketTail nr \<and> nr_fallbackChan nr' = nr_fallbackChan nr \<and> nr_chanCap nr' = nr_chanCap nr"

lemma abortIssuer_frame: "abortIssuer idx w err nr = Some nr' \<Longrightarrow> same_words nr nr' \<and> nr_r nr' = nr_r nr"
  by (auto simp: abortIssuer_def wake_cell_def Let_def same_words_def split: option.splits if_splits prod.splits)

definition queues :: "ringTask \<Rightarrow> bool" where
  "queues task \<longleftrightarrow> rt_Opcode task \<in> {opcodeTypeAccept, opcodeTypeConnect, opcodeTypeRecv, opcodeTypeRead, opcodeTypeSend, opcodeTypeClose}"

lemma queues_request: "queues task \<Longrightarrow> request env task fd idx \<noteq> None"
  by (auto simp: queues_def request_def Let_def)

lemma submit_request_frame:
  assumes "submit_request (\<lambda>fd idx r. Push env (the (request env task fd idx)) r) w task nr = Some nr'"
  shows "same_words nr nr' \<and> r_SQTail (nr_r nr') = r_SQTail (nr_r nr) + 1 \<and>
    r_SQHead (nr_r nr') = r_SQHead (nr_r nr) \<and> r_SQEntries (nr_r nr') = r_SQEntries (nr_r nr)"
proof (cases "Add (rt_Ctx task) (nr_slots nr)")
  case (Some a)
  show ?thesis
  proof (cases "nr_cells nr (rt_Ctx task)")
    case cell: (Some c)
    show ?thesis
    proof (cases "Push env (the (request env task (tc_fd c) (fst a))) (nr_r nr)")
      case p: (Some b)
      let ?nr = "nr\<lparr>nr_slots := snd a, nr_r := snd b\<rparr>"
      have d: "(case fst b of None \<Rightarrow> Some ?nr | Some e \<Rightarrow> abortIssuer (fst a) w (Uring e) ?nr) = Some nr'"
        using assms by (simp add: submit_request_def Some cell p Let_def split_beta)
      have f: "r_SQTail (snd b) = r_SQTail (nr_r nr) + 1 \<and> r_SQHead (snd b) = r_SQHead (nr_r nr) \<and>
          r_SQEntries (snd b) = r_SQEntries (nr_r nr)"
        using Push_frame [of env _ "nr_r nr" "fst b" "snd b"] p by simp
      show ?thesis
      proof (cases "fst b")
        case None
        then show ?thesis using d f by (auto simp: same_words_def)
      next
        case (Some e)
        then have "abortIssuer (fst a) w (Uring e) ?nr = Some nr'" using d by simp
        from abortIssuer_frame [OF this] f show ?thesis by (simp add: same_words_def)
      qed
    qed (use assms in \<open>simp add: submit_request_def Some cell split_beta\<close>)
  qed (use assms in \<open>simp add: submit_request_def Some split_beta\<close>)
qed (use assms in \<open>simp add: submit_request_def\<close>)

lemma dispatch_frame:
  assumes "dispatch env task nr = Some nr'" "queues task"
  shows "same_words nr nr' \<and> r_SQTail (nr_r nr') = r_SQTail (nr_r nr) + 1 \<and>
    r_SQHead (nr_r nr') = r_SQHead (nr_r nr) \<and> r_SQEntries (nr_r nr') = r_SQEntries (nr_r nr)"
  using assms(1) unfolding dispatch_request [OF queues_request [OF assms(2), of env 0 0]]
  by (rule submit_request_frame)

section \<open>The abstraction\<close>

text \<open>
  The words of \<open>NetRing\<close> against the counters of the protocol: the ring's ends and the ticket modulo
  \<open>2 ^ 32\<close>, the epoch and the finished pushes modulo \<open>2 ^ 63\<close>, the active bit, the channel.
\<close>

definition represents :: "NetRing \<Rightarrow> proto \<Rightarrow> bool" where
  "represents nr s \<longleftrightarrow> bit (nr_barrier nr) 63 = pr_active s \<and>
     nr_barrier nr AND epochMask = of_nat (pr_epoch s) AND epochMask \<and>
     nr_finishedPushes nr AND epochMask = of_nat (pr_finished s) AND epochMask \<and>
     nr_ticketTail nr = of_nat (pr_ticket s) \<and> r_SQTail (nr_r nr) = of_nat (pr_tail s) \<and>
     r_SQHead (nr_r nr) = of_nat (pr_head s) \<and> unat (r_SQEntries (nr_r nr)) = pr_size s \<and>
     length (nr_fallbackChan nr) = pr_chan s \<and> nr_chanCap nr = pr_cap s"

lemma of_nat_near:
  fixes a b :: nat
  assumes "b \<le> a" "a \<le> b + k" "k < 2 ^ LENGTH('w)"
  shows "(of_nat a :: 'w::len word) = of_nat b \<longleftrightarrow> a = b" "unat (of_nat a - of_nat b :: 'w word) = a - b"
proof -
  have "(of_nat a - of_nat b :: 'w word) = of_nat (a - b)" using assms by simp
  moreover have "unat (of_nat (a - b) :: 'w word) = a - b" using assms by (intro unat_of_nat_small) simp
  ultimately show *: "unat (of_nat a - of_nat b :: 'w word) = a - b" by simp
  show "(of_nat a :: 'w::len word) = of_nat b \<longleftrightarrow> a = b" using * assms(1) by auto
qed

text \<open>The three comparisons of the code, on words and on counters.\<close>

lemma ticket_test:
  assumes "represents nr s" "inv_ticket s"
  shows "nr_ticketTail nr = r_SQTail (nr_r nr) \<longleftrightarrow> pr_ticket s = pr_tail s"
proof -
  have "pr_tail s \<le> pr_ticket s" "pr_ticket s \<le> pr_tail s + 2"
    using assms(2) by (auto simp: inv_ticket_def raised_def split: if_splits tr_pc.splits)
  then show ?thesis using of_nat_near(1) [of "pr_tail s" "pr_ticket s" 2, where 'w = 32] assms(1)
    by (simp add: represents_def)
qed

lemma used_entries:
  assumes "represents nr s" "inv_ring s"
  shows "unat (r_SQTail (nr_r nr) - r_SQHead (nr_r nr)) = pr_tail s - pr_head s"
proof -
  have "unat (r_SQEntries (nr_r nr)) < 2 ^ LENGTH(32)" by (rule unsigned_less)
  then have "pr_size s < 2 ^ LENGTH(32)" using assms(1) by (simp add: represents_def)
  then show ?thesis
    using of_nat_near(2) [of "pr_head s" "pr_tail s" "pr_size s", where 'w = 32] assms
    by (simp add: represents_def inv_ring_def)
qed

lemma sq_full_test:
  assumes "represents nr s" "inv_ring s"
  shows "r_SQTail (nr_r nr) - r_SQHead (nr_r nr) = r_SQEntries (nr_r nr) \<longleftrightarrow> pr_tail s - pr_head s = pr_size s"
    and "r_SQEntries (nr_r nr) \<le> r_SQTail (nr_r nr) - r_SQHead (nr_r nr) \<longleftrightarrow> pr_size s \<le> pr_tail s - pr_head s"
  using assms(1) used_entries [OF assms] by (simp_all add: word_unat_eq_iff word_le_nat_alt represents_def)

section \<open>A submitter's runs\<close>

lemmas sub_run = sub_move_def set_sub_def at_sub_def numeral_nat

lemma run_fast:
  assumes "at_sub s i S_idle" "\<not> pr_active s" "pr_ticket s = pr_tail s" "pr_tail s - pr_head s \<noteq> pr_size s"
  shows "schedule (replicate 9 (Submitter i)) s = Some (s\<lparr>pr_epoch := pr_epoch s + 1, pr_ticket := pr_tail s + 1,
    pr_tail := pr_tail s + 1, pr_slots := pr_tail s # pr_slots s, pr_finished := pr_finished s + 1, pr_done := pr_done s + 1\<rparr>)"
  using assms by (simp add: sub_run list_update_same_conv [THEN iffD2])

lemma run_full:
  assumes "at_sub s i S_idle" "\<not> pr_active s" "pr_ticket s = pr_tail s" "pr_tail s - pr_head s = pr_size s"
    "pr_chan s < pr_cap s"
  shows "schedule (replicate 8 (Submitter i)) s = Some (s\<lparr>pr_epoch := pr_epoch s + 1, pr_ticket := pr_tail s + 1,
    pr_active := True, pr_chan := pr_chan s + 1\<rparr>)"
  using assms by (simp add: sub_run list_update_same_conv [THEN iffD2])

lemma run_diverted:
  assumes "at_sub s i S_idle" "pr_active s" "pr_chan s < pr_cap s"
  shows "schedule (replicate 4 (Submitter i)) s = Some (s\<lparr>pr_epoch := pr_epoch s + 1, pr_chan := pr_chan s + 1\<rparr>)"
  using assms by (simp add: sub_run list_update_same_conv [THEN iffD2])

text \<open>What each part of \<open>submit\<close> does to the abstract state.\<close>

lemma represents_ghost [simp]:
  "represents nr (s\<lparr>pr_slots := l\<rparr>) = represents nr s" "represents nr (s\<lparr>pr_done := n\<rparr>) = represents nr s"
  "represents nr (s\<lparr>pr_tr := pc\<rparr>) = represents nr s" "represents nr (s\<lparr>pr_subs := pcs\<rparr>) = represents nr s"
  by (simp_all add: represents_def)

lemma epoch_next:
  assumes "b AND epochMask = of_nat n AND epochMask"
  shows "((b AND epochMask) + 1) AND epochMask = of_nat (n + 1) AND epochMask"
    "(b + 1) AND epochMask = of_nat (n + 1) AND epochMask"
  using epoch_step [OF assms] epoch_step [of "of_nat n" "of_nat n"] assms by (simp_all add: add.commute)

lemma status_word:
  "bit ((b AND statusFallbackActive) OR (x AND epochMask)) 63 = bit b 63"
  "((b AND statusFallbackActive) OR (x AND epochMask)) AND epochMask = x AND epochMask"
  using bit_statusFallbackActive [of 63]
  by (auto simp: epochMask_def bit_simps bit_statusFallbackActive intro!: bit_word_eqI)

lemma intention_represents:
  assumes "represents nr s"
  shows "represents (snd (submitIntention nr)) (s\<lparr>pr_epoch := pr_epoch s + 1\<rparr>)"
    "fst (submitIntention nr) = statusFallbackActive \<longleftrightarrow> pr_active s"
proof -
  show "represents (snd (submitIntention nr)) (s\<lparr>pr_epoch := pr_epoch s + 1\<rparr>)"
    using assms epoch_next(1) [of "nr_barrier nr" "pr_epoch s"]
    by (simp add: represents_def submitIntention_def Let_def status_word del: of_nat_add)
  have "(0 :: u64) \<noteq> statusFallbackActive" using bit_statusFallbackActive [of 63] by auto
  then show "fst (submitIntention nr) = statusFallbackActive \<longleftrightarrow> pr_active s"
    using assms by (simp add: represents_def submitIntention_def Let_def status_cases)
qed

lemma setFallbackActive_represents: "represents nr s \<Longrightarrow> represents (setFallbackActive nr) (s\<lparr>pr_active := True\<rparr>)"
proof -
  have "(statusFallbackActive OR b) AND epochMask = b AND epochMask" for b
    by (auto simp: epochMask_def bit_simps intro!: bit_word_eqI)
  then show "represents nr s \<Longrightarrow> ?thesis"
    using bit_statusFallbackActive [of 63] by (simp add: represents_def setFallbackActive_def bit_simps)
qed

lemma send_fallback_represents:
  assumes "represents nr s" "send_fallback choice task nr = Some (True, nr')"
  shows "pr_chan s < pr_cap s" "represents nr' (s\<lparr>pr_chan := pr_chan s + 1\<rparr>)"
  using assms by (auto simp: represents_def send_fallback_def Let_def split: if_splits)

lemma ticket_represents:
  "represents nr s \<Longrightarrow> represents (nr\<lparr>nr_ticketTail := nr_ticketTail nr + 1\<rparr>) (s\<lparr>pr_ticket := pr_ticket s + 1\<rparr>)"
  by (simp add: represents_def add.commute)

lemma dispatch_represents:
  assumes "represents nr s" "dispatch env task nr = Some nr'" "queues task"
  shows "represents nr' (s\<lparr>pr_tail := pr_tail s + 1\<rparr>)"
  using assms(1) dispatch_frame [OF assms(2,3)] by (simp add: represents_def same_words_def add.commute)

lemma finished_represents:
  "represents nr s \<Longrightarrow> represents (nr\<lparr>nr_finishedPushes := nr_finishedPushes nr + 1\<rparr>) (s\<lparr>pr_finished := pr_finished s + 1\<rparr>)"
  using epoch_next(2) [of "nr_finishedPushes nr" "pr_finished s"] by (simp add: represents_def del: of_nat_add)

text \<open>The whole of \<open>submit\<close>.\<close>

lemma submit_simulated:
  assumes rep: "represents nr s" and inv: "proto_inv s" and idle: "at_sub s i S_idle" and q: "queues task"
    and sub: "submit env choice task nr = Some (True, nr')"
  shows "\<exists>n s'. schedule (replicate n (Submitter i)) s = Some s' \<and> represents nr' s' \<and>
    pr_subs s' = pr_subs s \<and> pr_tr s' = pr_tr s \<and> pr_epoch s' = pr_epoch s + 1"
proof -
  have op: "rt_Opcode task \<noteq> opcodeTypeReleaseBuffer" using q by (auto simp: queues_def)
  define nr1 where "nr1 = snd (submitIntention nr)"
  define s1 where "s1 = s\<lparr>pr_epoch := pr_epoch s + 1\<rparr>"
  note int = intention_represents [OF rep, folded nr1_def s1_def]
  have t: "inv_ticket s1" and r: "inv_ring s1"
    using inv ok_cong [of s1 s] by (auto simp: proto_inv_def s1_def inv_ticket_def fallback_on_def inv_ring_def)
  show ?thesis
  proof (cases "pr_active s")
    case True
    then have "send_fallback choice task nr1 = Some (True, nr')"
      using sub op int(2) by (simp add: submit_def split_beta nr1_def)
    note send = send_fallback_represents [OF int(1) this]
    then show ?thesis using run_diverted [OF idle True] unfolding s1_def by (intro exI [of _ 4]) simp
  next
    case False
    then have body: "nr_ticketTail nr1 = r_SQTail (nr_r nr1)"
      "(let tail = r_SQTail (nr_r nr1); nr2 = nr1\<lparr>nr_ticketTail := tail + 1\<rparr> in
        if tail - r_SQHead (nr_r nr2) = r_SQEntries (nr_r nr2) then send_fallback choice task (setFallbackActive nr2)
        else map_option (\<lambda>nr3. (True, nr3\<lparr>nr_finishedPushes := nr_finishedPushes nr3 + 1\<rparr>)) (dispatch env task nr2))
        = Some (True, nr')"
      using sub op int(2) by (auto simp: submit_def split_beta nr1_def Let_def split: if_splits)
    define nr2 where "nr2 = nr1\<lparr>nr_ticketTail := nr_ticketTail nr1 + 1\<rparr>"
    have rep2: "represents nr2 (s1\<lparr>pr_ticket := pr_ticket s1 + 1\<rparr>)"
      unfolding nr2_def by (rule ticket_represents [OF int(1)])
    have tick: "pr_ticket s = pr_tail s" using ticket_test [OF int(1) t] body(1) by (simp add: s1_def)
    show ?thesis
    proof (cases "pr_tail s - pr_head s = pr_size s")
      case full: True
      then have "send_fallback choice task (setFallbackActive nr2) = Some (True, nr')"
        using body sq_full_test(1) [OF int(1) r] by (simp add: Let_def nr2_def s1_def)
      note send = send_fallback_represents [OF setFallbackActive_represents [OF rep2] this]
      then show ?thesis using run_full [OF idle False tick full] tick
        unfolding s1_def by (intro exI [of _ 8]) simp
    next
      case free: False
      then obtain nr3 where d: "dispatch env task nr2 = Some nr3"
        "nr' = nr3\<lparr>nr_finishedPushes := nr_finishedPushes nr3 + 1\<rparr>"
        using body sq_full_test(1) [OF int(1) r] by (auto simp: Let_def nr2_def s1_def)
      have "represents nr' (s1\<lparr>pr_ticket := pr_ticket s1 + 1, pr_tail := pr_tail s1 + 1, pr_finished := pr_finished s1 + 1\<rparr>)"
        using finished_represents [OF dispatch_represents [OF rep2 d(1) q]] d(2) by simp
      then show ?thesis using run_fast [OF idle False tick free] tick
        unfolding s1_def by (intro exI [of _ 9]) (simp add: represents_def)
    qed
  qed
qed

section \<open>The translator's runs\<close>

lemma schedule_append: "schedule (as @ bs) s = Option.bind (schedule as s) (schedule bs)"
  by (induction as arbitrary: s) (simp_all, metis bind_assoc)

lemma run_push:
  assumes "pr_tr s = T_space old cur m" "pr_tail s - pr_head s < pr_size s"
  shows "schedule (replicate 4 Translator) s = Some (s\<lparr>pr_ticket := pr_ticket s + 1, pr_tail := pr_tail s + 1,
    pr_slots := pr_tail s # pr_slots s, pr_done := pr_done s + 1,
    pr_tr := (if m - 1 = 0 then T_finish old cur else T_next old cur (m - 1))\<rparr>)"
  using assms by (simp add: tr_move_def numeral_nat)

lemma fallback_push_represents:
  assumes "represents nr s" "inv_ring s" "queues task" "fallback_push env task nr = Some nr'"
  shows "pr_tail s - pr_head s < pr_size s"
    "represents nr' (s\<lparr>pr_ticket := pr_ticket s + 1, pr_tail := pr_tail s + 1\<rparr>)"
    "nr_fallbackChan nr' = nr_fallbackChan nr" "nr_barrier nr' = nr_barrier nr"
proof -
  show "pr_tail s - pr_head s < pr_size s"
    using assms(4) sq_full_test(2) [OF assms(1,2)] by (auto simp: fallback_push_def split: if_splits)
  have d: "dispatch env task (nr\<lparr>nr_ticketTail := nr_ticketTail nr + 1\<rparr>) = Some nr'"
    using assms(4) by (simp add: fallback_push_def split: if_splits)
  show "represents nr' (s\<lparr>pr_ticket := pr_ticket s + 1, pr_tail := pr_tail s + 1\<rparr>)"
    using dispatch_represents [OF ticket_represents [OF assms(1)] d assms(3)] by simp
  show "nr_fallbackChan nr' = nr_fallbackChan nr" "nr_barrier nr' = nr_barrier nr"
    using dispatch_frame [OF d assms(3)] by (simp_all add: same_words_def)
qed

lemma count_down: "1 \<le> m \<Longrightarrow> (of_nat m :: u64) - 1 = of_nat (m - 1)"
  by (simp add: of_nat_diff)

lemma count_zero: "m < 2 ^ 64 \<Longrightarrow> (of_nat m :: u64) = 0 \<longleftrightarrow> m = 0"
  using of_nat_near(1) [of 0 m m, where 'w = 64] by simp

lemma take_represents:
  "represents nr s \<Longrightarrow> nr_fallbackChan nr = task # tasks \<Longrightarrow>
    0 < pr_chan s \<and> represents (nr\<lparr>nr_fallbackChan := tasks\<rparr>) (s\<lparr>pr_chan := pr_chan s - 1\<rparr>)"
  by (auto simp: represents_def)

lemma fallback_pushes_turn:
  "fallback_push env task nr = Some nr1 \<Longrightarrow> fallback_pushes (Suc n) env task M nr =
    (if M - 1 = 0 then Some nr1
     else case nr_fallbackChan nr1 of [] \<Rightarrow> None
       | t # ts \<Rightarrow> fallback_pushes n env t (M - 1) (nr1\<lparr>nr_fallbackChan := ts\<rparr>))"
  by (simp add: Let_def)

lemma fallback_pushes_simulated:
  assumes "represents nr s" "proto_inv s" "pr_tr s = T_space old cur m" "queues task"
    "list_all queues (nr_fallbackChan nr)" "1 \<le> m" "m < 2 ^ 64"
    "fallback_pushes n env task (of_nat m) nr = Some nr'"
  shows "\<exists>k s'. schedule (replicate k Translator) s = Some s' \<and> represents nr' s' \<and> pr_tr s' = T_finish old cur \<and>
    pr_subs s' = pr_subs s \<and> pr_active s' = pr_active s \<and> pr_epoch s' = pr_epoch s \<and> nr_barrier nr' = nr_barrier nr"
  using assms
proof (induction n arbitrary: task m nr s)
  case (Suc n)
  obtain nr1 where p: "fallback_push env task nr = Some nr1"
    using Suc.prems(8) by (cases "fallback_push env task nr") auto
  have r: "inv_ring s" using Suc.prems(2) by (simp add: proto_inv_def)
  note push = fallback_push_represents [OF Suc.prems(1) r Suc.prems(4) p]
  define s1 where "s1 = s\<lparr>pr_ticket := pr_ticket s + 1, pr_tail := pr_tail s + 1,
    pr_slots := pr_tail s # pr_slots s, pr_done := pr_done s + 1,
    pr_tr := (if m - 1 = 0 then T_finish old cur else T_next old cur (m - 1))\<rparr>"
  have run1: "schedule (replicate 4 Translator) s = Some s1"
    unfolding s1_def by (rule run_push [OF Suc.prems(3) push(1)])
  have rep1: "represents nr1 s1" using push(2) by (simp add: s1_def represents_def)
  have same: "pr_subs s1 = pr_subs s" "pr_active s1 = pr_active s" "pr_epoch s1 = pr_epoch s" by (simp_all add: s1_def)
  have M1: "(of_nat m :: u64) - 1 = of_nat (m - 1)" by (rule count_down [OF Suc.prems(6)])
  have zero: "(of_nat (m - 1) :: u64) = 0 \<longleftrightarrow> m - 1 = 0" using count_zero Suc.prems(7) by simp
  have turn: "(if m - 1 = 0 then Some nr1
     else case nr_fallbackChan nr1 of [] \<Rightarrow> None
       | t # ts \<Rightarrow> fallback_pushes n env t (of_nat (m - 1)) (nr1\<lparr>nr_fallbackChan := ts\<rparr>)) = Some nr'"
    using Suc.prems(8) unfolding fallback_pushes_turn [OF p] M1 zero .
  show ?case
  proof (cases "m - 1 = 0")
    case True
    then have "nr' = nr1" using turn by simp
    then show ?thesis using run1 rep1 same push(4) True by (intro exI [of _ 4] exI [of _ s1]) (simp add: s1_def)
  next
    case False
    then have rest: "(case nr_fallbackChan nr1 of [] \<Rightarrow> None
       | t # ts \<Rightarrow> fallback_pushes n env t (of_nat (m - 1)) (nr1\<lparr>nr_fallbackChan := ts\<rparr>)) = Some nr'"
      using turn by (simp only: if_False)
    obtain t ts where c: "nr_fallbackChan nr1 = t # ts"
      "fallback_pushes n env t (of_nat (m - 1)) (nr1\<lparr>nr_fallbackChan := ts\<rparr>) = Some nr'"
      by (rule list.exhaust [of "nr_fallbackChan nr1"]) (use rest in \<open>simp_all only: list.case option.distinct\<close>)
    define s2 where "s2 = s1\<lparr>pr_tr := T_space old cur (m - 1), pr_chan := pr_chan s1 - 1\<rparr>"
    note tk = take_represents [OF rep1 c(1)]
    have run2: "schedule (replicate 5 Translator) s = Some s2"
      using run1 tk False schedule_append [of "replicate 4 Translator" "[Translator]" s]
      by (simp add: numeral_nat tr_move_def s1_def s2_def)
    have inv2: "proto_inv s2" using schedule_reaches [OF run2] Suc.prems(2) by (rule proto_inv_reaches)
    have rep2: "represents (nr1\<lparr>nr_fallbackChan := ts\<rparr>) s2" using tk by (simp add: s2_def represents_def)
    have qs: "queues t" "list_all queues (nr_fallbackChan (nr1\<lparr>nr_fallbackChan := ts\<rparr>))"
      using Suc.prems(5) c(1) push(3) by simp_all
    have pc2: "pr_tr s2 = T_space old cur (m - 1)" by (simp add: s2_def)
    have m1: "1 \<le> m - 1" "m - 1 < 2 ^ 64" using False Suc.prems(7) by simp_all
    from Suc.IH [OF rep2 inv2 pc2 qs m1 c(2)] obtain k s' where ih: "schedule (replicate k Translator) s2 = Some s'"
      "represents nr' s'" "pr_tr s' = T_finish old cur" "pr_subs s' = pr_subs s2" "pr_active s' = pr_active s2"
      "pr_epoch s' = pr_epoch s2" "nr_barrier nr' = nr_barrier nr1"
      by auto
    have "schedule (replicate (5 + k) Translator) s = Some s'"
      using run2 ih(1) by (simp add: replicate_add schedule_append)
    then show ?thesis using ih same push(4) by (intro exI [of _ "5 + k"] exI [of _ s']) (simp add: s2_def)
  qed
qed simp

lemma epoch_word: "n < 2 ^ 63 \<Longrightarrow> (of_nat n :: u64) AND epochMask = of_nat n"
proof -
  assume n: "n < 2 ^ 63"
  then have "unat (of_nat n :: u64) = n" by (intro unat_of_nat_small) simp
  then show ?thesis using n unfolding epochMask_mask by (simp add: word_unat_eq_iff unat_and_mask)
qed

text \<open>
  A round: the barrier has not moved since the snapshot, so the fallback is switched off. The
  epoch is below \<open>2 ^ 63\<close>, since the difference of the two masked counters is not masked again.
\<close>

lemma fallback_round_simulated:
  assumes rep: "represents nr s" and inv: "proto_inv s" and pc: "pr_tr s = T_snap" and q: "queues task"
    and qs: "list_all queues (nr_fallbackChan nr)" and small: "pr_epoch s < 2 ^ 63"
    and round: "fallback_round n env task nr = Some (released, nr')"
  shows "released \<and> (\<exists>k s'. schedule (replicate k Translator) s = Some s' \<and> represents nr' s' \<and> pr_tr s' = T_wait \<and>
    pr_subs s' = pr_subs s \<and> pr_epoch s' = pr_epoch s)"
proof -
  define cur where "cur = nr_barrier nr AND epochMask"
  define m where "m = pr_epoch s - pr_finished s"
  have le: "pr_finished s < pr_epoch s" using inv pc by (auto simp: proto_inv_def inv_count_def in_hand_def)
  have M: "cur - (nr_finishedPushes nr AND epochMask) = of_nat m"
    using rep le small epoch_word [of "pr_epoch s"] epoch_word [of "pr_finished s"]
    by (simp add: represents_def cur_def m_def of_nat_diff)
  define s1 where "s1 = s\<lparr>pr_tr := T_space (pr_active s) (pr_epoch s) m\<rparr>"
  have run1: "schedule (replicate 2 Translator) s = Some s1"
    using pc by (simp add: numeral_nat tr_move_def s1_def m_def)
  have inv1: "proto_inv s1" using schedule_reaches [OF run1] inv by (rule proto_inv_reaches)
  obtain nr1 where p: "fallback_pushes n env task (of_nat m) nr = Some nr1"
    "(released, nr') = fallback_finish (nr_barrier nr) cur nr1"
    using round M by (auto simp: fallback_round_def take_snapshot_def Let_def cur_def)
  have pre: "represents nr s1" "pr_tr s1 = T_space (pr_active s) (pr_epoch s) m" "1 \<le> m" "m < 2 ^ 64"
    using rep le small by (simp_all add: s1_def m_def)
  obtain k s2 where run2: "schedule (replicate k Translator) s1 = Some s2" and rep2: "represents nr1 s2"
    and s2: "pr_tr s2 = T_finish (pr_active s) (pr_epoch s)" "pr_subs s2 = pr_subs s" "pr_active s2 = pr_active s"
      "pr_epoch s2 = pr_epoch s" and b: "nr_barrier nr1 = nr_barrier nr"
    using fallback_pushes_simulated [OF pre(1) inv1 pre(2) q qs pre(3,4) p(1)] by (auto simp: s1_def)
  define s3 where "s3 = s2\<lparr>pr_finished := pr_epoch s, pr_active := False, pr_ticket := pr_tail s2, pr_tr := T_wait\<rparr>"
  have run3: "schedule (replicate 3 Translator) s2 = Some s3"
    using s2 by (simp add: numeral_nat tr_move_def s3_def)
  have fin: "released" "nr' = nr1\<lparr>nr_finishedPushes := cur, nr_barrier := cur, nr_ticketTail := r_SQTail (nr_r nr1)\<rparr>"
    using p(2) b by (simp_all add: fallback_finish_def Let_def)
  have "cur AND epochMask = of_nat (pr_epoch s) AND epochMask" "\<not> bit cur 63"
    using rep by (simp_all add: cur_def represents_def and.assoc)
  then have "represents nr' s3" using rep2 s2 unfolding fin(2) by (simp add: s3_def represents_def)
  moreover have "schedule (replicate (2 + (k + 3)) Translator) s = Some s3"
    using run1 run2 run3 by (simp only: replicate_add schedule_append bind.bind_lunit)
  ultimately show ?thesis using fin(1) s2 by (intro conjI exI [of _ "2 + (k + 3)"] exI [of _ s3]) (simp_all add: s3_def)
qed

section \<open>Runs of whole operations\<close>

text \<open>A call of \<open>submit\<close>, a round of the translator on the first task of the channel, or the kernel taking entries.\<close>

datatype whole_op = Submit_call bool ringTask | Round | Take nat

fun whole :: "uring_env \<Rightarrow> whole_op \<Rightarrow> NetRing \<Rightarrow> NetRing option" where
  "whole env (Submit_call choice task) nr =
    (case submit env choice task nr of Some (True, nr') \<Rightarrow> Some nr' | _ \<Rightarrow> None)"
| "whole env Round nr = (case nr_fallbackChan nr of [] \<Rightarrow> None
    | task # tasks \<Rightarrow> map_option snd (fallback_round (Suc (length tasks)) env task (nr\<lparr>nr_fallbackChan := tasks\<rparr>)))"
| "whole env (Take n) nr = (let r = nr_r nr in
    if n \<le> unat (r_SQTail r - r_SQHead r) then Some (nr\<lparr>nr_r := r\<lparr>r_SQHead := r_SQHead r + of_nat n\<rparr>\<rparr>) else None)"

fun whole_run :: "uring_env \<Rightarrow> whole_op list \<Rightarrow> NetRing \<Rightarrow> NetRing option" where
  "whole_run env [] nr = Some nr"
| "whole_run env (x # xs) nr = Option.bind (whole env x nr) (whole_run env xs)"

definition queues_op :: "whole_op \<Rightarrow> bool" where
  "queues_op x = (case x of Submit_call _ task \<Rightarrow> queues task | _ \<Rightarrow> True)"

text \<open>Between operations: the words represent a protocol state in which nobody is under way.\<close>

definition at_rest :: "NetRing \<Rightarrow> proto \<Rightarrow> bool" where
  "at_rest nr s \<longleftrightarrow> represents nr s \<and> proto_inv s \<and> pr_subs s = [S_idle] \<and> pr_tr s = T_wait \<and> list_all queues (nr_fallbackChan nr)"

lemma submit_chan:
  assumes "submit env choice task nr = Some (True, nr')" "queues task" "list_all queues (nr_fallbackChan nr)"
  shows "list_all queues (nr_fallbackChan nr')"
proof -
  have op: "rt_Opcode task \<noteq> opcodeTypeReleaseBuffer" using assms(2) by (auto simp: queues_def)
  have send: "list_all queues (nr_fallbackChan nr2)"
    if "send_fallback choice task nr1 = Some (True, nr2)" "nr_fallbackChan nr1 = nr_fallbackChan nr" for nr1 nr2
    using that assms(2,3) by (auto simp: send_fallback_def Let_def split: if_splits)
  have push: "list_all queues (nr_fallbackChan nr2)"
    if "dispatch env task nr1 = Some nr2" "nr_fallbackChan nr1 = nr_fallbackChan nr" for nr1 nr2
    using dispatch_frame [OF that(1) assms(2)] that(2) assms(3) by (simp add: same_words_def)
  show ?thesis
    using assms(1) op
    by (auto simp: submit_def submitIntention_def setFallbackActive_def Let_def split: if_splits intro: send)
      (erule push, simp)
qed

lemma fallback_pushes_chan:
  assumes "fallback_pushes n env task M nr = Some nr'" "queues task" "list_all queues (nr_fallbackChan nr)"
  shows "list_all queues (nr_fallbackChan nr')"
  using assms
proof (induction n arbitrary: task M nr)
  case (Suc n)
  obtain nr1 where p: "fallback_push env task nr = Some nr1"
    using Suc.prems(1) by (cases "fallback_push env task nr") auto
  have d: "dispatch env task (nr\<lparr>nr_ticketTail := nr_ticketTail nr + 1\<rparr>) = Some nr1"
    using p by (simp add: fallback_push_def split: if_splits)
  have chan: "nr_fallbackChan nr1 = nr_fallbackChan nr" using dispatch_frame [OF d Suc.prems(2)] by (simp add: same_words_def)
  show ?case
    using Suc.prems(1,3) Suc.IH chan unfolding fallback_pushes_turn [OF p] by (auto split: if_splits list.splits)
qed simp

lemma fallback_round_chan:
  assumes "fallback_round n env task nr = Some (released, nr')" "queues task" "list_all queues (nr_fallbackChan nr)"
  shows "list_all queues (nr_fallbackChan nr')"
  using assms fallback_pushes_chan
  by (auto simp: fallback_round_def take_snapshot_def fallback_finish_def Let_def split: if_splits)

lemma whole_submit:
  assumes rest: "at_rest nr s" and q: "queues task" and sub: "submit env choice task nr = Some (True, nr')"
  shows "\<exists>s'. proto_reaches s s' \<and> at_rest nr' s' \<and> pr_epoch s' = pr_epoch s + 1"
proof -
  have r: "represents nr s" "proto_inv s" "pr_subs s = [S_idle]" "pr_tr s = T_wait" "list_all queues (nr_fallbackChan nr)"
    using rest by (auto simp: at_rest_def)
  obtain n s' where s': "schedule (replicate n (Submitter 0)) s = Some s'" "represents nr' s'" "pr_subs s' = pr_subs s"
    "pr_tr s' = pr_tr s" "pr_epoch s' = pr_epoch s + 1"
    using submit_simulated [OF r(1,2) _ q sub, of 0] r(3) by (auto simp: at_sub_def)
  have reach: "proto_reaches s s'" using s'(1) by (rule schedule_reaches)
  then have "at_rest nr' s'"
    using s' r(3,4) proto_inv_reaches [OF reach r(2)] submit_chan [OF sub q r(5)] by (simp add: at_rest_def)
  then show ?thesis using reach s'(5) by blast
qed

lemma whole_round:
  assumes rest: "at_rest nr s" and small: "pr_epoch s < 2 ^ 63" and op: "whole env Round nr = Some nr'"
  shows "\<exists>s'. proto_reaches s s' \<and> at_rest nr' s' \<and> pr_epoch s' = pr_epoch s"
proof -
  have r: "represents nr s" "proto_inv s" "pr_subs s = [S_idle]" "pr_tr s = T_wait" "list_all queues (nr_fallbackChan nr)"
    using rest by (auto simp: at_rest_def)
  obtain task tasks released where c: "nr_fallbackChan nr = task # tasks"
    "fallback_round (Suc (length tasks)) env task (nr\<lparr>nr_fallbackChan := tasks\<rparr>) = Some (released, nr')"
    using op by (auto split: list.splits)
  define s1 where "s1 = s\<lparr>pr_tr := T_snap, pr_chan := pr_chan s - 1\<rparr>"
  note tk = take_represents [OF r(1) c(1)]
  have step: "schedule [Translator] s = Some s1" using tk r(4) by (simp add: tr_move_def s1_def)
  have inv1: "proto_inv s1" using schedule_reaches [OF step] r(2) by (rule proto_inv_reaches)
  have pre: "represents (nr\<lparr>nr_fallbackChan := tasks\<rparr>) s1" "pr_tr s1 = T_snap" "pr_epoch s1 < 2 ^ 63"
    using tk small by (simp_all add: s1_def represents_def)
  have qs: "queues task" "list_all queues (nr_fallbackChan (nr\<lparr>nr_fallbackChan := tasks\<rparr>))" using r(5) c(1) by simp_all
  obtain k s' where s': "schedule (replicate k Translator) s1 = Some s'" "represents nr' s'" "pr_tr s' = T_wait"
    "pr_subs s' = pr_subs s1" "pr_epoch s' = pr_epoch s1"
    using fallback_round_simulated [OF pre(1) inv1 pre(2) qs pre(3) c(2)] by blast
  have "schedule ([Translator] @ replicate k Translator) s = Some s'"
    unfolding schedule_append step by (simp add: s'(1))
  then have reach: "proto_reaches s s'" by (rule schedule_reaches)
  then have "at_rest nr' s'"
    using s' r(3) proto_inv_reaches [OF reach r(2)] fallback_round_chan [OF c(2) qs] by (simp add: at_rest_def s1_def)
  then show ?thesis using reach s'(5) by (auto simp: s1_def)
qed

lemma whole_take:
  assumes rest: "at_rest nr s" and op: "whole env (Take n) nr = Some nr'"
  shows "\<exists>s'. proto_reaches s s' \<and> at_rest nr' s' \<and> pr_epoch s' = pr_epoch s"
proof -
  have r: "represents nr s" "proto_inv s" using rest by (auto simp: at_rest_def)
  have ring: "inv_ring s" using r(2) by (simp add: proto_inv_def)
  have n: "n \<le> unat (r_SQTail (nr_r nr) - r_SQHead (nr_r nr))"
    "nr' = nr\<lparr>nr_r := nr_r nr\<lparr>r_SQHead := r_SQHead (nr_r nr) + of_nat n\<rparr>\<rparr>"
    using op by (auto simp: Let_def split: if_splits)
  define s' where "s' = s\<lparr>pr_head := pr_head s + n\<rparr>"
  have le: "pr_head s + n \<le> pr_tail s" using n(1) ring unfolding used_entries [OF r(1) ring] by (auto simp: inv_ring_def)
  then have "schedule [Kernel n] s = Some s'" by (simp add: s'_def)
  then have reach: "proto_reaches s s'" by (rule schedule_reaches)
  moreover have "at_rest nr' s'"
    using rest n(2) proto_inv_reaches [OF reach r(2)] by (simp add: at_rest_def s'_def represents_def)
  ultimately show ?thesis by (auto simp: s'_def)
qed

lemma whole_simulated:
  assumes "at_rest nr s" "queues_op x" "pr_epoch s < 2 ^ 63" "whole env x nr = Some nr'"
  shows "\<exists>s'. proto_reaches s s' \<and> at_rest nr' s' \<and> pr_epoch s' \<le> pr_epoch s + 1"
proof (cases x)
  case (Submit_call choice task)
  then have "submit env choice task nr = Some (True, nr')" using assms(4) by (auto split: option.splits prod.splits bool.splits)
  then show ?thesis using whole_submit [OF assms(1)] assms(2) Submit_call by (fastforce simp: queues_op_def)
next
  case Round
  then show ?thesis using whole_round [OF assms(1,3)] assms(4) by fastforce
next
  case (Take n)
  then show ?thesis using whole_take [OF assms(1)] assms(4) by fastforce
qed

lemma whole_run_simulated:
  assumes "at_rest nr s" "list_all queues_op xs" "pr_epoch s + length xs < 2 ^ 63" "whole_run env xs nr = Some nr'"
  shows "\<exists>s'. proto_reaches s s' \<and> at_rest nr' s'"
  using assms
proof (induction xs arbitrary: nr s)
  case Nil
  then show ?case by (auto simp: proto_reaches_def)
next
  case (Cons x xs)
  then obtain nr1 where x: "whole env x nr = Some nr1" "whole_run env xs nr1 = Some nr'" by (auto simp: bind_eq_Some_conv)
  have "queues_op x" "pr_epoch s < 2 ^ 63" using Cons.prems by simp_all
  then obtain s1 where s1: "proto_reaches s s1" "at_rest nr1 s1" "pr_epoch s1 \<le> pr_epoch s + 1"
    using whole_simulated [OF Cons.prems(1)] x(1) by blast
  then obtain s' where "proto_reaches s1 s'" "at_rest nr' s'" using Cons.IH [of nr1 s1] Cons.prems x(2) by auto
  then show ?case using s1(1) unfolding proto_reaches_def by (auto intro: rtranclp_trans)
qed

section \<open>Properties\<close>

text \<open>An undisturbed call of \<open>submit\<close> that accepts its task refines the protocol: on the words of
  \<open>NetRing\<close>, wrap-around included, it does what some number of steps of that submitter do on
  the counters, whatever the other submitters and the translator are in the middle of.\<close>

theorem submit_refines_protocol:
  assumes "represents nr s" "proto_inv s" "at_sub s i S_idle" "queues task"
    "submit env choice task nr = Some (True, nr')"
  shows "\<exists>n s'. schedule (replicate n (Submitter i)) s = Some s' \<and> at_sub s' i S_idle \<and> represents nr' s' \<and>
    pr_epoch s' = pr_epoch s + 1"
proof -
  obtain n s' where "schedule (replicate n (Submitter i)) s = Some s'" "represents nr' s'" "pr_subs s' = pr_subs s"
    "pr_epoch s' = pr_epoch s + 1"
    using submit_simulated [OF assms] by blast
  then show ?thesis using assms(3) by (intro exI [of _ n] exI [of _ s']) (simp add: at_sub_def)
qed

text \<open>C11. Every run of whole calls of \<open>submit\<close>, rounds of \<open>fallbackLoop\<close> and kernel consumption,
  from a quiescent start, ends in words that represent a reachable state of the protocol; the
  queue then holds no more than its entries, and unless the fallback is on the ticket is the tail.\<close>

theorem runs_refine_protocol:
  assumes "used \<le> entries" "represents nr (proto_init 1 entries cap epoch head used)" "list_all queues_op xs"
    "epoch + length xs < 2 ^ 63" "whole_run env xs nr = Some nr'"
  shows "\<exists>s'. proto_reaches (proto_init 1 entries cap epoch head used) s' \<and> represents nr' s' \<and>
    r_SQTail (nr_r nr') - r_SQHead (nr_r nr') \<le> r_SQEntries (nr_r nr') \<and>
    (bit (nr_barrier nr') 63 \<or> nr_ticketTail nr' = r_SQTail (nr_r nr'))"
proof -
  have "nr_fallbackChan nr = []" using assms(2) by (simp add: represents_def proto_init_def)
  then have start: "at_rest nr (proto_init 1 entries cap epoch head used)"
    using assms(2) proto_inv_init [OF assms(1)] by (simp add: at_rest_def) (simp add: proto_init_def)
  have "pr_epoch (proto_init 1 entries cap epoch head used) + length xs < 2 ^ 63"
    using assms(4) by (simp add: proto_init_def)
  from whole_run_simulated [OF start assms(3) this assms(5)] obtain s' where
    s': "proto_reaches (proto_init 1 entries cap epoch head used) s'" "at_rest nr' s'" by blast
  then have rep: "represents nr' s'" and inv: "inv_ticket s'" "inv_ring s'"
    and rest: "pr_subs s' = [S_idle]" "pr_tr s' = T_wait"
    by (auto simp: at_rest_def proto_inv_def)
  have "r_SQTail (nr_r nr') - r_SQHead (nr_r nr') \<le> r_SQEntries (nr_r nr')"
    using used_entries [OF rep inv(2)] rep inv(2) by (auto simp: word_le_nat_alt represents_def inv_ring_def)
  moreover have "pr_active s' \<or> pr_ticket s' = pr_tail s'"
    using inv(1) rest by (auto simp: inv_ticket_def fallback_on_def holds_def split: if_splits)
  then have "bit (nr_barrier nr') 63 \<or> nr_ticketTail nr' = r_SQTail (nr_r nr')"
    using ticket_test [OF rep inv(1)] rep by (auto simp: represents_def)
  ultimately show ?thesis using s'(1) rep by blast
qed

section \<open>A run through the fallback\<close>

text \<open>
  A full queue, a submission that is diverted, the kernel taking one entry, and the round that
  pushes the task and switches the fallback off.
\<close>

definition ex_full_ring :: IOUring where
  "ex_full_ring = push_state zero_sqe (push_state zero_sqe ex_ring)"

definition ex_full_nr :: NetRing where
  "ex_full_nr = ex_nr\<lparr>nr_r := ex_full_ring, nr_ticketTail := r_SQTail ex_full_ring\<rparr>"

definition ex_diverted_nr :: NetRing where
  "ex_diverted_nr = ex_full_nr\<lparr>nr_barrier := statusFallbackActive OR 1, nr_ticketTail := 2,
     nr_fallbackChan := [ex_task opcodeTypeRecv]\<rparr>"

lemma ex_full_ring: "sq_ok 1 ex_full_ring" "sq_count ex_full_ring = 2" "r_SQTail ex_full_ring = 1"
  "r_SQHead ex_full_ring = 4294967295" "r_SQEntries ex_full_ring = 2" "r_SQFlags ex_full_ring = r_SQFlags ex_ring"
proof -
  have one: "sq_ok 1 (push_state zero_sqe ex_ring)" "sq_count (push_state zero_sqe ex_ring) = 1"
    using sq_ok_push [OF ex_ring_ok(1)] sq_count_push [OF ex_ring_ok(1)] ex_ring_ok(3) by simp_all
  show "sq_ok 1 ex_full_ring" "sq_count ex_full_ring = 2"
    using sq_ok_push [OF one(1)] sq_count_push [OF one(1)] one(2) by (simp_all add: ex_full_ring_def)
  show "r_SQTail ex_full_ring = 1" "r_SQHead ex_full_ring = 4294967295" "r_SQEntries ex_full_ring = 2"
    "r_SQFlags ex_full_ring = r_SQFlags ex_ring"
    by (simp_all add: ex_full_ring_def push_state_def Let_def ex_ring_def)
qed

lemma ex_full_represents:
  "represents ex_full_nr (proto_init 1 2 256 0 4294967295 2)" "queues (ex_task opcodeTypeRecv)"
  by (simp_all add: represents_def proto_init_def ex_full_nr_def ex_full_ring queues_def ex_task_def) (simp_all add: ex_nr_def)

lemma ex_full_submit: "submit ex_env True (ex_task opcodeTypeRecv) ex_full_nr = Some (True, ex_diverted_nr)"
proof -
  have "(0 :: u64) \<noteq> statusFallbackActive" using bit_statusFallbackActive [of 63] by auto
  moreover have "(0 :: u64) AND epochMask = 0" "(1 :: u64) AND epochMask = 1" using epoch_word [of 1] by simp_all
  ultimately show ?thesis
    by (simp add: submit_def submitIntention_def Let_def ex_full_nr_def ex_full_ring setFallbackActive_def
        send_fallback_def ex_diverted_nr_def) (simp add: ex_nr_def ex_task_def)
qed

theorem submit_refines_protocol_witness:
  "\<exists>n s'. schedule (replicate n (Submitter 0)) (proto_init 1 2 256 0 4294967295 2) = Some s' \<and> pr_epoch s' = 1 \<and>
     represents ex_diverted_nr s'"
proof -
  have inv: "proto_inv (proto_init 1 2 256 0 4294967295 2)" by (rule proto_inv_init) simp
  have idle: "at_sub (proto_init 1 2 256 0 4294967295 2) 0 S_idle" by (simp add: at_sub_def proto_init_def)
  have "pr_epoch (proto_init 1 2 256 0 4294967295 2) = 0" by (simp add: proto_init_def)
  then show ?thesis
    using submit_refines_protocol [OF ex_full_represents(1) inv idle ex_full_represents(2) ex_full_submit] by auto
qed

definition ex_taken_nr :: NetRing where
  "ex_taken_nr = ex_diverted_nr\<lparr>nr_r := ex_full_ring\<lparr>r_SQHead := 0\<rparr>\<rparr>"

lemma ex_take: "whole ex_env (Take 1) ex_diverted_nr = Some ex_taken_nr"
  by (simp add: Let_def ex_diverted_nr_def ex_full_nr_def ex_full_ring ex_taken_nr_def)

lemma ex_dispatch:
  "\<exists>nr'. dispatch ex_env (ex_task opcodeTypeRecv) (ex_taken_nr\<lparr>nr_fallbackChan := [], nr_ticketTail := 3\<rparr>) = Some nr'"
proof -
  let ?nr = "ex_taken_nr\<lparr>nr_fallbackChan := [], nr_ticketTail := 3\<rparr>" and ?t = "ex_task opcodeTypeRecv"
    and ?c = "armed_cell 77 opcodeTypeAccept 5"
  have ring: "nr_r ?nr = ex_full_ring\<lparr>r_SQHead := r_SQHead ex_full_ring + of_nat 1\<rparr>"
    by (simp add: ex_taken_nr_def ex_full_ring)
  have "sq_ok 1 (nr_r ?nr)" unfolding ring by (rule sq_pending_advance(2) [OF ex_full_ring(1)]) (simp add: ex_full_ring)
  moreover have "sq_count (nr_r ?nr) < 2 ^ 1" unfolding ring sq_count_def by (simp add: ex_full_ring)
  moreover have "nr_slots ?nr = ex_nslots" "nr_cells ?nr (rt_Ctx ?t) = Some ?c"
    by (simp_all add: ex_taken_nr_def ex_diverted_nr_def ex_full_nr_def ex_task_def)
  moreover have "push_error ex_env (nr_r ?nr) = None"
    unfolding ring by (simp add: push_error_def NeedWakeup_def ex_full_ring) (simp add: ex_ring_def)
  moreover have "request ex_env ?t (tc_fd ?c) 0 \<noteq> None" by (simp add: request_def ex_task_def Let_def)
  ultimately show ?thesis
    using dispatch_success [of 12 1 ?nr ?t ?c ex_env] ex_nslots_valid by (auto simp: nr_ok_def nr_room_def)
qed

lemma ex_round: "\<exists>nr'. whole ex_env Round ex_taken_nr = Some nr' \<and> nr_barrier nr' = 1"
proof -
  let ?nr = "ex_taken_nr\<lparr>nr_fallbackChan := []\<rparr>" and ?t = "ex_task opcodeTypeRecv"
  have b: "nr_barrier ex_taken_nr = statusFallbackActive OR 1" "nr_finishedPushes ex_taken_nr = 0"
    "nr_fallbackChan ex_taken_nr = [?t]" "nr_ticketTail ex_taken_nr = 2"
    by (simp_all add: ex_taken_nr_def ex_diverted_nr_def ex_full_nr_def) (simp add: ex_nr_def)
  have cur: "(statusFallbackActive OR 1) AND epochMask = 1"
    using epoch_word [of 1] status_word(2) [of "- 1" 1] by simp
  obtain nr1 where d: "dispatch ex_env ?t (ex_taken_nr\<lparr>nr_fallbackChan := [], nr_ticketTail := 3\<rparr>) = Some nr1"
    using ex_dispatch by blast
  have push: "fallback_push ex_env ?t ?nr = Some nr1"
    using d by (simp add: fallback_push_def b) (simp add: ex_taken_nr_def ex_full_ring word_le_nat_alt)
  have "nr_barrier nr1 = statusFallbackActive OR 1"
    using dispatch_frame [OF d ex_full_represents(2)] by (simp add: same_words_def b)
  then have "fallback_round 1 ex_env ?t ?nr =
      Some (True, nr1\<lparr>nr_finishedPushes := 1, nr_barrier := 1, nr_ticketTail := r_SQTail (nr_r nr1)\<rparr>)"
    using push cur by (simp add: fallback_round_def take_snapshot_def b Let_def fallback_finish_def)
  then show ?thesis by (simp add: b)
qed

theorem runs_refine_protocol_witness:
  "\<exists>nr' s'. whole_run ex_env [Submit_call True (ex_task opcodeTypeRecv), Take 1, Round] ex_full_nr = Some nr' \<and>
     proto_reaches (proto_init 1 2 256 0 4294967295 2) s' \<and> represents nr' s' \<and>
     nr_ticketTail nr' = r_SQTail (nr_r nr')"
proof -
  let ?xs = "[Submit_call True (ex_task opcodeTypeRecv), Take 1, Round]"
  obtain nr' where r: "whole ex_env Round ex_taken_nr = Some nr'" "nr_barrier nr' = 1" using ex_round by blast
  have run: "whole_run ex_env ?xs ex_full_nr = Some nr'"
    using r(1) ex_take ex_full_submit by (simp del: whole.simps add: whole.simps(1))
  have "list_all queues_op ?xs" using ex_full_represents(2) by (simp add: queues_op_def)
  from runs_refine_protocol [OF _ ex_full_represents(1) this _ run] r(2)
  show ?thesis using run by (auto simp: bit_simps)
qed

end
