(* ===== verification/Netring_Calls.thy ===== *)
theory Netring_Calls
  imports Netring_Ops Submit_Refinement
begin

text \<open>
  The ring as a whole: goroutines that call the parking operations, senders, the translator, the
  poller and the kernel, one step at a time, in any order. A call of \<open>submit\<close>, a round of the
  translator and a turn of the poller are single steps here; \<open>Submit_Protocol\<close> and
  \<open>Park_Handshake\<close> interleave their insides. The kernel takes queued entries from the front and
  completes each it has taken once, in any order. \<open>Stop\<close> may be called at any time; what the translator
  does with the tasks left in the channel afterwards, \<open>drainFallback\<close>, is not a step.

  \<open>spec_step\<close> is what callers rely on: a call is answered once, by a result for a request of
  this very call, and returns with that result.
\<close>

section \<open>Calls that park\<close>

datatype net_call = Call_accept i64 | Call_connect i64 Sockaddr u64 | Call_close i64
  | Call_recv i64 u64 | Call_read i64 u64

fun call_fd :: "net_call \<Rightarrow> i64" where
  "call_fd (Call_accept fd) = fd"
| "call_fd (Call_connect fd sa rawptr) = fd"
| "call_fd (Call_close fd) = fd"
| "call_fd (Call_recv fd sizeClass) = fd"
| "call_fd (Call_read fd sizeClass) = fd"

fun call_opcode :: "net_call \<Rightarrow> opcodeType" where
  "call_opcode (Call_accept fd) = opcodeTypeAccept"
| "call_opcode (Call_connect fd sa rawptr) = opcodeTypeConnect"
| "call_opcode (Call_close fd) = opcodeTypeClose"
| "call_opcode (Call_recv fd sizeClass) = opcodeTypeRecv"
| "call_opcode (Call_read fd sizeClass) = opcodeTypeRead"

fun call_task :: "net_call \<Rightarrow> cell_ref \<Rightarrow> ringTask" where
  "call_task (Call_accept fd) = plain_task opcodeTypeAccept 0 0"
| "call_task (Call_connect fd sa rawptr) = (\<lambda>c. (plain_task opcodeTypeConnect 0 0 c)
     \<lparr>rt_Addr := ucast sizeof_RawSockaddrInet4, rt_Payload := rawptr\<rparr>)"
| "call_task (Call_close fd) = plain_task opcodeTypeClose 0 0"
| "call_task (Call_recv fd sizeClass) = plain_task opcodeTypeRecv (the (SizeClass_Size sizeClass)) (ucast sizeClass)"
| "call_task (Call_read fd sizeClass) = plain_task opcodeTypeRead 0 (ucast sizeClass)"

text \<open>The checks before a cell is taken: the error the call returns with, or none; \<open>None\<close> is a panic.\<close>

fun call_check :: "net_call \<Rightarrow> NetRing \<Rightarrow> netring_error option option" where
  "call_check (Call_connect fd sa rawptr) nr =
     (if sint fd < 0 then Some (Some (Invalid_descriptor fd))
      else Some (case sa of SockaddrNil \<Rightarrow> Some Sockaddr_missing | SockaddrUnsupported \<Rightarrow> Some Sockaddr_unsupported
        | SockaddrInet4 port addr \<Rightarrow> None))"
| "call_check (Call_recv fd sizeClass) nr =
     map_option (\<lambda>r. case r of Inl e \<Rightarrow> Some e | Inr capacity \<Rightarrow> None) (check_class fd sizeClass nr)"
| "call_check (Call_read fd sizeClass) nr =
     map_option (\<lambda>r. case r of Inl e \<Rightarrow> Some e | Inr capacity \<Rightarrow> None) (check_class fd sizeClass nr)"
| "call_check call nr = (if sint (call_fd call) < 0 then Some (Some (Invalid_descriptor (call_fd call))) else Some None)"

fun call_start :: "uring_env \<Rightarrow> bool \<Rightarrow> u64 \<Rightarrow> net_call \<Rightarrow> NetRing \<Rightarrow> ((netring_error + cell_ref) \<times> NetRing) option" where
  "call_start env choice g (Call_accept fd) nr = Accept_start env choice g fd nr"
| "call_start env choice g (Call_connect fd sa rawptr) nr = Connect_start env choice g rawptr fd sa nr"
| "call_start env choice g (Call_close fd) nr = Close_start env choice g fd nr"
| "call_start env choice g (Call_recv fd sizeClass) nr = Recv_start env choice g fd sizeClass nr"
| "call_start env choice g (Call_read fd sizeClass) nr = Read_start env choice g fd sizeClass nr"

text \<open>Every such method is its checks, then a cell, the submission and the park.\<close>

lemma call_start_split:
  "call_start env choice g call nr =
    (case call_check call nr of None \<Rightarrow> None | Some (Some e) \<Rightarrow> Some (Inl e, nr)
     | Some None \<Rightarrow> start_op env choice g (call_opcode call) (call_fd call) (call_task call) nr)"
proof (cases call)
  case (Call_connect fd sa rawptr)
  then show ?thesis by (cases sa) (auto simp: Connect_start_def)
next
  case (Call_recv fd sizeClass)
  then show ?thesis
    by (auto simp: Recv_start_def check_class_def split: option.splits sum.splits if_splits)
next
  case (Call_read fd sizeClass)
  then show ?thesis
    by (auto simp: Read_start_def check_class_def split: option.splits sum.splits if_splits)
qed (simp_all add: Accept_start_def Close_start_def)

datatype outcome = Out_fd "netring_error + i32" | Out_done "netring_error option" | Out_view "netring_error + view option"

fun call_finish :: "sys_env \<Rightarrow> sys_trace \<Rightarrow> net_call \<Rightarrow> cell_ref \<Rightarrow> NetRing \<Rightarrow> (outcome \<times> NetRing) option" where
  "call_finish env tr (Call_accept fd) c nr = map_option (map_prod Out_fd id) (Accept_finish c nr)"
| "call_finish env tr (Call_connect fd sa rawptr) c nr = map_option (map_prod Out_done id) (Connect_finish c nr)"
| "call_finish env tr (Call_close fd) c nr = map_option (map_prod Out_done id) (Close_finish c nr)"
| "call_finish env tr (Call_recv fd sizeClass) c nr = map_option (map_prod Out_view id) (Recv_finish sizeClass c nr)"
| "call_finish env tr (Call_read fd sizeClass) c nr = map_option (map_prod Out_view id) (Read_finish env tr sizeClass c nr)"

lemma call_opcode_parks [simp]: "call_opcode call \<noteq> opcodeTypeSend" "queues (call_task call c)"
  "rt_Opcode (call_task call c) = call_opcode call" "rt_Ctx (call_task call c) = c"
  by (cases call; simp add: plain_task_def queues_def)+

section \<open>What a caller is promised\<close>

text \<open>
  The answer for a result and flags: of \<open>Recv\<close> and \<open>Read\<close> the first \<open>res\<close> bytes of the buffer the
  flags name.
\<close>

definition kernel_error :: "i32 \<Rightarrow> netring_error option" where
  "kernel_error res = (if sint res < 0 then Some (Kernel_errno (scast (- res))) else None)"

definition received :: "u64 \<Rightarrow> i32 \<Rightarrow> u32 \<Rightarrow> ProvidedBufferRing option list \<Rightarrow> netring_error + view option" where
  "received sizeClass res flags rings =
     (case kernel_error res of Some e \<Rightarrow> Inl e
      | None \<Rightarrow>
          if res = 0 then Inr None
          else if flags AND CQEFBuffer = 0 then Inl No_buffer_flag
          else Inr (Some (pb_bufPointers (the (rings ! unat sizeClass)) ! unat (bid_of_flags flags), nat (sint res))))"

fun call_outcome :: "net_call \<Rightarrow> i32 \<Rightarrow> u32 \<Rightarrow> ProvidedBufferRing option list \<Rightarrow> outcome" where
  "call_outcome (Call_accept fd) res flags rings =
     Out_fd (case kernel_error res of Some e \<Rightarrow> Inl e | None \<Rightarrow> Inr res)"
| "call_outcome (Call_connect fd sa rawptr) res flags rings = Out_done (kernel_error res)"
| "call_outcome (Call_close fd) res flags rings = Out_done (kernel_error res)"
| "call_outcome (Call_recv fd sizeClass) res flags rings = Out_view (received sizeClass res flags rings)"
| "call_outcome (Call_read fd sizeClass) res flags rings = Out_view (received sizeClass res flags rings)"

text \<open>
  What happens: a call begins, the kernel answers an entry, a call returns, \<open>Send\<close> has taken a payload over, a view
  is handed back, a class of buffers is registered or unregistered, or fails to be; the poller tells whoever has slot 0
  of a completion that never came; the rest is silent.
\<close>

datatype event = Began u64 net_call | Answered SQEntry i32 u32 | Ended u64 "ProvidedBufferRing option list" outcome
  | Sent i64 u64 u64 | Released u64 view | Registered u64 | Unregistered u64 | Unregister_failed u64 netring_error
  | Misfired | Silent

definition asks :: "uring_env \<Rightarrow> SQEntry \<Rightarrow> net_call \<Rightarrow> bool" where
  "asks env e call \<longleftrightarrow> (\<exists>c. request env (call_task call c) (call_fd call) (sqe_UserData e) = Some e)"

type_synonym promise = "u64 \<rightharpoonup> net_call \<times> (i32 \<times> u32) option"

inductive spec_step :: "uring_env \<Rightarrow> promise \<Rightarrow> event \<Rightarrow> promise \<Rightarrow> bool" for env :: uring_env where
  spec_begin: "a g = None \<Longrightarrow> spec_step env a (Began g call) (a(g \<mapsto> (call, None)))"
| spec_answer: "a g = Some (call, None) \<Longrightarrow> asks env e call \<Longrightarrow>
    spec_step env a (Answered e res flags) (a(g \<mapsto> (call, Some (res, flags))))"
| spec_send: "sqe_Opcode e = OpSend \<Longrightarrow> spec_step env a (Answered e res flags) a"
| spec_end: "a g = Some (call, Some (res, flags)) \<Longrightarrow>
    spec_step env a (Ended g rings (call_outcome call res flags rings)) (a(g := None))"
| spec_sent: "spec_step env a (Sent fd ptr len) a"
| spec_released: "spec_step env a (Released sizeClass v) a"
| spec_registered: "spec_step env a (Registered sizeClass) a"
| spec_unregistered: "spec_step env a (Unregistered sizeClass) a"
| spec_unregister_failed: "spec_step env a (Unregister_failed sizeClass err) a"
| spec_silent: "spec_step env a Silent a"

section \<open>The system\<close>

text \<open>A caller: past \<open>submit\<close> and not parked yet, parked, or free to read its cell.\<close>

datatype call_phase = Call_sent | Call_asleep | Call_resumed

record ring_sys =
  sy_nr :: NetRing
  sy_flight :: "SQEntry list"
  sy_calls :: "u64 \<rightharpoonup> call_phase \<times> net_call \<times> cell_ref"
  sy_spin :: int
  sy_waits :: bool

text \<open>The kernel posts one completion behind the pending ones, where there is room.\<close>

definition kernel_posts :: "nat \<Rightarrow> IOUring \<Rightarrow> CQEntry \<Rightarrow> IOUring \<Rightarrow> bool" where
  "kernel_posts n r q r' \<longleftrightarrow> (\<exists>buf tail. r' = r\<lparr>r_CQ := buf, r_CQTail := tail\<rparr>) \<and> cq_ok n r' \<and>
     cq_pending r' = cq_pending r @ [q]"

text \<open>
  A turn of the poller that has nothing to read and no spins left is two steps: it goes into its blocking wait, where
  \<open>sy_waits\<close> is set and everything else goes on, and it comes back. It comes back with the empty entry,
  which names slot 0: where slot 0 is free or the wait was interrupted, at most an error is logged, and otherwise the
  event is \<open>Misfired\<close>, which \<open>spec_step\<close> has no rule for. How the wait ends is the choice of \<open>env'\<close>.
\<close>

definition misfires :: "uring_env \<Rightarrow> NetRing \<Rightarrow> bool" where
  "misfires env nr \<longleftrightarrow> WaitEvents env (nr_r nr) \<noteq> Some (Errno EINTR) \<and> snd (Get 0 0 (nr_slots nr))"

inductive ring_step :: "uring_env \<Rightarrow> sys_env \<Rightarrow> int \<Rightarrow> nat \<Rightarrow> ring_sys \<Rightarrow> event \<Rightarrow> ring_sys \<Rightarrow> bool"
  for env :: uring_env and senv :: sys_env and idleAfter :: int and n :: nat where
  rs_begin: "sy_calls s g = None \<Longrightarrow> call_check call (sy_nr s) = Some None \<Longrightarrow>
    take_cell g (call_opcode call) (call_fd call) (sy_nr s) = (c, nr1) \<Longrightarrow>
    submit env choice (call_task call c) nr1 = Some (True, nr2) \<Longrightarrow>
    ring_step env senv idleAfter n s (Began g call)
      (s\<lparr>sy_nr := nr2, sy_calls := (sy_calls s)(g \<mapsto> (Call_sent, call, c))\<rparr>)"
| rs_refused: "call_check call (sy_nr s) = Some None \<Longrightarrow>
    take_cell g (call_opcode call) (call_fd call) (sy_nr s) = (c, nr1) \<Longrightarrow>
    submit env choice (call_task call c) nr1 = Some (False, nr2) \<Longrightarrow>
    ring_step env senv idleAfter n s Silent (s\<lparr>sy_nr := nr2\<rparr>)"
| rs_park: "sy_calls s g = Some (Call_sent, call, c) \<Longrightarrow> park_cell c (sy_nr s) = Some (sleeps, nr') \<Longrightarrow>
    ring_step env senv idleAfter n s Silent (s\<lparr>sy_nr := nr',
      sy_calls := (sy_calls s)(g \<mapsto> (if sleeps then Call_asleep else Call_resumed, call, c))\<rparr>)"
| rs_wake: "sy_calls s g = Some (Call_asleep, call, c) \<Longrightarrow> g \<in> set (nr_ready (sy_nr s)) \<Longrightarrow>
    ring_step env senv idleAfter n s Silent
      (s\<lparr>sy_nr := (sy_nr s)\<lparr>nr_ready := remove1 g (nr_ready (sy_nr s))\<rparr>,
         sy_calls := (sy_calls s)(g \<mapsto> (Call_resumed, call, c))\<rparr>)"
| rs_end: "sy_calls s g = Some (Call_resumed, call, c) \<Longrightarrow> call_finish senv tr call c (sy_nr s) = Some (out, nr') \<Longrightarrow>
    ring_step env senv idleAfter n s (Ended g (nr_pbrs (sy_nr s)) out)
      (s\<lparr>sy_nr := nr', sy_calls := (sy_calls s)(g := None)\<rparr>)"
| rs_send: "Send_pass env choice g fd ptr len (sy_nr s) = Some (Wait_return None, nr') \<Longrightarrow> len \<noteq> 0 \<Longrightarrow>
    ring_step env senv idleAfter n s (Sent fd ptr len) (s\<lparr>sy_nr := nr'\<rparr>)"
| rs_send_waits: "Send_pass env choice g fd ptr len (sy_nr s) = Some (out, nr') \<Longrightarrow> out \<noteq> Wait_return None \<or> len = 0 \<Longrightarrow>
    ring_step env senv idleAfter n s Silent (s\<lparr>sy_nr := nr'\<rparr>)"
| rs_flush: "FlushFDSends_pass env choice g fd (sy_nr s) = Some (out, nr') \<Longrightarrow>
    ring_step env senv idleAfter n s Silent (s\<lparr>sy_nr := nr'\<rparr>)"
| rs_release: "ReleaseBuffer_op env sizeClass v (sy_nr s) = Some nr' \<Longrightarrow>
    ring_step env senv idleAfter n s (Released sizeClass v) (s\<lparr>sy_nr := nr'\<rparr>)"
| rs_register: "RegisterBufferRing_op senv sizeClass capacity (sy_nr s, tr) = Some (None, nr', tr') \<Longrightarrow>
    ring_step env senv idleAfter n s (Registered sizeClass) (s\<lparr>sy_nr := nr'\<rparr>)"
| rs_register_fails: "RegisterBufferRing_op senv sizeClass capacity (sy_nr s, tr) = Some (Some err, nr', tr') \<Longrightarrow>
    ring_step env senv idleAfter n s Silent (s\<lparr>sy_nr := nr'\<rparr>)"
| rs_unregister: "UnregisterBufferRing_op senv sizeClass (sy_nr s, tr) = Some (None, nr', tr') \<Longrightarrow>
    ring_step env senv idleAfter n s (Unregistered sizeClass) (s\<lparr>sy_nr := nr'\<rparr>)"
| rs_unregister_fails: "UnregisterBufferRing_op senv sizeClass (sy_nr s, tr) = Some (Some err, nr', tr') \<Longrightarrow>
    ring_step env senv idleAfter n s (Unregister_failed sizeClass err) (s\<lparr>sy_nr := nr'\<rparr>)"
| rs_translate: "nr_fallbackChan (sy_nr s) = task # tasks \<Longrightarrow>
    fallback_round (Suc (length tasks)) env task ((sy_nr s)\<lparr>nr_fallbackChan := tasks\<rparr>) = Some (released, nr') \<Longrightarrow>
    ring_step env senv idleAfter n s Silent (s\<lparr>sy_nr := nr'\<rparr>)"
| rs_stop: "Stop (sy_nr s) = Some nr' \<Longrightarrow> ring_step env senv idleAfter n s Silent (s\<lparr>sy_nr := nr'\<rparr>)"
| rs_poll: "\<not> sy_waits s \<Longrightarrow> cq_pending (nr_r (sy_nr s)) \<noteq> [] \<or> sy_spin s + 1 < idleAfter \<Longrightarrow>
    poll_turn env idleAfter (sy_spin s, sy_nr s) = Some (spin', nr') \<Longrightarrow>
    ring_step env senv idleAfter n s Silent (s\<lparr>sy_nr := nr', sy_spin := spin'\<rparr>)"
| rs_wait: "\<not> sy_waits s \<Longrightarrow> cq_pending (nr_r (sy_nr s)) = [] \<Longrightarrow> idleAfter \<le> sy_spin s + 1 \<Longrightarrow>
    ring_step env senv idleAfter n s Silent (s\<lparr>sy_spin := 0, sy_waits := True\<rparr>)"
| rs_waited: "sy_waits s \<Longrightarrow> after_wait env' (sy_nr s) = Some nr' \<Longrightarrow>
    ring_step env senv idleAfter n s (if misfires env' (sy_nr s) then Misfired else Silent)
      (s\<lparr>sy_nr := nr', sy_waits := False\<rparr>)"
| rs_take: "j \<le> sq_count (nr_r (sy_nr s)) \<Longrightarrow>
    ring_step env senv idleAfter n s Silent
      (s\<lparr>sy_nr := (sy_nr s)\<lparr>nr_r := (nr_r (sy_nr s))\<lparr>r_SQHead := r_SQHead (nr_r (sy_nr s)) + of_nat j\<rparr>\<rparr>,
         sy_flight := sy_flight s @ take j (sq_pending (nr_r (sy_nr s)))\<rparr>)"
| rs_flags: "ring_step env senv idleAfter n s Silent
      (s\<lparr>sy_nr := (sy_nr s)\<lparr>nr_r := (nr_r (sy_nr s))\<lparr>r_SQFlags := flags\<rparr>\<rparr>\<rparr>)"
| rs_post: "sy_flight s = es1 @ e # es2 \<Longrightarrow>
    kernel_posts n (nr_r (sy_nr s)) \<lparr>cqe_UserData = sqe_UserData e, cqe_Res = res, cqe_Flags = flags\<rparr> r' \<Longrightarrow>
    ring_step env senv idleAfter n s (Answered e res flags)
      (s\<lparr>sy_nr := (sy_nr s)\<lparr>nr_r := r'\<rparr>, sy_flight := es1 @ es2\<rparr>)"

text \<open>Runs, with their events.\<close>

inductive ring_run :: "uring_env \<Rightarrow> sys_env \<Rightarrow> int \<Rightarrow> nat \<Rightarrow> ring_sys \<Rightarrow> event list \<Rightarrow> ring_sys \<Rightarrow> bool"
  for env :: uring_env and senv :: sys_env and idleAfter :: int and n :: nat and s0 :: ring_sys where
  run_start: "ring_run env senv idleAfter n s0 [] s0"
| run_step: "ring_run env senv idleAfter n s0 evs s \<Longrightarrow> ring_step env senv idleAfter n s ev s' \<Longrightarrow>
    ring_run env senv idleAfter n s0 (evs @ [ev]) s'"

inductive spec_run :: "uring_env \<Rightarrow> event list \<Rightarrow> promise \<Rightarrow> bool" for env :: uring_env where
  spec_nothing: "spec_run env [] Map.empty"
| spec_more: "spec_run env evs a \<Longrightarrow> spec_step env a ev a' \<Longrightarrow> spec_run env (evs @ [ev]) a'"

end
