(* ===== verification/Netring_Ledger.thy ===== *)
theory Netring_Ledger
  imports Netring_Calls "HOL-Library.Multiset"
begin

text \<open>
  The state of the system as a ledger of what is under way: tasks, entries and completions as
  multisets, each of them with the cell that waits for it. \<open>tracked\<close> is the invariant: a cell is
  under way at most once, every cell under way has an owner, every caller's cell says what has
  happened to its call. \<open>keeps\<close> relates the ledger to the promises of \<open>spec_step\<close>. One lemma per kind of change.
\<close>

section \<open>The ledger\<close>

text \<open>
  As multisets: the tasks not yet dispatched (in the channel or in hand), the entries not
  yet answered (queued or with the kernel), the completions not yet read; the tables that connect
  them to the callers.
\<close>

record ledger =
  lg_tasks :: "ringTask multiset"
  lg_entries :: "SQEntry multiset"
  lg_cqes :: "CQEntry multiset"
  lg_live :: "u64 \<rightharpoonup> cell_ref"
  lg_cells :: "cell_ref \<rightharpoonup> taskCell"
  lg_pool :: "cell_ref list"
  lg_next :: cell_ref
  lg_ready :: "u64 list"
  lg_fds :: nat
  lg_calls :: "u64 \<rightharpoonup> call_phase \<times> net_call \<times> cell_ref"

definition books :: "ringTask multiset \<Rightarrow> NetRing \<Rightarrow> SQEntry list \<Rightarrow> (u64 \<rightharpoonup> call_phase \<times> net_call \<times> cell_ref) \<Rightarrow> ledger" where
  "books hand nr flight calls =
     \<lparr> lg_tasks = hand + mset (nr_fallbackChan nr), lg_entries = mset (sq_pending (nr_r nr)) + mset flight,
       lg_cqes = mset (cq_pending (nr_r nr)), lg_live = live (nr_slots nr), lg_cells = nr_cells nr,
       lg_pool = nr_pool nr, lg_next = nr_next nr, lg_ready = nr_ready nr, lg_fds = length (nr_sendCells nr),
       lg_calls = calls \<rparr>"

definition slot_cell :: "ledger \<Rightarrow> u64 \<Rightarrow> cell_ref" where
  "slot_cell l idx = the (lg_live l idx)"

text \<open>The cells whose request has no answer yet, and those whose answer was not read yet.\<close>

definition waiting :: "ledger \<Rightarrow> cell_ref multiset" where
  "waiting l = image_mset rt_Ctx (lg_tasks l) + image_mset (\<lambda>e. slot_cell l (sqe_UserData e)) (lg_entries l)"

definition arrived :: "ledger \<Rightarrow> cell_ref multiset" where
  "arrived l = image_mset (\<lambda>q. slot_cell l (cqe_UserData q)) (lg_cqes l)"

definition held :: "ledger \<Rightarrow> cell_ref multiset" where
  "held l = waiting l + arrived l"

definition task_ok :: "ledger \<Rightarrow> ringTask \<Rightarrow> bool" where
  "task_ok l t \<longleftrightarrow> queues t \<and> (\<exists>cell. lg_cells l (rt_Ctx t) = Some cell \<and> rt_Opcode t = tc_opCode cell) \<and>
     (\<forall>g ph call. lg_calls l g = Some (ph, call, rt_Ctx t) \<longrightarrow> t = call_task call (rt_Ctx t))"

definition entry_ok :: "uring_env \<Rightarrow> ledger \<Rightarrow> SQEntry \<Rightarrow> bool" where
  "entry_ok env l e \<longleftrightarrow> (\<exists>c cell. lg_live l (sqe_UserData e) = Some c \<and> lg_cells l c = Some cell \<and>
     (tc_opCode cell = opcodeTypeSend \<longrightarrow> sqe_Opcode e = OpSend \<and> sqe_FD e = ucast (tc_fd cell)) \<and>
     (\<forall>g ph call. lg_calls l g = Some (ph, call, c) \<longrightarrow> asks env e call))"

text \<open>A cell on its way belongs to a send or to a caller.\<close>

definition owned :: "ledger \<Rightarrow> cell_ref \<Rightarrow> bool" where
  "owned l c \<longleftrightarrow> c < lg_next l \<and> c \<notin> set (lg_pool l) \<and> (\<exists>cell. lg_cells l c = Some cell \<and>
     (if tc_opCode cell = opcodeTypeSend then unat (tc_fd cell) < lg_fds l
      else \<exists>g ph call. lg_calls l g = Some (ph, call, c)))"

text \<open>What a caller's cell says: whether the answer came, and who wakes whom.\<close>

definition phase_ok :: "ledger \<Rightarrow> u64 \<Rightarrow> call_phase \<Rightarrow> cell_ref \<Rightarrow> u32 \<Rightarrow> bool" where
  "phase_ok l g ph c st \<longleftrightarrow> (case ph of
     Call_sent \<Rightarrow> st = (if c \<in># held l then taskStateInCore else taskStateDone) \<and> g \<notin> set (lg_ready l)
   | Call_asleep \<Rightarrow> st = taskStateParked \<and> (g \<in> set (lg_ready l) \<longleftrightarrow> c \<notin># held l)
   | Call_resumed \<Rightarrow> c \<notin># held l \<and> g \<notin> set (lg_ready l))"

definition caller_ok :: "ledger \<Rightarrow> u64 \<Rightarrow> call_phase \<Rightarrow> net_call \<Rightarrow> cell_ref \<Rightarrow> bool" where
  "caller_ok l g ph call c \<longleftrightarrow> c < lg_next l \<and> c \<notin> set (lg_pool l) \<and> (\<exists>cell. lg_cells l c = Some cell \<and> tc_g cell = g \<and>
     tc_opCode cell = call_opcode call \<and> tc_fd cell = call_fd call \<and> tc_err cell = None \<and>
     phase_ok l g ph c (tc_taskState cell))"

definition tracked :: "uring_env \<Rightarrow> ledger \<Rightarrow> bool" where
  "tracked env l \<longleftrightarrow>
     (\<forall>c. count (held l) c \<le> 1) \<and>
     (\<forall>c \<in># held l. owned l c) \<and>
     (\<forall>t \<in># lg_tasks l. task_ok l t) \<and>
     (\<forall>e \<in># lg_entries l. entry_ok env l e) \<and>
     (\<forall>q \<in># lg_cqes l. lg_live l (cqe_UserData q) \<noteq> None) \<and>
     (\<forall>g ph call c. lg_calls l g = Some (ph, call, c) \<longrightarrow> caller_ok l g ph call c) \<and>
     distinct (lg_pool l) \<and> (\<forall>c \<in> set (lg_pool l). c < lg_next l) \<and>
     distinct (lg_ready l) \<and> (\<forall>g \<in> set (lg_ready l). \<exists>call c. lg_calls l g = Some (Call_asleep, call, c))"

text \<open>The answer a caller has been given: none while its cell waits, else the completion that is on its way or was read.\<close>

definition answer_is :: "ledger \<Rightarrow> cell_ref \<Rightarrow> (i32 \<times> u32) option \<Rightarrow> bool" where
  "answer_is l c ans \<longleftrightarrow> (case ans of
     None \<Rightarrow> c \<in># waiting l
   | Some (res, flags) \<Rightarrow>
       (\<exists>q \<in># lg_cqes l. slot_cell l (cqe_UserData q) = c \<and> cqe_Res q = res \<and> cqe_Flags q = flags) \<or>
       c \<notin># held l \<and> (\<exists>cell. lg_cells l c = Some cell \<and> tc_res cell = res \<and> tc_flags cell = flags))"

definition keeps :: "ledger \<Rightarrow> promise \<Rightarrow> bool" where
  "keeps l a \<longleftrightarrow> (\<forall>g. case lg_calls l g of None \<Rightarrow> a g = None
     | Some (ph, call, c) \<Rightarrow> \<exists>ans. a g = Some (call, ans) \<and> answer_is l c ans)"

lemmas ledger_defs = tracked_def task_ok_def entry_ok_def owned_def caller_ok_def phase_ok_def
lemmas ledger_cells = held_def waiting_def arrived_def slot_cell_def

section \<open>Entries of the ledger\<close>

lemma trackedI:
  assumes "\<And>c. count (held l) c \<le> 1" "\<And>c. c \<in># held l \<Longrightarrow> owned l c" "\<And>t. t \<in># lg_tasks l \<Longrightarrow> task_ok l t"
    "\<And>e. e \<in># lg_entries l \<Longrightarrow> entry_ok env l e" "\<And>q. q \<in># lg_cqes l \<Longrightarrow> lg_live l (cqe_UserData q) \<noteq> None"
    "\<And>g ph call c. lg_calls l g = Some (ph, call, c) \<Longrightarrow> caller_ok l g ph call c"
    "distinct (lg_pool l)" "\<And>c. c \<in> set (lg_pool l) \<Longrightarrow> c < lg_next l"
    "distinct (lg_ready l)" "\<And>g. g \<in> set (lg_ready l) \<Longrightarrow> \<exists>call c. lg_calls l g = Some (Call_asleep, call, c)"
  shows "tracked env l"
  using assms by (auto simp: tracked_def)

lemma trackedD:
  assumes "tracked env l"
  shows "count (held l) c \<le> 1" "c \<in># held l \<Longrightarrow> owned l c" "t \<in># lg_tasks l \<Longrightarrow> task_ok l t"
    "e \<in># lg_entries l \<Longrightarrow> entry_ok env l e" "q \<in># lg_cqes l \<Longrightarrow> lg_live l (cqe_UserData q) \<noteq> None"
    "lg_calls l g = Some (ph, call, c) \<Longrightarrow> caller_ok l g ph call c"
    "distinct (lg_pool l)" "c \<in> set (lg_pool l) \<Longrightarrow> c < lg_next l"
    "distinct (lg_ready l)" "g \<in> set (lg_ready l) \<Longrightarrow> \<exists>call c. lg_calls l g = Some (Call_asleep, call, c)"
  using assms by (auto simp: tracked_def)

text \<open>Promises stand as long as every call in progress stays with its cell and its answer.\<close>

lemma keepsD: "keeps l a \<Longrightarrow> lg_calls l g = Some (ph, call, c) \<Longrightarrow> \<exists>ans. a g = Some (call, ans) \<and> answer_is l c ans"
  by (auto simp: keeps_def dest: spec [of _ g])

lemma keeps_other:
  assumes k: "keeps l a" and calls: "map_option snd (lg_calls l' g) = map_option snd (lg_calls l g)" and a': "a' g = a g"
    and ans: "\<And>ph call c ans. lg_calls l g = Some (ph, call, c) \<Longrightarrow> answer_is l c ans \<Longrightarrow> answer_is l' c ans"
  shows "case lg_calls l' g of None \<Rightarrow> a' g = None | Some (ph, call, c) \<Rightarrow> \<exists>ans. a' g = Some (call, ans) \<and> answer_is l' c ans"
proof (cases "lg_calls l g")
  case None
  then show ?thesis using k calls a' by (auto simp: keeps_def dest: spec [of _ g])
next
  case (Some p)
  obtain ph call c where p: "p = (ph, call, c)" by (cases p)
  then obtain ph' where "lg_calls l' g = Some (ph', call, c)" using calls Some by auto
  then show ?thesis using keepsD [OF k, of g ph call c] ans [of ph call c] Some p a' by auto
qed

lemma keeps_frame:
  assumes "keeps l a" and "\<And>g. map_option snd (lg_calls l' g) = map_option snd (lg_calls l g)"
    and "\<And>g ph call c ans. lg_calls l g = Some (ph, call, c) \<Longrightarrow> answer_is l c ans \<Longrightarrow> answer_is l' c ans"
  shows "keeps l' a"
  unfolding keeps_def by (intro allI keeps_other [OF assms(1,2) refl]) (rule assms(3))

lemma keeps_caller:
  assumes "keeps l a" and "\<And>h. h \<noteq> g \<Longrightarrow> map_option snd (lg_calls l' h) = map_option snd (lg_calls l h)"
    and "\<And>h ph call c ans. h \<noteq> g \<Longrightarrow> lg_calls l h = Some (ph, call, c) \<Longrightarrow> answer_is l c ans \<Longrightarrow> answer_is l' c ans"
    and "lg_calls l' g = Some (ph, call, c)" and "answer_is l' c an"
  shows "keeps l' (a(g \<mapsto> (call, an)))"
  unfolding keeps_def
proof
  fix h
  show "case lg_calls l' h of None \<Rightarrow> (a(g \<mapsto> (call, an))) h = None
    | Some (ph, call', c) \<Rightarrow> \<exists>ans. (a(g \<mapsto> (call, an))) h = Some (call', ans) \<and> answer_is l' c ans"
  proof (cases "h = g")
    case True
    then show ?thesis using assms(4,5) by simp
  next
    case False
    then show ?thesis by (intro keeps_other [OF assms(1) assms(2)]) (simp_all add: assms(3))
  qed
qed

text \<open>A change that leaves a cell with its operation, its descriptor and its caller.\<close>

definition kin :: "ledger \<Rightarrow> ledger \<Rightarrow> cell_ref \<Rightarrow> bool" where
  "kin l l' c \<longleftrightarrow> (\<forall>cell. lg_cells l c = Some cell \<longrightarrow>
       (\<exists>cell'. lg_cells l' c = Some cell' \<and> tc_opCode cell' = tc_opCode cell \<and> tc_fd cell' = tc_fd cell)) \<and>
     (\<forall>g call. (\<exists>ph. lg_calls l' g = Some (ph, call, c)) \<longleftrightarrow> (\<exists>ph. lg_calls l g = Some (ph, call, c)))"

lemma kin_cell: "kin l l' c \<Longrightarrow> lg_cells l c = Some cell \<Longrightarrow>
    \<exists>cell'. lg_cells l' c = Some cell' \<and> tc_opCode cell' = tc_opCode cell \<and> tc_fd cell' = tc_fd cell"
  by (simp add: kin_def)

lemma kin_calls: "kin l l' c \<Longrightarrow> lg_calls l' g = Some (ph, call, c) \<Longrightarrow> \<exists>ph. lg_calls l g = Some (ph, call, c)"
  "kin l l' c \<Longrightarrow> lg_calls l g = Some (ph, call, c) \<Longrightarrow> \<exists>ph. lg_calls l' g = Some (ph, call, c)"
  unfolding kin_def by blast+

lemma kin_task: "kin l l' (rt_Ctx t) \<Longrightarrow> task_ok l t \<Longrightarrow> task_ok l' t"
  using kin_cell [of l l' "rt_Ctx t"] kin_calls(1) [of l l' "rt_Ctx t"] by (fastforce simp: task_ok_def)

lemma kin_entry:
  assumes "kin l l' (slot_cell l (sqe_UserData e))" and "entry_ok env l e"
    and "lg_live l' (sqe_UserData e) = lg_live l (sqe_UserData e)"
  shows "entry_ok env l' e"
proof -
  obtain c cell where c: "lg_live l (sqe_UserData e) = Some c" "lg_cells l c = Some cell"
    "tc_opCode cell = opcodeTypeSend \<longrightarrow> sqe_Opcode e = OpSend \<and> sqe_FD e = ucast (tc_fd cell)"
    "\<forall>g ph call. lg_calls l g = Some (ph, call, c) \<longrightarrow> asks env e call"
    using assms(2) by (auto simp: entry_ok_def)
  have k: "kin l l' c" using assms(1) c(1) by (simp add: slot_cell_def)
  show ?thesis using kin_cell [OF k c(2)] kin_calls(1) [OF k] c assms(3) by (fastforce simp: entry_ok_def)
qed

lemma kin_owned:
  assumes k: "kin l l' c" and o: "owned l c" and "lg_next l \<le> lg_next l'" and "c \<notin> set (lg_pool l')" and "lg_fds l' = lg_fds l"
  shows "owned l' c"
proof -
  obtain cell where cell: "lg_cells l c = Some cell" "c < lg_next l"
    "tc_opCode cell = opcodeTypeSend \<Longrightarrow> unat (tc_fd cell) < lg_fds l"
    "tc_opCode cell \<noteq> opcodeTypeSend \<Longrightarrow> \<exists>g ph call. lg_calls l g = Some (ph, call, c)"
    using o by (auto simp: owned_def split: if_splits)
  obtain cell' where cell': "lg_cells l' c = Some cell'" "tc_opCode cell' = tc_opCode cell" "tc_fd cell' = tc_fd cell"
    using kin_cell [OF k cell(1)] by blast
  have "tc_opCode cell \<noteq> opcodeTypeSend \<Longrightarrow> \<exists>g ph call. lg_calls l' g = Some (ph, call, c)"
    using cell(4) kin_calls(2) [OF k] by blast
  then show ?thesis using cell cell' assms(3-5) by (cases "tc_opCode cell = opcodeTypeSend") (auto simp: owned_def)
qed

lemma caller_frame:
  assumes "caller_ok l g ph call c" and "lg_cells l' c = lg_cells l c" and "c \<in># held l' \<longleftrightarrow> c \<in># held l"
    and "g \<in> set (lg_ready l') \<longleftrightarrow> g \<in> set (lg_ready l)" and "lg_next l \<le> lg_next l'" and "c \<notin> set (lg_pool l')"
  shows "caller_ok l' g ph call c"
  using assms by (auto simp: caller_ok_def phase_ok_def split: call_phase.splits)

text \<open>A cell nobody uses: not on its way, not in the pool, no caller's.\<close>

definition idle_cell :: "ledger \<Rightarrow> cell_ref \<Rightarrow> bool" where
  "idle_cell l c \<longleftrightarrow> c < lg_next l \<and> c \<notin> set (lg_pool l) \<and> c \<notin># held l \<and>
     (\<forall>g ph call. lg_calls l g \<noteq> Some (ph, call, c))"

definition drawn :: "ledger \<Rightarrow> cell_ref \<Rightarrow> cell_ref list \<Rightarrow> cell_ref \<Rightarrow> bool" where
  "drawn l c pool next_cell \<longleftrightarrow> lg_pool l = c # pool \<and> next_cell = lg_next l \<or>
     lg_pool l = [] \<and> pool = [] \<and> c = lg_next l \<and> next_cell = c + 1"

lemma tracked_task_held: "t \<in># lg_tasks l \<Longrightarrow> rt_Ctx t \<in># held l"
  by (simp add: ledger_cells)

lemma tracked_entry_held: "e \<in># lg_entries l \<Longrightarrow> slot_cell l (sqe_UserData e) \<in># held l"
  by (simp add: ledger_cells)

lemma tracked_cqe_held: "q \<in># lg_cqes l \<Longrightarrow> slot_cell l (cqe_UserData q) \<in># held l"
  by (simp add: ledger_cells)

lemma drawn_idle:
  assumes "tracked env l" "drawn l c pool next_cell"
  shows "c \<notin># held l" "lg_calls l g \<noteq> Some (ph, call, c)"
proof -
  have "\<not> owned l c" using assms(2) by (auto simp: drawn_def owned_def)
  then show "c \<notin># held l" using trackedD(2) [OF assms(1)] by blast
  show "lg_calls l g \<noteq> Some (ph, call, c)"
    using trackedD(6) [OF assms(1), of g ph call c] assms(2) by (auto simp: drawn_def caller_ok_def)
qed

text \<open>Taking and overwriting a cell.\<close>

lemma ledger_draw:
  fixes cell :: taskCell
  assumes l: "tracked env l" and d: "drawn l c pool next_cell"
  defines "l' \<equiv> l\<lparr>lg_cells := (lg_cells l)(c \<mapsto> cell), lg_pool := pool, lg_next := next_cell\<rparr>"
  shows "tracked env l'" "idle_cell l' c" "keeps l a \<Longrightarrow> keeps l' a"
proof -
  note idle = drawn_idle [OF l d]
  have same: "held l' = held l" "waiting l' = waiting l" by (simp_all add: ledger_cells l'_def)
  have pool: "set pool \<subseteq> set (lg_pool l)" "c \<notin> set pool" "distinct pool" "lg_next l \<le> next_cell" "c < next_cell"
    using d trackedD(7) [OF l] trackedD(8) [OF l, of c] by (auto simp: drawn_def)
  have kin: "kin l l' x" if "x \<noteq> c" for x using that by (simp add: kin_def l'_def)
  have held: "x \<in># held l \<Longrightarrow> x \<noteq> c" for x using idle(1) by auto
  show "tracked env l'"
  proof (rule trackedI)
    show "task_ok l' t" if "t \<in># lg_tasks l'" for t
      using trackedD(3) [OF l, of t] kin_task [OF kin] held tracked_task_held [of t l] that by (simp add: l'_def)
    show "entry_ok env l' e" if "e \<in># lg_entries l'" for e
      using trackedD(4) [OF l, of e] kin_entry [OF kin] held tracked_entry_held [of e l] that by (simp add: l'_def)
    show "caller_ok l' g ph call x" if "lg_calls l' g = Some (ph, call, x)" for g ph call x
    proof -
      have x: "lg_calls l g = Some (ph, call, x)" using that by (simp add: l'_def)
      then have "x \<noteq> c" using idle(2) by auto
      then show ?thesis using trackedD(6) [OF l x] pool same(1)
        by (auto simp: caller_ok_def phase_ok_def l'_def split: call_phase.splits)
    qed
    show "x < lg_next l'" if "x \<in> set (lg_pool l')" for x
      using trackedD(8) [OF l, of x] that pool by (auto simp: l'_def)
    show "count (held l') x \<le> 1" for x using trackedD(1) [OF l, of x] same by simp
    show "owned l' x" if "x \<in># held l'" for x
    proof -
      have x: "owned l x" "x \<noteq> c" using trackedD(2) [OF l, of x] that same held by simp_all
      then have "x \<notin> set (lg_pool l')" using pool by (auto simp: owned_def l'_def)
      then show ?thesis using kin_owned [OF kin] x pool by (simp add: l'_def)
    qed
    show "lg_live l' (cqe_UserData q) \<noteq> None" if "q \<in># lg_cqes l'" for q
      using trackedD(5) [OF l, of q] that by (simp add: l'_def)
    show "\<exists>call x. lg_calls l' g = Some (Call_asleep, call, x)" if "g \<in> set (lg_ready l')" for g
      using trackedD(10) [OF l, of g] that by (simp add: l'_def)
  qed (simp_all add: l'_def pool trackedD(9) [OF l])
  show "idle_cell l' c" using idle pool same by (auto simp: idle_cell_def l'_def)
  assume k: "keeps l a"
  have "answer_is l' x ans" if "answer_is l x ans" "lg_calls l g = Some (ph, call, x)" for g ph call x ans
  proof -
    have "x \<noteq> c" using that(2) idle(2) by auto
    then show ?thesis using that(1) same
      by (auto simp: answer_is_def slot_cell_def l'_def split: option.splits)
  qed
  then show "keeps l' a" by (intro keeps_frame [OF k]) (simp_all add: l'_def)
qed

text \<open>Handing in a task for an idle cell: of a call that begins, or of a send.\<close>

lemma ledger_hand_in:
  assumes l: "tracked env l" and idle: "idle_cell l (rt_Ctx t)" and t: "queues t"
    and cell: "lg_cells l (rt_Ctx t) = Some cell" "rt_Opcode t = tc_opCode cell"
    and own: "tc_opCode cell = opcodeTypeSend \<Longrightarrow> unat (tc_fd cell) < lg_fds l \<and> calls = lg_calls l"
      "tc_opCode cell \<noteq> opcodeTypeSend \<Longrightarrow> t = call_task call (rt_Ctx t) \<and> lg_calls l g = None \<and>
        calls = (lg_calls l)(g \<mapsto> (Call_sent, call, rt_Ctx t)) \<and> cell = armed_cell g (call_opcode call) (call_fd call)"
  defines "l' \<equiv> l\<lparr>lg_tasks := add_mset t (lg_tasks l), lg_calls := calls\<rparr>"
  shows "tracked env l'"
proof (rule trackedI)
  let ?c = "rt_Ctx t"
  have c: "?c < lg_next l" "?c \<notin> set (lg_pool l)" "?c \<notin># held l" "lg_calls l h \<noteq> Some (ph, call2, ?c)" for h ph call2
    using idle by (auto simp: idle_cell_def)
  have held: "held l' = add_mset ?c (held l)" by (simp add: ledger_cells l'_def)
  have new: "lg_calls l' h = Some (ph, call2, x) \<Longrightarrow> x = ?c \<Longrightarrow> t = call_task call2 ?c" for h ph call2 x
    using own c(4) by (cases "tc_opCode cell = opcodeTypeSend") (auto simp: l'_def split: if_splits)
  have old: "lg_calls l' h = Some (ph, call2, x) \<Longrightarrow> x \<noteq> ?c \<Longrightarrow> lg_calls l h = Some (ph, call2, x)" for h ph call2 x
    using own by (cases "tc_opCode cell = opcodeTypeSend") (auto simp: l'_def split: if_splits)
  have grow: "lg_calls l h = Some p \<Longrightarrow> lg_calls l' h = Some p" for h p
    using own by (cases "tc_opCode cell = opcodeTypeSend") (auto simp: l'_def)
  have kin: "kin l l' x" if "x \<noteq> ?c" for x
  proof -
    have "lg_cells l' = lg_cells l" by (simp add: l'_def)
    moreover have "(\<exists>ph. lg_calls l' h = Some (ph, call2, x)) \<longleftrightarrow> (\<exists>ph. lg_calls l h = Some (ph, call2, x))" for h call2
      using old [OF _ that] grow by blast
    ultimately show ?thesis by (simp add: kin_def)
  qed
  show "count (held l') x \<le> 1" for x using trackedD(1) [OF l, of x] c(3) by (auto simp: held not_in_iff)
  show "owned l' x" if "x \<in># held l'" for x
  proof (cases "x = ?c")
    case True
    then show ?thesis using cell c own by (cases "tc_opCode cell = opcodeTypeSend") (auto simp: owned_def l'_def)
  next
    case False
    then have x: "owned l x" using trackedD(2) [OF l, of x] that held by simp
    then show ?thesis using kin_owned [OF kin [OF False] x] by (simp add: l'_def owned_def)
  qed
  show "task_ok l' u" if "u \<in># lg_tasks l'" for u
  proof (cases "u = t")
    case True
    then show ?thesis using t cell new by (auto simp: task_ok_def l'_def)
  next
    case False
    then have u: "u \<in># lg_tasks l" using that by (simp add: l'_def)
    then have "rt_Ctx u \<noteq> ?c" using tracked_task_held [OF u] c(3) by auto
    then show ?thesis using kin_task [OF kin] trackedD(3) [OF l u] by simp
  qed
  show "entry_ok env l' e" if "e \<in># lg_entries l'" for e
  proof -
    have e: "e \<in># lg_entries l" using that by (simp add: l'_def)
    then have "slot_cell l (sqe_UserData e) \<noteq> ?c" using tracked_entry_held [OF e] c(3) by auto
    then show ?thesis using kin_entry [OF kin] trackedD(4) [OF l e] by (simp add: l'_def)
  qed
  show "caller_ok l' h ph call2 x" if "lg_calls l' h = Some (ph, call2, x)" for h ph call2 x
  proof (cases "x = ?c")
    case True
    then have h: "h = g" "ph = Call_sent" "call2 = call" "cell = armed_cell g (call_opcode call) (call_fd call)" "lg_calls l g = None"
      using that own c(4) by (cases "tc_opCode cell = opcodeTypeSend"; auto simp: l'_def split: if_splits)+
    then have "g \<notin> set (lg_ready l)" using trackedD(10) [OF l, of g] by auto
    then show ?thesis using True c h cell held
      by (simp add: caller_ok_def phase_ok_def) (simp add: l'_def armed_cell_def)
  next
    case False
    then show ?thesis using trackedD(6) [OF l old [OF that False]] held
      by (auto simp: caller_ok_def phase_ok_def split: call_phase.splits) (auto simp: l'_def)
  qed
  show "lg_live l' (cqe_UserData q) \<noteq> None" if "q \<in># lg_cqes l'" for q
    using trackedD(5) [OF l, of q] that by (simp add: l'_def)
  show "\<exists>call x. lg_calls l' h = Some (Call_asleep, call, x)" if "h \<in> set (lg_ready l')" for h
    using trackedD(10) [OF l, of h] that grow by (fastforce simp: l'_def)
qed (use trackedD(7-9) [OF l] in \<open>simp_all add: l'_def\<close>)

lemma keeps_hand_in:
  assumes idle: "idle_cell l (rt_Ctx t)" and k: "keeps l a"
  shows "keeps (l\<lparr>lg_tasks := add_mset t (lg_tasks l), lg_calls := lg_calls l\<rparr>) a"
    and "lg_calls l g = None \<Longrightarrow>
      keeps (l\<lparr>lg_tasks := add_mset t (lg_tasks l), lg_calls := (lg_calls l)(g \<mapsto> (ph, call, rt_Ctx t))\<rparr>) (a(g \<mapsto> (call, None)))"
proof -
  have ans: "answer_is (l\<lparr>lg_tasks := add_mset t (lg_tasks l), lg_calls := calls\<rparr>) c ans"
    if "lg_calls l h = Some (ph2, call2, c)" "answer_is l c ans" for calls h ph2 call2 c ans
  proof -
    have "c \<noteq> rt_Ctx t" using that(1) idle by (auto simp: idle_cell_def)
    then show ?thesis using that(2) by (auto simp: answer_is_def ledger_cells split: option.splits)
  qed
  show "keeps (l\<lparr>lg_tasks := add_mset t (lg_tasks l), lg_calls := lg_calls l\<rparr>) a"
  proof (rule keeps_frame [OF k])
    show "answer_is (l\<lparr>lg_tasks := add_mset t (lg_tasks l), lg_calls := lg_calls l\<rparr>) c ans"
      if "lg_calls l h = Some (ph2, call2, c)" "answer_is l c ans" for h ph2 call2 c ans
      by (rule ans [OF that])
  qed simp
  assume none: "lg_calls l g = None"
  let ?l = "l\<lparr>lg_tasks := add_mset t (lg_tasks l), lg_calls := (lg_calls l)(g \<mapsto> (ph, call, rt_Ctx t))\<rparr>"
  show "keeps ?l (a(g \<mapsto> (call, None)))"
  proof (rule keeps_caller [OF k, where c = "rt_Ctx t"])
    show "answer_is ?l c ans" if "h \<noteq> g" "lg_calls l h = Some (ph2, call2, c)" "answer_is l c ans" for h ph2 call2 c ans
      by (rule ans [OF that(2,3)])
  qed (simp_all add: answer_is_def ledger_cells)
qed

lemma request_send: "request env t fd idx = Some e \<Longrightarrow> rt_Opcode t = opcodeTypeSend \<Longrightarrow>
    sqe_Opcode e = OpSend \<and> sqe_FD e = ucast fd \<and> sqe_Addr e = rt_Payload t \<and> sqe_Len e = rt_Len t"
  by (auto simp: request_def Let_def)

text \<open>Dispatching: the task becomes an entry under a fresh index, for the same cell.\<close>

lemma ledger_dispatch:
  fixes ctx :: cell_ref
  assumes l: "tracked env l" and t: "lg_tasks l = add_mset t ts" and fresh: "lg_live l (sqe_UserData e) = None"
    and cell: "lg_cells l (rt_Ctx t) = Some cell" and req: "request env t (tc_fd cell) (sqe_UserData e) = Some e"
  defines "l' \<equiv> l\<lparr>lg_tasks := ts, lg_entries := add_mset e (lg_entries l), lg_live := (lg_live l)(sqe_UserData e \<mapsto> rt_Ctx t)\<rparr>"
  shows "tracked env l'" "keeps l a \<Longrightarrow> keeps l' a"
proof -
  have tk: "t \<in># lg_tasks l" using t by simp
  have ent: "sqe_UserData e2 \<noteq> sqe_UserData e" if "e2 \<in># lg_entries l" for e2
    using trackedD(4) [OF l that] fresh by (auto simp: entry_ok_def)
  have cqe: "cqe_UserData q \<noteq> sqe_UserData e" if "q \<in># lg_cqes l" for q
    using trackedD(5) [OF l that] fresh by auto
  have "image_mset (\<lambda>e. slot_cell l' (sqe_UserData e)) (lg_entries l) = image_mset (\<lambda>e. slot_cell l (sqe_UserData e)) (lg_entries l)"
    by (rule image_mset_cong) (simp add: slot_cell_def l'_def ent)
  moreover have arr: "arrived l' = arrived l"
  proof -
    have "arrived l' = image_mset (\<lambda>q. slot_cell l' (cqe_UserData q)) (lg_cqes l)" by (simp add: arrived_def l'_def)
    also have "\<dots> = arrived l"
      unfolding arrived_def by (rule image_mset_cong) (simp add: slot_cell_def l'_def cqe)
    finally show ?thesis .
  qed
  ultimately have same: "waiting l' = waiting l" "held l' = held l"
    by (simp_all add: held_def) (simp_all add: waiting_def t l'_def slot_cell_def)
  have kin: "kin l l' x" for x by (simp add: kin_def l'_def)
  show "tracked env l'"
  proof (rule trackedI)
    show "count (held l') x \<le> 1" for x using trackedD(1) [OF l, of x] same by simp
    show "owned l' x" if "x \<in># held l'" for x
      using trackedD(2) [OF l, of x] that same kin_owned [OF kin, of x] by (simp add: l'_def owned_def)
    show "task_ok l' u" if "u \<in># lg_tasks l'" for u
      using trackedD(3) [OF l, of u] that kin_task [OF kin] by (simp add: l'_def t)
    show "entry_ok env l' e2" if "e2 \<in># lg_entries l'" for e2
    proof (cases "e2 = e")
      case True
      have ok: "rt_Opcode t = tc_opCode cell"
        "lg_calls l g = Some (ph, call, rt_Ctx t) \<Longrightarrow> t = call_task call (rt_Ctx t)" for g ph call
        using trackedD(3) [OF l tk] cell by (auto simp: task_ok_def)
      have "asks env e call" if "lg_calls l g = Some (ph, call, rt_Ctx t)" for g ph call
      proof -
        have "tc_fd cell = call_fd call" using trackedD(6) [OF l that] cell by (simp add: caller_ok_def)
        moreover have "call_task call (rt_Ctx t) = t" using ok(2) [OF that] by simp
        ultimately show ?thesis using req unfolding asks_def by (intro exI [of _ "rt_Ctx t"]) simp
      qed
      moreover have "tc_opCode cell = opcodeTypeSend \<Longrightarrow> sqe_Opcode e = OpSend \<and> sqe_FD e = ucast (tc_fd cell)"
        using request_send [OF req] ok(1) by simp
      ultimately show ?thesis using True cell by (auto simp: entry_ok_def l'_def)
    next
      case False
      then have "e2 \<in># lg_entries l" using that by (simp add: l'_def)
      then show ?thesis using kin_entry [OF kin] trackedD(4) [OF l] ent by (simp add: l'_def)
    qed
    show "lg_live l' (cqe_UserData q) \<noteq> None" if "q \<in># lg_cqes l'" for q
      using trackedD(5) [OF l, of q] that by (simp add: l'_def)
    show "caller_ok l' g ph call c" if "lg_calls l' g = Some (ph, call, c)" for g ph call c
    proof -
      have g: "caller_ok l g ph call c" using trackedD(6) [OF l, of g ph call c] that by (simp add: l'_def)
      then show ?thesis by (rule caller_frame) (use g same in \<open>simp_all add: l'_def caller_ok_def\<close>)
    qed
    show "\<exists>call c. lg_calls l' g = Some (Call_asleep, call, c)" if "g \<in> set (lg_ready l')" for g
      using trackedD(10) [OF l, of g] that by (simp add: l'_def)
  qed (use trackedD(7-9) [OF l] in \<open>simp_all add: l'_def\<close>)
  have slots: "slot_cell l' (cqe_UserData q) = slot_cell l (cqe_UserData q)" if "q \<in># lg_cqes l" for q
    using cqe [OF that] by (simp add: slot_cell_def l'_def)
  assume k: "keeps l a"
  show "keeps l' a"
  proof (rule keeps_frame [OF k])
    fix g ph call c ans
    assume "answer_is l c ans"
    then show "answer_is l' c ans"
      using same slots by (auto simp: answer_is_def split: option.splits) (auto simp: l'_def)
  qed (simp add: l'_def)
qed

text \<open>The kernel's answer: the entry becomes a completion with its index.\<close>

lemma ledger_post:
  assumes l: "tracked env l" and e: "lg_entries l = add_mset e es" and q: "cqe_UserData q = sqe_UserData e"
  defines "l' \<equiv> l\<lparr>lg_entries := es, lg_cqes := add_mset q (lg_cqes l)\<rparr>"
  shows "tracked env l'"
    and "keeps l a \<Longrightarrow> \<exists>a'. spec_step env a (Answered e (cqe_Res q) (cqe_Flags q)) a' \<and> keeps l' a'"
proof -
  let ?c = "slot_cell l (sqe_UserData e)"
  have em: "e \<in># lg_entries l" using e by simp
  have held: "held l' = held l" "waiting l = add_mset ?c (waiting l')" "arrived l' = add_mset ?c (arrived l)"
    by (simp_all add: ledger_cells l'_def e q)
  have kin: "kin l l' x" for x by (simp add: kin_def l'_def)
  show "tracked env l'"
  proof (rule trackedI)
    show "count (held l') x \<le> 1" for x using trackedD(1) [OF l, of x] held by simp
    show "owned l' x" if "x \<in># held l'" for x
      using trackedD(2) [OF l, of x] that held kin_owned [OF kin, of x] by (simp add: l'_def owned_def)
    show "task_ok l' u" if "u \<in># lg_tasks l'" for u
      using trackedD(3) [OF l, of u] that kin_task [OF kin] by (simp add: l'_def)
    show "entry_ok env l' e2" if "e2 \<in># lg_entries l'" for e2
      using kin_entry [OF kin] trackedD(4) [OF l, of e2] that by (simp add: l'_def e)
    show "lg_live l' (cqe_UserData p) \<noteq> None" if "p \<in># lg_cqes l'" for p
      using trackedD(5) [OF l, of p] trackedD(4) [OF l em] that q by (auto simp: l'_def entry_ok_def)
    show "caller_ok l' g ph call c" if "lg_calls l' g = Some (ph, call, c)" for g ph call c
    proof -
      have g: "caller_ok l g ph call c" using trackedD(6) [OF l, of g ph call c] that by (simp add: l'_def)
      then show ?thesis by (rule caller_frame) (use g held in \<open>simp_all add: l'_def caller_ok_def\<close>)
    qed
    show "\<exists>call c. lg_calls l' g = Some (Call_asleep, call, c)" if "g \<in> set (lg_ready l')" for g
      using trackedD(10) [OF l, of g] that by (simp add: l'_def)
  qed (use trackedD(7-9) [OF l] in \<open>simp_all add: l'_def\<close>)
  have ans: "answer_is l' c ans" if "answer_is l c ans" "c \<noteq> ?c" for c ans
    using that held by (auto simp: answer_is_def slot_cell_def l'_def split: option.splits)
  assume k: "keeps l a"
  obtain cell where cell: "lg_live l (sqe_UserData e) = Some ?c" "lg_cells l ?c = Some cell"
      "tc_opCode cell = opcodeTypeSend \<Longrightarrow> sqe_Opcode e = OpSend"
      "\<And>g ph call. lg_calls l g = Some (ph, call, ?c) \<Longrightarrow> asks env e call"
    using trackedD(4) [OF l em] by (auto simp: entry_ok_def slot_cell_def)
  show "\<exists>a'. spec_step env a (Answered e (cqe_Res q) (cqe_Flags q)) a' \<and> keeps l' a'"
  proof (cases "\<exists>g ph call. lg_calls l g = Some (ph, call, ?c)")
    case False
    have o: "owned l ?c" using trackedD(2) [OF l tracked_entry_held [OF em]] .
    have "tc_opCode cell = opcodeTypeSend"
    proof (rule ccontr)
      assume "tc_opCode cell \<noteq> opcodeTypeSend"
      then show False using o cell(2) False by (auto simp: owned_def)
    qed
    then have "spec_step env a (Answered e (cqe_Res q) (cqe_Flags q)) a" by (intro spec_send cell(3))
    moreover have "keeps l' a"
    proof (rule keeps_frame [OF k])
      show "answer_is l' c an" if "lg_calls l g = Some (ph, call, c)" "answer_is l c an" for g ph call c an
      proof (rule ans [OF that(2)])
        show "c \<noteq> ?c" using that(1) False by blast
      qed
    qed (simp add: l'_def)
    ultimately show ?thesis by blast
  next
    case True
    then obtain g ph call where g: "lg_calls l g = Some (ph, call, ?c)" by blast
    have only: "h = g" if "lg_calls l h = Some (ph2, call2, ?c)" for h ph2 call2
      using trackedD(6) [OF l that] trackedD(6) [OF l g] by (auto simp: caller_ok_def)
    obtain an where an: "a g = Some (call, an)" "answer_is l ?c an" using keepsD [OF k g] by blast
    have "count (held l) ?c \<le> 1" by (rule trackedD(1) [OF l])
    then have "?c \<notin># arrived l" "?c \<in># held l" using held by (auto simp: held_def not_in_iff)
    then have "an = None" using an(2) by (force simp: answer_is_def arrived_def split: option.splits)
    then have "spec_step env a (Answered e (cqe_Res q) (cqe_Flags q)) (a(g \<mapsto> (call, Some (cqe_Res q, cqe_Flags q))))"
      using an(1) cell(4) [OF g] by (intro spec_answer) auto
    moreover have "keeps l' (a(g \<mapsto> (call, Some (cqe_Res q, cqe_Flags q))))"
    proof (rule keeps_caller [OF k, where c = ?c])
      show "answer_is l' c an" if "h \<noteq> g" "lg_calls l h = Some (ph2, call2, c)" "answer_is l c an" for h ph2 call2 c an
      proof (rule ans [OF that(3)])
        show "c \<noteq> ?c" using that(1,2) only by blast
      qed
    qed (use g q in \<open>simp_all add: answer_is_def l'_def slot_cell_def\<close>)
    ultimately show ?thesis by blast
  qed
qed

lemma caller_unique:
  assumes l: "tracked env l" and "lg_calls l g = Some (ph, call, c)" "lg_calls l h = Some (ph2, call2, c)"
  shows "h = g"
  using trackedD(6) [OF l assms(2)] trackedD(6) [OF l assms(3)] by (auto simp: caller_ok_def)

text \<open>The poller reads a completion of a parking call: the answer goes into the cell, and a sleeping caller is readied.\<close>

lemma ledger_read:
  assumes l: "tracked env l" and q: "lg_cqes l = add_mset q qs" and c: "lg_live l (cqe_UserData q) = Some c"
    and cell: "lg_cells l c = Some cell" "tc_opCode cell \<noteq> opcodeTypeSend"
  defines "l' \<equiv> l\<lparr>lg_cqes := qs, lg_cells := (lg_cells l)(c \<mapsto> delivered q cell), lg_ready := lg_ready l @ woken cell\<rparr>"
  shows "tracked env l'" "keeps l a \<Longrightarrow> keeps l' a"
proof -
  have qm: "q \<in># lg_cqes l" and sc: "slot_cell l (cqe_UserData q) = c" using q c by (simp_all add: slot_cell_def)
  have held: "held l = add_mset c (held l')" "waiting l' = waiting l"
    using sc by (simp_all add: ledger_cells q l'_def)
  have once: "c \<notin># held l'" using trackedD(1) [OF l, of c] held by (simp add: not_in_iff)
  have in_held: "c \<in># held l" using held by simp
  obtain g ph call where g: "lg_calls l g = Some (ph, call, c)"
    using trackedD(2) [OF l in_held] cell by (auto simp: owned_def)
  have co: "c < lg_next l" "c \<notin> set (lg_pool l)" "tc_g cell = g" "tc_opCode cell = call_opcode call" "tc_fd cell = call_fd call"
      "tc_err cell = None" "phase_ok l g ph c (tc_taskState cell)"
    using trackedD(6) [OF l g] cell by (auto simp: caller_ok_def)
  have ph: "ph = Call_sent \<and> tc_taskState cell = taskStateInCore \<and> g \<notin> set (lg_ready l) \<or>
      ph = Call_asleep \<and> tc_taskState cell = taskStateParked \<and> g \<notin> set (lg_ready l)"
    using co(7) in_held by (cases ph) (auto simp: phase_ok_def)
  have woken: "woken cell = (if ph = Call_sent then [] else [g])"
    "tc_taskState (delivered q cell) = (if ph = Call_sent then taskStateDone else taskStateParked)"
    using ph co(3) by (auto simp: woken_def delivered_def waker_cas_def task_states)
  have kin: "kin l l' x" for x using cell by (simp add: kin_def l'_def delivered_def)
  have cqe: "lg_cqes l = add_mset q (lg_cqes l')" using q by (simp add: l'_def)
  show "tracked env l'"
  proof (rule trackedI)
    show "count (held l') x \<le> 1" for x using trackedD(1) [OF l, of x] held by (simp split: if_splits)
    show "owned l' x" if "x \<in># held l'" for x
      using trackedD(2) [OF l, of x] that held kin_owned [OF kin, of x] by (simp add: l'_def owned_def)
    show "task_ok l' u" if "u \<in># lg_tasks l'" for u
      using trackedD(3) [OF l, of u] that kin_task [OF kin] by (simp add: l'_def)
    show "entry_ok env l' e" if "e \<in># lg_entries l'" for e
      using trackedD(4) [OF l, of e] that kin_entry [OF kin] by (simp add: l'_def)
    show "lg_live l' (cqe_UserData p) \<noteq> None" if "p \<in># lg_cqes l'" for p
      using trackedD(5) [OF l, of p] that cqe by (simp add: l'_def)
    show "caller_ok l' h ph2 call2 x" if "lg_calls l' h = Some (ph2, call2, x)" for h ph2 call2 x
    proof -
      have h: "lg_calls l h = Some (ph2, call2, x)" using that by (simp add: l'_def)
      show ?thesis
      proof (cases "h = g")
        case True
        then show ?thesis using h g co ph once woken
          by (auto simp: caller_ok_def phase_ok_def) (simp_all add: l'_def delivered_def)
      next
        case False
        then have "x \<noteq> c" using caller_unique [OF l g] h by blast
        then show ?thesis using trackedD(6) [OF l h] False held woken
          by (intro caller_frame [OF trackedD(6) [OF l h]]) (auto simp: l'_def caller_ok_def)
      qed
    qed
    show "distinct (lg_ready l')" using trackedD(9) [OF l] ph woken by (auto simp: l'_def)
    show "\<exists>call x. lg_calls l' h = Some (Call_asleep, call, x)" if "h \<in> set (lg_ready l')" for h
      using trackedD(10) [OF l, of h] that g woken ph by (auto simp: l'_def split: if_splits)
  qed (use trackedD(7,8) [OF l] in \<open>simp_all add: l'_def\<close>)
  assume k: "keeps l a"
  show "keeps l' a"
  proof (rule keeps_frame [OF k])
    fix h ph2 call2 x ans
    assume h: "lg_calls l h = Some (ph2, call2, x)" and ans: "answer_is l x ans"
    show "answer_is l' x ans"
    proof (cases "x = c")
      case False
      then show ?thesis using ans held cqe sc
        by (auto simp: answer_is_def slot_cell_def split: option.splits) (auto simp: l'_def)
    next
      case True
      have "c \<in># arrived l" using qm sc by (auto simp: arrived_def)
      then have "c \<notin># waiting l" "c \<notin># arrived l'"
        using trackedD(1) [OF l, of c] once held by (auto simp: held_def not_in_iff)
      then have "ans = Some (cqe_Res q, cqe_Flags q)"
        using ans True in_held cqe by (auto simp: answer_is_def arrived_def slot_cell_def l'_def split: option.splits)
      then show ?thesis using True once by (simp add: answer_is_def) (simp add: l'_def delivered_def)
    qed
  qed (simp add: l'_def)
qed

text \<open>The poller reads a completion of a send: the cell goes back to the pool and the slot is free again.\<close>

lemma ledger_read_send:
  fixes res :: i32 and flags :: u32
  assumes l: "tracked env l" and q: "lg_cqes l = add_mset q qs" and c: "lg_live l (cqe_UserData q) = Some c"
    and cell: "lg_cells l c = Some cell" "tc_opCode cell = opcodeTypeSend"
  defines "l' \<equiv> l\<lparr>lg_cqes := qs, lg_live := (lg_live l)(cqe_UserData q := None),
    lg_cells := (lg_cells l)(c \<mapsto> cell\<lparr>tc_res := res, tc_flags := flags\<rparr>), lg_pool := c # lg_pool l\<rparr>"
  shows "tracked env l'" "keeps l a \<Longrightarrow> keeps l' a"
proof -
  have qm: "q \<in># lg_cqes l" and sc: "slot_cell l (cqe_UserData q) = c" using q c by (simp_all add: slot_cell_def)
  have in_held: "c \<in># held l" using tracked_cqe_held [OF qm] sc by simp
  have c1: "count (held l) c = 1" using trackedD(1) [OF l, of c] in_held count_greater_zero_iff [of "held l" c] by linarith
  have rest: "held l = add_mset c (waiting l + image_mset (\<lambda>p. slot_cell l (cqe_UserData p)) qs)"
    using sc by (simp add: held_def arrived_def q)
  then have out: "c \<notin># waiting l" "p \<in># qs \<Longrightarrow> slot_cell l (cqe_UserData p) \<noteq> c" for p
    using c1 by (auto simp: not_in_iff [symmetric])
  have ent: "sqe_UserData e \<noteq> cqe_UserData q" if "e \<in># lg_entries l" for e
    using that out(1) sc by (force simp: waiting_def)
  have cqe: "cqe_UserData p \<noteq> cqe_UserData q" if "p \<in># qs" for p
    using out(2) [OF that] sc by auto
  have "image_mset (\<lambda>e. slot_cell l' (sqe_UserData e)) (lg_entries l) = image_mset (\<lambda>e. slot_cell l (sqe_UserData e)) (lg_entries l)"
    by (rule image_mset_cong) (simp add: slot_cell_def l'_def ent)
  then have wait: "waiting l' = waiting l" by (simp add: waiting_def) (simp add: l'_def)
  have "image_mset (\<lambda>p. slot_cell l' (cqe_UserData p)) qs = image_mset (\<lambda>p. slot_cell l (cqe_UserData p)) qs"
    by (rule image_mset_cong) (simp add: slot_cell_def l'_def cqe)
  then have "arrived l' = image_mset (\<lambda>p. slot_cell l (cqe_UserData p)) qs" by (simp add: arrived_def) (simp add: l'_def)
  then have held: "held l = add_mset c (held l')" using rest wait by (simp add: held_def)
  have no: "lg_calls l g \<noteq> Some (ph, call, c)" for g ph call
    using trackedD(6) [OF l, of g ph call c] cell call_opcode_parks(1) [of call] by (auto simp: caller_ok_def)
  have own: "c < lg_next l" "c \<notin> set (lg_pool l)" using trackedD(2) [OF l in_held] by (simp_all add: owned_def)
  have once: "c \<notin># held l'" using c1 held by (simp add: not_in_iff)
  have kin: "kin l l' x" for x using cell by (simp add: kin_def l'_def)
  show "tracked env l'"
  proof (rule trackedI)
    show "count (held l') x \<le> 1" for x using trackedD(1) [OF l, of x] held by (simp split: if_splits)
    show "owned l' x" if "x \<in># held l'" for x
    proof -
      have "owned l x" "x \<noteq> c" using trackedD(2) [OF l, of x] that held once by auto
      then show ?thesis using kin_owned [OF kin, of x] by (simp add: l'_def owned_def)
    qed
    show "task_ok l' u" if "u \<in># lg_tasks l'" for u
      using trackedD(3) [OF l, of u] that kin_task [OF kin] by (simp add: l'_def)
    show "entry_ok env l' e" if "e \<in># lg_entries l'" for e
      using trackedD(4) [OF l, of e] that kin_entry [OF kin] ent by (simp add: l'_def)
    show "lg_live l' (cqe_UserData p) \<noteq> None" if "p \<in># lg_cqes l'" for p
      using trackedD(5) [OF l, of p] that cqe by (simp add: l'_def q)
    show "caller_ok l' g ph call x" if "lg_calls l' g = Some (ph, call, x)" for g ph call x
    proof -
      have g: "lg_calls l g = Some (ph, call, x)" using that by (simp add: l'_def)
      then have "x \<noteq> c" using no by auto
      then show ?thesis using trackedD(6) [OF l g] held
        by (intro caller_frame [OF trackedD(6) [OF l g]]) (auto simp: l'_def caller_ok_def)
    qed
    show "x < lg_next l'" if "x \<in> set (lg_pool l')" for x
      using trackedD(8) [OF l, of x] that own by (auto simp: l'_def)
    show "\<exists>call x. lg_calls l' g = Some (Call_asleep, call, x)" if "g \<in> set (lg_ready l')" for g
      using trackedD(10) [OF l, of g] that by (simp add: l'_def)
  qed (use trackedD(7,9) [OF l] own in \<open>simp_all add: l'_def\<close>)
  assume k: "keeps l a"
  show "keeps l' a"
  proof (rule keeps_frame [OF k])
    fix g ph call x ans
    assume g: "lg_calls l g = Some (ph, call, x)" and ans: "answer_is l x ans"
    have x: "x \<noteq> c" using g no by auto
    have slots: "slot_cell l' (cqe_UserData p) = slot_cell l (cqe_UserData p)" if "p \<in># qs" for p
      using cqe [OF that] by (simp add: slot_cell_def l'_def)
    have "lg_cqes l' = qs" "lg_cells l' x = lg_cells l x" using x by (simp_all add: l'_def)
    then show "answer_is l' x ans"
      using ans x held wait slots sc by (auto simp: answer_is_def q split: option.splits)
  qed (simp add: l'_def)
qed

text \<open>A caller parks, is resumed, or returns.\<close>

lemma ledger_park:
  assumes l: "tracked env l" and g: "lg_calls l g = Some (Call_sent, call, c)" and cell: "lg_cells l c = Some cell"
    and st: "netringParkUnlock (tc_taskState cell) = (st, sleeps)"
  defines "l' \<equiv> l\<lparr>lg_cells := (lg_cells l)(c \<mapsto> cell\<lparr>tc_taskState := st\<rparr>),
    lg_calls := (lg_calls l)(g \<mapsto> (if sleeps then Call_asleep else Call_resumed, call, c))\<rparr>"
  shows "tracked env l'" "keeps l a \<Longrightarrow> keeps l' a"
proof -
  have held: "held l' = held l" "waiting l' = waiting l" by (simp_all add: ledger_cells l'_def)
  have co: "c < lg_next l" "c \<notin> set (lg_pool l)" "tc_g cell = g" "tc_opCode cell = call_opcode call" "tc_fd cell = call_fd call"
      "tc_err cell = None" "tc_taskState cell = (if c \<in># held l then taskStateInCore else taskStateDone)" "g \<notin> set (lg_ready l)"
    using trackedD(6) [OF l g] cell by (auto simp: caller_ok_def phase_ok_def)
  have s: "st = taskStateParked" "sleeps \<longleftrightarrow> c \<in># held l"
    using st co(7) by (auto simp: netringParkUnlock_def task_states split: if_splits)
  have other: "x \<noteq> c" if "lg_calls l h = Some (ph2, call2, x)" "h \<noteq> g" for h ph2 call2 x
    using caller_unique [OF l g] that by blast
  have kin: "kin l l' x" for x
    using cell g other by (auto simp: kin_def l'_def)
  show "tracked env l'"
  proof (rule trackedI)
    show "count (held l') x \<le> 1" for x using trackedD(1) [OF l, of x] held by simp
    show "owned l' x" if "x \<in># held l'" for x
      using trackedD(2) [OF l, of x] that held kin_owned [OF kin, of x] by (simp add: l'_def owned_def)
    show "task_ok l' u" if "u \<in># lg_tasks l'" for u
      using trackedD(3) [OF l, of u] that kin_task [OF kin] by (simp add: l'_def)
    show "entry_ok env l' e" if "e \<in># lg_entries l'" for e
      using trackedD(4) [OF l, of e] that kin_entry [OF kin] by (simp add: l'_def)
    show "lg_live l' (cqe_UserData p) \<noteq> None" if "p \<in># lg_cqes l'" for p
      using trackedD(5) [OF l, of p] that by (simp add: l'_def)
    show "caller_ok l' h ph2 call2 x" if "lg_calls l' h = Some (ph2, call2, x)" for h ph2 call2 x
    proof (cases "h = g")
      case True
      then have "x = c" "ph2 = (if sleeps then Call_asleep else Call_resumed)" "call2 = call" using that by (auto simp: l'_def)
      then show ?thesis using True co s held by (simp add: caller_ok_def phase_ok_def) (simp add: l'_def)
    next
      case False
      then have h: "lg_calls l h = Some (ph2, call2, x)" using that by (simp add: l'_def)
      show ?thesis using other [OF h False] trackedD(6) [OF l h] held
        by (intro caller_frame [OF trackedD(6) [OF l h]]) (auto simp: l'_def caller_ok_def)
    qed
    show "\<exists>call x. lg_calls l' h = Some (Call_asleep, call, x)" if "h \<in> set (lg_ready l')" for h
      using trackedD(10) [OF l, of h] that co(8) by (auto simp: l'_def)
  qed (use trackedD(7-9) [OF l] in \<open>simp_all add: l'_def\<close>)
  assume k: "keeps l a"
  have cells: "answer_is l' x ans" if "answer_is l x ans" for x ans
    using that held cell by (auto simp: answer_is_def slot_cell_def split: option.splits) (auto simp: l'_def)
  show "keeps l' a"
  proof (rule keeps_frame [OF k])
    show "answer_is l' x ans" if "lg_calls l h = Some (ph2, call2, x)" "answer_is l x ans" for h ph2 call2 x ans
      by (rule cells [OF that(2)])
  qed (simp add: l'_def g)
qed

lemma ledger_wake:
  assumes l: "tracked env l" and g: "lg_calls l g = Some (Call_asleep, call, c)" and ready: "g \<in> set (lg_ready l)"
  defines "l' \<equiv> l\<lparr>lg_ready := remove1 g (lg_ready l), lg_calls := (lg_calls l)(g \<mapsto> (Call_resumed, call, c))\<rparr>"
  shows "tracked env l'" "keeps l a \<Longrightarrow> keeps l' a"
proof -
  have held: "held l' = held l" "waiting l' = waiting l" by (simp_all add: ledger_cells l'_def)
  have ready': "set (lg_ready l') = set (lg_ready l) - {g}" using trackedD(9) [OF l] by (simp add: l'_def)
  have other: "x \<noteq> c" if "lg_calls l h = Some (ph2, call2, x)" "h \<noteq> g" for h ph2 call2 x
    using caller_unique [OF l g] that by blast
  have kin: "kin l l' x" for x using g other by (auto simp: kin_def l'_def)
  show "tracked env l'"
  proof (rule trackedI)
    show "count (held l') x \<le> 1" for x using trackedD(1) [OF l, of x] held by simp
    show "owned l' x" if "x \<in># held l'" for x
      using trackedD(2) [OF l, of x] that held kin_owned [OF kin, of x] by (simp add: l'_def owned_def)
    show "task_ok l' u" if "u \<in># lg_tasks l'" for u
      using trackedD(3) [OF l, of u] that kin_task [OF kin] by (simp add: l'_def)
    show "entry_ok env l' e" if "e \<in># lg_entries l'" for e
      using trackedD(4) [OF l, of e] that kin_entry [OF kin] by (simp add: l'_def)
    show "lg_live l' (cqe_UserData p) \<noteq> None" if "p \<in># lg_cqes l'" for p
      using trackedD(5) [OF l, of p] that by (simp add: l'_def)
    show "caller_ok l' h ph2 call2 x" if "lg_calls l' h = Some (ph2, call2, x)" for h ph2 call2 x
    proof (cases "h = g")
      case True
      then have x: "x = c" "ph2 = Call_resumed" "call2 = call" using that by (auto simp: l'_def)
      have "c \<notin># held l'" "g \<notin> set (lg_ready l')"
        using trackedD(6) [OF l g] ready ready' held by (auto simp: caller_ok_def phase_ok_def)
      moreover have "lg_cells l' = lg_cells l" "lg_next l' = lg_next l" "lg_pool l' = lg_pool l" by (simp_all add: l'_def)
      ultimately show ?thesis using True x trackedD(6) [OF l g] by (auto simp: caller_ok_def phase_ok_def)
    next
      case False
      then have h: "lg_calls l h = Some (ph2, call2, x)" using that by (simp add: l'_def)
      show ?thesis using False trackedD(6) [OF l h] held ready'
        by (intro caller_frame [OF trackedD(6) [OF l h]]) (auto simp: l'_def caller_ok_def)
    qed
    show "\<exists>call x. lg_calls l' h = Some (Call_asleep, call, x)" if "h \<in> set (lg_ready l')" for h
      using trackedD(10) [OF l, of h] that ready' by (auto simp: l'_def)
    show "distinct (lg_ready l')" using trackedD(9) [OF l] by (simp add: l'_def)
  qed (use trackedD(7-8) [OF l] in \<open>simp_all add: l'_def\<close>)
  assume k: "keeps l a"
  have cells: "answer_is l' x ans" if "answer_is l x ans" for x ans
    using that held by (auto simp: answer_is_def slot_cell_def split: option.splits) (auto simp: l'_def)
  show "keeps l' a"
  proof (rule keeps_frame [OF k])
    show "answer_is l' x ans" if "lg_calls l h = Some (ph2, call2, x)" "answer_is l x ans" for h ph2 call2 x ans
      by (rule cells [OF that(2)])
  qed (simp add: l'_def g)
qed

lemma ledger_end:
  assumes l: "tracked env l" and g: "lg_calls l g = Some (Call_resumed, call, c)"
  defines "l' \<equiv> l\<lparr>lg_pool := c # lg_pool l, lg_calls := (lg_calls l)(g := None)\<rparr>"
  shows "tracked env l'"
    and "keeps l a \<Longrightarrow> lg_cells l c = Some cell \<Longrightarrow>
      a g = Some (call, Some (tc_res cell, tc_flags cell)) \<and> tc_err cell = None \<and> keeps l' (a(g := None))"
proof -
  have held: "held l' = held l" "waiting l' = waiting l" by (simp_all add: ledger_cells l'_def)
  have co: "c < lg_next l" "c \<notin> set (lg_pool l)" "c \<notin># held l" "g \<notin> set (lg_ready l)"
    using trackedD(6) [OF l g] by (auto simp: caller_ok_def phase_ok_def)
  have other: "x \<noteq> c" if "lg_calls l h = Some (ph2, call2, x)" "h \<noteq> g" for h ph2 call2 x
    using caller_unique [OF l g] that by blast
  have kin: "kin l l' x" if "x \<noteq> c" for x
    using that g by (auto simp: kin_def l'_def)
  show "tracked env l'"
  proof (rule trackedI)
    show "count (held l') x \<le> 1" for x using trackedD(1) [OF l, of x] held by simp
    show "owned l' x" if "x \<in># held l'" for x
    proof -
      have "x \<noteq> c" "owned l x" using that co held trackedD(2) [OF l, of x] by auto
      then show ?thesis using kin_owned [OF kin, of x] by (simp add: l'_def owned_def)
    qed
    show "task_ok l' u" if "u \<in># lg_tasks l'" for u
    proof -
      have u: "u \<in># lg_tasks l" using that by (simp add: l'_def)
      then have "rt_Ctx u \<noteq> c" using tracked_task_held [OF u] co by auto
      then show ?thesis using trackedD(3) [OF l u] kin_task [OF kin] by simp
    qed
    show "entry_ok env l' e" if "e \<in># lg_entries l'" for e
    proof -
      have e: "e \<in># lg_entries l" using that by (simp add: l'_def)
      then have "slot_cell l (sqe_UserData e) \<noteq> c" using tracked_entry_held [OF e] co by auto
      then show ?thesis using trackedD(4) [OF l e] kin_entry [OF kin] by (simp add: l'_def)
    qed
    show "lg_live l' (cqe_UserData p) \<noteq> None" if "p \<in># lg_cqes l'" for p
      using trackedD(5) [OF l, of p] that by (simp add: l'_def)
    show "caller_ok l' h ph2 call2 x" if "lg_calls l' h = Some (ph2, call2, x)" for h ph2 call2 x
    proof -
      have h: "lg_calls l h = Some (ph2, call2, x)" "h \<noteq> g" using that by (auto simp: l'_def split: if_splits)
      show ?thesis using other [OF h] trackedD(6) [OF l h(1)] held
        by (intro caller_frame [OF trackedD(6) [OF l h(1)]]) (auto simp: l'_def caller_ok_def)
    qed
    show "\<exists>call x. lg_calls l' h = Some (Call_asleep, call, x)" if "h \<in> set (lg_ready l')" for h
      using trackedD(10) [OF l, of h] that co(4) by (auto simp: l'_def)
    show "x < lg_next l'" if "x \<in> set (lg_pool l')" for x
      using trackedD(8) [OF l, of x] that co by (auto simp: l'_def)
  qed (use trackedD(7,9) [OF l] co in \<open>simp_all add: l'_def\<close>)
  assume k: "keeps l a" and cell: "lg_cells l c = Some cell"
  obtain an where an: "a g = Some (call, an)" "answer_is l c an" using keepsD [OF k g] by blast
  have "c \<notin># waiting l" "c \<notin># arrived l" using co(3) by (simp_all add: held_def)
  then have "an = Some (tc_res cell, tc_flags cell)"
    using an(2) cell by (force simp: answer_is_def arrived_def split: option.splits)
  moreover have "tc_err cell = None" using trackedD(6) [OF l g] cell by (simp add: caller_ok_def)
  moreover have "keeps l' (a(g := None))"
    unfolding keeps_def
  proof
    fix h
    have cells: "answer_is l' x ans" if "answer_is l x ans" for x ans
      using that held by (auto simp: answer_is_def slot_cell_def split: option.splits) (auto simp: l'_def)
    show "case lg_calls l' h of None \<Rightarrow> (a(g := None)) h = None
      | Some (ph, call', c) \<Rightarrow> \<exists>ans. (a(g := None)) h = Some (call', ans) \<and> answer_is l' c ans"
    proof (cases "h = g")
      case False
      show ?thesis
      proof (rule keeps_other [OF k])
        show "answer_is l' x ans" if "lg_calls l h = Some (ph2, call2, x)" "answer_is l x ans" for ph2 call2 x ans
          by (rule cells [OF that(2)])
      qed (use False in \<open>simp_all add: l'_def\<close>)
    qed (simp add: l'_def)
  qed
  ultimately show "a g = Some (call, Some (tc_res cell, tc_flags cell)) \<and> tc_err cell = None \<and> keeps l' (a(g := None))"
    using an(1) by simp
qed

end
