(* ===== verification/Send_Protocol.thy ===== *)
theory Send_Protocol
  imports Netring_Calls "HOL-Library.Multiset"
begin

text \<open>
  What the sends of a ring come to, descriptor by descriptor: the send cells of \<open>method_send.go\<close>, the requests
  and results under way as a multiset, and the steps that \<open>Send\<close>, \<open>FlushFDSends\<close>, the kernel and the poller
  make on them. Over these steps the bytes the kernel takes are compared with the bytes handed to \<open>Send\<close>:
  an observer writes both down, and an invariant ties them to the cell. A byte is named by its
  address and by the number of the message during which it was handed over or taken.
\<close>

section \<open>Steps\<close>

datatype send_item = Asked u64 u32 | Answered_with i32

type_synonym send_table = "(i64 \<Rightarrow> send_item multiset) \<times> sendCell list"

text \<open>When the wait for the previous send lets the next one go, and when it has to submit a remainder.\<close>

definition may_send :: "sendCell \<Rightarrow> bool" where
  "may_send sc \<longleftrightarrow> sc_queued sc = 0 \<or> sc_err sc = None \<and> sc_finished sc = sc_queued sc \<and> sc_sent sc = sc_len sc"

definition needs_rest :: "sendCell \<Rightarrow> bool" where
  "needs_rest sc \<longleftrightarrow> sc_queued sc \<noteq> 0 \<and> sc_err sc = None \<and> sc_finished sc = sc_queued sc \<and> sc_sent sc \<noteq> sc_len sc"

fun about_sends :: "event \<Rightarrow> bool" where
  "about_sends (Sent fd ptr len) = True"
| "about_sends (Answered e res flags) = (sqe_Opcode e = OpSend)"
| "about_sends ev = False"

text \<open>A submission that is refused leaves the cell changed and nothing under way.\<close>

inductive send_step :: "event \<Rightarrow> send_table \<Rightarrow> send_table \<Rightarrow> bool" where
  ss_start: "unat fd < length cells \<Longrightarrow> may_send (cells ! unat fd) \<Longrightarrow>
    send_step (Sent fd ptr len) (S, cells)
      (S(fd := add_mset (Asked ptr (ucast len)) (S fd)), cells[unat fd := start_send ptr len (cells ! unat fd)])"
| ss_start_refused: "unat (fd :: i64) < length cells \<Longrightarrow> may_send (cells ! unat fd) \<Longrightarrow>
    send_step Silent (S, cells) (S, cells[unat fd := start_send ptr len (cells ! unat fd)])"
| ss_rest: "unat fd < length cells \<Longrightarrow> needs_rest (cells ! unat fd) \<Longrightarrow> cells ! unat fd = sc \<Longrightarrow>
    send_step Silent (S, cells)
      (S(fd := add_mset (Asked (sc_buf sc + sc_sent sc) (ucast (sc_len sc - sc_sent sc))) (S fd)), cells[unat fd := compensate sc])"
| ss_rest_refused: "unat (fd :: i64) < length cells \<Longrightarrow> needs_rest (cells ! unat fd) \<Longrightarrow>
    send_step Silent (S, cells) (S, cells[unat fd := compensate (cells ! unat fd)])"
| ss_answer: "unat fd < length cells \<Longrightarrow> sqe_Opcode e = OpSend \<Longrightarrow> sqe_FD e = ucast fd \<Longrightarrow>
    S fd = add_mset (Asked (sqe_Addr e) (sqe_Len e)) R \<Longrightarrow>
    send_step (Answered e res flags) (S, cells) (S(fd := add_mset (Answered_with res) R), cells)"
| ss_read: "unat fd < length cells \<Longrightarrow> S fd = add_mset (Answered_with res) R \<Longrightarrow>
    send_step Silent (S, cells) (S(fd := R), cells[unat fd := record_send res (cells ! unat fd)])"
| ss_other: "\<not> about_sends ev \<Longrightarrow> send_step ev (S, cells) (S, cells)"

inductive send_run :: "send_table \<Rightarrow> event list \<Rightarrow> send_table \<Rightarrow> bool" for t0 :: send_table where
  sr_start: "send_run t0 [] t0"
| sr_step: "send_run t0 evs t \<Longrightarrow> send_step ev t t' \<Longrightarrow> send_run t0 (evs @ [ev]) t'"

definition send_start :: send_table where
  "send_start = (\<lambda>fd. {#}, replicate 65536 zero_sendCell)"

section \<open>The observer\<close>

text \<open>
  Of one descriptor: the messages so far, the bytes they are made of and the bytes taken; whether the last
  result was short; and whether the kernel and the callers keep to what the code counts on, payloads below
  two gigabytes, no more taken than asked, and no short result for a remainder.
\<close>

record stream =
  st_count :: nat
  st_said :: "(nat \<times> u64) list"
  st_wire :: "(nat \<times> u64) list"
  st_partial :: bool
  st_good :: bool

definition bytes_of :: "nat \<Rightarrow> u64 \<Rightarrow> nat \<Rightarrow> (nat \<times> u64) list" where
  "bytes_of k ptr n = map (\<lambda>i. (k, ptr + of_nat i)) [0..<n]"

fun observe :: "i64 \<Rightarrow> event \<Rightarrow> stream \<Rightarrow> stream" where
  "observe fd (Sent f ptr len) st =
     (if f = fd then st\<lparr>st_count := st_count st + 1, st_said := st_said st @ bytes_of (st_count st + 1) ptr (unat len),
        st_good := (st_good st \<and> unat len < 2 ^ 31)\<rparr>
      else st)"
| "observe fd (Answered e res flags) st =
     (if sqe_Opcode e = OpSend \<and> sqe_FD e = ucast fd \<and> 0 \<le> sint res then
        let n = nat (sint res) in
        st\<lparr>st_wire := st_wire st @ bytes_of (st_count st) (sqe_Addr e) n, st_partial := (n < unat (sqe_Len e)),
          st_good := (st_good st \<and> n \<le> unat (sqe_Len e) \<and> (st_partial st \<longrightarrow> n = unat (sqe_Len e)))\<rparr>
      else st)"
| "observe fd ev st = st"

definition observed :: "i64 \<Rightarrow> event list \<Rightarrow> stream" where
  "observed fd evs = fold (observe fd) evs \<lparr>st_count = 0, st_said = [], st_wire = [], st_partial = False, st_good = True\<rparr>"

lemma observed_snoc: "observed fd (evs @ [ev]) = observe fd ev (observed fd evs)"
  by (simp add: observed_def)

lemma observe_good: "st_good (observe fd ev st) \<Longrightarrow> st_good st"
  by (cases ev) (auto simp: Let_def split: if_splits)

lemma observe_other: "\<not> about_sends ev \<Longrightarrow> observe fd ev st = st"
  by (cases ev) auto

lemma bytes_of_split: "n \<le> m \<Longrightarrow> bytes_of k ptr m = bytes_of k ptr n @ bytes_of k (ptr + of_nat n) (m - n)"
proof -
  assume "n \<le> m"
  then obtain d where m: "m = n + d" using le_Suc_ex by blast
  have "map (\<lambda>i. (k, ptr + of_nat i)) [n..<n + d] = map (\<lambda>i. (k, ptr + of_nat n + of_nat i)) [0..<d]"
    by (rule nth_equalityI) (simp_all add: add.assoc)
  then show ?thesis unfolding bytes_of_def m upt_add_eq_append [OF le0] by simp
qed

section \<open>The invariant of a descriptor\<close>

text \<open>
  Nothing under way and all taken, or a remainder left over; a request under way for exactly the bytes still
  to come; its result; or a descriptor that an error or a refused submission has stopped for good.
\<close>

inductive stream_ok :: "send_item multiset \<Rightarrow> sendCell \<Rightarrow> stream \<Rightarrow> bool" where
  so_done: "sc_err sc = None \<Longrightarrow> sc_finished sc = sc_queued sc \<Longrightarrow> sc_sent sc = sc_len sc \<Longrightarrow>
    st_said st = st_wire st \<Longrightarrow> \<not> st_partial st \<Longrightarrow> stream_ok {#} sc st"
| so_part: "sc_err sc = None \<Longrightarrow> sc_finished sc = sc_queued sc \<Longrightarrow> sc_queued sc \<noteq> 0 \<Longrightarrow>
    unat (sc_sent sc) < unat (sc_len sc) \<Longrightarrow> unat (sc_len sc) < 2 ^ 31 \<Longrightarrow> st_partial st \<Longrightarrow>
    st_said st = st_wire st @ bytes_of (st_count st) (sc_buf sc + sc_sent sc) (unat (sc_len sc) - unat (sc_sent sc)) \<Longrightarrow>
    stream_ok {#} sc st"
| so_asked: "sc_err sc = None \<Longrightarrow> sc_finished sc + 1 = sc_queued sc \<Longrightarrow> sc_queued sc \<noteq> 0 \<Longrightarrow> sc_sent sc = 0 \<Longrightarrow>
    unat (sc_len sc) < 2 ^ 31 \<Longrightarrow> n = ucast (sc_len sc) \<Longrightarrow>
    st_said st = st_wire st @ bytes_of (st_count st) ptr (unat (sc_len sc)) \<Longrightarrow> st_partial st \<or> sc_buf sc = ptr \<Longrightarrow>
    stream_ok {#Asked ptr n#} sc st"
| so_full: "sc_err sc = None \<Longrightarrow> sc_finished sc + 1 = sc_queued sc \<Longrightarrow> sc_queued sc \<noteq> 0 \<Longrightarrow> sc_sent sc = 0 \<Longrightarrow>
    0 \<le> sint r \<Longrightarrow> nat (sint r) = unat (sc_len sc) \<Longrightarrow> st_said st = st_wire st \<Longrightarrow> \<not> st_partial st \<Longrightarrow>
    stream_ok {#Answered_with r#} sc st"
| so_short: "sc_err sc = None \<Longrightarrow> sc_finished sc + 1 = sc_queued sc \<Longrightarrow> sc_queued sc \<noteq> 0 \<Longrightarrow> sc_sent sc = 0 \<Longrightarrow>
    0 \<le> sint r \<Longrightarrow> nat (sint r) < unat (sc_len sc) \<Longrightarrow> unat (sc_len sc) < 2 ^ 31 \<Longrightarrow> st_partial st \<Longrightarrow>
    st_said st = st_wire st @ bytes_of (st_count st) (sc_buf sc + of_nat (nat (sint r))) (unat (sc_len sc) - nat (sint r)) \<Longrightarrow>
    stream_ok {#Answered_with r#} sc st"
| so_failed: "sint r < 0 \<Longrightarrow> sc_queued sc \<noteq> 0 \<Longrightarrow> sc_finished sc \<noteq> sc_queued sc \<Longrightarrow> st_said st = st_wire st @ bs \<Longrightarrow>
    stream_ok {#Answered_with r#} sc st"
| so_stuck: "sc_queued sc \<noteq> 0 \<Longrightarrow> sc_err sc \<noteq> None \<or> sc_finished sc \<noteq> sc_queued sc \<Longrightarrow> st_said st = st_wire st @ bs \<Longrightarrow>
    stream_ok {#} sc st"

lemma stream_may_send:
  assumes "stream_ok S sc st" and "may_send sc"
  shows "S = {#}" "sc_err sc = None" "sc_finished sc = sc_queued sc" "st_said st = st_wire st" "\<not> st_partial st"
  using assms by (cases rule: stream_ok.cases; auto simp: may_send_def)+

lemma stream_needs_rest:
  assumes "stream_ok S sc st" and "needs_rest sc"
  shows "S = {#}" "st_partial st" "unat (sc_sent sc) < unat (sc_len sc)" "unat (sc_len sc) < 2 ^ 31"
    "st_said st = st_wire st @ bytes_of (st_count st) (sc_buf sc + sc_sent sc) (unat (sc_len sc) - unat (sc_sent sc))"
  using assms by (cases rule: stream_ok.cases; auto simp: needs_rest_def)+

text \<open>Words without their sign, and counters that do not wrap.\<close>

lemma uint_sint_nonneg:
  fixes w :: "'a::len word"
  assumes "0 \<le> sint w"
  shows "uint w = sint w" "unat w = nat (sint w)"
proof -
  have "sint w < 2 ^ (LENGTH('a) - 1)" using sint_less [of w] by simp
  also have "(2 :: int) ^ (LENGTH('a) - 1) \<le> 2 ^ LENGTH('a)" by (rule power_increasing) simp_all
  finally show u: "uint w = sint w" using assms by (simp add: uint_sint take_bit_int_eq_self)
  show "unat w = nat (sint w)" unfolding unat_eq_nat_uint u ..
qed

lemma scast_nonneg:
  assumes "0 \<le> sint (r :: i32)"
  shows "(scast r :: u64) = of_nat (nat (sint r))" "unat (scast r :: u64) = nat (sint r)"
proof -
  have "(of_nat (nat (sint r)) :: u64) = of_int (int (nat (sint r)))" by (rule of_int_of_nat_eq [symmetric])
  also have "\<dots> = scast r" by (simp only: nat_0_le [OF assms] scast_eq)
  finally show s: "(scast r :: u64) = of_nat (nat (sint r))" by (rule sym)
  have "sint r < 2147483648" using sint_less [of r] by simp
  then have "nat (sint r) < 2 ^ LENGTH(64)" by simp
  then show "unat (scast r :: u64) = nat (sint r)" unfolding s unat_of_nat by (rule mod_less)
qed

lemma next_count: "(x :: u64) + 1 \<noteq> 0 \<Longrightarrow> unat (x + 1) = unat x + 1"
  using unatSuc [of x] by (simp add: add.commute)

section \<open>Every step keeps it\<close>

lemma stream_start:
  assumes ok: "stream_ok S sc st" and may: "may_send sc" and good: "st_good (observe fd (Sent fd ptr len) st)" and q: "sc_queued sc + 1 \<noteq> 0"
  shows "stream_ok (add_mset (Asked ptr (ucast len)) S) (start_send ptr len sc) (observe fd (Sent fd ptr len) st)"
proof -
  note m = stream_may_send [OF ok may]
  show ?thesis unfolding m(1) by (rule so_asked) (use m(2-5) good q in \<open>simp_all add: start_send_def\<close>)
qed

lemma stream_start_refused:
  assumes ok: "stream_ok S sc st" and may: "may_send sc" and q: "sc_queued sc + 1 \<noteq> 0"
  shows "stream_ok S (start_send ptr len sc) st"
proof -
  note m = stream_may_send [OF ok may]
  show ?thesis unfolding m(1) by (rule so_stuck [where bs = "[]"]) (use m(2-5) q in \<open>simp_all add: start_send_def\<close>)
qed

lemma stream_rest:
  assumes ok: "stream_ok S sc st" and need: "needs_rest sc" and q: "sc_queued sc + 1 \<noteq> 0"
  shows "stream_ok (add_mset (Asked (sc_buf sc + sc_sent sc) (ucast (sc_len sc - sc_sent sc))) S) (compensate sc) st"
    and "stream_ok S (compensate sc) st"
proof -
  note m = stream_needs_rest [OF ok need]
  have len: "unat (sc_len sc - sc_sent sc) = unat (sc_len sc) - unat (sc_sent sc)"
    using m(3) by (simp add: unat_sub word_le_nat_alt)
  have n: "sc_err sc = None" "sc_finished sc = sc_queued sc" using need by (simp_all add: needs_rest_def)
  show "stream_ok (add_mset (Asked (sc_buf sc + sc_sent sc) (ucast (sc_len sc - sc_sent sc))) S) (compensate sc) st"
    unfolding m(1) by (rule so_asked) (use m(2-5) n q len in \<open>simp_all add: compensate_def\<close>)
  show "stream_ok S (compensate sc) st"
    unfolding m(1) by (rule so_stuck [OF _ _ m(5)]) (use n q in \<open>simp_all add: compensate_def\<close>)
qed

lemma stream_answer:
  assumes ok: "stream_ok (add_mset (Asked (sqe_Addr e) (sqe_Len e)) R) sc st"
    and e: "sqe_Opcode e = OpSend" "sqe_FD e = ucast fd" and good: "st_good (observe fd (Answered e res flags) st)"
  shows "stream_ok (add_mset (Answered_with res) R) sc (observe fd (Answered e res flags) st)"
proof -
  have R: "R = {#}" and sc: "sc_err sc = None" "sc_finished sc + 1 = sc_queued sc" "sc_queued sc \<noteq> 0" "sc_sent sc = 0"
    "unat (sc_len sc) < 2 ^ 31" "sqe_Len e = ucast (sc_len sc)"
    and said: "st_said st = st_wire st @ bytes_of (st_count st) (sqe_Addr e) (unat (sc_len sc))"
    and buf: "st_partial st \<or> sc_buf sc = sqe_Addr e"
    using ok by (cases rule: stream_ok.cases; simp)+
  have len: "unat (sqe_Len e) = unat (sc_len sc)" using sc(5,6) by (simp add: unat_ucast_mod)
  have fin: "sc_finished sc \<noteq> sc_queued sc" using sc(2) by auto
  show ?thesis
  proof (cases "0 \<le> sint res")
    case False
    then show ?thesis using R sc(3) fin said by (simp add: so_failed)
  next
    case True
    let ?n = "nat (sint res)"
    have n: "?n \<le> unat (sc_len sc)" "st_partial st \<Longrightarrow> ?n = unat (sc_len sc)"
      using good True e by (simp_all add: Let_def len)
    note split = bytes_of_split [OF n(1), of "st_count st" "sqe_Addr e"]
    show ?thesis
    proof (cases "?n = unat (sc_len sc)")
      case full: True
      show ?thesis unfolding R
        by (rule so_full) (use sc True full said e len in \<open>simp_all add: Let_def\<close>)
    next
      case False
      then have short: "?n < unat (sc_len sc)" "sc_buf sc = sqe_Addr e" using n buf by auto
      show ?thesis unfolding R
        by (rule so_short) (use sc True short said e len split in \<open>simp_all add: Let_def\<close>)
    qed
  qed
qed

lemma stream_read:
  assumes ok: "stream_ok (add_mset (Answered_with res) R) sc st"
  shows "stream_ok R (record_send res sc) st"
  using ok
proof (cases rule: stream_ok.cases)
  case (so_full r)
  then have r: "r = res" "R = {#}" by simp_all
  have "scast res = sc_len sc" using so_full r scast_nonneg(2) [of res] by (simp add: word_unat_eq_iff)
  then show ?thesis unfolding r(2) by (intro so_done) (use so_full r in \<open>simp_all add: record_send_def Let_def\<close>)
next
  case (so_short r)
  then have r: "r = res" "R = {#}" by simp_all
  note s = so_short(2-10) [unfolded r(1)]
  have rec: "record_send res sc = sc\<lparr>sc_sent := scast res, sc_finished := sc_finished sc + 1\<rparr>"
    using s(4,5) by (simp add: record_send_def)
  let ?sc = "record_send res sc"
  have f: "sc_err ?sc = sc_err sc" "sc_finished ?sc = sc_finished sc + 1" "sc_queued ?sc = sc_queued sc" "sc_sent ?sc = scast res"
    "sc_len ?sc = sc_len sc" "sc_buf ?sc = sc_buf sc"
    by (simp_all only: rec) simp_all
  have "unat (sc_sent ?sc) < unat (sc_len ?sc)" "st_said st = st_wire st @
      bytes_of (st_count st) (sc_buf ?sc + sc_sent ?sc) (unat (sc_len ?sc) - unat (sc_sent ?sc))"
    using s(6,9) unfolding f scast_nonneg(2) [OF s(5)] by (simp_all only: scast_nonneg(1) [OF s(5)])
  with s(1-3,7,8) f show ?thesis unfolding r(2) by (intro so_part) simp_all
next
  case (so_failed r bs)
  then have r: "r = res" "R = {#}" by simp_all
  show ?thesis unfolding r(2)
    by (rule so_stuck [where bs = bs]) (use so_failed r in \<open>simp_all add: record_send_def Let_def\<close>)
qed simp_all

lemma send_step_length: "send_step ev (S, cells) (S', cells') \<Longrightarrow> length cells' = length cells"
  by (cases rule: send_step.cases) auto

lemma send_fd_inject: "unat f < 65536 \<Longrightarrow> unat fd < 65536 \<Longrightarrow> (ucast (f :: i64) :: i32) = ucast fd \<longleftrightarrow> f = fd"
  by (simp add: word_unat_eq_iff unat_ucast_mod)

lemma queued_step:
  "sc_queued (start_send ptr len sc) = sc_queued sc + 1" "sc_queued (compensate sc) = sc_queued sc + 1"
  "sc_queued (record_send r sc) = sc_queued sc"
  by (simp_all add: start_send_def compensate_def record_send_def Let_def)

lemma send_step_stream:
  assumes step: "send_step ev (S, cells) (S', cells')" and len: "length cells = 65536" and fd: "unat fd < 65536"
    and ok: "stream_ok (S fd) (cells ! unat fd) st" and good: "st_good (observe fd ev st)"
    and q: "sc_queued (cells ! unat fd) + 1 \<noteq> 0"
  shows "stream_ok (S' fd) (cells' ! unat fd) (observe fd ev st) \<and>
    unat (sc_queued (cells' ! unat fd)) \<le> unat (sc_queued (cells ! unat fd)) + 1"
proof -
  have i: "unat fd < length cells" using fd len by simp
  have other: "cells[unat f := sc] ! unat fd = cells ! unat fd" if "f \<noteq> fd" for f :: i64 and sc
    using that by (simp add: word_unat_eq_iff)
  note count = next_count [OF q]
  show ?thesis
    using step
  proof (cases rule: send_step.cases)
    case (ss_start f ptr n)
    show ?thesis
    proof (cases "f = fd")
      case True
      show ?thesis using stream_start [OF ok _ good [unfolded ss_start(1) True] q] ss_start(5) i count
        unfolding ss_start(1-3) True by (simp add: queued_step)
    qed (use ok ss_start(1-3) other [of f] in simp)
  next
    case (ss_start_refused f ptr n)
    show ?thesis
    proof (cases "f = fd")
      case True
      show ?thesis using stream_start_refused [OF ok _ q, of ptr n] ss_start_refused(5) i count
        unfolding ss_start_refused(1-3) True by (simp add: queued_step)
    qed (use ok ss_start_refused(1-3) other [of f] in simp)
  next
    case (ss_rest f sc)
    show ?thesis
    proof (cases "f = fd")
      case True
      show ?thesis using stream_rest(1) [OF ok _ q] ss_rest(5,6) i count
        unfolding ss_rest(1-3) True by (simp add: queued_step)
    qed (use ok ss_rest(1-3) other [of f] in simp)
  next
    case (ss_rest_refused f)
    show ?thesis
    proof (cases "f = fd")
      case True
      show ?thesis using stream_rest(2) [OF ok _ q] ss_rest_refused(5) i count
        unfolding ss_rest_refused(1-3) True by (simp add: queued_step)
    qed (use ok ss_rest_refused(1-3) other [of f] in simp)
  next
    case (ss_answer f e R res flags)
    show ?thesis
    proof (cases "f = fd")
      case True
      show ?thesis using stream_answer [of e R "cells ! unat fd" st fd res flags] ok ss_answer(5-7) good
        unfolding ss_answer(1-3) True by simp
    next
      case False
      have "sqe_FD e \<noteq> ucast fd" using ss_answer(4,6) send_fd_inject [of f fd] False fd len by simp
      then show ?thesis using ok False unfolding ss_answer(1-3) by simp
    qed
  next
    case (ss_read f res R)
    show ?thesis
    proof (cases "f = fd")
      case True
      show ?thesis using stream_read [of res R "cells ! unat fd" st] ok ss_read(5) i
        unfolding ss_read(1-3) True by (simp add: queued_step)
    qed (use ok ss_read(1-3) other [of f] in simp)
  next
    case ss_other
    then show ?thesis using ok by (simp add: observe_other)
  qed
qed

lemma send_run_stream:
  assumes "send_run send_start evs (S, cells)" and "unat fd < 65536" and "length evs < 2 ^ 64" and "st_good (observed fd evs)"
  shows "length cells = 65536 \<and> stream_ok (S fd) (cells ! unat fd) (observed fd evs) \<and>
    unat (sc_queued (cells ! unat fd)) \<le> length evs"
  using assms
proof (induction evs "(S, cells)" arbitrary: S cells rule: send_run.induct)
  case sr_start
  then show ?case
    by (auto simp: send_start_def observed_def zero_sendCell_def intro!: so_done)
next
  case (sr_step evs t ev)
  obtain S0 cells0 where t: "t = (S0, cells0)" by (cases t)
  have good: "st_good (observe fd ev (observed fd evs))" using sr_step.prems(3) by (simp add: observed_snoc)
  have small: "length evs < 2 ^ 64" "Suc (length evs) < 2 ^ 64" using sr_step.prems(2) by simp_all
  note IH = sr_step.hyps(2) [OF t sr_step.prems(1) small(1) observe_good [OF good]]
  have q: "sc_queued (cells0 ! unat fd) + 1 \<noteq> 0"
  proof
    assume "sc_queued (cells0 ! unat fd) + 1 = 0"
    then have "sc_queued (cells0 ! unat fd) = - 1" by (simp add: eq_neg_iff_add_eq_0)
    moreover have "unat (- 1 :: u64) = 18446744073709551615" by (simp add: unsigned_minus_1_eq_mask mask_eq_exp_minus_1)
    ultimately show False using IH small(2) by simp
  qed
  note step = sr_step.hyps(3) [unfolded t]
  from send_step_stream [OF step _ sr_step.prems(1) _ good q] IH send_step_length [OF step]
  show ?case by (simp add: observed_snoc)
qed

text \<open>What this says of a descriptor: the order of the bytes, and what a flush that succeeds means.\<close>

lemma stream_ok_order:
  assumes "stream_ok S sc st"
  shows "\<exists>bs. st_said st = st_wire st @ bs \<and> (may_send sc \<longrightarrow> bs = [])" "size S \<le> 1"
  using assms by (cases rule: stream_ok.cases; auto simp: may_send_def)+

end
