(* ===== verification/Send_Ledger.thy ===== *)
theory Send_Ledger
  imports Netring_Ledger Send_Protocol
begin

text \<open>
  The sends in the ledger of \<open>Netring_Ledger\<close>, by descriptor: what is asked of the kernel and what it
  has answered, wherever it is on its way. One lemma per kind of change, beside those of the ledger.
\<close>

definition sends_on :: "ledger \<Rightarrow> i64 \<Rightarrow> cell_ref \<Rightarrow> bool" where
  "sends_on l fd c \<longleftrightarrow>
     (case lg_cells l c of None \<Rightarrow> False | Some cell \<Rightarrow> tc_opCode cell = opcodeTypeSend \<and> tc_fd cell = fd)"

definition sends :: "ledger \<Rightarrow> i64 \<Rightarrow> send_item multiset" where
  "sends l fd =
     image_mset (\<lambda>t. Asked (rt_Payload t) (rt_Len t)) (filter_mset (\<lambda>t. sends_on l fd (rt_Ctx t)) (lg_tasks l)) +
     image_mset (\<lambda>e. Asked (sqe_Addr e) (sqe_Len e)) (filter_mset (\<lambda>e. sends_on l fd (slot_cell l (sqe_UserData e))) (lg_entries l)) +
     image_mset (\<lambda>q. Answered_with (cqe_Res q)) (filter_mset (\<lambda>q. sends_on l fd (slot_cell l (cqe_UserData q))) (lg_cqes l))"

lemma kin_sends_on: "kin l l' c \<Longrightarrow> lg_cells l c \<noteq> None \<Longrightarrow> sends_on l' fd c = sends_on l fd c"
  using kin_cell [of l l' c] by (auto simp: sends_on_def)

lemma owned_cell: "owned l c \<Longrightarrow> lg_cells l c \<noteq> None"
  by (auto simp: owned_def)

text \<open>Cells change and indexes are given away, but nothing under way is touched.\<close>

lemma sends_frame:
  assumes "lg_tasks l' = lg_tasks l" "lg_entries l' = lg_entries l" "lg_cqes l' = lg_cqes l" "lg_live l' = lg_live l"
    and "\<And>c. c \<in># held l \<Longrightarrow> sends_on l' fd c = sends_on l fd c"
  shows "sends l' fd = sends l fd"
proof -
  have "filter_mset (\<lambda>t. sends_on l' fd (rt_Ctx t)) (lg_tasks l) = filter_mset (\<lambda>t. sends_on l fd (rt_Ctx t)) (lg_tasks l)"
    by (rule filter_mset_cong) (simp_all add: assms(5) tracked_task_held)
  moreover have "filter_mset (\<lambda>e. sends_on l' fd (slot_cell l (sqe_UserData e))) (lg_entries l) =
      filter_mset (\<lambda>e. sends_on l fd (slot_cell l (sqe_UserData e))) (lg_entries l)"
    by (rule filter_mset_cong) (simp_all add: assms(5) tracked_entry_held)
  moreover have "filter_mset (\<lambda>q. sends_on l' fd (slot_cell l (cqe_UserData q))) (lg_cqes l) =
      filter_mset (\<lambda>q. sends_on l fd (slot_cell l (cqe_UserData q))) (lg_cqes l)"
    by (rule filter_mset_cong) (simp_all add: assms(5) tracked_cqe_held)
  ultimately show ?thesis by (simp add: sends_def assms(1-4) slot_cell_def)
qed

lemma sends_kin:
  assumes l: "tracked env l" and "lg_tasks l' = lg_tasks l" "lg_entries l' = lg_entries l" "lg_cqes l' = lg_cqes l"
    "lg_live l' = lg_live l" and kin: "\<And>c. c \<in># held l \<Longrightarrow> kin l l' c"
  shows "sends l' fd = sends l fd"
  by (rule sends_frame [OF assms(2-5)]) (rule kin_sends_on [OF kin owned_cell [OF trackedD(2) [OF l]]])

lemma sends_draw:
  assumes l: "tracked env l" and d: "drawn l c pool next_cell"
  shows "sends (l\<lparr>lg_cells := (lg_cells l)(c \<mapsto> cell), lg_pool := pool, lg_next := next_cell\<rparr>) fd = sends l fd"
proof (rule sends_frame)
  fix x
  assume "x \<in># held l"
  then have "x \<noteq> c" using drawn_idle(1) [OF l d] by auto
  then show "sends_on (l\<lparr>lg_cells := (lg_cells l)(c \<mapsto> cell), lg_pool := pool, lg_next := next_cell\<rparr>) fd x = sends_on l fd x"
    by (simp add: sends_on_def)
qed simp_all

lemma sends_hand_in:
  "sends (l\<lparr>lg_tasks := add_mset t (lg_tasks l), lg_calls := calls\<rparr>) fd =
    (if sends_on l fd (rt_Ctx t) then add_mset (Asked (rt_Payload t) (rt_Len t)) (sends l fd) else sends l fd)"
  by (simp add: sends_def sends_on_def slot_cell_def)

lemma sends_dispatch:
  assumes l: "tracked env l" and t: "lg_tasks l = add_mset t ts" and fresh: "lg_live l (sqe_UserData e) = None"
    and cell: "lg_cells l (rt_Ctx t) = Some cell" and req: "request env t (tc_fd cell) (sqe_UserData e) = Some e"
  shows "sends (l\<lparr>lg_tasks := ts, lg_entries := add_mset e (lg_entries l), lg_live := (lg_live l)(sqe_UserData e \<mapsto> rt_Ctx t)\<rparr>) fd =
    sends l fd"
proof -
  let ?l = "l\<lparr>lg_tasks := ts, lg_entries := add_mset e (lg_entries l), lg_live := (lg_live l)(sqe_UserData e \<mapsto> rt_Ctx t)\<rparr>"
  have on: "sends_on ?l fd = sends_on l fd" by (simp add: sends_on_def fun_eq_iff)
  have ent: "sqe_UserData e2 \<noteq> sqe_UserData e" if "e2 \<in># lg_entries l" for e2
    using trackedD(4) [OF l that] fresh by (auto simp: entry_ok_def)
  have cqe: "cqe_UserData q \<noteq> sqe_UserData e" if "q \<in># lg_cqes l" for q
    using trackedD(5) [OF l that] fresh by auto
  have ents: "filter_mset (\<lambda>e2. sends_on l fd (slot_cell ?l (sqe_UserData e2))) (lg_entries l) =
      filter_mset (\<lambda>e2. sends_on l fd (slot_cell l (sqe_UserData e2))) (lg_entries l)"
    by (rule filter_mset_cong) (simp_all add: slot_cell_def ent)
  have cqes: "filter_mset (\<lambda>q. sends_on l fd (slot_cell ?l (cqe_UserData q))) (lg_cqes l) =
      filter_mset (\<lambda>q. sends_on l fd (slot_cell l (cqe_UserData q))) (lg_cqes l)"
    by (rule filter_mset_cong) (simp_all add: slot_cell_def cqe)
  have "t \<in># lg_tasks l" using t by simp
  then have op: "rt_Opcode t = tc_opCode cell" using trackedD(3) [OF l] cell by (fastforce simp: task_ok_def)
  have e: "Asked (sqe_Addr e) (sqe_Len e) = Asked (rt_Payload t) (rt_Len t)" if "sends_on l fd (rt_Ctx t)"
    using that cell op request_send [OF req] by (simp add: sends_on_def)
  have sc: "slot_cell ?l (sqe_UserData e) = rt_Ctx t" by (simp add: slot_cell_def)
  show ?thesis
    unfolding sends_def on using ents cqes e sc t by (cases "sends_on l fd (rt_Ctx t)") simp_all
qed

lemma sends_post:
  assumes e: "lg_entries l = add_mset e es" and q: "cqe_UserData q = sqe_UserData e"
  shows "\<exists>S. sends l fd = (if sends_on l fd (slot_cell l (sqe_UserData e)) then add_mset (Asked (sqe_Addr e) (sqe_Len e)) S else S) \<and>
    sends (l\<lparr>lg_entries := es, lg_cqes := add_mset q (lg_cqes l)\<rparr>) fd =
      (if sends_on l fd (slot_cell l (sqe_UserData e)) then add_mset (Answered_with (cqe_Res q)) S else S)"
  by (simp add: sends_def e q sends_on_def slot_cell_def)

text \<open>An entry is a send exactly when its cell is one, and names the descriptor of its cell.\<close>

lemma asks_not_send: "asks env e call \<Longrightarrow> sqe_Opcode e \<noteq> OpSend"
proof -
  have r: "request env t fd idx = Some e \<Longrightarrow> rt_Opcode t \<noteq> opcodeTypeSend \<Longrightarrow> sqe_Opcode e \<noteq> OpSend" for t fd idx
    by (auto simp: request_def Let_def uring_consts split: opcodeType.splits)
  assume "asks env e call"
  then obtain c where "request env (call_task call c) (call_fd call) (sqe_UserData e) = Some e" by (auto simp: asks_def)
  from r [OF this] show ?thesis by simp
qed

lemma entry_send:
  assumes l: "tracked env l" and e: "e \<in># lg_entries l"
  shows "(\<exists>fd. unat fd < lg_fds l \<and> sqe_Opcode e = OpSend \<and> sqe_FD e = ucast fd \<and>
      (\<forall>f. sends_on l f (slot_cell l (sqe_UserData e)) \<longleftrightarrow> f = fd)) \<or>
    sqe_Opcode e \<noteq> OpSend \<and> (\<forall>f. \<not> sends_on l f (slot_cell l (sqe_UserData e)))"
proof -
  obtain c cell where c: "lg_live l (sqe_UserData e) = Some c" "lg_cells l c = Some cell"
    "tc_opCode cell = opcodeTypeSend \<longrightarrow> sqe_Opcode e = OpSend \<and> sqe_FD e = ucast (tc_fd cell)"
    "\<And>g ph call. lg_calls l g = Some (ph, call, c) \<Longrightarrow> asks env e call"
    using trackedD(4) [OF l e] by (auto simp: entry_ok_def)
  have own: "owned l c" using trackedD(2) [OF l tracked_entry_held [OF e]] c(1) by (simp add: slot_cell_def)
  show ?thesis
  proof (cases "tc_opCode cell = opcodeTypeSend")
    case False
    then obtain g ph call where "lg_calls l g = Some (ph, call, c)" using own c(2) by (auto simp: owned_def)
    then have "sqe_Opcode e \<noteq> OpSend" using c(4) asks_not_send by blast
    then show ?thesis using False c(1,2) by (simp add: sends_on_def slot_cell_def)
  next
    case True
    then have "unat (tc_fd cell) < lg_fds l" using own c(2) by (auto simp: owned_def)
    then show ?thesis using True c(1-3) by (auto simp: sends_on_def slot_cell_def intro!: exI [of _ "tc_fd cell"])
  qed
qed

lemma sends_read:
  assumes l: "tracked env l" and q: "lg_cqes l = add_mset q qs" and c: "lg_live l (cqe_UserData q) = Some c"
    and cell: "lg_cells l c = Some cell" "tc_opCode cell \<noteq> opcodeTypeSend"
  shows "sends (l\<lparr>lg_cqes := qs, lg_cells := (lg_cells l)(c \<mapsto> delivered q cell), lg_ready := rd\<rparr>) fd = sends l fd"
proof -
  let ?l = "l\<lparr>lg_cqes := qs, lg_cells := (lg_cells l)(c \<mapsto> delivered q cell), lg_ready := rd\<rparr>"
  have on: "sends_on ?l fd = sends_on l fd" using cell by (auto simp: sends_on_def fun_eq_iff delivered_def)
  have sc: "slot_cell ?l = slot_cell l" "slot_cell l (cqe_UserData q) = c" using c by (simp_all add: slot_cell_def fun_eq_iff)
  have "\<not> sends_on l fd c" using cell by (simp add: sends_on_def)
  then show ?thesis unfolding sends_def on sc by (simp add: q sc)
qed

lemma sends_read_send:
  fixes res :: i32 and flags :: u32 and pool :: "cell_ref list"
  assumes l: "tracked env l" and q: "lg_cqes l = add_mset q qs" and c: "lg_live l (cqe_UserData q) = Some c"
    and cell: "lg_cells l c = Some cell" "tc_opCode cell = opcodeTypeSend"
  defines "l' \<equiv> l\<lparr>lg_cqes := qs, lg_live := (lg_live l)(cqe_UserData q := None),
    lg_cells := (lg_cells l)(c \<mapsto> cell\<lparr>tc_res := res, tc_flags := flags\<rparr>), lg_pool := pool\<rparr>"
  shows "sends l fd = (if tc_fd cell = fd then add_mset (Answered_with (cqe_Res q)) (sends l' fd) else sends l' fd)"
proof -
  let ?l = "l\<lparr>lg_cqes := qs, lg_live := (lg_live l)(cqe_UserData q := None),
      lg_cells := (lg_cells l)(c \<mapsto> cell\<lparr>tc_res := res, tc_flags := flags\<rparr>), lg_pool := pool\<rparr>"
  have sc: "slot_cell l (cqe_UserData q) = c" using c by (simp add: slot_cell_def)
  have "count (held l) c \<le> 1" by (rule trackedD(1) [OF l])
  then have out: "c \<notin># waiting l" "c \<notin># image_mset (\<lambda>p. slot_cell l (cqe_UserData p)) qs"
    using sc unfolding not_in_iff by (simp_all add: held_def arrived_def q)
  have ent: "sqe_UserData e \<noteq> cqe_UserData q" if "e \<in># lg_entries l" for e
    using that out(1) sc by (force simp: waiting_def)
  have cqe: "cqe_UserData p \<noteq> cqe_UserData q" if "p \<in># qs" for p
  proof
    assume "cqe_UserData p = cqe_UserData q"
    then have "slot_cell l (cqe_UserData p) = c" using sc by simp
    then show False using out(2) that by auto
  qed
  have on: "sends_on ?l fd = sends_on l fd" using cell by (auto simp: sends_on_def fun_eq_iff)
  have ents: "filter_mset (\<lambda>e. sends_on l fd (slot_cell ?l (sqe_UserData e))) (lg_entries l) =
      filter_mset (\<lambda>e. sends_on l fd (slot_cell l (sqe_UserData e))) (lg_entries l)"
    by (rule filter_mset_cong) (simp_all add: slot_cell_def ent)
  have cqes: "filter_mset (\<lambda>p. sends_on l fd (slot_cell ?l (cqe_UserData p))) qs =
      filter_mset (\<lambda>p. sends_on l fd (slot_cell l (cqe_UserData p))) qs"
    by (rule filter_mset_cong) (simp_all add: slot_cell_def cqe)
  have "sends_on l fd c \<longleftrightarrow> tc_fd cell = fd" using cell by (simp add: sends_on_def)
  then show ?thesis unfolding sends_def l'_def on using ents cqes sc q by (cases "tc_fd cell = fd") simp_all
qed

end
