(* ===== verification/Netring_System.thy ===== *)
theory Netring_System
  imports Send_Ledger
begin

text \<open>
  Every step of the system in the ledger of \<open>Netring_Ledger\<close>: the operations of \<open>NetRing\<close>, the
  translator, the poller and the kernel keep the ledger tracked and the promises of \<open>spec_step\<close> kept, and are
  steps of \<open>Send_Protocol\<close> on the sends.
  From \<open>New\<close> on, this holds in every run.
\<close>

section \<open>The operations in the ledger\<close>

definition ring_good :: "nat \<Rightarrow> nat \<Rightarrow> NetRing \<Rightarrow> bool" where
  "ring_good m n nr \<longleftrightarrow> (\<exists>k. slots_inv k (nr_slots nr)) \<and> sq_ok m (nr_r nr) \<and> sq_sized m (nr_r nr) \<and> cq_ok n (nr_r nr)"

definition wakeups_succeed :: "uring_env \<Rightarrow> bool" where
  "wakeups_succeed env \<longleftrightarrow> (\<forall>r. Wakeup env r = None)"

text \<open>What the ledger does not record.\<close>

lemma books_frame [simp]:
  "books h (nr\<lparr>nr_ticketTail := t\<rparr>) fl calls = books h nr fl calls"
  "books h (nr\<lparr>nr_barrier := b\<rparr>) fl calls = books h nr fl calls"
  "books h (nr\<lparr>nr_finishedPushes := f\<rparr>) fl calls = books h nr fl calls"
  "books h (nr\<lparr>nr_pbrs := p\<rparr>) fl calls = books h nr fl calls"
  "books h (nr\<lparr>nr_stop := st\<rparr>) fl calls = books h nr fl calls"
  "books h (log_entry nr) fl calls = books h nr fl calls"
  "books h (setFallbackActive nr) fl calls = books h nr fl calls"
  by (simp_all add: books_def log_entry_def setFallbackActive_def)

lemma log_entry_frame [simp]: "nr_pool (log_entry nr) = nr_pool nr" "nr_sendCells (log_entry nr) = nr_sendCells nr"
  by (simp_all add: log_entry_def)

lemma ring_good_frame [simp]:
  "ring_good m n (nr\<lparr>nr_ticketTail := t\<rparr>) = ring_good m n nr"
  "ring_good m n (nr\<lparr>nr_barrier := b\<rparr>) = ring_good m n nr"
  "ring_good m n (nr\<lparr>nr_finishedPushes := f\<rparr>) = ring_good m n nr"
  "ring_good m n (nr\<lparr>nr_pbrs := p\<rparr>) = ring_good m n nr"
  "ring_good m n (nr\<lparr>nr_stop := st\<rparr>) = ring_good m n nr"
  "ring_good m n (nr\<lparr>nr_fallbackChan := ch\<rparr>) = ring_good m n nr"
  "ring_good m n (nr\<lparr>nr_sendCells := sc\<rparr>) = ring_good m n nr"
  "ring_good m n (nr\<lparr>nr_cells := cs\<rparr>) = ring_good m n nr"
  "ring_good m n (nr\<lparr>nr_pool := pl\<rparr>) = ring_good m n nr"
  "ring_good m n (nr\<lparr>nr_ready := rd\<rparr>) = ring_good m n nr"
  "ring_good m n (log_entry nr) = ring_good m n nr"
  "ring_good m n (setFallbackActive nr) = ring_good m n nr"
  "ring_good m n (pool_put c nr) = ring_good m n nr"
  by (simp_all add: ring_good_def log_entry_def setFallbackActive_def pool_put_def)

lemma books_chan: "nr_fallbackChan nr = t # ts \<Longrightarrow> books h (nr\<lparr>nr_fallbackChan := ts\<rparr>) fl calls = (books h nr fl calls)\<lparr>lg_tasks := h + mset ts\<rparr>"
  "nr_fallbackChan nr = t # ts \<Longrightarrow> books {#t#} (nr\<lparr>nr_fallbackChan := ts\<rparr>) fl calls = books {#} nr fl calls"
  by (simp_all add: books_def)

lemma books_hand: "books (add_mset t h) nr fl calls' =
    (books h nr fl calls)\<lparr>lg_tasks := add_mset t (lg_tasks (books h nr fl calls)), lg_calls := calls'\<rparr>"
  by (simp add: books_def)

lemma push_state_cq: "cq_ok n (push_state e r) = cq_ok n r" "cq_pending (push_state e r) = cq_pending r"
  "sq_sized m (push_state e r) = sq_sized m r"
  by (simp_all add: cq_ok_def cq_pending_def cq_count_def sq_sized_def push_state_def Let_def)

lemma dispatch_books:
  assumes good: "ring_good m n nr" and wake: "wakeups_succeed env" and l: "tracked env (books (add_mset t h) nr fl calls)"
    and room: "sq_count (nr_r nr) < 2 ^ m" and d: "dispatch env t nr = Some nr'"
  shows "ring_good m n nr'" "tracked env (books h nr' fl calls)" "nr_fallbackChan nr' = nr_fallbackChan nr"
    "keeps (books (add_mset t h) nr fl calls) a \<Longrightarrow> keeps (books h nr' fl calls) a"
    "sends (books h nr' fl calls) = sends (books (add_mset t h) nr fl calls)"
proof -
  let ?l = "books (add_mset t h) nr fl calls"
  obtain k where inv: "slots_inv k (nr_slots nr)" and sq: "sq_ok m (nr_r nr)" "sq_sized m (nr_r nr)" "cq_ok n (nr_r nr)"
    using good by (auto simp: ring_good_def)
  have "t \<in># lg_tasks ?l" by (simp add: books_def)
  from trackedD(3) [OF l this] obtain cell where q: "queues t" and cell: "nr_cells nr (rt_Ctx t) = Some cell"
    by (auto simp: task_ok_def books_def)
  note req = queues_request [OF q, of env 0 0]
  obtain r where add: "Add (rt_Ctx t) (nr_slots nr) = Some r"
    using d by (auto simp: dispatch_request [OF req] submit_request_def split: option.splits)
  obtain idx s' where r: "r = (idx, s')" by (cases r)
  have a: "slots_inv k s'" "live (nr_slots nr) idx = None" "live s' = (live (nr_slots nr))(idx \<mapsto> rt_Ctx t)"
    using Add_returns [OF inv add] by (simp_all add: add_spec_def r)
  obtain e where e: "request env t (tc_fd cell) idx = Some e" using queues_request [OF q] by blast
  have ud: "sqe_UserData e = idx" using request_UserData [OF e] by simp
  have awake: "push_error env (nr_r nr) = None" using wake by (simp add: push_error_def wakeups_succeed_def)
  have nr': "nr' = nr\<lparr>nr_slots := s', nr_r := push_state e (nr_r nr)\<rparr>"
    using d by (simp add: dispatch_request [OF req] submit_request_def add r cell Push_eq [OF sq(1)] e awake)
  show "ring_good m n nr'"
    using a(1) sq sq_ok_push [OF sq(1) room] by (auto simp: ring_good_def nr' push_state_cq)
  show "nr_fallbackChan nr' = nr_fallbackChan nr" by (simp add: nr')
  have books: "books h nr' fl calls = ?l\<lparr>lg_tasks := h + mset (nr_fallbackChan nr), lg_entries := add_mset e (lg_entries ?l),
      lg_live := (lg_live ?l)(sqe_UserData e \<mapsto> rt_Ctx t)\<rparr>"
    by (simp add: books_def nr' push_state_cq sq_pending_push [OF sq(1) room] a(3) ud)
  have t: "lg_tasks ?l = add_mset t (h + mset (nr_fallbackChan nr))" by (simp add: books_def)
  have fresh: "lg_live ?l (sqe_UserData e) = None" using a(2) ud by (simp add: books_def)
  have cell': "lg_cells ?l (rt_Ctx t) = Some cell" using cell by (simp add: books_def)
  note step = ledger_dispatch [OF l t fresh cell' e [folded ud]]
  show "tracked env (books h nr' fl calls)" unfolding books by (rule step(1))
  show "keeps (books h nr' fl calls) a" if "keeps ?l a" unfolding books by (rule step(2) [OF that])
  show "sends (books h nr' fl calls) = sends ?l"
    unfolding books by (rule ext) (rule sends_dispatch [OF l t fresh cell' e [folded ud]])
qed

text \<open>\<open>submit\<close> dispatches, or passes the task to the channel, or refuses it.\<close>

lemma submit_books:
  assumes good: "ring_good m n nr" and wake: "wakeups_succeed env" and l: "tracked env (books {#t#} nr fl calls)"
    and q: "queues t" and sub: "submit env choice t nr = Some (True, nr')"
  shows "ring_good m n nr' \<and> tracked env (books {#} nr' fl calls) \<and>
    (\<forall>a. keeps (books {#t#} nr fl calls) a \<longrightarrow> keeps (books {#} nr' fl calls) a) \<and>
    sends (books {#} nr' fl calls) = sends (books {#t#} nr fl calls)"
proof -
  have op: "rt_Opcode t \<noteq> opcodeTypeReleaseBuffer" using q by (auto simp: queues_def)
  have chan: "ring_good m n nr2 \<and> books {#} nr2 fl calls = books {#t#} nr fl calls"
    if "send_fallback choice t nr1 = Some (True, nr2)" "books {#t#} nr1 fl calls = books {#t#} nr fl calls" "ring_good m n nr1" for nr1 nr2
    using that by (auto simp: send_fallback_def Let_def books_def split: if_splits)
  show ?thesis
  proof (cases "rt_Opcode t \<noteq> opcodeTypeReleaseBuffer \<and> fst (submitIntention nr) \<noteq> statusFallbackActive \<and>
      r_SQTail (nr_r nr) - r_SQHead (nr_r nr) \<noteq> r_SQEntries (nr_r nr)")
    case True
    let ?nr = "(snd (submitIntention nr))\<lparr>nr_ticketTail := r_SQTail (nr_r nr) + 1\<rparr>"
    obtain nr2 where d: "dispatch env t ?nr = Some nr2" "nr' = nr2\<lparr>nr_finishedPushes := nr_finishedPushes nr2 + 1\<rparr>"
      using sub True by (auto simp: submit_def submitIntention_def Let_def split: if_splits)
    have same: "books h ?nr fl calls = books h nr fl calls" "ring_good m n ?nr = ring_good m n nr" "nr_r ?nr = nr_r nr" for h
      by (simp_all add: submitIntention_def Let_def)
    have sz: "sq_sized m (nr_r nr)" "sq_ok m (nr_r nr)" using good by (auto simp: ring_good_def)
    have "sq_count (nr_r ?nr) < 2 ^ m" using full_test [OF sz(1)] True sz(2) same(3) by (simp add: sq_ok_def)
    note step = dispatch_books [OF _ wake, of m n ?nr t "{#}" fl calls nr2, unfolded same, OF good l this [unfolded same] d(1)]
    show ?thesis using step(1,2,4,5) by (simp add: d(2))
  next
    case False
    then show ?thesis
      using sub op chan [of "snd (submitIntention nr)" nr']
        chan [of "setFallbackActive ((snd (submitIntention nr))\<lparr>nr_ticketTail := r_SQTail (nr_r nr) + 1\<rparr>)" nr'] good l
      by (auto simp: submit_def submitIntention_def Let_def split: if_splits)
  qed
qed

lemma submit_refused_books:
  assumes "queues t" and "submit env choice t nr = Some (False, nr')"
  shows "books h nr' fl calls = books h nr fl calls" "ring_good m n nr' = ring_good m n nr"
  using assms
  by (auto simp: submit_def submitIntention_def send_fallback_def queues_def Let_def split: if_splits)

lemma take_cell_books:
  assumes "take_cell g opc fd nr = (c, nr1)"
  shows "\<exists>pool next_cell. drawn (books h nr fl calls) c pool next_cell \<and>
    books h nr1 fl calls = (books h nr fl calls)\<lparr>lg_cells := (nr_cells nr)(c \<mapsto> armed_cell g opc fd), lg_pool := pool, lg_next := next_cell\<rparr>"
    and "ring_good m n nr1 = ring_good m n nr" "nr_cells nr1 c = Some (armed_cell g opc fd)" "nr_sendCells nr1 = nr_sendCells nr"
proof -
  show "\<exists>pool next_cell. drawn (books h nr fl calls) c pool next_cell \<and>
    books h nr1 fl calls = (books h nr fl calls)\<lparr>lg_cells := (nr_cells nr)(c \<mapsto> armed_cell g opc fd), lg_pool := pool, lg_next := next_cell\<rparr>"
  proof (cases "nr_pool nr")
    case Nil
    then show ?thesis using assms
      by (intro exI [of _ "[]"] exI [of _ "nr_next nr + 1"]) (auto simp: take_cell_def drawn_def books_def Let_def)
  next
    case (Cons d ds)
    then show ?thesis using assms
      by (intro exI [of _ ds] exI [of _ "nr_next nr"]) (auto simp: take_cell_def drawn_def books_def)
  qed
qed (use assms in \<open>auto simp: take_cell_def ring_good_def Let_def split: list.splits\<close>)

text \<open>A cell is taken: it is nobody's, and nothing else changed.\<close>

lemma take_cell_tracked:
  assumes l: "tracked env (books {#} nr fl calls)" and t: "take_cell g opc fd nr = (c, nr1)"
  shows "tracked env (books {#} nr1 fl calls)" "idle_cell (books {#} nr1 fl calls) c"
    "keeps (books {#} nr fl calls) a \<Longrightarrow> keeps (books {#} nr1 fl calls) a"
    "sends (books {#} nr1 fl calls) = sends (books {#} nr fl calls)"
proof -
  let ?l = "books {#} nr fl calls"
  obtain pool next_cell where d: "drawn ?l c pool next_cell"
    "books {#} nr1 fl calls = ?l\<lparr>lg_cells := (nr_cells nr)(c \<mapsto> armed_cell g opc fd), lg_pool := pool, lg_next := next_cell\<rparr>"
    using take_cell_books(1) [OF t] by blast
  have cells: "nr_cells nr = lg_cells ?l" by (simp add: books_def)
  note step = ledger_draw [OF l d(1), where cell = "armed_cell g opc fd"]
  show "tracked env (books {#} nr1 fl calls)" unfolding d(2) cells by (rule step(1))
  show "idle_cell (books {#} nr1 fl calls) c" unfolding d(2) cells by (rule step(2))
  show "keeps (books {#} nr1 fl calls) a" if "keeps ?l a" unfolding d(2) cells by (rule step(3) [OF that])
  show "sends (books {#} nr1 fl calls) = sends ?l" unfolding d(2) cells by (rule ext) (rule sends_draw [OF l d(1)])
qed

lemma fallback_pushes_books:
  assumes "ring_good m n nr" and "wakeups_succeed env" and "tracked env (books {#t#} nr fl calls)"
    and "fallback_pushes j env t M nr = Some nr'" and "keeps (books {#t#} nr fl calls) a"
  shows "ring_good m n nr' \<and> tracked env (books {#} nr' fl calls) \<and> keeps (books {#} nr' fl calls) a \<and>
    sends (books {#} nr' fl calls) = sends (books {#t#} nr fl calls)"
  using assms
proof (induction j arbitrary: t M nr)
  case (Suc j)
  obtain nr1 where p: "fallback_push env t nr = Some nr1"
    using Suc.prems(4) by (cases "fallback_push env t nr") auto
  have sz: "sq_sized m (nr_r nr)" "sq_ok m (nr_r nr)" using Suc.prems(1) by (auto simp: ring_good_def)
  have d: "dispatch env t (nr\<lparr>nr_ticketTail := nr_ticketTail nr + 1\<rparr>) = Some nr1"
    and room: "\<not> r_SQEntries (nr_r nr) \<le> r_SQTail (nr_r nr) - r_SQHead (nr_r nr)"
    using p by (auto simp: fallback_push_def split: if_splits)
  have "sq_count (nr_r nr) < 2 ^ m" using room sz(1) by (simp add: word_le_nat_alt sq_sized_def sq_count_def)
  note step = dispatch_books [where nr = "nr\<lparr>nr_ticketTail := nr_ticketTail nr + 1\<rparr>" and m = m and n = n and h = "{#}",
      simplified, OF Suc.prems(1,2,3) this d]
  have k1: "keeps (books {#} nr1 fl calls) a" by (rule step(4) [OF Suc.prems(5)])
  show ?case
  proof (cases "M - 1 = 0")
    case True
    then show ?thesis using Suc.prems(4) step(1,2,5) k1 unfolding fallback_pushes_turn [OF p] by simp
  next
    case False
    then obtain u us where u: "nr_fallbackChan nr1 = u # us"
      "fallback_pushes j env u (M - 1) (nr1\<lparr>nr_fallbackChan := us\<rparr>) = Some nr'"
      using Suc.prems(4) unfolding fallback_pushes_turn [OF p] by (auto split: list.splits)
    show ?thesis
      using Suc.IH [OF _ Suc.prems(2) _ u(2)] step(1,2,5) k1 by (simp add: books_chan(2) [OF u(1)])
  qed
qed simp

lemma fallback_round_books:
  assumes good: "ring_good m n nr" and wake: "wakeups_succeed env" and l: "tracked env (books {#} nr fl calls)"
    and chan: "nr_fallbackChan nr = t # ts"
    and r: "fallback_round j env t (nr\<lparr>nr_fallbackChan := ts\<rparr>) = Some (released, nr')" and k: "keeps (books {#} nr fl calls) a"
  shows "ring_good m n nr' \<and> tracked env (books {#} nr' fl calls) \<and> keeps (books {#} nr' fl calls) a \<and>
    sends (books {#} nr' fl calls) = sends (books {#} nr fl calls)"
proof -
  obtain b e M where snap: "take_snapshot (nr\<lparr>nr_fallbackChan := ts\<rparr>) = (b, e, M)" by (cases "take_snapshot (nr\<lparr>nr_fallbackChan := ts\<rparr>)")
  obtain nr1 where p: "fallback_pushes j env t M (nr\<lparr>nr_fallbackChan := ts\<rparr>) = Some nr1" "fallback_finish b e nr1 = (released, nr')"
    using r by (auto simp: fallback_round_def snap)
  have "ring_good m n nr1 \<and> tracked env (books {#} nr1 fl calls) \<and> keeps (books {#} nr1 fl calls) a \<and>
      sends (books {#} nr1 fl calls) = sends (books {#} nr fl calls)"
    using fallback_pushes_books [OF _ wake _ p(1)] good l k by (simp add: books_chan(2) [OF chan])
  moreover have "nr' = nr1\<lparr>nr_finishedPushes := e\<rparr> \<or>
      nr' = nr1\<lparr>nr_finishedPushes := e, nr_barrier := e, nr_ticketTail := r_SQTail (nr_r nr1)\<rparr>"
    using p(2) by (auto simp: fallback_finish_def Let_def split: if_splits)
  ultimately show ?thesis by auto
qed

text \<open>What \<open>Send_Protocol\<close> sees of a state.\<close>

definition send_view :: "NetRing \<Rightarrow> SQEntry list \<Rightarrow> (u64 \<rightharpoonup> call_phase \<times> net_call \<times> cell_ref) \<Rightarrow> send_table" where
  "send_view nr fl calls = (sends (books {#} nr fl calls), nr_sendCells nr)"

lemma send_view_same:
  "sends (books {#} nr' fl' calls') = sends (books {#} nr fl calls) \<Longrightarrow> nr_sendCells nr' = nr_sendCells nr \<Longrightarrow>
    \<not> about_sends ev \<Longrightarrow> send_step ev (send_view nr fl calls) (send_view nr' fl' calls')"
  by (simp add: send_view_def ss_other)

text \<open>A turn of the poller that reads a completion.\<close>

lemma poll_books:
  assumes good: "ring_good m n nr" and l: "tracked env (books {#} nr fl calls)" and pend: "cq_pending (nr_r nr) = q # qs"
  shows "\<exists>nr'. poll_turn env idleAfter (spin, nr) = Some (0, nr') \<and> ring_good m n nr' \<and> tracked env (books {#} nr' fl calls) \<and>
    (\<forall>a. keeps (books {#} nr fl calls) a \<longrightarrow> keeps (books {#} nr' fl calls) a) \<and>
    send_step Silent (send_view nr fl calls) (send_view nr' fl calls)"
proof -
  let ?l = "books {#} nr fl calls" and ?r = "(nr_r nr)\<lparr>r_CQHead := r_CQHead (nr_r nr) + 1\<rparr>"
  let ?nr = "nr\<lparr>nr_r := ?r\<rparr>"
  obtain k where inv: "slots_inv k (nr_slots nr)" and sq: "sq_ok m (nr_r nr)" "sq_sized m (nr_r nr)" "cq_ok n (nr_r nr)"
    using good by (auto simp: ring_good_def)
  note turn = poll_turn_ready [OF sq(3) pend, of env idleAfter spin]
  note got = GetTask_Cons(2,3) [OF sq(3) pend]
  have r: "sq_ok m ?r" "sq_sized m ?r" "sq_pending ?r = sq_pending (nr_r nr)"
    using sq(1,2) by (simp_all add: sq_ok_def sq_sized_def sq_pending_def sq_count_def)
  have q: "lg_cqes ?l = add_mset q (mset qs)" by (simp add: books_def pend)
  then have qm: "q \<in># lg_cqes ?l" by simp
  obtain c where c: "lg_live ?l (cqe_UserData q) = Some c" using trackedD(5) [OF l qm] by auto
  then have live: "live (nr_slots nr) (cqe_UserData q) = Some c" by (simp add: books_def)
  have "owned ?l c" using trackedD(2) [OF l tracked_cqe_held [OF qm]] c by (simp add: slot_cell_def)
  then obtain cell where cell: "lg_cells ?l c = Some cell" and own: "tc_opCode cell = opcodeTypeSend \<Longrightarrow> unat (tc_fd cell) < lg_fds ?l"
    by (auto simp: owned_def split: if_splits)
  have cell': "nr_cells nr c = Some cell" using cell by (simp add: books_def)
  show ?thesis
  proof (cases "tc_opCode cell = opcodeTypeSend")
    case False
    let ?nr' = "?nr\<lparr>nr_cells := (nr_cells nr)(c \<mapsto> delivered q cell), nr_ready := nr_ready nr @ woken cell\<rparr>"
    have d: "dispatch_cqe q ?nr = Some ?nr'" using dispatch_cqe_parked [of k ?nr q c cell] inv live cell' False by simp
    have books: "books {#} ?nr' fl calls =
        ?l\<lparr>lg_cqes := mset qs, lg_cells := (lg_cells ?l)(c \<mapsto> delivered q cell), lg_ready := lg_ready ?l @ woken cell\<rparr>"
      by (simp add: books_def got r)
    note step = ledger_read [OF l q c cell False]
    have "sends (books {#} ?nr' fl calls) = sends ?l" unfolding books by (rule ext) (rule sends_read [OF l q c cell False])
    then have "send_step Silent (send_view nr fl calls) (send_view ?nr' fl calls)" by (intro send_view_same) simp_all
    moreover have "ring_good m n ?nr'" using inv r got by (auto simp: ring_good_def)
    ultimately show ?thesis using turn d step books by (intro exI [of _ ?nr']) simp
  next
    case True
    let ?cell = "cell\<lparr>tc_res := cqe_Res q, tc_flags := cqe_Flags q\<rparr>" and ?fd = "unat (tc_fd cell)"
    let ?nr' = "?nr\<lparr>nr_cells := (nr_cells nr)(c \<mapsto> ?cell), nr_pool := c # nr_pool nr, nr_slots := Del (cqe_UserData q) (nr_slots nr),
        nr_sendCells := (nr_sendCells nr)[?fd := record_send (cqe_Res q) (nr_sendCells nr ! ?fd)]\<rparr>"
    have fd: "?fd < length (nr_sendCells nr)" using own [OF True] by (simp add: books_def)
    have d: "dispatch_cqe q ?nr = Some ?nr'"
      using live_not_reserved [OF inv live] Get_live [OF inv live, of 0] cell' True fd
      by (simp add: dispatch_cqe_def Let_def pool_put_def)
    have del: "slots_inv k (Del (cqe_UserData q) (nr_slots nr))"
      "live (Del (cqe_UserData q) (nr_slots nr)) = (live (nr_slots nr))(cqe_UserData q := None)"
      using Del_spec [OF inv live] by auto
    have books: "books {#} ?nr' fl calls = ?l\<lparr>lg_cqes := mset qs, lg_live := (lg_live ?l)(cqe_UserData q := None),
        lg_cells := (lg_cells ?l)(c \<mapsto> cell\<lparr>tc_res := cqe_Res q, tc_flags := cqe_Flags q\<rparr>), lg_pool := c # lg_pool ?l\<rparr>"
      by (simp add: books_def got r del)
    note step = ledger_read_send [OF l q c cell True]
    have S: "sends ?l (tc_fd cell) = add_mset (Answered_with (cqe_Res q)) (sends (books {#} ?nr' fl calls) (tc_fd cell))"
        "sends (books {#} ?nr' fl calls) = (sends ?l)(tc_fd cell := sends (books {#} ?nr' fl calls) (tc_fd cell))"
      unfolding books using sends_read_send [OF l q c cell True, where res = "cqe_Res q" and flags = "cqe_Flags q" and pool = "c # lg_pool ?l"] by (auto simp: fun_eq_iff)
    have "send_step Silent (sends ?l, nr_sendCells nr) ((sends ?l)(tc_fd cell := sends (books {#} ?nr' fl calls) (tc_fd cell)),
        (nr_sendCells nr)[?fd := record_send (cqe_Res q) (nr_sendCells nr ! ?fd)])"
      by (rule ss_read) (rule fd, rule S(1))
    then have "send_step Silent (send_view nr fl calls) (send_view ?nr' fl calls)"
      unfolding send_view_def S(2) [symmetric] by simp
    moreover have "ring_good m n ?nr'" using del r got by (auto simp: ring_good_def)
    ultimately show ?thesis using turn d step books by (intro exI [of _ ?nr']) simp
  qed
qed

text \<open>A call begins; a send is handed in, as itself or as the rest of a partial one.\<close>

lemma begin_books:
  assumes good: "ring_good m n nr" and wake: "wakeups_succeed env" and l: "tracked env (books {#} nr fl calls)"
    and none: "calls g = None" and t: "take_cell g (call_opcode call) (call_fd call) nr = (c, nr1)"
    and sub: "submit env choice (call_task call c) nr1 = Some (True, nr2)"
  defines "calls' \<equiv> calls(g \<mapsto> (Call_sent, call, c))"
  shows "ring_good m n nr2 \<and> tracked env (books {#} nr2 fl calls')"
    and "keeps (books {#} nr fl calls) a \<Longrightarrow> keeps (books {#} nr2 fl calls') (a(g \<mapsto> (call, None)))"
    and "send_step (Began g call) (send_view nr fl calls) (send_view nr2 fl calls')"
proof -
  let ?l = "books {#} nr1 fl calls" and ?t = "call_task call c"
  note take = take_cell_books(2-4) [OF t] and drawn = take_cell_tracked [OF l t]
  have good1: "ring_good m n nr1" using good take(1) by simp
  have idle: "idle_cell ?l (rt_Ctx ?t)" using drawn(2) by simp
  have cell: "lg_cells ?l (rt_Ctx ?t) = Some (armed_cell g (call_opcode call) (call_fd call))"
    using take(2) by (simp add: books_def)
  have none': "lg_calls ?l g = None" using none by (simp add: books_def)
  have books: "books {#?t#} nr1 fl calls' = ?l\<lparr>lg_tasks := add_mset ?t (lg_tasks ?l), lg_calls := (lg_calls ?l)(g \<mapsto> (Call_sent, call, rt_Ctx ?t))\<rparr>"
    by (simp add: books_def calls'_def)
  have l1: "tracked env (books {#?t#} nr1 fl calls')"
    unfolding books
    by (rule ledger_hand_in [OF drawn(1) idle _ cell, where g = g and call = call])
      (use none' in \<open>simp_all add: armed_cell_def\<close>)
  note step = submit_books [OF good1 wake l1 _ sub]
  show "ring_good m n nr2 \<and> tracked env (books {#} nr2 fl calls')" using step by simp
  have off: "\<not> sends_on ?l f (rt_Ctx ?t)" for f
    unfolding sends_on_def cell by (simp add: armed_cell_def)
  have "sends (books {#?t#} nr1 fl calls') f = sends ?l f" for f
    unfolding books sends_hand_in using off by simp
  then have "sends (books {#} nr2 fl calls') = sends (books {#} nr fl calls)" using step drawn(4) by (simp add: fun_eq_iff)
  then show "send_step (Began g call) (send_view nr fl calls) (send_view nr2 fl calls')"
    by (rule send_view_same) (simp_all add: submit_sendCells [OF sub] take(3))
  assume "keeps (books {#} nr fl calls) a"
  then have "keeps (books {#?t#} nr1 fl calls') (a(g \<mapsto> (call, None)))"
    unfolding books by (intro keeps_hand_in(2) [OF idle _ none'] drawn(3))
  then show "keeps (books {#} nr2 fl calls') (a(g \<mapsto> (call, None)))" using step by simp
qed

lemma books_sendCells: "length sc = length (nr_sendCells nr) \<Longrightarrow> books h (nr\<lparr>nr_sendCells := sc\<rparr>) fl calls = books h nr fl calls"
  by (simp add: books_def)

lemma send_books:
  assumes good: "ring_good m n nr" and wake: "wakeups_succeed env" and l: "tracked env (books {#} nr fl calls)"
    and t: "take_cell g opcodeTypeSend fd nr = (c, nr1)" and fd: "unat fd < length (nr_sendCells nr)"
    and task: "rt_Ctx t = c" "rt_Opcode t = opcodeTypeSend"
    and sub: "submit env choice t (nr1\<lparr>nr_sendCells := (nr_sendCells nr1)[i := x]\<rparr>) = Some (accepted, nr2)"
  shows "ring_good m n nr2 \<and> tracked env (books {#} nr2 fl calls) \<and>
    (\<forall>a. keeps (books {#} nr fl calls) a \<longrightarrow> keeps (books {#} nr2 fl calls) a)"
    and "send_view nr2 fl calls = (if accepted
      then (sends (books {#} nr fl calls))(fd := add_mset (Asked (rt_Payload t) (rt_Len t)) (sends (books {#} nr fl calls) fd))
      else sends (books {#} nr fl calls), (nr_sendCells nr)[i := x])"
proof -
  let ?nr = "nr1\<lparr>nr_sendCells := (nr_sendCells nr1)[i := x]\<rparr>" and ?l = "books {#} nr1 fl calls"
  note take = take_cell_books(2-4) [OF t] and drawn = take_cell_tracked [OF l t]
  have same: "books h ?nr fl calls = books h nr1 fl calls" "ring_good m n ?nr = ring_good m n nr" for h
    using take(1) by (simp_all add: books_sendCells)
  have q: "queues t" using task by (simp add: queues_def)
  have cells: "nr_sendCells nr2 = (nr_sendCells nr)[i := x]" using submit_sendCells [OF sub] take(3) by simp
  have "(ring_good m n nr2 \<and> tracked env (books {#} nr2 fl calls) \<and>
      (\<forall>a. keeps (books {#} nr fl calls) a \<longrightarrow> keeps (books {#} nr2 fl calls) a)) \<and>
    sends (books {#} nr2 fl calls) = (if accepted
      then (sends (books {#} nr fl calls))(fd := add_mset (Asked (rt_Payload t) (rt_Len t)) (sends (books {#} nr fl calls) fd))
      else sends (books {#} nr fl calls))"
  proof (cases accepted)
    case False
    then show ?thesis
      using submit_refused_books [OF q, of env choice ?nr nr2] sub same drawn(1,3,4) good by simp
  next
    case True
    have idle: "idle_cell ?l (rt_Ctx t)" using drawn(2) task by simp
    have cell: "lg_cells ?l (rt_Ctx t) = Some (armed_cell g opcodeTypeSend fd)" using take(2) task by (simp add: books_def)
    have books: "books {#t#} nr1 fl calls = ?l\<lparr>lg_tasks := add_mset t (lg_tasks ?l), lg_calls := lg_calls ?l\<rparr>"
      by (simp add: books_def)
    have l1: "tracked env (books {#t#} nr1 fl calls)"
      unfolding books
      by (rule ledger_hand_in [OF drawn(1) idle q cell]) (use task fd take(3) in \<open>simp_all add: armed_cell_def books_def\<close>)
    have k1: "keeps (books {#t#} nr1 fl calls) a" if "keeps (books {#} nr fl calls) a" for a
      unfolding books by (intro keeps_hand_in(1) [OF idle] drawn(3) that)
    have on: "sends_on ?l f (rt_Ctx t) \<longleftrightarrow> f = fd" for f unfolding sends_on_def cell by (auto simp: armed_cell_def)
    have s1: "sends (books {#t#} nr1 fl calls) = (sends ?l)(fd := add_mset (Asked (rt_Payload t) (rt_Len t)) (sends ?l fd))"
      by (rule ext) (simp only: books sends_hand_in on, simp)
    show ?thesis
      using submit_books [OF _ wake _ q, of m n ?nr fl calls choice nr2] sub True l1 k1 s1 good take(1) drawn(4) by (simp add: same)
  qed
  then show "ring_good m n nr2 \<and> tracked env (books {#} nr2 fl calls) \<and>
      (\<forall>a. keeps (books {#} nr fl calls) a \<longrightarrow> keeps (books {#} nr2 fl calls) a)"
    and "send_view nr2 fl calls = (if accepted
      then (sends (books {#} nr fl calls))(fd := add_mset (Asked (rt_Payload t) (rt_Len t)) (sends (books {#} nr fl calls) fd))
      else sends (books {#} nr fl calls), (nr_sendCells nr)[i := x])"
    by (simp_all add: send_view_def cells)
qed

lemma previousSendWait_books:
  assumes good: "ring_good m n nr" and wake: "wakeups_succeed env" and l: "tracked env (books {#} nr fl calls)"
    and pass: "previousSendWait_pass env choice g fd nr = Some (out, nr')"
  shows "ring_good m n nr' \<and> tracked env (books {#} nr' fl calls) \<and>
    (\<forall>a. keeps (books {#} nr fl calls) a \<longrightarrow> keeps (books {#} nr' fl calls) a)"
    and "out = Wait_return None \<Longrightarrow> nr' = nr \<and> unat fd < length (nr_sendCells nr) \<and> may_send (nr_sendCells nr ! unat fd)"
    and "send_step Silent (send_view nr fl calls) (send_view nr' fl calls)"
proof -
  let ?sc = "nr_sendCells nr ! unat fd"
  obtain c nr1 where t: "take_cell g opcodeTypeSend fd nr = (c, nr1)" by fastforce
  let ?sub = "submit env choice (compensation_task c ?sc) (nr1\<lparr>nr_sendCells := (nr_sendCells nr1)[unat fd := compensate ?sc]\<rparr>)"
  have cases: "nr' = nr \<and> unat fd < length (nr_sendCells nr) \<and> (out = Wait_return None \<longrightarrow> may_send ?sc) \<or>
      (\<exists>accepted. ?sub = Some (accepted, nr') \<and> out \<noteq> Wait_return None \<and> unat fd < length (nr_sendCells nr) \<and> needs_rest ?sc)"
  proof (cases "sint fd < 0 \<or> length (nr_sendCells nr) \<le> unat fd")
    case True
    then show ?thesis using pass by (auto simp: previousSendWait_pass_def)
  next
    case False
    then have fd: "unat fd < length (nr_sendCells nr)" by simp
    show ?thesis
    proof (cases "needs_rest ?sc")
      case True
      then have "previousSendWait_pass env choice g fd nr = (case ?sub of None \<Rightarrow> None | Some (True, nr3) \<Rightarrow> Some (Wait_again, nr3)
          | Some (False, nr3) \<Rightarrow> Some (Wait_return (Some (Compensation_failed (sc_err (nr_sendCells nr3 ! unat fd)))), nr3))"
        using False by (simp add: previousSendWait_pass_def t Let_def needs_rest_def)
      moreover have "\<exists>accepted. ?sub = Some (accepted, nr') \<and> out \<noteq> Wait_return None"
        if "(case ?sub of None \<Rightarrow> None | Some (True, nr3) \<Rightarrow> Some (Wait_again, nr3)
          | Some (False, nr3) \<Rightarrow> Some (Wait_return (Some (Compensation_failed (sc_err (nr_sendCells nr3 ! unat fd)))), nr3)) = Some (out, nr')"
      proof (cases ?sub)
        case (Some r)
        then show ?thesis using that by (cases r; cases "fst r") auto
      qed (use that in simp)
      ultimately show ?thesis using pass fd True by simp
    next
      case spin: False
      then have "nr' = nr \<and> (out = Wait_return None \<longrightarrow> may_send ?sc)"
        using pass False by (cases "sc_err ?sc") (auto simp: previousSendWait_pass_def needs_rest_def may_send_def Let_def split: if_splits)
      then show ?thesis using fd by simp
    qed
  qed
  then show "out = Wait_return None \<Longrightarrow> nr' = nr \<and> unat fd < length (nr_sendCells nr) \<and> may_send ?sc" by auto
  have "(ring_good m n nr' \<and> tracked env (books {#} nr' fl calls) \<and>
      (\<forall>a. keeps (books {#} nr fl calls) a \<longrightarrow> keeps (books {#} nr' fl calls) a)) \<and>
    send_step Silent (send_view nr fl calls) (send_view nr' fl calls)"
  proof (cases "nr' = nr")
    case True
    then show ?thesis using good l by (simp add: send_view_same)
  next
    case False
    then obtain accepted where sub: "?sub = Some (accepted, nr')" and fd: "unat fd < length (nr_sendCells nr)" and need: "needs_rest ?sc"
      using cases by blast
    have task: "rt_Ctx (compensation_task c ?sc) = c" "rt_Opcode (compensation_task c ?sc) = opcodeTypeSend"
      by (simp_all add: compensation_task_def)
    note step = send_books [OF good wake l t fd task sub]
    have "send_step Silent (send_view nr fl calls) (send_view nr' fl calls)"
      unfolding step(2) unfolding send_view_def using ss_rest [OF fd need refl] ss_rest_refused [OF fd need]
      by (simp add: compensation_task_def)
    then show ?thesis using step(1) by simp
  qed
  then show "ring_good m n nr' \<and> tracked env (books {#} nr' fl calls) \<and>
      (\<forall>a. keeps (books {#} nr fl calls) a \<longrightarrow> keeps (books {#} nr' fl calls) a)"
    and "send_step Silent (send_view nr fl calls) (send_view nr' fl calls)" by simp_all
qed

lemma Send_books:
  assumes good: "ring_good m n nr" and wake: "wakeups_succeed env" and l: "tracked env (books {#} nr fl calls)"
    and pass: "Send_pass env choice g fd ptr len nr = Some (out, nr')"
  shows "ring_good m n nr' \<and> tracked env (books {#} nr' fl calls) \<and>
    (\<forall>a. keeps (books {#} nr fl calls) a \<longrightarrow> keeps (books {#} nr' fl calls) a) \<and>
    send_step (if out = Wait_return None \<and> len \<noteq> 0 then Sent fd ptr len else Silent) (send_view nr fl calls) (send_view nr' fl calls)"
proof (cases "sint fd < 0 \<or> 65535 < sint fd \<or> len = 0")
  case True
  then have "nr' = nr" "\<not> (out = Wait_return None \<and> len \<noteq> 0)" using pass by (auto simp: Send_pass_def split: if_splits)
  then show ?thesis using good l by (simp add: send_view_same)
next
  case False
  obtain w nr0 where w: "previousSendWait_pass env choice g fd nr = Some (w, nr0)"
    using pass False by (auto simp: Send_pass_def split: option.splits)
  note step = previousSendWait_books [OF good wake l w]
  show ?thesis
  proof (cases "w = Wait_return None")
    case True
    obtain c nr1 where t: "take_cell g opcodeTypeSend fd nr = (c, nr1)" by fastforce
    let ?nr = "nr1\<lparr>nr_sendCells := (nr_sendCells nr1)[unat fd := start_send ptr len (nr_sendCells nr1 ! unat fd)]\<rparr>"
    have fd: "nr0 = nr" "unat fd < length (nr_sendCells nr)" "may_send (nr_sendCells nr ! unat fd)" using step(2) [OF True] by simp_all
    obtain accepted where sub: "submit env choice (send_task c ptr len) ?nr = Some (accepted, nr')"
      and out: "out = (if accepted then Wait_return None else Wait_return (Some Failed_to_submit))"
    proof (cases "submit env choice (send_task c ptr len) ?nr")
      case None
      then show ?thesis using pass False by (simp add: Send_pass_def w True fd(1) t)
    next
      case (Some r)
      then show ?thesis using pass False that by (cases r; cases "fst r") (simp_all add: Send_pass_def w True fd(1) t)
    qed
    have task: "rt_Ctx (send_task c ptr len) = c" "rt_Opcode (send_task c ptr len) = opcodeTypeSend"
      by (simp_all add: send_task_def)
    note sent = send_books [OF good wake l t fd(2) task sub]
    have "send_step (if accepted then Sent fd ptr len else Silent) (send_view nr fl calls) (send_view nr' fl calls)"
      unfolding sent(2) unfolding send_view_def take_cell_frame(1) [OF t]
      using ss_start [OF fd(2,3)] ss_start_refused [OF fd(2,3)] by (simp add: send_task_def)
    then show ?thesis using sent(1) False out by (cases accepted) simp_all
  next
    case other: False
    then have "nr' = nr0 \<and> out \<noteq> Wait_return None"
      using pass False w by (auto simp: Send_pass_def split: wait_out.splits option.splits)
    then show ?thesis using step(1,3) by simp
  qed
qed

text \<open>The end of a call, and the operations on buffers.\<close>

lemma received_view_received:
  assumes "received_view sizeClass cell nr = Some v" and "0 \<le> sint (tc_res cell)" and "tc_res cell \<noteq> 0"
  shows "map_sum id Some v = received sizeClass (tc_res cell) (tc_flags cell) (nr_pbrs nr)"
  using assms
  by (auto simp: received_view_def received_def kernel_error_def Buffer_def Let_def split: if_splits option.splits)

lemma cell_error_none: "tc_err cell = None \<Longrightarrow> cell_error cell = kernel_error (tc_res cell)"
  by (simp add: cell_error_def kernel_error_def kernelResultToError_def)

lemma call_finish_books:
  assumes "call_finish senv tr call c nr = Some (out, nr')"
  shows "\<exists>cell. nr_cells nr c = Some cell \<and> ring_good m n nr' = ring_good m n nr \<and>
    books h nr' fl calls = (books h nr fl calls)\<lparr>lg_pool := c # nr_pool nr\<rparr> \<and>
    (tc_err cell = None \<longrightarrow> out = call_outcome call (tc_res cell) (tc_flags cell) (nr_pbrs nr))"
proof -
  have put: "books h (pool_put c nr2) fl calls = (books h nr2 fl calls)\<lparr>lg_pool := c # nr_pool nr2\<rparr>" for nr2
    by (simp add: books_def pool_put_def)
  obtain cell where cell: "nr_cells nr c = Some cell"
    using assms by (cases call) (auto simp: Accept_finish_def Connect_finish_def Close_finish_def finish_op_def
        Recv_finish_def Read_finish_def split: option.splits)
  have err: "0 \<le> sint (tc_res cell)" if "kernel_error (tc_res cell) = None"
    using that by (auto simp: kernel_error_def split: if_splits)
  show ?thesis
  proof (cases call)
    case (Call_recv fd sizeClass)
    then show ?thesis using assms cell cell_error_none [of cell] err received_view_received [of sizeClass cell nr]
      by (auto simp: Recv_finish_def put received_def split: option.splits if_splits)
  next
    case (Call_read fd sizeClass)
    then show ?thesis using assms cell cell_error_none [of cell] err received_view_received [of sizeClass cell nr]
      by (auto simp: Read_finish_def put received_def Let_def split: option.splits if_splits)
  qed (use assms cell cell_error_none [of cell] in
      \<open>auto simp: Accept_finish_def Connect_finish_def Close_finish_def finish_op_def put split: option.splits sum.splits\<close>)
qed

section \<open>Every step\<close>

definition sys_good :: "uring_env \<Rightarrow> nat \<Rightarrow> nat \<Rightarrow> ring_sys \<Rightarrow> bool" where
  "sys_good env m n s \<longleftrightarrow> ring_good m n (sy_nr s) \<and> tracked env (books {#} (sy_nr s) (sy_flight s) (sy_calls s))"

definition sys_keeps :: "ring_sys \<Rightarrow> promise \<Rightarrow> bool" where
  "sys_keeps s a \<longleftrightarrow> keeps (books {#} (sy_nr s) (sy_flight s) (sy_calls s)) a"

definition sys_sends :: "ring_sys \<Rightarrow> send_table" where
  "sys_sends s = send_view (sy_nr s) (sy_flight s) (sy_calls s)"

lemma call_finish_sendCells: "call_finish senv tr call c nr = Some (out, nr') \<Longrightarrow> nr_sendCells nr' = nr_sendCells nr"
  by (cases call) (auto simp: Accept_finish_def Connect_finish_def Close_finish_def finish_op_def Recv_finish_def Read_finish_def
      pool_put_def Let_def split: option.splits sum.splits if_splits)

lemma fallback_push_sendCells: "fallback_push env t nr = Some nr' \<Longrightarrow> nr_sendCells nr' = nr_sendCells nr"
  by (auto simp: fallback_push_def dest!: dispatch_sendCells split: if_splits)

lemma fallback_pushes_sendCells: "fallback_pushes j env t M nr = Some nr' \<Longrightarrow> nr_sendCells nr' = nr_sendCells nr"
proof (induction j arbitrary: t M nr)
  case (Suc j)
  obtain nr1 where p: "fallback_push env t nr = Some nr1" using Suc.prems by (cases "fallback_push env t nr") auto
  show ?case using Suc.prems Suc.IH fallback_push_sendCells [OF p] unfolding fallback_pushes_turn [OF p]
    by (fastforce split: if_splits list.splits)
qed simp

lemma fallback_round_sendCells: "fallback_round j env t nr = Some (released, nr') \<Longrightarrow> nr_sendCells nr' = nr_sendCells nr"
  by (auto simp: fallback_round_def fallback_finish_def Let_def dest!: fallback_pushes_sendCells split: option.splits prod.splits if_splits)

text \<open>A step that only changes the state of the ring, in a way the ledger does not see.\<close>

lemma register_books:
  "RegisterBufferRing_op senv sizeClass capacity (nr, tr) = Some (err, nr', tr') \<Longrightarrow>
    books h nr' fl calls = books h nr fl calls \<and> ring_good m n nr' = ring_good m n nr \<and> nr_sendCells nr' = nr_sendCells nr"
  "UnregisterBufferRing_op senv sizeClass (nr, tr) = Some (err, nr', tr') \<Longrightarrow>
    books h nr' fl calls = books h nr fl calls \<and> ring_good m n nr' = ring_good m n nr \<and> nr_sendCells nr' = nr_sendCells nr"
  by (auto simp: RegisterBufferRing_op_def UnregisterBufferRing_op_def Let_def
      split: option.splits if_splits prod.splits sum.splits)

lemma release_books:
  "ReleaseBuffer_op env sizeClass v nr = Some nr' \<Longrightarrow>
    books h nr' fl calls = books h nr fl calls \<and> ring_good m n nr' = ring_good m n nr \<and> nr_sendCells nr' = nr_sendCells nr"
  by (auto simp: ReleaseBuffer_op_def submit_def release_task_def Let_def split: if_splits option.splits sum.splits)

lemma post_step:
  assumes good: "sys_good env m n s" and k: "sys_keeps s a" and flight: "sy_flight s = es1 @ e # es2"
    and post: "kernel_posts n (nr_r (sy_nr s)) \<lparr>cqe_UserData = sqe_UserData e, cqe_Res = res, cqe_Flags = flags\<rparr> r'"
  defines "s' \<equiv> s\<lparr>sy_nr := (sy_nr s)\<lparr>nr_r := r'\<rparr>, sy_flight := es1 @ es2\<rparr>"
  shows "sys_good env m n s'" "\<exists>a'. spec_step env a (Answered e res flags) a' \<and> sys_keeps s' a'"
    "send_step (Answered e res flags) (sys_sends s) (sys_sends s')"
proof -
  let ?l = "books {#} (sy_nr s) (sy_flight s) (sy_calls s)"
  let ?q = "\<lparr>cqe_UserData = sqe_UserData e, cqe_Res = res, cqe_Flags = flags\<rparr>"
  have l: "tracked env ?l" and g: "ring_good m n (sy_nr s)" using good by (simp_all add: sys_good_def)
  obtain buf tail where r': "r' = (nr_r (sy_nr s))\<lparr>r_CQ := buf, r_CQTail := tail\<rparr>" "cq_ok n r'"
    "cq_pending r' = cq_pending (nr_r (sy_nr s)) @ [?q]" using post by (auto simp: kernel_posts_def)
  have e: "lg_entries ?l = add_mset e (mset (sq_pending (nr_r (sy_nr s))) + mset (es1 @ es2))" by (simp add: books_def flight)
  have sq: "sq_pending r' = sq_pending (nr_r (sy_nr s))" "sq_ok m r' = sq_ok m (nr_r (sy_nr s))" "sq_sized m r' = sq_sized m (nr_r (sy_nr s))"
    by (simp_all add: r'(1) sq_pending_def sq_ok_def sq_sized_def sq_count_def)
  have books: "books {#} (sy_nr s') (sy_flight s') (sy_calls s') =
      ?l\<lparr>lg_entries := mset (sq_pending (nr_r (sy_nr s))) + mset (es1 @ es2), lg_cqes := add_mset ?q (lg_cqes ?l)\<rparr>"
    by (simp add: s'_def books_def sq r'(3))
  have ud: "cqe_UserData ?q = sqe_UserData e" by simp
  note step = ledger_post [OF l e ud]
  have "ring_good m n (sy_nr s')" using g sq r'(2) by (auto simp: ring_good_def s'_def)
  then show "sys_good env m n s'" using step(1) by (simp add: sys_good_def books)
  show "\<exists>a'. spec_step env a (Answered e res flags) a' \<and> sys_keeps s' a'"
    using step(2) k by (simp add: sys_keeps_def books)
  have em: "e \<in># lg_entries ?l" using e by simp
  have cells: "nr_sendCells (sy_nr s') = nr_sendCells (sy_nr s)" by (simp add: s'_def)
  note sends = sends_post [OF e ud, folded books]
  show "send_step (Answered e res flags) (sys_sends s) (sys_sends s')"
    using entry_send [OF l em]
  proof
    assume "\<exists>fd. unat fd < lg_fds ?l \<and> sqe_Opcode e = OpSend \<and> sqe_FD e = ucast fd \<and>
      (\<forall>f. sends_on ?l f (slot_cell ?l (sqe_UserData e)) \<longleftrightarrow> f = fd)"
    then obtain fd where fd: "unat fd < length (nr_sendCells (sy_nr s))" "sqe_Opcode e = OpSend" "sqe_FD e = ucast fd"
      "\<And>f. sends_on ?l f (slot_cell ?l (sqe_UserData e)) \<longleftrightarrow> f = fd" by (auto simp: books_def)
    obtain R where R: "sends ?l fd = add_mset (Asked (sqe_Addr e) (sqe_Len e)) R"
      "sends (books {#} (sy_nr s') (sy_flight s') (sy_calls s')) fd = add_mset (Answered_with res) R"
      using sends [of fd] fd(4) by auto
    have "sends (books {#} (sy_nr s') (sy_flight s') (sy_calls s')) f = sends ?l f" if "f \<noteq> fd" for f
      using sends [of f] fd(4) that by auto
    then have S: "sends (books {#} (sy_nr s') (sy_flight s') (sy_calls s')) = (sends ?l)(fd := add_mset (Answered_with res) R)"
      using R(2) by (auto simp: fun_eq_iff)
    show ?thesis unfolding sys_sends_def send_view_def S cells by (rule ss_answer) (rule fd(1), rule fd(2), rule fd(3), rule R(1))
  next
    assume other: "sqe_Opcode e \<noteq> OpSend \<and> (\<forall>f. \<not> sends_on ?l f (slot_cell ?l (sqe_UserData e)))"
    then have "sends (books {#} (sy_nr s') (sy_flight s') (sy_calls s')) f = sends ?l f" for f using sends [of f] by auto
    then show ?thesis unfolding sys_sends_def by (intro send_view_same) (use other cells in \<open>simp_all add: fun_eq_iff\<close>)
  qed
qed

lemma take_step:
  assumes good: "sys_good env m n s" and j: "j \<le> sq_count (nr_r (sy_nr s))"
  defines "s' \<equiv> s\<lparr>sy_nr := (sy_nr s)\<lparr>nr_r := (nr_r (sy_nr s))\<lparr>r_SQHead := r_SQHead (nr_r (sy_nr s)) + of_nat j\<rparr>\<rparr>,
    sy_flight := sy_flight s @ take j (sq_pending (nr_r (sy_nr s)))\<rparr>"
  shows "sys_good env m n s'" "sys_keeps s a \<Longrightarrow> sys_keeps s' a" "send_step Silent (sys_sends s) (sys_sends s')"
proof -
  let ?r = "nr_r (sy_nr s)"
  have g: "ring_good m n (sy_nr s)" using good by (simp add: sys_good_def)
  then have sq: "sq_ok m ?r" by (simp add: ring_good_def)
  note adv = sq_pending_advance [OF sq j]
  have "mset (sq_pending ?r) = mset (take j (sq_pending ?r)) + mset (drop j (sq_pending ?r))"
    by (metis append_take_drop_id mset_append)
  moreover have "cq_pending (?r\<lparr>r_SQHead := h\<rparr>) = cq_pending ?r" "cq_ok n (?r\<lparr>r_SQHead := h\<rparr>) = cq_ok n ?r"
    "sq_sized m (?r\<lparr>r_SQHead := h\<rparr>) = sq_sized m ?r" for h
    by (simp_all add: cq_pending_def cq_ok_def cq_count_def sq_sized_def)
  ultimately have "books {#} (sy_nr s') (sy_flight s') (sy_calls s') = books {#} (sy_nr s) (sy_flight s) (sy_calls s)"
    "ring_good m n (sy_nr s')"
    using g adv by (auto simp: s'_def books_def ring_good_def)
  then show "sys_good env m n s'" "sys_keeps s a \<Longrightarrow> sys_keeps s' a" "send_step Silent (sys_sends s) (sys_sends s')"
    using good by (simp_all add: sys_good_def sys_keeps_def sys_sends_def send_view_same s'_def)
qed

lemma park_step:
  assumes good: "sys_good env m n s" and c: "sy_calls s g = Some (Call_sent, call, c)"
    and park: "park_cell c (sy_nr s) = Some (sleeps, nr')"
  defines "s' \<equiv> s\<lparr>sy_nr := nr', sy_calls := (sy_calls s)(g \<mapsto> (if sleeps then Call_asleep else Call_resumed, call, c))\<rparr>"
  shows "sys_good env m n s'" "sys_keeps s a \<Longrightarrow> sys_keeps s' a" "send_step Silent (sys_sends s) (sys_sends s')"
proof -
  let ?l = "books {#} (sy_nr s) (sy_flight s) (sy_calls s)"
  have l: "tracked env ?l" using good by (simp add: sys_good_def)
  obtain cell st where cell: "nr_cells (sy_nr s) c = Some cell" "netringParkUnlock (tc_taskState cell) = (st, sleeps)"
    "nr' = (sy_nr s)\<lparr>nr_cells := (nr_cells (sy_nr s))(c \<mapsto> cell\<lparr>tc_taskState := st\<rparr>)\<rparr>"
    using park by (auto simp: park_cell_def split: option.splits prod.splits)
  have gc: "lg_calls ?l g = Some (Call_sent, call, c)" "lg_cells ?l c = Some cell" using c cell(1) by (simp_all add: books_def)
  have books: "books {#} (sy_nr s') (sy_flight s') (sy_calls s') = ?l\<lparr>lg_cells := (lg_cells ?l)(c \<mapsto> cell\<lparr>tc_taskState := st\<rparr>),
      lg_calls := (lg_calls ?l)(g \<mapsto> (if sleeps then Call_asleep else Call_resumed, call, c))\<rparr>"
    by (simp add: s'_def books_def cell(3))
  note step = ledger_park [OF l gc cell(2)]
  have "sends (books {#} (sy_nr s') (sy_flight s') (sy_calls s')) f = sends ?l f" for f
    unfolding books by (rule sends_frame) (use gc(2) in \<open>auto simp: sends_on_def\<close>)
  then show "send_step Silent (sys_sends s) (sys_sends s')"
    unfolding sys_sends_def by (intro send_view_same) (simp_all add: fun_eq_iff s'_def cell(3))
  have "ring_good m n (sy_nr s')" using good by (simp add: sys_good_def s'_def cell(3))
  then show "sys_good env m n s'" using step(1) by (simp add: sys_good_def books)
  show "sys_keeps s' a" if "sys_keeps s a" using step(2) that by (simp add: sys_keeps_def books)
qed

lemma wake_step:
  assumes good: "sys_good env m n s" and c: "sy_calls s g = Some (Call_asleep, call, c)" and ready: "g \<in> set (nr_ready (sy_nr s))"
  defines "s' \<equiv> s\<lparr>sy_nr := (sy_nr s)\<lparr>nr_ready := remove1 g (nr_ready (sy_nr s))\<rparr>,
    sy_calls := (sy_calls s)(g \<mapsto> (Call_resumed, call, c))\<rparr>"
  shows "sys_good env m n s'" "sys_keeps s a \<Longrightarrow> sys_keeps s' a" "send_step Silent (sys_sends s) (sys_sends s')"
proof -
  let ?l = "books {#} (sy_nr s) (sy_flight s) (sy_calls s)"
  have l: "tracked env ?l" using good by (simp add: sys_good_def)
  have gc: "lg_calls ?l g = Some (Call_asleep, call, c)" "g \<in> set (lg_ready ?l)" using c ready by (simp_all add: books_def)
  have books: "books {#} (sy_nr s') (sy_flight s') (sy_calls s') = ?l\<lparr>lg_ready := remove1 g (lg_ready ?l),
      lg_calls := (lg_calls ?l)(g \<mapsto> (Call_resumed, call, c))\<rparr>"
    by (simp add: s'_def books_def)
  note step = ledger_wake [OF l gc]
  have "sends (books {#} (sy_nr s') (sy_flight s') (sy_calls s')) f = sends ?l f" for f
    unfolding books by (rule sends_frame) (auto simp: sends_on_def)
  then show "send_step Silent (sys_sends s) (sys_sends s')"
    unfolding sys_sends_def by (intro send_view_same) (simp_all add: fun_eq_iff s'_def)
  have "ring_good m n (sy_nr s')" using good by (simp add: sys_good_def s'_def)
  then show "sys_good env m n s'" using step(1) by (simp add: sys_good_def books)
  show "sys_keeps s' a" if "sys_keeps s a" using step(2) that by (simp add: sys_keeps_def books)
qed

lemma end_step:
  assumes good: "sys_good env m n s" and k: "sys_keeps s a" and c: "sy_calls s g = Some (Call_resumed, call, c)"
    and fin: "call_finish senv tr call c (sy_nr s) = Some (out, nr')"
  defines "s' \<equiv> s\<lparr>sy_nr := nr', sy_calls := (sy_calls s)(g := None)\<rparr>"
  shows "sys_good env m n s'" "spec_step env a (Ended g (nr_pbrs (sy_nr s)) out) (a(g := None))" "sys_keeps s' (a(g := None))"
    "send_step (Ended g rings out) (sys_sends s) (sys_sends s')"
proof -
  let ?l = "books {#} (sy_nr s) (sy_flight s) (sy_calls s)"
  have l: "tracked env ?l" and kl: "keeps ?l a" using good k by (simp_all add: sys_good_def sys_keeps_def)
  have gc: "lg_calls ?l g = Some (Call_resumed, call, c)" using c by (simp add: books_def)
  from call_finish_books [OF fin, where m = m and n = n and h = "{#}" and fl = "sy_flight s" and calls = "(sy_calls s)(g := None)"]
  obtain cell where cell: "nr_cells (sy_nr s) c = Some cell" "ring_good m n nr' = ring_good m n (sy_nr s)"
    "books {#} nr' (sy_flight s) ((sy_calls s)(g := None)) =
      (books {#} (sy_nr s) (sy_flight s) ((sy_calls s)(g := None)))\<lparr>lg_pool := c # nr_pool (sy_nr s)\<rparr>"
    "tc_err cell = None \<longrightarrow> out = call_outcome call (tc_res cell) (tc_flags cell) (nr_pbrs (sy_nr s))"
    by (elim exE conjE)
  have lc: "lg_cells ?l c = Some cell" using cell(1) by (simp add: books_def)
  have books: "books {#} (sy_nr s') (sy_flight s') (sy_calls s') = ?l\<lparr>lg_pool := c # lg_pool ?l, lg_calls := (lg_calls ?l)(g := None)\<rparr>"
    by (simp add: s'_def cell(3)) (simp add: books_def)
  have "sends (books {#} (sy_nr s') (sy_flight s') (sy_calls s')) f = sends ?l f" for f
    unfolding books by (rule sends_frame) (auto simp: sends_on_def)
  then show "send_step (Ended g rings out) (sys_sends s) (sys_sends s')"
    unfolding sys_sends_def by (intro send_view_same) (simp_all add: fun_eq_iff s'_def call_finish_sendCells [OF fin])
  note step = ledger_end(2) [OF l gc kl lc]
  have ag: "a g = Some (call, Some (tc_res cell, tc_flags cell))" and err: "tc_err cell = None"
    and keep: "keeps (?l\<lparr>lg_pool := c # lg_pool ?l, lg_calls := (lg_calls ?l)(g := None)\<rparr>) (a(g := None))"
    using step by blast+
  show "spec_step env a (Ended g (nr_pbrs (sy_nr s)) out) (a(g := None))"
    unfolding cell(4) [rule_format, OF err] by (rule spec_end) (rule ag)
  show "sys_keeps s' (a(g := None))" unfolding sys_keeps_def books by (rule keep)
  have "ring_good m n (sy_nr s')" using good cell(2) by (simp add: sys_good_def s'_def)
  then show "sys_good env m n s'" using ledger_end(1) [OF l gc] by (simp add: sys_good_def books)
qed

lemma poll_step:
  assumes good: "sys_good env m n s" and turn: "poll_turn env idleAfter (sy_spin s, sy_nr s) = Some (spin', nr')"
    and busy: "cq_pending (nr_r (sy_nr s)) \<noteq> [] \<or> sy_spin s + 1 < idleAfter"
  defines "s' \<equiv> s\<lparr>sy_nr := nr', sy_spin := spin'\<rparr>"
  shows "sys_good env m n s'" "sys_keeps s a \<Longrightarrow> sys_keeps s' a" "send_step Silent (sys_sends s) (sys_sends s')"
proof -
  have l: "tracked env (books {#} (sy_nr s) (sy_flight s) (sy_calls s))" and g: "ring_good m n (sy_nr s)"
    using good by (simp_all add: sys_good_def)
  have "sys_good env m n s' \<and> (sys_keeps s a \<longrightarrow> sys_keeps s' a) \<and> send_step Silent (sys_sends s) (sys_sends s')"
  proof (cases "cq_pending (nr_r (sy_nr s))")
    case Nil
    then have "nr' = sy_nr s" using turn busy GetTask_empty [OF Nil] by (simp add: poll_turn_def Let_def)
    then show ?thesis using good by (simp add: sys_good_def sys_keeps_def sys_sends_def send_view_same s'_def)
  next
    case (Cons q qs)
    show ?thesis using poll_books [OF g l Cons, where idleAfter = idleAfter and spin = "sy_spin s"] turn
      by (auto simp: sys_good_def sys_keeps_def sys_sends_def s'_def)
  qed
  then show "sys_good env m n s'" "sys_keeps s a \<Longrightarrow> sys_keeps s' a" "send_step Silent (sys_sends s) (sys_sends s')" by simp_all
qed

text \<open>Every step but a misfiring one keeps the ledger, is allowed by the promises and is a step of the sends.\<close>

lemma system_step:
  assumes step: "ring_step env senv idleAfter n s ev s'" and wake: "wakeups_succeed env" and calm: "ev \<noteq> Misfired"
    and good: "sys_good env m n s" and k: "sys_keeps s a"
  shows "sys_good env m n s' \<and> (\<exists>a'. spec_step env a ev a' \<and> sys_keeps s' a') \<and> send_step ev (sys_sends s) (sys_sends s')"
proof -
  let ?l = "books {#} (sy_nr s) (sy_flight s) (sy_calls s)"
  have g: "ring_good m n (sy_nr s)" and l: "tracked env ?l" and kl: "keeps ?l a"
    using good k by (simp_all add: sys_good_def sys_keeps_def)
  have same: ?thesis if "ev = Silent" "sys_good env m n s'" "sys_keeps s' a" "send_step Silent (sys_sends s) (sys_sends s')"
    using that spec_silent [of env a] by auto
  have buffers: ?thesis if ev: "spec_step env a ev a" "\<not> about_sends ev" and nr': "s' = s\<lparr>sy_nr := nr'\<rparr>"
    "books {#} nr' (sy_flight s) (sy_calls s) = ?l \<and> ring_good m n nr' = ring_good m n (sy_nr s) \<and> nr_sendCells nr' = nr_sendCells (sy_nr s)" for nr'
  proof -
    have "send_step ev (sys_sends s) (sys_sends s')" unfolding sys_sends_def by (rule send_view_same) (use ev nr' in simp_all)
    then show ?thesis using ev(1) nr' good k by (auto simp: sys_good_def sys_keeps_def)
  qed
  have inner: ?thesis if "ev = Silent" "ring_good m n (sy_nr s')" "tracked env (books {#} (sy_nr s') (sy_flight s') (sy_calls s'))"
    "keeps (books {#} (sy_nr s') (sy_flight s') (sy_calls s')) a"
    "send_step Silent (sys_sends s) (send_view (sy_nr s') (sy_flight s') (sy_calls s'))"
    using same that by (simp add: sys_good_def sys_keeps_def sys_sends_def)
  have quiet: "send_step Silent (sys_sends s) (send_view nr' (sy_flight s) (sy_calls s))"
    if "sends (books {#} nr' (sy_flight s) (sy_calls s)) = sends ?l" "nr_sendCells nr' = nr_sendCells (sy_nr s)" for nr'
    unfolding sys_sends_def by (intro send_view_same that) simp
  show ?thesis
    using step
  proof (cases rule: ring_step.cases)
    case (rs_begin h call c nr1 choice nr2)
    note b = begin_books [OF g wake l rs_begin(3,5,6)]
    have "a h = None" using kl rs_begin(3) by (auto simp: keeps_def books_def dest: spec [of _ h])
    then show ?thesis using b(1) b(2) [OF kl] b(3) spec_begin [of a h env call]
      by (auto simp: rs_begin(1,2) sys_good_def sys_keeps_def sys_sends_def)
  next
    case (rs_refused call h c nr1 choice nr2)
    note t = take_cell_tracked [OF l rs_refused(4)] take_cell_books(2,4) [OF rs_refused(4)]
    note r = submit_refused_books [OF call_opcode_parks(2) rs_refused(5)]
    show ?thesis using t r kl g submit_sendCells [OF rs_refused(5)] by (intro inner) (simp_all add: rs_refused(1,2) quiet)
  next
    case (rs_park h call c sleeps nr')
    show ?thesis using park_step [OF good rs_park(3,4)] k by (intro same) (simp_all add: rs_park(1,2))
  next
    case (rs_wake h call c)
    show ?thesis using wake_step [OF good rs_wake(3,4)] k by (intro same) (simp_all add: rs_wake(1,2))
  next
    case (rs_end h call c tr out nr')
    show ?thesis using end_step [OF good k rs_end(3,4)] unfolding rs_end(1,2) by blast
  next
    case (rs_send choice h fd ptr len nr')
    show ?thesis using Send_books [OF g wake l rs_send(3)] kl spec_sent [of env a fd ptr len] rs_send(4)
      by (auto simp: rs_send(1,2) sys_good_def sys_keeps_def sys_sends_def)
  next
    case (rs_send_waits choice h fd ptr len out nr')
    show ?thesis using Send_books [OF g wake l rs_send_waits(3)] kl rs_send_waits(4)
      by (intro inner) (auto simp: rs_send_waits(1,2) sys_sends_def)
  next
    case (rs_flush choice h fd out nr')
    show ?thesis using previousSendWait_books(1,3) [OF g wake l rs_flush(3) [unfolded FlushFDSends_pass_def]] kl
      by (intro inner) (simp_all add: rs_flush(1,2) sys_sends_def)
  next
    case (rs_release sizeClass v nr')
    show ?thesis by (rule buffers [OF _ _ rs_release(2) release_books [OF rs_release(3)]]) (simp_all add: rs_release(1) spec_released)
  next
    case (rs_register sizeClass capacity tr nr' tr')
    show ?thesis by (rule buffers [OF _ _ rs_register(2) register_books(1) [OF rs_register(3)]]) (simp_all add: rs_register(1) spec_registered)
  next
    case (rs_register_fails sizeClass capacity tr err nr' tr')
    show ?thesis by (rule buffers [OF _ _ rs_register_fails(2) register_books(1) [OF rs_register_fails(3)]])
      (simp_all add: rs_register_fails(1) spec_silent)
  next
    case (rs_unregister sizeClass tr nr' tr')
    show ?thesis by (rule buffers [OF _ _ rs_unregister(2) register_books(2) [OF rs_unregister(3)]])
      (simp_all add: rs_unregister(1) spec_unregistered)
  next
    case (rs_unregister_fails sizeClass tr err nr' tr')
    show ?thesis by (rule buffers [OF _ _ rs_unregister_fails(2) register_books(2) [OF rs_unregister_fails(3)]])
      (simp_all add: rs_unregister_fails(1) spec_unregister_failed)
  next
    case (rs_translate task tasks released nr')
    show ?thesis using fallback_round_books [OF g wake l rs_translate(3,4) kl] fallback_round_sendCells [OF rs_translate(4)]
      by (intro inner) (simp_all add: rs_translate(1,2) quiet)
  next
    case (rs_stop nr')
    have nr': "nr' = (sy_nr s)\<lparr>nr_stop := True\<rparr>" using rs_stop(3) by (simp add: Stop_def split: if_splits)
    show ?thesis using g l kl by (intro inner) (simp_all add: rs_stop(1,2) nr' quiet)
  next
    case (rs_poll spin' nr')
    show ?thesis using poll_step [OF good rs_poll(5,4)] k by (intro same) (simp_all add: rs_poll(1,2))
  next
    case rs_wait
    show ?thesis using g l kl by (intro inner) (simp_all add: rs_wait(1,2) quiet)
  next
    case (rs_waited env' nr')
    have silent: "\<not> misfires env' (sy_nr s)" using rs_waited(1) calm by (auto split: if_splits)
    note log = after_wait_harmless [OF rs_waited(4)]
    have "WaitEvents env' (nr_r (sy_nr s)) = Some (Errno EINTR) \<or> \<not> snd (Get 0 0 (nr_slots (sy_nr s)))"
      using silent by (auto simp: misfires_def)
    from log [OF this] have same: "books {#} nr' (sy_flight s) (sy_calls s) = ?l" "ring_good m n nr' = ring_good m n (sy_nr s)"
      "nr_sendCells nr' = nr_sendCells (sy_nr s)" by auto
    show ?thesis using g l kl same silent by (intro inner) (simp_all add: rs_waited(1,2) quiet)
  next
    case (rs_take j)
    show ?thesis using take_step [OF good rs_take(3)] k by (intro same) (simp_all add: rs_take(1,2))
  next
    case (rs_flags flags)
    have same: "books {#} (sy_nr s') (sy_flight s') (sy_calls s') = ?l" "ring_good m n (sy_nr s')"
      using g by (auto simp: rs_flags(2) books_def ring_good_def sq_ok_def sq_sized_def sq_count_def cq_ok_def cq_count_def
          sq_pending_def cq_pending_def)
    have "send_step Silent (sys_sends s) (sys_sends s')"
      unfolding sys_sends_def by (intro send_view_same) (simp_all only: same, simp_all add: rs_flags(2))
    then show ?thesis using l kl same by (intro inner) (simp_all add: rs_flags(1) sys_sends_def)
  next
    case (rs_post es1 e es2 res flags r')
    show ?thesis using post_step [OF good k rs_post(3,4)] unfolding rs_post(1,2) by blast
  qed
qed

section \<open>Runs from New\<close>

text \<open>What the kernel hands out with a new ring: both queues well formed and empty.\<close>

definition fresh_ring :: "nat \<Rightarrow> nat \<Rightarrow> IOUring \<Rightarrow> bool" where
  "fresh_ring m n r \<longleftrightarrow> sq_ok m r \<and> sq_sized m r \<and> cq_ok n r \<and> sq_pending r = [] \<and> cq_pending r = []"

definition ring_start :: "NetRing \<Rightarrow> ring_sys" where
  "ring_start nr = \<lparr> sy_nr = nr, sy_flight = [], sy_calls = Map.empty, sy_spin = 0, sy_waits = False\<rparr>"

text \<open>The cells that are under way in a state, with how often.\<close>

definition under_way :: "ring_sys \<Rightarrow> cell_ref multiset" where
  "under_way s = held (books {#} (sy_nr s) (sy_flight s) (sy_calls s))"

lemma apply_options_new_slots:
  "apply_options os opts = Some (Inr opts') \<Longrightarrow> op_slots opts' = Some sl \<Longrightarrow>
    op_slots opts = Some sl \<or> (\<exists>capacity. new_slots (0 :: cell_ref) 8 capacity = Some (Inr sl))"
proof (induction os arbitrary: opts)
  case (Cons o1 os)
  then obtain o2 where o2: "apply_option o1 opts = Some (Inr o2)" "apply_options os o2 = Some (Inr opts')"
    by (auto split: option.splits sum.splits)
  have "op_slots o2 = op_slots opts \<or> (\<exists>capacity sl. op_slots o2 = Some sl \<and> new_slots (0 :: cell_ref) 8 capacity = Some (Inr sl))"
    using o2(1) by (auto simp: apply_option_def apply_slots_def split: OptionSetter.splits if_splits option.splits sum.splits)
  then show ?case using Cons.IH [OF o2(2) Cons.prems(2)] by auto
qed simp

lemma new_netring_fields:
  assumes "new_netring r logger os = Some (Inr nr)"
  shows "\<exists>capacity. new_slots (0 :: cell_ref) 8 capacity = Some (Inr (nr_slots nr))"
    and "nr_r nr = r" "nr_cells nr = Map.empty" "nr_next nr = 1" "nr_pool nr = []" "nr_fallbackChan nr = []" "nr_ready nr = []"
      "nr_barrier nr = 0" "nr_finishedPushes nr = 0" "nr_ticketTail nr = 0"
proof -
  obtain opts sl where o: "resolve_options os = Some (Inr opts)" "op_slots opts = Some sl" "nr_slots nr = sl"
    using assms by (auto simp: new_netring_def split: if_splits option.splits sum.splits)
  have "\<exists>capacity. new_slots (0 :: cell_ref) 8 capacity = Some (Inr sl)"
    using o(1,2) apply_options_new_slots [of os _ _ sl]
    by (fastforce simp: resolve_options_def apply_slots_def split: option.splits sum.splits if_splits)
  then show "\<exists>capacity. new_slots (0 :: cell_ref) 8 capacity = Some (Inr (nr_slots nr))" by (simp add: o(3))
qed (use assms in \<open>auto simp: new_netring_def split: if_splits option.splits sum.splits\<close>)

lemma start_good:
  assumes new: "new_netring r logger os = Some (Inr nr)" and fresh: "fresh_ring m n r"
  shows "sys_good env m n (ring_start nr)" "sys_keeps (ring_start nr) Map.empty"
proof -
  note f = new_netring_fields [OF new]
  obtain k where slots: "slots_inv k (nr_slots nr)" "live (nr_slots nr) = Map.empty"
  proof -
    obtain capacity where "new_slots (0 :: cell_ref) 8 capacity = Some (Inr (nr_slots nr))" using f(1) by blast
    from new_slots_Inr [OF this] that show ?thesis by blast
  qed
  have books: "books {#} nr [] Map.empty = \<lparr> lg_tasks = {#}, lg_entries = {#}, lg_cqes = {#}, lg_live = Map.empty, lg_cells = Map.empty,
      lg_pool = [], lg_next = 1, lg_ready = [], lg_fds = length (nr_sendCells nr), lg_calls = Map.empty \<rparr>"
    using fresh slots(2) by (simp add: books_def f fresh_ring_def)
  have "ring_good m n nr" using fresh slots(1) by (auto simp: ring_good_def fresh_ring_def f)
  then show "sys_good env m n (ring_start nr)"
    by (simp add: sys_good_def ring_start_def books) (simp add: tracked_def ledger_cells)
  show "sys_keeps (ring_start nr) Map.empty" by (simp add: sys_keeps_def ring_start_def books keeps_def)
qed

lemma run_good:
  assumes "ring_run env senv idleAfter n s0 evs s" and "wakeups_succeed env" and "Misfired \<notin> set evs"
    and "sys_good env m n s0" and "sys_keeps s0 Map.empty"
  shows "sys_good env m n s \<and> (\<exists>a. spec_run env evs a \<and> sys_keeps s a)"
  using assms
proof (induction rule: ring_run.induct)
  case run_start
  then show ?case using spec_nothing by blast
next
  case (run_step evs s ev s')
  have calm: "Misfired \<notin> set evs" "ev \<noteq> Misfired" using run_step.prems(2) by auto
  from run_step.IH [OF run_step.prems(1) calm(1) run_step.prems(3,4)]
  obtain a where a: "sys_good env m n s" "spec_run env evs a" "sys_keeps s a" by blast
  then show ?case using system_step [OF run_step.hyps(2) run_step.prems(1) calm(2) a(1,3)] spec_more by blast
qed

lemma keeps_calls: "sys_keeps s a \<Longrightarrow> map_option fst (a g) = map_option (\<lambda>(ph, call, c). call) (sy_calls s g)"
proof (cases "sy_calls s g")
  case None
  moreover assume "sys_keeps s a"
  ultimately have "a g = None" by (auto simp: sys_keeps_def keeps_def books_def dest: spec [of _ g])
  then show ?thesis using None by simp
next
  case (Some p)
  moreover assume "sys_keeps s a"
  moreover obtain ph call c where "p = (ph, call, c)" by (cases p)
  ultimately show ?thesis using keepsD [of "books {#} (sy_nr s) (sy_flight s) (sy_calls s)" a g ph call c]
    by (auto simp: sys_keeps_def books_def)
qed

lemma dispatch_cqe_ring:
  "dispatch_cqe q (nr\<lparr>nr_r := r\<rparr>) = Some nr' \<Longrightarrow> nr_r nr' = r"
  by (auto simp: dispatch_cqe_def wake_cell_def pool_put_def log_entry_def Let_def split: if_splits option.splits prod.splits)

lemma distinct_count: "distinct xs \<Longrightarrow> count_list xs x = (if x \<in> set xs then 1 else 0)"
  by (induction xs) auto

section \<open>An example run\<close>

text \<open>Goroutine 77 accepts on descriptor 5: the kernel answers 42 before it parks.\<close>

definition ex_new_ring :: IOUring where
  "ex_new_ring = ex_ring\<lparr>r_SQHead := 0, r_SQTail := 0, r_CQHead := 0, r_CQTail := 0\<rparr>"

lemma ex_fresh: "fresh_ring 1 1 ex_new_ring"
  by (simp add: fresh_ring_def sq_ok_def sq_sized_def cq_ok_def sq_pending_def cq_pending_def sq_count_def cq_count_def
      ex_new_ring_def ex_ring_def mask_eq_exp_minus_1)

lemma ex_wakes: "wakeups_succeed ex_env"
  by (simp add: wakeups_succeed_def Wakeup_def syscall_error_def ex_env_def)

text \<open>What a submission does to the ring: only the sending side changes.\<close>

definition same_cq :: "IOUring \<Rightarrow> IOUring \<Rightarrow> bool" where
  "same_cq r r' \<longleftrightarrow> r_CQ r' = r_CQ r \<and> r_CQHead r' = r_CQHead r \<and> r_CQTail r' = r_CQTail r \<and> r_CQLengthMask r' = r_CQLengthMask r"

lemma same_cq_Push: "Push env e r = Some (err, r') \<Longrightarrow> same_cq r r'"
  by (auto simp: Push_def same_cq_def Let_def split: if_splits option.splits)

lemma ex_begun:
  "\<exists>nr nr2 e idx. new_netring ex_new_ring True [] = Some (Inr nr) \<and>
     ring_run ex_env ex_sys 10 1 (ring_start nr) [Began 77 (Call_accept 5)]
       \<lparr>sy_nr = nr2, sy_flight = [], sy_calls = [77 \<mapsto> (Call_sent, Call_accept 5, 1)], sy_spin = 0, sy_waits = False\<rparr> \<and>
     sq_pending (nr_r nr2) = [e] \<and> sq_ok 1 (nr_r nr2) \<and> same_cq ex_new_ring (nr_r nr2) \<and> sqe_UserData e = idx \<and>
     slots_inv 13 (nr_slots nr2) \<and> live (nr_slots nr2) = [idx \<mapsto> 1] \<and>
     nr_cells nr2 = [1 \<mapsto> armed_cell 77 opcodeTypeAccept 5] \<and> nr_ready nr2 = []"
proof -
  have "(12 :: nat) \<le> 13" "2 ^ 13 * unat (8 :: u64) \<le> maxAlloc" "(8 :: u64) \<noteq> 0" "(8 :: u64) AND 7 = 0" by (simp_all add: maxAlloc_def)
  from new_slots_valid [OF this, of "0 :: cell_ref"]
  obtain sl where "new_slots (0 :: cell_ref) 8 (2 ^ 13) = Some (Inr sl)" and sl: "slots_inv 13 sl" "live sl = Map.empty" "fallback_room 13 sl"
    by blast
  then have new: "new_slots (0 :: cell_ref) 8 8192 = Some (Inr sl)" by simp
  obtain nr where nr: "new_netring ex_new_ring True [] = Some (Inr nr)" "nr_slots nr = sl"
    by (simp add: new_netring_def resolve_options_def apply_slots_def defaultSlotsCapacity_def new)
  note f = new_netring_fields(2-) [OF nr(1)]
  let ?nr1 = "nr\<lparr>nr_next := 2, nr_cells := [1 \<mapsto> armed_cell 77 opcodeTypeAccept 5]\<rparr>" and ?t = "call_task (Call_accept 5) 1"
  have take: "take_cell 77 (call_opcode (Call_accept 5)) (call_fd (Call_accept 5)) nr = (1, ?nr1)"
    by (simp add: take_cell_def f Let_def)
  have fr: "sq_ok 1 ex_new_ring" "sq_sized 1 ex_new_ring" "sq_pending ex_new_ring = []" using ex_fresh by (simp_all add: fresh_ring_def)
  then have count: "sq_count ex_new_ring = 0" using length_sq_pending [of ex_new_ring] by simp
  have ok: "quiescent ?nr1" "nr_ok 13 1 ?nr1" "nr_room 13 1 ?nr1"
    using sl fr count by (simp_all add: quiescent_def nr_ok_def nr_room_def f nr(2)) (simp add: ex_new_ring_def)
  have cell: "nr_cells ?nr1 (rt_Ctx ?t) = Some (armed_cell 77 opcodeTypeAccept 5)" by (simp add: plain_task_def)
  have req: "request ex_env ?t (tc_fd (armed_cell 77 opcodeTypeAccept 5)) 0 \<noteq> None" by (simp add: request_def plain_task_def Let_def)
  have op: "rt_Opcode ?t \<noteq> opcodeTypeReleaseBuffer" by (simp add: plain_task_def)
  let ?nr2 = "?nr1\<lparr>nr_barrier := ((nr_barrier ?nr1 AND epochMask) + 1) AND epochMask, nr_ticketTail := r_SQTail (nr_r ?nr1) + 1\<rparr>"
  have r: "nr_r ?nr2 = ex_new_ring" by (simp add: f)
  have aw: "push_error ex_env (nr_r ?nr2) = None" using ex_wakes by (simp add: push_error_def wakeups_succeed_def)
  have ok2: "nr_ok 13 1 ?nr2" "nr_room 13 1 ?nr2" "nr_cells ?nr2 (rt_Ctx ?t) = Some (armed_cell 77 opcodeTypeAccept 5)"
    using ok(2,3) cell by (simp_all add: nr_ok_def nr_room_def)
  obtain idx s' e nr3 where d: "dispatch ex_env ?t ?nr2 = Some nr3" "nr3 = ?nr2\<lparr>nr_slots := s', nr_r := push_state e (nr_r ?nr2)\<rparr>"
    "nr_ok 13 1 nr3" "live s' = (live (nr_slots ?nr2))(idx \<mapsto> rt_Ctx ?t)"
    "request ex_env ?t (tc_fd (armed_cell 77 opcodeTypeAccept 5)) idx = Some e" "sq_pending (nr_r nr3) = sq_pending (nr_r ?nr2) @ [e]"
    using dispatch_success [OF ok2 req aw] by blast
  let ?nr4 = "nr3\<lparr>nr_finishedPushes := nr_finishedPushes nr3 + 1\<rparr>"
  have sized: "sq_sized 1 (nr_r ?nr1)" using fr(2) by (simp add: f)
  have sub: "submit ex_env True ?t ?nr1 = Some (True, ?nr4)"
    unfolding submit_quiescent [OF ok(1) sized op] using d(1) count by (simp add: f)
  have chk: "call_check (Call_accept 5) (sy_nr (ring_start nr)) = Some None" "sy_calls (ring_start nr) 77 = None"
    by (simp_all add: ring_start_def)
  have step: "ring_step ex_env ex_sys 10 1 (ring_start nr) (Began 77 (Call_accept 5))
      ((ring_start nr)\<lparr>sy_nr := ?nr4, sy_calls := (sy_calls (ring_start nr))(77 \<mapsto> (Call_sent, Call_accept 5, 1))\<rparr>)"
    by (rule rs_begin [OF chk(2,1) _ sub]) (simp only: take ring_start_def ring_sys.select_convs)
  have run: "ring_run ex_env ex_sys 10 1 (ring_start nr) [Began 77 (Call_accept 5)]
      \<lparr>sy_nr = ?nr4, sy_flight = [], sy_calls = [77 \<mapsto> (Call_sent, Call_accept 5, 1)], sy_spin = 0, sy_waits = False\<rparr>"
    using ring_run.run_step [OF ring_run.run_start step] by (simp add: ring_start_def)
  have "sq_pending (nr_r ?nr4) = [e]" using d(6) r fr(3) by simp
  moreover have "sq_ok 1 (nr_r ?nr4)" "slots_inv 13 (nr_slots ?nr4)" using d(2,3) sl(1) by (simp_all add: nr_ok_def)
  moreover have "same_cq ex_new_ring (nr_r ?nr4)" by (simp add: d(2) f same_cq_def push_state_def Let_def)
  moreover have "live (nr_slots ?nr4) = [idx \<mapsto> 1]" using d(2,4) sl(2) by (simp add: nr(2) plain_task_def)
  moreover have "nr_cells ?nr4 = [1 \<mapsto> armed_cell 77 opcodeTypeAccept 5]" "nr_ready ?nr4 = []" by (simp_all add: d(2) f)
  moreover have "sqe_UserData e = idx" using request_UserData [OF d(5)] by simp
  ultimately show ?thesis using nr(1) run by blast
qed

lemma ex_posted:
  "\<exists>nr nr3 e. new_netring ex_new_ring True [] = Some (Inr nr) \<and>
     ring_run ex_env ex_sys 10 1 (ring_start nr) [Began 77 (Call_accept 5), Silent, Answered e 42 0]
       \<lparr>sy_nr = nr3, sy_flight = [], sy_calls = [77 \<mapsto> (Call_sent, Call_accept 5, 1)], sy_spin = 0, sy_waits = False\<rparr> \<and>
     cq_pending (nr_r nr3) = [\<lparr>cqe_UserData = sqe_UserData e, cqe_Res = 42, cqe_Flags = 0\<rparr>] \<and> cq_ok 1 (nr_r nr3) \<and>
     slots_inv 13 (nr_slots nr3) \<and> live (nr_slots nr3) = [sqe_UserData e \<mapsto> 1] \<and>
     nr_cells nr3 = [1 \<mapsto> armed_cell 77 opcodeTypeAccept 5] \<and> nr_ready nr3 = []"
proof -
  obtain nr nr2 e idx where b: "new_netring ex_new_ring True [] = Some (Inr nr)"
    "ring_run ex_env ex_sys 10 1 (ring_start nr) [Began 77 (Call_accept 5)]
       \<lparr>sy_nr = nr2, sy_flight = [], sy_calls = [77 \<mapsto> (Call_sent, Call_accept 5, 1)], sy_spin = 0, sy_waits = False\<rparr>"
    "sq_pending (nr_r nr2) = [e]" "sq_ok 1 (nr_r nr2)" "same_cq ex_new_ring (nr_r nr2)" "sqe_UserData e = idx"
    "slots_inv 13 (nr_slots nr2)" "live (nr_slots nr2) = [idx \<mapsto> 1]"
    "nr_cells nr2 = [1 \<mapsto> armed_cell 77 opcodeTypeAccept 5]" "nr_ready nr2 = []"
    using ex_begun by blast
  let ?s = "\<lparr>sy_nr = nr2, sy_flight = [], sy_calls = [77 \<mapsto> (Call_sent, Call_accept 5, 1)], sy_spin = 0, sy_waits = False\<rparr>"
  let ?r = "(nr_r nr2)\<lparr>r_SQHead := r_SQHead (nr_r nr2) + of_nat 1\<rparr>"
  have one: "1 \<le> sq_count (nr_r (sy_nr ?s))" using length_sq_pending [of "nr_r nr2"] b(3) by simp
  have taken: "ring_run ex_env ex_sys 10 1 (ring_start nr) [Began 77 (Call_accept 5), Silent]
      \<lparr>sy_nr = nr2\<lparr>nr_r := ?r\<rparr>, sy_flight = [e], sy_calls = [77 \<mapsto> (Call_sent, Call_accept 5, 1)], sy_spin = 0, sy_waits = False\<rparr>"
    using ring_run.run_step [OF b(2) rs_take [OF one]] b(3) by simp
  let ?q = "\<lparr>cqe_UserData = sqe_UserData e, cqe_Res = 42, cqe_Flags = 0\<rparr> :: CQEntry"
  let ?r' = "?r\<lparr>r_CQ := [?q, zero_cqe], r_CQTail := 1\<rparr>"
  have cq: "r_CQHead (nr_r nr2) = 0" "r_CQTail (nr_r nr2) = 0" "r_CQLengthMask (nr_r nr2) = 1"
    using b(5) by (simp_all add: same_cq_def ex_new_ring_def ex_ring_def)
  have pend: "cq_ok 1 ?r'" "cq_pending ?r' = [?q]" "cq_pending ?r = []"
    using cq by (simp_all add: cq_ok_def cq_count_def cq_pending_def ring_list_def mask_eq_exp_minus_1)
  have post: "kernel_posts 1 (nr_r (sy_nr \<lparr>sy_nr = nr2\<lparr>nr_r := ?r\<rparr>, sy_flight = [e],
      sy_calls = [77 \<mapsto> (Call_sent, Call_accept 5, 1)], sy_spin = 0, sy_waits = False\<rparr>)) ?q ?r'"
    using pend by (auto simp: kernel_posts_def)
  have "ring_run ex_env ex_sys 10 1 (ring_start nr) [Began 77 (Call_accept 5), Silent, Answered e 42 0]
      \<lparr>sy_nr = nr2\<lparr>nr_r := ?r'\<rparr>, sy_flight = [], sy_calls = [77 \<mapsto> (Call_sent, Call_accept 5, 1)], sy_spin = 0, sy_waits = False\<rparr>"
    using ring_run.run_step [OF taken rs_post [where ?es1.0 = "[]" and ?es2.0 = "[]", OF _ post]] by simp
  then show ?thesis
    using b(1,6-10) pend by (intro exI [of _ nr] exI [of _ "nr2\<lparr>nr_r := ?r'\<rparr>"] exI [of _ e]) simp
qed

section \<open>Properties\<close>

text \<open>C1. Every caller gets the answer to its own request. Take a run from \<open>New\<close> in which wake-ups of the
  kernel succeed and the poller, which may go idle and wait as often as it likes, never comes back from its blocking
  wait uninterrupted while slot 0 is taken (what happens then is C40). With any number of callers and senders, a queue
  that fills up or not, and completions in any order: each answer of the kernel to an entry of a parking call is given
  to one caller who waits for such a request, once, and a call returns only after it was answered, with exactly what
  the kernel said.\<close>

theorem callers_get_their_answers:
  assumes "new_netring r logger os = Some (Inr nr)" and "fresh_ring m n r" and "wakeups_succeed env"
    and "ring_run env senv idleAfter n (ring_start nr) evs s" and "Misfired \<notin> set evs"
  shows "\<exists>a. spec_run env evs a \<and> (\<forall>g. map_option fst (a g) = map_option (\<lambda>(ph, call, c). call) (sy_calls s g))"
  using run_good [OF assms(4,3,5) start_good [OF assms(1,2)]] keeps_calls by blast

theorem callers_get_their_answers_witness:
  "\<exists>e rings nr s a. ring_run ex_env ex_sys 10 1 (ring_start nr)
      [Began 77 (Call_accept 5), Silent, Answered e 42 0, Silent, Silent, Ended 77 rings (Out_fd (Inr 42))] s \<and>
     spec_run ex_env [Began 77 (Call_accept 5), Silent, Answered e 42 0, Silent, Silent, Ended 77 rings (Out_fd (Inr 42))] a"
proof -
  let ?calls = "[77 \<mapsto> (Call_sent, Call_accept 5, 1)]"
  let ?q = "\<lambda>e. \<lparr>cqe_UserData = sqe_UserData e, cqe_Res = 42, cqe_Flags = 0\<rparr> :: CQEntry"
  obtain nr nr3 e where p: "new_netring ex_new_ring True [] = Some (Inr nr)"
    "ring_run ex_env ex_sys 10 1 (ring_start nr) [Began 77 (Call_accept 5), Silent, Answered e 42 0]
       \<lparr>sy_nr = nr3, sy_flight = [], sy_calls = ?calls, sy_spin = 0, sy_waits = False\<rparr>"
    "cq_pending (nr_r nr3) = [?q e]" "cq_ok 1 (nr_r nr3)" "slots_inv 13 (nr_slots nr3)"
    "live (nr_slots nr3) = [sqe_UserData e \<mapsto> 1]" "nr_cells nr3 = [1 \<mapsto> armed_cell 77 opcodeTypeAccept 5]"
    using ex_posted by blast
  have w: "awaits nr3 (?q e) (1, armed_cell 77 opcodeTypeAccept 5)" by (simp add: awaits_def p(6,7) armed_cell_def)
  obtain nr4 where t: "poll_turn ex_env 10 (0, nr3) = Some (0, nr4)"
    "nr_cells nr4 = (nr_cells nr3)(1 \<mapsto> delivered (?q e) (armed_cell 77 opcodeTypeAccept 5))"
    using awaits_turn [OF p(5,4,3) w, of ex_env 10 0] by auto
  let ?cell = "(delivered (?q e) (armed_cell 77 opcodeTypeAccept 5))\<lparr>tc_taskState := taskStateParked\<rparr>"
  let ?nr5 = "nr4\<lparr>nr_cells := (nr_cells nr4)(1 \<mapsto> ?cell)\<rparr>"
  have park: "park_cell 1 nr4 = Some (False, ?nr5)"
    by (simp add: park_cell_def t(2) netringParkUnlock_def delivered_def armed_cell_def waker_cas_def task_states)
  have fin: "call_finish ex_sys [] (Call_accept 5) 1 ?nr5 = Some (Out_fd (Inr 42), pool_put 1 ?nr5)"
    by (simp add: Accept_finish_def finish_op_def cell_error_def delivered_def armed_cell_def)
  let ?s = "\<lambda>nr calls. \<lparr>sy_nr = nr, sy_flight = [], sy_calls = calls, sy_spin = 0, sy_waits = False\<rparr>"
  have awake: "\<not> sy_waits (?s nr3 ?calls)" by simp
  have busy: "cq_pending (nr_r (sy_nr (?s nr3 ?calls))) \<noteq> [] \<or> sy_spin (?s nr3 ?calls) + 1 < 10" by simp
  have "ring_run ex_env ex_sys 10 1 (ring_start nr) [Began 77 (Call_accept 5), Silent, Answered e 42 0, Silent] (?s nr4 ?calls)"
    using ring_run.run_step [OF p(2) rs_poll [OF awake busy]] t(1) by simp
  from ring_run.run_step [OF this rs_park [where g = 77 and call = "Call_accept 5" and c = 1 and sleeps = False and nr' = ?nr5]] park
  have "ring_run ex_env ex_sys 10 1 (ring_start nr) [Began 77 (Call_accept 5), Silent, Answered e 42 0, Silent, Silent]
      (?s ?nr5 [77 \<mapsto> (Call_resumed, Call_accept 5, 1)])" by simp
  from ring_run.run_step [OF this rs_end [where g = 77 and call = "Call_accept 5" and c = 1 and out = "Out_fd (Inr 42)" and tr = "[]"]] fin
  obtain s where run: "ring_run ex_env ex_sys 10 1 (ring_start nr) [Began 77 (Call_accept 5), Silent, Answered e 42 0, Silent, Silent,
      Ended 77 (nr_pbrs ?nr5) (Out_fd (Inr 42))] s" by fastforce
  show ?thesis using callers_get_their_answers [OF p(1) ex_fresh ex_wakes run] run by auto
qed

text \<open>C5. No wake-up is lost and none is doubled. In every state of a run as in C1 (wake-ups of the kernel succeed, the
  poller never comes back from its blocking wait uninterrupted while slot 0 is taken) the request of a
  sleeping goroutine is in exactly one place, the channel, the submission queue, the kernel or the
  completion queue, or else the goroutine was readied, once; the request of one that runs on is nowhere.\<close>

theorem sleeping_calls_are_under_way:
  assumes "new_netring r logger os = Some (Inr nr)" and "fresh_ring m n r" and "wakeups_succeed env"
    and "ring_run env senv idleAfter n (ring_start nr) evs s" and "Misfired \<notin> set evs"
  shows "(\<forall>g call c. sy_calls s g = Some (Call_asleep, call, c) \<longrightarrow>
      count (under_way s) c + count_list (nr_ready (sy_nr s)) g = 1) \<and>
    (\<forall>g call c. sy_calls s g = Some (Call_resumed, call, c) \<longrightarrow>
      count (under_way s) c = 0 \<and> g \<notin> set (nr_ready (sy_nr s)))"
proof -
  let ?l = "books {#} (sy_nr s) (sy_flight s) (sy_calls s)"
  have l: "tracked env ?l" using run_good [OF assms(4,3,5) start_good [OF assms(1,2)]] by (simp add: sys_good_def)
  have calls: "lg_calls ?l = sy_calls s" and ready: "lg_ready ?l = nr_ready (sy_nr s)" by (simp_all add: books_def)
  have once: "count_list (lg_ready ?l) g = (if g \<in> set (lg_ready ?l) then 1 else 0)" for g
    by (rule distinct_count [OF trackedD(9) [OF l]])
  have one: "count (held ?l) c = (if c \<in># held ?l then 1 else 0)" for c
  proof (cases "c \<in># held ?l")
    case True
    then have "count (held ?l) c = 1"
      using trackedD(1) [OF l, of c] count_greater_zero_iff [of "held ?l" c] by linarith
    then show ?thesis using True by simp
  qed (simp add: not_in_iff)
  have phase: "\<exists>st. phase_ok ?l g ph c st" if "sy_calls s g = Some (ph, call, c)" for g ph call c
    using trackedD(6) [OF l, of g ph call c] that by (auto simp: caller_ok_def calls)
  have "count (under_way s) c + count_list (nr_ready (sy_nr s)) g = 1" if "sy_calls s g = Some (Call_asleep, call, c)" for g call c
    using phase [OF that] once [of g] one [of c] by (auto simp: phase_ok_def under_way_def ready)
  moreover have "count (under_way s) c = 0 \<and> g \<notin> set (nr_ready (sy_nr s))" if "sy_calls s g = Some (Call_resumed, call, c)" for g call c
    using phase [OF that] one [of c] by (auto simp: phase_ok_def under_way_def ready)
  ultimately show ?thesis by blast
qed

theorem sleeping_calls_are_under_way_witness:
  "\<exists>nr s. ring_run ex_env ex_sys 10 1 (ring_start nr) [Began 77 (Call_accept 5), Silent] s \<and>
     sy_calls s 77 = Some (Call_asleep, Call_accept 5, 1) \<and> nr_ready (sy_nr s) = [] \<and> count (under_way s) 1 = 1"
proof -
  obtain nr nr2 where b: "new_netring ex_new_ring True [] = Some (Inr nr)"
    "ring_run ex_env ex_sys 10 1 (ring_start nr) [Began 77 (Call_accept 5)]
       \<lparr>sy_nr = nr2, sy_flight = [], sy_calls = [77 \<mapsto> (Call_sent, Call_accept 5, 1)], sy_spin = 0, sy_waits = False\<rparr>"
    "nr_cells nr2 = [1 \<mapsto> armed_cell 77 opcodeTypeAccept 5]" "nr_ready nr2 = []"
    using ex_begun by blast
  let ?nr = "nr2\<lparr>nr_cells := [1 \<mapsto> (armed_cell 77 opcodeTypeAccept 5)\<lparr>tc_taskState := taskStateParked\<rparr>]\<rparr>"
  let ?s = "\<lparr>sy_nr = ?nr, sy_flight = [], sy_calls = [77 \<mapsto> (Call_asleep, Call_accept 5, 1)], sy_spin = 0, sy_waits = False\<rparr>"
  have park: "park_cell 1 nr2 = Some (True, ?nr)"
    by (simp add: park_cell_def b(3) netringParkUnlock_def armed_cell_def)
  from ring_run.run_step [OF b(2) rs_park [where g = 77 and call = "Call_accept 5" and c = 1 and sleeps = True and nr' = ?nr]] park
  have run: "ring_run ex_env ex_sys 10 1 (ring_start nr) [Began 77 (Call_accept 5), Silent] ?s" by simp
  have "count (under_way ?s) 1 + count_list (nr_ready (sy_nr ?s)) 77 = 1"
    using sleeping_calls_are_under_way [OF b(1) ex_fresh ex_wakes run] by simp
  then show ?thesis using run b(4) by (intro exI [of _ nr] exI [of _ ?s]) simp
qed

text \<open>C6. The poller is never stuck. In every state of a run as in C1 (wake-ups of the kernel succeed, the poller never
  comes back from its blocking wait uninterrupted while slot 0 is taken) the completion in front names a slot that is
  taken, by a cell that exists, and for a send a descriptor with a send cell; so the poller's turn on it
  does not panic and takes it off the queue.\<close>

theorem completions_are_well_formed:
  assumes "new_netring r logger os = Some (Inr nr)" and "fresh_ring m n r" and "wakeups_succeed env"
    and "ring_run env senv idleAfter n (ring_start nr) evs s" and "Misfired \<notin> set evs"
    and "cq_pending (nr_r (sy_nr s)) = q # qs"
  shows "\<exists>c cell nr'. Get 0 (cqe_UserData q) (nr_slots (sy_nr s)) = (c, True) \<and> nr_cells (sy_nr s) c = Some cell \<and>
    (tc_opCode cell = opcodeTypeSend \<longrightarrow> unat (tc_fd cell) < length (nr_sendCells (sy_nr s))) \<and>
    poll_turn env idleAfter (sy_spin s, sy_nr s) = Some (0, nr') \<and> cq_pending (nr_r nr') = qs"
proof -
  let ?nr = "sy_nr s"
  let ?l = "books {#} ?nr (sy_flight s) (sy_calls s)"
  have g: "ring_good m n ?nr" and l: "tracked env ?l"
    using run_good [OF assms(4,3,5) start_good [OF assms(1,2)]] by (simp_all add: sys_good_def)
  obtain k where inv: "slots_inv k (nr_slots ?nr)" and cq: "cq_ok n (nr_r ?nr)" using g by (auto simp: ring_good_def)
  have qm: "q \<in># lg_cqes ?l" by (simp add: books_def assms(6))
  obtain c where c: "live (nr_slots ?nr) (cqe_UserData q) = Some c" using trackedD(5) [OF l qm] by (auto simp: books_def)
  have "owned ?l c" using trackedD(2) [OF l tracked_cqe_held [OF qm]] c by (simp add: slot_cell_def books_def)
  then obtain cell where cell: "nr_cells ?nr c = Some cell"
    "tc_opCode cell = opcodeTypeSend \<longrightarrow> unat (tc_fd cell) < length (nr_sendCells ?nr)"
    by (auto simp: owned_def books_def split: if_splits)
  obtain nr' where turn: "poll_turn env idleAfter (sy_spin s, ?nr) = Some (0, nr')"
    using poll_books [OF g l assms(6), where idleAfter = idleAfter and spin = "sy_spin s"] by blast
  then have "dispatch_cqe q (?nr\<lparr>nr_r := (nr_r ?nr)\<lparr>r_CQHead := r_CQHead (nr_r ?nr) + 1\<rparr>\<rparr>) = Some nr'"
    using poll_turn_ready [OF cq assms(6), of env idleAfter "sy_spin s"] by auto
  then have "nr_r nr' = (nr_r ?nr)\<lparr>r_CQHead := r_CQHead (nr_r ?nr) + 1\<rparr>" by (rule dispatch_cqe_ring)
  then show ?thesis using Get_live [OF inv c, of 0] cell turn GetTask_Cons(3) [OF cq assms(6)] by auto
qed

theorem completions_are_well_formed_witness:
  "\<exists>nr nr3 e nr'. ring_run ex_env ex_sys 10 1 (ring_start nr) [Began 77 (Call_accept 5), Silent, Answered e 42 0]
      \<lparr>sy_nr = nr3, sy_flight = [], sy_calls = [77 \<mapsto> (Call_sent, Call_accept 5, 1)], sy_spin = 0, sy_waits = False\<rparr> \<and>
     poll_turn ex_env 10 (0, nr3) = Some (0, nr') \<and> cq_pending (nr_r nr') = []"
proof -
  obtain nr nr3 e where p: "new_netring ex_new_ring True [] = Some (Inr nr)"
    "ring_run ex_env ex_sys 10 1 (ring_start nr) [Began 77 (Call_accept 5), Silent, Answered e 42 0]
       \<lparr>sy_nr = nr3, sy_flight = [], sy_calls = [77 \<mapsto> (Call_sent, Call_accept 5, 1)], sy_spin = 0, sy_waits = False\<rparr>"
    "cq_pending (nr_r nr3) = [\<lparr>cqe_UserData = sqe_UserData e, cqe_Res = 42, cqe_Flags = 0\<rparr>]"
    using ex_posted by blast
  show ?thesis using completions_are_well_formed [OF p(1) ex_fresh ex_wakes p(2)] p(2,3) by auto
qed

end
