(* ===== verification/Send_Stream.thy ===== *)
theory Send_Stream
  imports Netring_System
begin

text \<open>
  The bytes of the sends in runs of the whole system: every run is, for its sends, a run of \<open>Send_Protocol\<close>, so
  what the kernel takes of a descriptor is what was handed to \<open>Send\<close>, in its order.
\<close>

section \<open>Runs of the system as runs of the sends\<close>

lemma run_sends:
  assumes "ring_run env senv idleAfter n s0 evs s" and "wakeups_succeed env" and "Misfired \<notin> set evs"
    and "sys_good env m n s0" and "sys_keeps s0 Map.empty"
  shows "send_run (sys_sends s0) evs (sys_sends s)"
  using assms
proof (induction rule: ring_run.induct)
  case run_start
  show ?case by (rule sr_start)
next
  case (run_step evs s ev s')
  have calm: "Misfired \<notin> set evs" "ev \<noteq> Misfired" using run_step.prems(2) by auto
  obtain a where a: "sys_good env m n s" "sys_keeps s a"
    using run_good [OF run_step.hyps(1) run_step.prems(1) calm(1) run_step.prems(3,4)] by blast
  have "send_step ev (sys_sends s) (sys_sends s')"
    using system_step [OF run_step.hyps(2) run_step.prems(1) calm(2) a] by blast
  then show ?case by (rule sr_step [OF run_step.IH [OF run_step.prems(1) calm(1) run_step.prems(3,4)]])
qed

lemma start_sends:
  assumes new: "new_netring r logger os = Some (Inr nr)" and fresh: "fresh_ring m n r"
  shows "sys_sends (ring_start nr) = send_start"
proof -
  have "nr_sendCells nr = replicate 65536 zero_sendCell"
    using new by (auto simp: new_netring_def split: if_splits option.splits sum.splits)
  moreover have "sends (books {#} nr [] Map.empty) = (\<lambda>fd. {#})"
    using fresh by (simp add: sends_def books_def fun_eq_iff new_netring_fields [OF new] fresh_ring_def)
  ultimately show ?thesis by (simp add: sys_sends_def send_view_def send_start_def ring_start_def)
qed

text \<open>What a wait that returns without an error says of the cell.\<close>

lemma flush_returns: "FlushFDSends_pass env choice g fd nr = Some (Wait_return None, nr') \<Longrightarrow> may_send (nr_sendCells nr ! unat fd)"
  by (auto simp: FlushFDSends_pass_def previousSendWait_pass_def may_send_def Let_def split: if_splits option.splits prod.splits bool.splits)

text \<open>Where there is room for a completion, the kernel can post it.\<close>

lemma kernel_can_post:
  assumes ok: "cq_ok n r" and room: "cq_count r < 2 ^ n"
  shows "\<exists>buf. kernel_posts n r q (r\<lparr>r_CQ := buf, r_CQTail := r_CQTail r + 1\<rparr>)"
proof -
  let ?i = "(unat (r_CQHead r) + cq_count r) mod length (r_CQ r)"
  let ?r = "r\<lparr>r_CQ := (r_CQ r)[?i := q], r_CQTail := r_CQTail r + 1\<rparr>"
  have n: "n < 32" "length (r_CQ r) = 2 ^ n" "r_CQLengthMask r = mask n" using ok by (simp_all add: cq_ok_def)
  have "cq_count r < 2 ^ 31"
    using room n(1) power_increasing [of n 31 "2 :: nat"] by simp
  then have count: "cq_count ?r = Suc (cq_count r)"
    using unat_dist_Suc [of "r_CQTail r" "r_CQHead r"] by (simp add: cq_count_def)
  have "cq_pending ?r = cq_pending r @ [q]"
    unfolding cq_pending_def count using ring_list_snoc [of "cq_count r" "r_CQ r" "unat (r_CQHead r)" q] room n(2) by simp
  moreover have "cq_ok n ?r" using n room count by (simp add: cq_ok_def)
  ultimately show ?thesis by (intro exI [of _ "(r_CQ r)[?i := q]"]) (auto simp: kernel_posts_def)
qed

section \<open>An example run\<close>

text \<open>A ring with nothing under way, and one with a single request in the submission queue.\<close>

definition quiet :: "NetRing \<Rightarrow> bool" where
  "quiet nr \<longleftrightarrow> quiescent nr \<and> nr_ok 13 1 nr \<and> sq_sized 1 (nr_r nr) \<and> cq_ok 1 (nr_r nr) \<and>
     live (nr_slots nr) = Map.empty \<and> sq_pending (nr_r nr) = [] \<and> cq_pending (nr_r nr) = []"

definition in_core :: "cell_ref \<Rightarrow> u64 \<Rightarrow> opcodeType \<Rightarrow> i64 \<Rightarrow> SQEntry \<Rightarrow> NetRing \<Rightarrow> bool" where
  "in_core c g opc fd e nr \<longleftrightarrow> quiescent nr \<and> nr_ok 13 1 nr \<and> sq_sized 1 (nr_r nr) \<and> cq_ok 1 (nr_r nr) \<and>
     live (nr_slots nr) = [sqe_UserData e \<mapsto> c] \<and> sq_pending (nr_r nr) = [e] \<and> cq_pending (nr_r nr) = [] \<and>
     nr_cells nr c = Some (armed_cell g opc fd)"

lemma quiet_submit:
  assumes quiet: "quiet nr" and t: "take_cell g opc fd nr = (c, nr1)" and task: "rt_Ctx t = c" "queues t"
  shows "\<exists>nr' e. submit ex_env choice t (nr1\<lparr>nr_sendCells := cells\<rparr>) = Some (True, nr') \<and> in_core c g opc fd e nr' \<and>
    request ex_env t fd (sqe_UserData e) = Some e \<and> nr_sendCells nr' = cells \<and> nr_pbrs nr' = nr_pbrs nr"
proof -
  let ?nr = "nr1\<lparr>nr_sendCells := cells\<rparr>"
  have q: "quiescent nr" "nr_ok 13 1 nr" "sq_sized 1 (nr_r nr)" "cq_ok 1 (nr_r nr)" "live (nr_slots nr) = Map.empty"
    "sq_pending (nr_r nr) = []" "cq_pending (nr_r nr) = []" using quiet by (simp_all add: quiet_def)
  have f: "nr_slots nr1 = nr_slots nr" "nr_r nr1 = nr_r nr" "nr_barrier nr1 = nr_barrier nr" "nr_ticketTail nr1 = nr_ticketTail nr"
    "nr_finishedPushes nr1 = nr_finishedPushes nr" "nr_pbrs nr1 = nr_pbrs nr" "nr_cells nr1 c = Some (armed_cell g opc fd)"
    using t by (auto simp: take_cell_def Let_def split: list.splits)
  have count: "sq_count (nr_r nr) = 0" using length_sq_pending [of "nr_r nr"] q(6) by simp
  have inv: "slots_inv 13 (nr_slots nr)" using q(2) by (simp add: nr_ok_def)
  have ok: "quiescent ?nr" "sq_sized 1 (nr_r ?nr)" "nr_ok 13 1 ?nr" "nr_room 13 1 ?nr"
    using q(1-3) f count fallback_room_live [OF inv] q(5) by (simp_all add: quiescent_def nr_ok_def nr_room_def)
  have cell: "nr_cells ?nr (rt_Ctx t) = Some (armed_cell g opc fd)" using f(7) task(1) by simp
  have fd: "tc_fd (armed_cell g opc fd) = fd" by (simp add: armed_cell_def)
  have req: "request ex_env t (tc_fd (armed_cell g opc fd)) 0 \<noteq> None" using queues_request [OF task(2)] by (metis option.simps(3))
  have aw: "push_error ex_env r = None" for r using ex_wakes by (simp add: push_error_def wakeups_succeed_def)
  obtain nr' idx e where s: "submit ex_env choice t ?nr = Some (True, nr')" "quiescent nr'" "nr_ok 13 1 nr'"
    "sq_pending (nr_r nr') = sq_pending (nr_r ?nr) @ [e]" "request ex_env t (tc_fd (armed_cell g opc fd)) idx = Some e"
    "live (nr_slots nr') = (live (nr_slots ?nr))(idx \<mapsto> rt_Ctx t)" "nr_cells nr' = nr_cells ?nr" "nr_pbrs nr' = nr_pbrs ?nr"
    using submit_fast [OF ok(1-4) cell req aw, of choice] by blast
  have op: "rt_Opcode t \<noteq> opcodeTypeReleaseBuffer" using task(2) by (auto simp: queues_def)
  let ?nr2 = "?nr\<lparr>nr_barrier := ((nr_barrier ?nr AND epochMask) + 1) AND epochMask, nr_ticketTail := r_SQTail (nr_r ?nr) + 1\<rparr>"
  have ok2: "nr_ok 13 1 ?nr2" "nr_room 13 1 ?nr2" "nr_cells ?nr2 (rt_Ctx t) = Some (armed_cell g opc fd)"
    using ok(3,4) cell by (simp_all add: nr_ok_def nr_room_def)
  from dispatch_success [OF ok2 req aw] obtain e2 nr3 s2 where d: "dispatch ex_env t ?nr2 = Some nr3"
    "nr3 = ?nr2\<lparr>nr_slots := s2, nr_r := push_state e2 (nr_r ?nr2)\<rparr>" by blast
  have "nr_r nr' = push_state e2 (nr_r nr)"
    using s(1) submit_quiescent [OF ok(1,2) op, of ex_env choice] count d by (auto simp: f)
  then have r: "sq_sized 1 (nr_r nr')" "cq_ok 1 (nr_r nr')" "cq_pending (nr_r nr') = []" using q(3,4,7) by (simp_all add: push_state_cq)
  have e: "sqe_UserData e = idx" using request_UserData [OF s(5)] by simp
  have "in_core c g opc fd e nr'" using s r e f q(5,6) task(1) by (simp add: in_core_def)
  then show ?thesis using s(1,5,8) e f(6) fd submit_sendCells [OF s(1)] by (intro exI [of _ nr'] exI [of _ e]) simp
qed

lemma dispatch_cqe_words:
  "dispatch_cqe q nr = Some nr' \<Longrightarrow>
    nr_barrier nr' = nr_barrier nr \<and> nr_ticketTail nr' = nr_ticketTail nr \<and> nr_finishedPushes nr' = nr_finishedPushes nr"
  by (auto simp: dispatch_cqe_def wake_cell_def pool_put_def log_entry_def Let_def split: if_splits option.splits prod.splits)

text \<open>The kernel takes it and answers it.\<close>

definition answered_core :: "cell_ref \<Rightarrow> SQEntry \<Rightarrow> i32 \<Rightarrow> u32 \<Rightarrow> NetRing \<Rightarrow> IOUring \<Rightarrow> bool" where
  "answered_core c e res flags nr r \<longleftrightarrow> cq_ok 1 r \<and> cq_pending r = [\<lparr>cqe_UserData = sqe_UserData e, cqe_Res = res, cqe_Flags = flags\<rparr>] \<and>
     sq_ok 1 r \<and> sq_sized 1 r \<and> sq_pending r = [] \<and> r_SQTail r = r_SQTail (nr_r nr)"

lemma in_core_answered:
  assumes core: "in_core c g opc fd e nr"
  shows "\<exists>r1 r2. ring_step ex_env senv 10 1 \<lparr>sy_nr = nr, sy_flight = [], sy_calls = calls, sy_spin = spin, sy_waits = False\<rparr> Silent
      \<lparr>sy_nr = nr\<lparr>nr_r := r1\<rparr>, sy_flight = [e], sy_calls = calls, sy_spin = spin, sy_waits = False\<rparr> \<and>
    ring_step ex_env senv 10 1 \<lparr>sy_nr = nr\<lparr>nr_r := r1\<rparr>, sy_flight = [e], sy_calls = calls, sy_spin = spin, sy_waits = False\<rparr> (Answered e res flags)
      \<lparr>sy_nr = nr\<lparr>nr_r := r2\<rparr>, sy_flight = [], sy_calls = calls, sy_spin = spin, sy_waits = False\<rparr> \<and> answered_core c e res flags nr r2"
proof -
  let ?s = "\<lambda>nr fl. \<lparr>sy_nr = nr, sy_flight = fl, sy_calls = calls, sy_spin = spin, sy_waits = False\<rparr>"
  have c: "sq_ok 1 (nr_r nr)" "sq_sized 1 (nr_r nr)" "cq_ok 1 (nr_r nr)" "sq_pending (nr_r nr) = [e]" "cq_pending (nr_r nr) = []"
    using core by (simp_all add: in_core_def nr_ok_def)
  have "sq_count (nr_r nr) = 1" using length_sq_pending [of "nr_r nr"] c(4) by simp
  then have one: "1 \<le> sq_count (nr_r nr)" by simp
  let ?r1 = "(nr_r nr)\<lparr>r_SQHead := r_SQHead (nr_r nr) + of_nat 1\<rparr>"
  note adv = sq_pending_advance [OF c(1) one]
  have r1: "sq_ok 1 ?r1" "sq_pending ?r1 = []" "sq_sized 1 ?r1" "cq_ok 1 ?r1" "cq_pending ?r1 = []"
    using adv c(2-5) by (simp_all add: sq_sized_def cq_ok_def cq_pending_def cq_count_def)
  have one': "1 \<le> sq_count (nr_r (sy_nr (?s nr [])))" using one by simp
  have taken: "ring_step ex_env senv 10 1 (?s nr []) Silent (?s (nr\<lparr>nr_r := ?r1\<rparr>) [e])"
    using rs_take [OF one', of ex_env senv 10 1] c(4) by simp
  let ?q = "\<lparr>cqe_UserData = sqe_UserData e, cqe_Res = res, cqe_Flags = flags\<rparr> :: CQEntry"
  have "cq_count ?r1 < 2 ^ 1" using length_cq_pending [of ?r1] unfolding r1(5) by simp
  then obtain buf where post: "kernel_posts 1 ?r1 ?q (?r1\<lparr>r_CQ := buf, r_CQTail := r_CQTail ?r1 + 1\<rparr>)"
    using kernel_can_post [OF r1(4), of ?q] by blast
  let ?r2 = "?r1\<lparr>r_CQ := buf, r_CQTail := r_CQTail ?r1 + 1\<rparr>"
  have flight: "sy_flight (?s (nr\<lparr>nr_r := ?r1\<rparr>) [e]) = [] @ e # []" by simp
  have post': "kernel_posts 1 (nr_r (sy_nr (?s (nr\<lparr>nr_r := ?r1\<rparr>) [e]))) ?q ?r2" using post by simp
  have posted: "ring_step ex_env senv 10 1 (?s (nr\<lparr>nr_r := ?r1\<rparr>) [e]) (Answered e res flags) (?s (nr\<lparr>nr_r := ?r2\<rparr>) [])"
    using rs_post [OF flight post', of ex_env senv 10] by simp
  have "cq_ok 1 ?r2" "cq_pending ?r2 = [?q]" using post r1(5) by (simp_all add: kernel_posts_def)
  moreover have "sq_ok 1 ?r2" "sq_sized 1 ?r2" "sq_pending ?r2 = []" "r_SQTail ?r2 = r_SQTail (nr_r nr)"
    using r1 by (simp_all add: sq_ok_def sq_sized_def sq_pending_def sq_count_def)
  ultimately have "answered_core c e res flags nr ?r2" by (simp add: answered_core_def)
  then show ?thesis using taken posted by blast
qed

text \<open>For a send, the poller reads the answer.\<close>

lemma in_core_round:
  assumes run: "ring_run ex_env ex_sys 10 1 s0 evs \<lparr>sy_nr = nr, sy_flight = [], sy_calls = calls, sy_spin = spin, sy_waits = False\<rparr>"
    and core: "in_core c g opcodeTypeSend fd e nr" and fd: "unat fd < length (nr_sendCells nr)"
  shows "\<exists>nr'. ring_run ex_env ex_sys 10 1 s0 (evs @ [Silent, Answered e res 0, Silent])
      \<lparr>sy_nr = nr', sy_flight = [], sy_calls = calls, sy_spin = 0, sy_waits = False\<rparr> \<and> quiet nr' \<and>
    nr_sendCells nr' = (nr_sendCells nr)[unat fd := record_send res (nr_sendCells nr ! unat fd)]"
proof -
  let ?s = "\<lambda>nr fl spin. \<lparr>sy_nr = nr, sy_flight = fl, sy_calls = calls, sy_spin = spin, sy_waits = False\<rparr>"
  obtain r1 r2 where steps: "ring_step ex_env ex_sys 10 1 (?s nr [] spin) Silent (?s (nr\<lparr>nr_r := r1\<rparr>) [e] spin)"
    "ring_step ex_env ex_sys 10 1 (?s (nr\<lparr>nr_r := r1\<rparr>) [e] spin) (Answered e res 0) (?s (nr\<lparr>nr_r := r2\<rparr>) [] spin)"
    and r2: "answered_core c e res 0 nr r2" using in_core_answered [OF core, of ex_sys calls spin res 0] by blast
  have c: "quiescent nr" "slots_inv 13 (nr_slots nr)" "live (nr_slots nr) = [sqe_UserData e \<mapsto> c]"
    "nr_cells nr c = Some (armed_cell g opcodeTypeSend fd)" using core by (simp_all add: in_core_def nr_ok_def)
  have posted: "ring_run ex_env ex_sys 10 1 s0 (evs @ [Silent, Answered e res 0]) (?s (nr\<lparr>nr_r := r2\<rparr>) [] spin)"
    using ring_run.run_step [OF ring_run.run_step [OF run steps(1)] steps(2)] by simp
  let ?q = "\<lparr>cqe_UserData = sqe_UserData e, cqe_Res = res, cqe_Flags = 0\<rparr> :: CQEntry"
  let ?nr2 = "nr\<lparr>nr_r := r2\<rparr>" and ?r3 = "r2\<lparr>r_CQHead := r_CQHead r2 + 1\<rparr>"
  have r2': "cq_ok 1 (nr_r ?nr2)" "cq_pending (nr_r ?nr2) = ?q # []" using r2 by (simp_all add: answered_core_def)
  note turn = poll_turn_ready [OF r2', of ex_env 10 spin]
  note got = GetTask_Cons(2,3) [OF r2']
  let ?nr3 = "?nr2\<lparr>nr_r := ?r3\<rparr>"
  have d: "slots_inv 13 (nr_slots ?nr3)" "live (nr_slots ?nr3) (cqe_UserData ?q) = Some c"
    "nr_cells ?nr3 c = Some (armed_cell g opcodeTypeSend fd)" "tc_opCode (armed_cell g opcodeTypeSend fd) = opcodeTypeSend"
    "unat (tc_fd (armed_cell g opcodeTypeSend fd)) < length (nr_sendCells ?nr3)"
    using c fd by (simp_all add: armed_cell_def)
  obtain nr4 where n4: "dispatch_cqe ?q ?nr3 = Some nr4" "slots_inv 13 (nr_slots nr4)"
    "live (nr_slots nr4) = (live (nr_slots ?nr3))(cqe_UserData ?q := None)"
    "nr_sendCells nr4 = (nr_sendCells nr)[unat fd := record_send res (nr_sendCells nr ! unat fd)]" "nr_r nr4 = ?r3"
    using dispatch_cqe_send [OF d] by (auto simp: armed_cell_def)
  have words: "nr_barrier nr4 = nr_barrier nr" "nr_ticketTail nr4 = nr_ticketTail nr" "nr_finishedPushes nr4 = nr_finishedPushes nr"
    using dispatch_cqe_words [OF n4(1)] by simp_all
  have busy: "cq_pending (nr_r (sy_nr (?s ?nr2 [] spin))) \<noteq> [] \<or> sy_spin (?s ?nr2 [] spin) + 1 < 10" using r2' by simp
  have awake: "\<not> sy_waits (?s ?nr2 [] spin)" by simp
  have "poll_turn ex_env 10 (spin, ?nr2) = Some (0, nr4)" using turn n4(1) by simp
  then have turn': "poll_turn ex_env 10 (sy_spin (?s ?nr2 [] spin), sy_nr (?s ?nr2 [] spin)) = Some (0, nr4)" by simp
  have run3: "ring_run ex_env ex_sys 10 1 s0 (evs @ [Silent, Answered e res 0, Silent]) (?s nr4 [] 0)"
    using ring_run.run_step [OF posted rs_poll [OF awake busy turn']] by simp
  have "sq_ok 1 ?r3 = sq_ok 1 r2" "sq_sized 1 ?r3 = sq_sized 1 r2" "sq_pending ?r3 = sq_pending r2"
    by (simp_all add: sq_ok_def sq_sized_def sq_pending_def sq_count_def)
  then have "sq_ok 1 ?r3" "sq_sized 1 ?r3" "sq_pending ?r3 = []" "r_SQTail ?r3 = r_SQTail (nr_r nr)"
    using r2 by (simp_all add: answered_core_def)
  then have "quiet nr4"
    using c(1,3) n4 words got by (simp add: quiet_def quiescent_def nr_ok_def)
  then show ?thesis using run3 n4(4) by blast
qed

text \<open>At address 4096, 100 bytes are sent: the kernel takes 30, then the flush submits the rest.\<close>

lemma quiet_start:
  "\<exists>nr. new_netring ex_new_ring True [] = Some (Inr nr) \<and> quiet nr \<and> nr_sendCells nr = replicate 65536 zero_sendCell"
proof -
  have "(12 :: nat) \<le> 13" "2 ^ 13 * unat (8 :: u64) \<le> maxAlloc" "(8 :: u64) \<noteq> 0" "(8 :: u64) AND 7 = 0" by (simp_all add: maxAlloc_def)
  from new_slots_valid [OF this, of "0 :: cell_ref"]
  obtain sl where "new_slots (0 :: cell_ref) 8 (2 ^ 13) = Some (Inr sl)" and sl: "slots_inv 13 sl" "live sl = Map.empty"
    by blast
  then have new: "new_slots (0 :: cell_ref) 8 8192 = Some (Inr sl)" by simp
  obtain nr where nr: "new_netring ex_new_ring True [] = Some (Inr nr)" "nr_slots nr = sl"
    "nr_sendCells nr = replicate 65536 zero_sendCell"
    by (simp add: new_netring_def resolve_options_def apply_slots_def defaultSlotsCapacity_def new)
  note f = new_netring_fields(2-) [OF nr(1)]
  have "quiet nr"
    using ex_fresh sl by (simp add: quiet_def fresh_ring_def nr_ok_def quiescent_def f nr(2)) (simp add: ex_new_ring_def)
  then show ?thesis using nr by blast
qed

text \<open>What \<open>e1\<close> and \<open>e2\<close> are: the message, and its remainder from the 31st byte on.\<close>

abbreviation ex_send_events :: "SQEntry \<Rightarrow> SQEntry \<Rightarrow> event list" where
  "ex_send_events e1 e2 \<equiv> [Sent 0 4096 100, Silent, Answered e1 30 0, Silent, Silent, Silent, Answered e2 70 0, Silent]"

lemma ex_send_run:
  "\<exists>nr e1 e2 nr6. new_netring ex_new_ring True [] = Some (Inr nr) \<and>
     ring_run ex_env ex_sys 10 1 (ring_start nr) (ex_send_events e1 e2) \<lparr>sy_nr = nr6, sy_flight = [], sy_calls = Map.empty, sy_spin = 0, sy_waits = False\<rparr> \<and>
     nr_sendCells nr6 ! 0 = after_second 4096 100 30 70 zero_sendCell \<and>
     FlushFDSends_pass ex_env True 77 0 nr6 = Some (Wait_return None, nr6) \<and>
     sqe_Opcode e1 = OpSend \<and> sqe_FD e1 = 0 \<and> sqe_Addr e1 = 4096 \<and> sqe_Len e1 = 100 \<and>
     sqe_Opcode e2 = OpSend \<and> sqe_FD e2 = 0 \<and> sqe_Addr e2 = 4126 \<and> sqe_Len e2 = 70"
proof -
  let ?s = "\<lambda>nr spin. \<lparr>sy_nr = nr, sy_flight = [], sy_calls = Map.empty, sy_spin = spin, sy_waits = False\<rparr>"
  obtain nr where nr: "new_netring ex_new_ring True [] = Some (Inr nr)" "quiet nr" "nr_sendCells nr = replicate 65536 zero_sendCell"
    using quiet_start by blast
  obtain c nr1 where t: "take_cell 77 opcodeTypeSend 0 nr = (c, nr1)" by fastforce
  have cells1: "nr_sendCells nr1 = replicate 65536 zero_sendCell" using take_cell_frame(1) [OF t] nr(3) by simp
  let ?cells = "(nr_sendCells nr1)[unat (0 :: i64) := start_send 4096 100 (nr_sendCells nr1 ! unat (0 :: i64))]"
  have task: "rt_Ctx (send_task c 4096 100) = c" "queues (send_task c 4096 100)" "rt_Opcode (send_task c 4096 100) = opcodeTypeSend"
    by (simp_all add: send_task_def queues_def)
  obtain nr2 e1 where b0: "submit ex_env True (send_task c 4096 100) (nr1\<lparr>nr_sendCells := ?cells\<rparr>) = Some (True, nr2)"
    "in_core c 77 opcodeTypeSend 0 e1 nr2" "request ex_env (send_task c 4096 100) 0 (sqe_UserData e1) = Some e1" "nr_sendCells nr2 = ?cells"
    using quiet_submit [OF nr(2) t task(1,2), of True ?cells] by blast
  have e1: "sqe_Opcode e1 = OpSend" "sqe_FD e1 = ucast (0 :: i64)" "sqe_Addr e1 = rt_Payload (send_task c 4096 100)"
    "sqe_Len e1 = rt_Len (send_task c 4096 100)" using request_send [OF b0(3) task(3)] by simp_all
  note b = b0(1,2) e1 b0(4)
  have "previousSendWait_pass ex_env True 77 0 nr = Some (Wait_return None, nr)"
    by (rule pass_idle) (simp_all add: nr(3) ex_send_idle)
  then have "Send_pass ex_env True 77 0 4096 100 nr = Some (Wait_return None, nr2)"
    using b(1) by (simp add: Send_pass_def t)
  then have sent: "ring_run ex_env ex_sys 10 1 (ring_start nr) [Sent 0 4096 100] (?s nr2 0)"
    using ring_run.run_step [OF ring_run.run_start rs_send [where s = "ring_start nr" and fd = 0 and len = 100]]
    by (simp add: ring_start_def)
  obtain nr3 where r: "ring_run ex_env ex_sys 10 1 (ring_start nr) [Sent 0 4096 100, Silent, Answered e1 30 0, Silent] (?s nr3 0)"
    "quiet nr3" "nr_sendCells nr3 = (nr_sendCells nr2)[unat (0 :: i64) := record_send 30 (nr_sendCells nr2 ! unat (0 :: i64))]"
    using in_core_round [OF sent b(2), of 30] b(7) cells1 by auto
  have num: "(scast (30 :: i32) :: u64) = 30" "(scast (70 :: i32) :: u64) = 70" by (simp_all add: scast_eq)
  let ?sc = "after_first 4096 100 30 zero_sendCell"
  have sc: "nr_sendCells nr3 ! 0 = ?sc" "length (nr_sendCells nr3) = 65536" using r(3) b(7) cells1 by (simp_all add: after_first_def)
  note first = after_first_simps [OF ex_send_idle, of 30 4096 100]
  obtain d nr4 where t2: "take_cell 77 opcodeTypeSend 0 nr3 = (d, nr4)" by fastforce
  have cells4: "nr_sendCells nr4 = nr_sendCells nr3" by (rule take_cell_frame(1) [OF t2])
  let ?cells2 = "(nr_sendCells nr4)[unat (0 :: i64) := compensate ?sc]" and ?task = "compensation_task d ?sc"
  have task2: "rt_Ctx ?task = d" "queues ?task" "rt_Opcode ?task = opcodeTypeSend" by (simp_all add: compensation_task_def queues_def)
  obtain nr5 e2 where b3: "submit ex_env True ?task (nr4\<lparr>nr_sendCells := ?cells2\<rparr>) = Some (True, nr5)"
    "in_core d 77 opcodeTypeSend 0 e2 nr5" "request ex_env ?task 0 (sqe_UserData e2) = Some e2" "nr_sendCells nr5 = ?cells2"
    using quiet_submit [OF r(2) t2 task2(1,2), of True ?cells2] by blast
  have e2: "sqe_Opcode e2 = OpSend" "sqe_FD e2 = ucast (0 :: i64)" "sqe_Addr e2 = rt_Payload ?task" "sqe_Len e2 = rt_Len ?task"
    using request_send [OF b3(3) task2(3)] by simp_all
  note b2 = b3(1,2) e2 b3(4)
  have q: "sc_queued ?sc \<noteq> 0" "sc_err ?sc = None" "sc_finished ?sc = sc_queued ?sc" "sc_sent ?sc \<noteq> sc_len ?sc"
    using first num by (simp_all add: zero_sendCell_def)
  have "FlushFDSends_pass ex_env True 77 0 nr3 = Some (Wait_again, nr5)"
    using b2(1) q sc by (simp add: FlushFDSends_pass_def previousSendWait_pass_def t2 Let_def)
  then have flushed: "ring_run ex_env ex_sys 10 1 (ring_start nr) [Sent 0 4096 100, Silent, Answered e1 30 0, Silent, Silent] (?s nr5 0)"
    using ring_run.run_step [OF r(1) rs_flush [where s = "?s nr3 0"]] by simp
  let ?evs = "[Sent 0 4096 100, Silent, Answered e1 30 0, Silent, Silent, Silent, Answered e2 70 0, Silent]"
  obtain nr6 where r2: "ring_run ex_env ex_sys 10 1 (ring_start nr) ?evs (?s nr6 0)"
    "nr_sendCells nr6 = (nr_sendCells nr5)[unat (0 :: i64) := record_send 70 (nr_sendCells nr5 ! unat (0 :: i64))]"
    using in_core_round [OF flushed b2(2), of 70] b2(7) cells4 sc(2) by auto
  have sc2: "nr_sendCells nr6 ! 0 = after_second 4096 100 30 70 zero_sendCell" "length (nr_sendCells nr6) = 65536"
    using r2(2) b2(7) cells4 sc(2) by (simp_all add: after_second_def)
  note second = after_second_simps [OF ex_send_idle, of 30 70 4096 100]
  have flush: "FlushFDSends_pass ex_env True 77 0 nr6 = Some (Wait_return None, nr6)"
    using sc2 second num by (simp add: FlushFDSends_pass_def previousSendWait_pass_def Let_def)
  have a: "sqe_Addr e1 = 4096" "sqe_Len e1 = 100" "sqe_Addr e2 = 4126" "sqe_Len e2 = 70"
    using b(5,6) b2(5,6) first num by (simp_all add: send_task_def compensation_task_def)
  show ?thesis using nr(1) r2(1) sc2(1) flush a b(3,4) b2(3,4) by (intro exI [of _ nr] exI [of _ e1] exI [of _ e2] exI [of _ nr6]) simp
qed

section \<open>Properties\<close>

text \<open>C7. In its sends the whole system is a run of the send protocol: with any number of callers and senders, the translator, the
  poller and the kernel in any order, every step of a run from \<open>New\<close> is, for the send cells and the sends under way of every
  descriptor, one step of \<open>send_step\<close> with the same event. The runs are those of C1: wake-ups of the kernel succeed, and the
  poller never comes back from its blocking wait uninterrupted while slot 0 is taken, which would record a result the
  kernel never gave.\<close>

theorem system_refines_send_protocol:
  assumes "new_netring r logger os = Some (Inr nr)" and "fresh_ring m n r" and "wakeups_succeed env"
    and "ring_run env senv idleAfter n (ring_start nr) evs s" and "Misfired \<notin> set evs"
  shows "send_run send_start evs (sys_sends s)"
  using run_sends [OF assms(4,3,5) start_good [OF assms(1,2)]] unfolding start_sends [OF assms(1,2)] .

theorem system_refines_send_protocol_witness:
  "\<exists>e1 e2 S cells. send_run send_start (ex_send_events e1 e2) (S, cells) \<and> sqe_Addr e2 = 4126 \<and>
     cells ! 0 = after_second 4096 100 30 70 zero_sendCell"
proof -
  obtain nr e1 e2 nr6 where r: "new_netring ex_new_ring True [] = Some (Inr nr)"
    "ring_run ex_env ex_sys 10 1 (ring_start nr) (ex_send_events e1 e2) \<lparr>sy_nr = nr6, sy_flight = [], sy_calls = Map.empty, sy_spin = 0, sy_waits = False\<rparr>"
    "nr_sendCells nr6 ! 0 = after_second 4096 100 30 70 zero_sendCell" "sqe_Addr e2 = 4126" using ex_send_run by blast
  show ?thesis using system_refines_send_protocol [OF r(1) ex_fresh ex_wakes r(2)] r(3,4)
    by (auto simp: sys_sends_def send_view_def)
qed

text \<open>C2. What is sent arrives in its order. Take a run of the whole system from \<open>New\<close> as in C1 (wake-ups of the kernel succeed,
  the poller never comes back from its blocking wait uninterrupted while slot 0 is taken) of less than 2^64 events, and a descriptor from 0
  to 65535 such that, as \<open>st_good\<close> says, every payload sent on it is below two gigabytes, the kernel never takes more of a request
  than it asks for, and never answers the remainder of a partial send with a partial result again: in that case the code reads behind the
  payload (\<open>Netring_Send\<close>). Then the bytes the kernel has taken on the descriptor are the first of the bytes handed to
  \<open>Send\<close>, each taken while its own message was the latest one, none twice and none left out; a flush of the descriptor that
  returns without an error has nothing left; and no more than one request of the descriptor is under way.\<close>

theorem sends_arrive_in_order:
  assumes "new_netring r logger os = Some (Inr nr)" and "fresh_ring m n r" and "wakeups_succeed env"
    and "ring_run env senv idleAfter n (ring_start nr) evs s" and "Misfired \<notin> set evs"
    and "0 \<le> sint fd" and "sint fd \<le> 65535" and "length evs < 2 ^ 64" and "st_good (observed fd evs)"
  shows "\<exists>left. st_said (observed fd evs) = st_wire (observed fd evs) @ left \<and>
    (\<forall>env' choice g nr'. FlushFDSends_pass env' choice g fd (sy_nr s) = Some (Wait_return None, nr') \<longrightarrow> left = []) \<and>
    size (sends (books {#} (sy_nr s) (sy_flight s) (sy_calls s)) fd) \<le> 1"
proof -
  have run: "send_run send_start evs (sys_sends s)"
    using run_sends [OF assms(4,3,5) start_good [OF assms(1,2)]] unfolding start_sends [OF assms(1,2)] .
  have "unat fd < 65536" using uint_sint_nonneg(2) [OF assms(6)] assms(7) by simp
  from send_run_stream [OF run [unfolded sys_sends_def send_view_def] this assms(8,9)]
  have ok: "stream_ok (sends (books {#} (sy_nr s) (sy_flight s) (sy_calls s)) fd) (nr_sendCells (sy_nr s) ! unat fd) (observed fd evs)" by simp
  obtain left where left: "st_said (observed fd evs) = st_wire (observed fd evs) @ left"
    "may_send (nr_sendCells (sy_nr s) ! unat fd) \<longrightarrow> left = []" using stream_ok_order(1) [OF ok] by blast
  then show ?thesis using flush_returns stream_ok_order(2) [OF ok] by blast
qed

theorem sends_arrive_in_order_witness:
  "\<exists>nr e1 e2 s. ring_run ex_env ex_sys 10 1 (ring_start nr) (ex_send_events e1 e2) s \<and> sqe_Addr e2 = 4126 \<and>
     st_wire (observed 0 (ex_send_events e1 e2)) = bytes_of 1 4096 100"
proof -
  obtain nr e1 e2 nr6 where r: "new_netring ex_new_ring True [] = Some (Inr nr)"
    "ring_run ex_env ex_sys 10 1 (ring_start nr) (ex_send_events e1 e2) \<lparr>sy_nr = nr6, sy_flight = [], sy_calls = Map.empty, sy_spin = 0, sy_waits = False\<rparr>"
    "FlushFDSends_pass ex_env True 77 0 nr6 = Some (Wait_return None, nr6)"
    "sqe_Opcode e1 = OpSend" "sqe_FD e1 = 0" "sqe_Addr e1 = 4096" "sqe_Len e1 = 100"
    "sqe_Opcode e2 = OpSend" "sqe_FD e2 = 0" "sqe_Addr e2 = 4126" "sqe_Len e2 = 70" using ex_send_run by blast
  have good: "st_good (observed 0 (ex_send_events e1 e2))" "st_said (observed 0 (ex_send_events e1 e2)) = bytes_of 1 4096 100"
    using r(4-11) by (simp_all add: observed_def Let_def)
  have calm: "Misfired \<notin> set (ex_send_events e1 e2)" by simp
  have fd: "0 \<le> sint (0 :: i64)" "sint (0 :: i64) \<le> 65535" "length (ex_send_events e1 e2) < 2 ^ 64" by simp_all
  have flush: "FlushFDSends_pass ex_env True 77 0 (sy_nr \<lparr>sy_nr = nr6, sy_flight = [], sy_calls = Map.empty, sy_spin = 0, sy_waits = False\<rparr>) =
      Some (Wait_return None, nr6)" using r(3) by simp
  obtain left where "st_said (observed 0 (ex_send_events e1 e2)) = st_wire (observed 0 (ex_send_events e1 e2)) @ left" "left = []"
    using sends_arrive_in_order [OF r(1) ex_fresh ex_wakes r(2) calm fd good(1)] flush by blast
  then have "st_wire (observed 0 (ex_send_events e1 e2)) = bytes_of 1 4096 100" using good(2) by simp
  then show ?thesis using r(2,10) by blast
qed

end
