(* ===== verification/Recv_Views.thy ===== *)
theory Recv_Views
  imports Send_Stream
begin

text \<open>
  Received views in runs of the whole system. \<open>lend\<close> is what the kernel and the callers do with
  buffers beside the steps of \<open>Netring_Calls\<close>. The kernel answers a receive that has bytes from the oldest
  buffer published for its class, and at an end of file that a \<open>Read\<close> meets it may take that buffer too, without
  telling which; such a buffer is lost until \<open>ReplenishOne\<close> publishes it again. A caller hands back only
  views it was given, once each, and a class is unregistered only when it is idle. In runs that
  keep to this every buffer is published, owed to one caller, held as one view, or lost at an end of file.

  What a run keeps to where \<open>Read\<close> returns from an end of file and not all buffers are published: the
  descriptor before the kernel's head, which \<open>ReplenishOne\<close> takes for the one the end of file used up, is in fact of a
  lost buffer. Otherwise the code publishes a buffer that somebody holds
  (\<open>ReplenishOne_republishes_last\<close>): it does so when another receive took a buffer in between.
\<close>

section \<open>Lending\<close>

definition wants_buffer :: "SQEntry \<Rightarrow> bool" where
  "wants_buffer e \<longleftrightarrow> sqe_Opcode e = OpRecv \<or> sqe_Opcode e = OpRead"

fun call_class :: "net_call \<Rightarrow> nat option" where
  "call_class (Call_recv fd sizeClass) = Some (unat sizeClass)"
| "call_class (Call_read fd sizeClass) = Some (unat sizeClass)"
| "call_class call = None"

text \<open>
  The kernel's head of each class; the views callers hold and the buffers lost at an end of file, both with their class;
  and how often in each class asking the kernel for its head has failed, in which case a lost buffer is not published again.
\<close>

type_synonym lending = "(nat \<Rightarrow> u16) \<times> (nat \<times> view) list \<times> (nat \<times> u16) list \<times> (nat \<Rightarrow> nat)"

text \<open>The buffer of the descriptor before the head, the one \<open>ReplenishOne\<close> publishes.\<close>

definition last_taken :: "u16 \<Rightarrow> ProvidedBufferRing \<Rightarrow> u16" where
  "last_taken h p = be_BID (pb_ring p ! unat ((ucast h - 1) AND pb_mask p))"

text \<open>\<open>Read\<close> of goroutine \<open>g\<close> returns from an end of file with what asking for the head has said.\<close>

definition ends_at_eof :: "sys_env \<Rightarrow> ring_sys \<Rightarrow> u64 \<Rightarrow> ring_sys \<Rightarrow> nat \<Rightarrow> ProvidedBufferRing \<Rightarrow> nat + u32 \<Rightarrow> bool" where
  "ends_at_eof senv s g s' k pbr status \<longleftrightarrow> (\<exists>ph fd sizeClass c tr. sy_calls s g = Some (ph, Call_read fd sizeClass, c) \<and>
     k = unat sizeClass \<and> call_finish senv tr (Call_read fd sizeClass) c (sy_nr s) = Some (Out_view (Inr None), sy_nr s') \<and>
     nr_pbrs (sy_nr s) ! k = Some pbr \<and> status = sys_pbuf_status senv tr (pb_fd pbr) (pb_bgid pbr))"

inductive lend :: "sys_env \<Rightarrow> ring_sys \<Rightarrow> event \<Rightarrow> ring_sys \<Rightarrow> lending \<Rightarrow> lending \<Rightarrow> bool"
  for senv :: sys_env and s :: ring_sys where
  ld_pick: "wants_buffer e \<Longrightarrow> 0 < sint res \<Longrightarrow> c = unat (sqe_BufIndex e) \<Longrightarrow>
    c < length (nr_pbrs (sy_nr s)) \<Longrightarrow> nr_pbrs (sy_nr s) ! c = Some pbr \<Longrightarrow> pb_bids (heads c) pbr = b # bs \<Longrightarrow>
    nat (sint res) \<le> unat (pb_bufSize pbr) \<Longrightarrow>
    lend senv s (Answered e res (push_bit 16 (ucast b) OR CQEFBuffer)) s' (heads, views, lost, failed)
      (heads(c := heads c + 1), views, lost, failed)"
| ld_eof: "sqe_Opcode e = OpRead \<Longrightarrow> c = unat (sqe_BufIndex e) \<Longrightarrow>
    c < length (nr_pbrs (sy_nr s)) \<Longrightarrow> nr_pbrs (sy_nr s) ! c = Some pbr \<Longrightarrow> pb_bids (heads c) pbr = b # bs \<Longrightarrow>
    lend senv s (Answered e 0 flags) s' (heads, views, lost, failed) (heads(c := heads c + 1), views, (c, b) # lost, failed)"
| ld_answer: "\<not> (wants_buffer e \<and> 0 < sint res) \<Longrightarrow> lend senv s (Answered e res flags) s' l l"
| ld_view: "sy_calls s g = Some (ph, call, c) \<Longrightarrow> call_class call = Some k \<Longrightarrow>
    lend senv s (Ended g rings (Out_view (Inr (Some v)))) s' (heads, views, lost, failed) (heads, (k, v) # views, lost, failed)"
| ld_end: "\<forall>v. out \<noteq> Out_view (Inr v) \<Longrightarrow> lend senv s (Ended g rings out) s' l l"
| ld_recv_eof: "sy_calls s g = Some (ph, Call_recv fd sizeClass, c) \<Longrightarrow> lend senv s (Ended g rings (Out_view (Inr None))) s' l l"
| ld_read_full: "ends_at_eof senv s g s' k pbr (Inr (ucast (heads k))) \<Longrightarrow> pb_count (heads k) pbr = unat (pb_capacity pbr) \<Longrightarrow>
    lend senv s (Ended g rings (Out_view (Inr None))) s' (heads, views, lost, failed) (heads, views, lost, failed)"
| ld_read_back: "ends_at_eof senv s g s' k pbr (Inr (ucast (heads k))) \<Longrightarrow> pb_count (heads k) pbr \<noteq> unat (pb_capacity pbr) \<Longrightarrow>
    (k, last_taken (heads k) pbr) \<in> set lost \<Longrightarrow>
    lend senv s (Ended g rings (Out_view (Inr None))) s' (heads, views, lost, failed)
      (heads, views, remove1 (k, last_taken (heads k) pbr) lost, failed)"
| ld_read_fails: "ends_at_eof senv s g s' k pbr (Inl errno) \<Longrightarrow>
    lend senv s (Ended g rings (Out_view (Inr None))) s' (heads, views, lost, failed)
      (heads, views, lost, failed(k := failed k + 1))"
| ld_release: "(unat sizeClass, v) \<in> set views \<Longrightarrow>
    lend senv s (Released sizeClass v) s' (heads, views, lost, failed) (heads, remove1 (unat sizeClass, v) views, lost, failed)"
| ld_register: "lend senv s (Registered sizeClass) s' (heads, views, lost, failed) (heads(unat sizeClass := 0), views, lost, failed)"
| ld_unregister: "\<forall>v. (unat sizeClass, v) \<notin> set views \<Longrightarrow>
    \<forall>g ph call c. sy_calls s g = Some (ph, call, c) \<longrightarrow> call_class call \<noteq> Some (unat sizeClass) \<Longrightarrow>
    lend senv s (Unregistered sizeClass) s' (heads, views, lost, failed)
      (heads, views, filter (\<lambda>x. fst x \<noteq> unat sizeClass) lost, failed(unat sizeClass := 0))"
| ld_unregister_refused: "err = Size_class_not_provisioned sizeClass \<or> err = Unregister_buffer_ring (Unregister_pbuf_ring errno) \<Longrightarrow>
    lend senv s (Unregister_failed sizeClass err) s' l l"
| ld_begin: "lend senv s (Began g call) s' l l"
| ld_sent: "lend senv s (Sent fd ptr len) s' l l"
| ld_misfired: "lend senv s Misfired s' l l"
| ld_silent: "lend senv s Silent s' l l"

definition lend_start :: lending where
  "lend_start = (\<lambda>c. 0, [], [], \<lambda>c. 0)"

inductive view_run :: "uring_env \<Rightarrow> sys_env \<Rightarrow> int \<Rightarrow> nat \<Rightarrow> ring_sys \<Rightarrow> event list \<Rightarrow> ring_sys \<Rightarrow> lending \<Rightarrow> bool"
  for env :: uring_env and senv :: sys_env and idleAfter :: int and n :: nat and s0 :: ring_sys where
  vr_start: "view_run env senv idleAfter n s0 [] s0 lend_start"
| vr_step: "view_run env senv idleAfter n s0 evs s l \<Longrightarrow> ring_step env senv idleAfter n s ev s' \<Longrightarrow> lend senv s ev s' l l' \<Longrightarrow>
    view_run env senv idleAfter n s0 (evs @ [ev]) s' l'"

lemma view_run_ring: "view_run env senv idleAfter n s0 evs s l \<Longrightarrow> ring_run env senv idleAfter n s0 evs s"
  by (induction rule: view_run.induct) (auto intro: ring_run.intros)

section \<open>Which steps touch the buffer rings\<close>

lemma take_cell_pbrs: "take_cell g opc fd nr = (c, nr') \<Longrightarrow> nr_pbrs nr' = nr_pbrs nr"
  by (auto simp: take_cell_def Let_def split: list.splits)

lemma dispatch_pbrs: "dispatch env task nr = Some nr' \<Longrightarrow> nr_pbrs nr' = nr_pbrs nr"
  by (auto simp: dispatch_def submit_request_def abortIssuer_def wake_cell_def Let_def log_entry_def
      split: opcodeType.splits option.splits prod.splits if_splits)

lemma submit_pbrs:
  "submit env choice task nr = Some (b, nr') \<Longrightarrow> rt_Opcode task \<noteq> opcodeTypeReleaseBuffer \<Longrightarrow> nr_pbrs nr' = nr_pbrs nr"
  by (auto simp: submit_def submitIntention_def setFallbackActive_def send_fallback_def Let_def dest!: dispatch_pbrs
      split: option.splits if_splits)

lemma queues_not_release: "queues t \<Longrightarrow> rt_Opcode t \<noteq> opcodeTypeReleaseBuffer"
  by (auto simp: queues_def)

lemma previousSendWait_pbrs: "previousSendWait_pass env choice g fd nr = Some (out, nr') \<Longrightarrow> nr_pbrs nr' = nr_pbrs nr"
  by (auto simp: previousSendWait_pass_def compensation_task_def Let_def dest!: submit_pbrs take_cell_pbrs
      split: option.splits prod.splits if_splits bool.splits)

lemma Send_pbrs: "Send_pass env choice g fd ptr len nr = Some (out, nr') \<Longrightarrow> nr_pbrs nr' = nr_pbrs nr"
  by (auto simp: Send_pass_def send_task_def Let_def dest!: submit_pbrs take_cell_pbrs previousSendWait_pbrs
      split: option.splits prod.splits if_splits wait_out.splits bool.splits)

lemma fallback_push_pbrs: "fallback_push env t nr = Some nr' \<Longrightarrow> nr_pbrs nr' = nr_pbrs nr"
  by (auto simp: fallback_push_def dest!: dispatch_pbrs split: if_splits)

lemma fallback_pushes_pbrs: "fallback_pushes j env t M nr = Some nr' \<Longrightarrow> nr_pbrs nr' = nr_pbrs nr"
proof (induction j arbitrary: t M nr)
  case (Suc j)
  obtain nr1 where p: "fallback_push env t nr = Some nr1" using Suc.prems by (cases "fallback_push env t nr") auto
  show ?case using Suc.prems Suc.IH fallback_push_pbrs [OF p] unfolding fallback_pushes_turn [OF p]
    by (fastforce split: if_splits list.splits)
qed simp

lemma fallback_round_pbrs: "fallback_round j env t nr = Some (released, nr') \<Longrightarrow> nr_pbrs nr' = nr_pbrs nr"
  by (auto simp: fallback_round_def fallback_finish_def Let_def dest!: fallback_pushes_pbrs split: option.splits prod.splits if_splits)

lemma dispatch_cqe_pbrs: "dispatch_cqe q nr = Some nr' \<Longrightarrow> nr_pbrs nr' = nr_pbrs nr"
  by (auto simp: dispatch_cqe_def wake_cell_def pool_put_def log_entry_def Let_def split: if_splits option.splits prod.splits)

lemma poll_turn_pbrs: "poll_turn env idleAfter (spin, nr) = Some (spin', nr') \<Longrightarrow> nr_pbrs nr' = nr_pbrs nr"
  by (auto simp: poll_turn_def log_entry_def Let_def dest!: dispatch_cqe_pbrs split: option.splits prod.splits if_splits)

lemma after_wait_pbrs: "after_wait env nr = Some nr' \<Longrightarrow> nr_pbrs nr' = nr_pbrs nr"
  by (auto simp: after_wait_def log_entry_def dest!: dispatch_cqe_pbrs split: option.splits if_splits)

lemma park_cell_pbrs: "park_cell c nr = Some (sleeps, nr') \<Longrightarrow> nr_pbrs nr' = nr_pbrs nr"
  by (auto simp: park_cell_def Let_def split: option.splits prod.splits)

text \<open>Of the calls that return, only \<open>Read\<close> at an end of file does.\<close>

lemma Read_finish_eof:
  assumes "Read_finish senv tr sizeClass c nr = Some (Inr None, nr')" and "nr_pbrs nr ! unat sizeClass = Some p"
  shows "\<exists>err p'. unat sizeClass < length (nr_pbrs nr) \<and> ReplenishOne senv tr p = Some (err, p') \<and>
    nr_pbrs nr' = (nr_pbrs nr)[unat sizeClass := Some p']"
proof -
  obtain cell where cell: "nr_cells nr c = Some cell" using assms(1) by (auto simp: Read_finish_def split: option.splits)
  have ok: "cell_error cell = None" using assms(1) cell by (auto simp: Read_finish_def split: option.splits)
  have eof: "tc_res cell = 0"
  proof (rule ccontr)
    assume "tc_res cell \<noteq> 0"
    then obtain x where "map_sum id Some (x :: netring_error + view) = Inr None"
      using assms(1) cell ok by (auto simp: Read_finish_def)
    then show False by (cases x) simp_all
  qed
  have small: "unat sizeClass < length (nr_pbrs nr)"
    using assms(1) cell ok eof by (simp add: Read_finish_def split: if_splits)
  obtain x where x: "ReplenishOne senv tr p = Some x"
    using assms cell ok eof small by (cases "ReplenishOne senv tr p") (simp_all add: Read_finish_def)
  obtain err p' where p': "x = (err, p')" by (cases x)
  have "nr_pbrs nr' = (nr_pbrs nr)[unat sizeClass := Some p']"
    using assms cell ok eof small x p' by (auto simp add: Read_finish_def pool_put_def log_entry_def Let_def split: if_splits)
  then show ?thesis using small x p' by blast
qed

lemma call_finish_pbrs:
  assumes "call_finish senv tr call c nr = Some (out, nr')"
  shows "nr_pbrs nr' = nr_pbrs nr \<or> (\<exists>fd sizeClass. call = Call_read fd sizeClass) \<and> out = Out_view (Inr None)"
  using assms
  by (cases call) (auto simp: Accept_finish_def Connect_finish_def Close_finish_def finish_op_def Recv_finish_def Read_finish_def
      pool_put_def Let_def split: option.splits sum.splits if_splits)

definition keeps_rings :: "ring_sys \<Rightarrow> ring_sys \<Rightarrow> bool" where
  "keeps_rings s s' \<longleftrightarrow> nr_pbrs (sy_nr s') = nr_pbrs (sy_nr s)"

text \<open>What each step does to the buffer rings.\<close>

fun ring_effect :: "uring_env \<Rightarrow> sys_env \<Rightarrow> ring_sys \<Rightarrow> event \<Rightarrow> ring_sys \<Rightarrow> bool" where
  "ring_effect env senv s (Released sizeClass v) s' \<longleftrightarrow> ReleaseBuffer_op env sizeClass v (sy_nr s) = Some (sy_nr s')"
| "ring_effect env senv s (Registered sizeClass) s' \<longleftrightarrow>
     (\<exists>capacity tr tr'. RegisterBufferRing_op senv sizeClass capacity (sy_nr s, tr) = Some (None, sy_nr s', tr'))"
| "ring_effect env senv s (Unregistered sizeClass) s' \<longleftrightarrow>
     (\<exists>tr tr'. UnregisterBufferRing_op senv sizeClass (sy_nr s, tr) = Some (None, sy_nr s', tr'))"
| "ring_effect env senv s (Unregister_failed sizeClass err) s' \<longleftrightarrow>
     (\<exists>tr tr'. UnregisterBufferRing_op senv sizeClass (sy_nr s, tr) = Some (Some err, sy_nr s', tr'))"
| "ring_effect env senv s (Ended g rings out) s' \<longleftrightarrow> rings = nr_pbrs (sy_nr s) \<and>
     (keeps_rings s s' \<or> (\<exists>ph fd sizeClass c. sy_calls s g = Some (ph, Call_read fd sizeClass, c)) \<and> out = Out_view (Inr None))"
| "ring_effect env senv s (Began g call) s' \<longleftrightarrow> call_check call (sy_nr s) = Some None \<and> keeps_rings s s'"
| "ring_effect env senv s ev s' \<longleftrightarrow> keeps_rings s s'"

lemma ring_step_effect: "ring_step env senv idleAfter n s ev s' \<Longrightarrow> ring_effect env senv s ev s'"
proof (induction rule: ring_step.induct)
  case (rs_begin s g call c nr1 choice nr2)
  then show ?case using submit_pbrs [OF rs_begin(4) queues_not_release] take_cell_pbrs [OF rs_begin(3)] by (simp add: keeps_rings_def)
next
  case (rs_refused call s g c nr1 choice nr2)
  then show ?case using submit_pbrs [OF rs_refused(3) queues_not_release] take_cell_pbrs [OF rs_refused(2)] by (simp add: keeps_rings_def)
next
  case (rs_end s g call c tr out nr')
  then show ?case using call_finish_pbrs [OF rs_end(2)] by (auto simp: keeps_rings_def)
next
  case (rs_register s sizeClass capacity tr nr' tr')
  then show ?case by auto
next
  case (rs_register_fails sizeClass capacity s tr err nr' tr')
  then show ?case
    by (auto simp: keeps_rings_def RegisterBufferRing_op_def Let_def split: option.splits if_splits prod.splits sum.splits)
next
  case (rs_unregister sizeClass s tr nr' tr')
  then show ?case by auto
next
  case (rs_unregister_fails sizeClass s tr err nr' tr')
  then show ?case by auto
next
  case (rs_waited s env' nr')
  then show ?case using after_wait_pbrs [OF rs_waited(2)] by (simp add: keeps_rings_def)
qed (auto simp: keeps_rings_def FlushFDSends_pass_def Stop_def
    dest: park_cell_pbrs Send_pbrs previousSendWait_pbrs fallback_round_pbrs poll_turn_pbrs split: if_splits)

section \<open>One class of buffers\<close>

text \<open>The buffer a view starts in, as \<open>ReleaseView\<close> finds it.\<close>

definition view_bid :: "ProvidedBufferRing \<Rightarrow> view \<Rightarrow> u16" where
  "view_bid p v = of_nat (unat (fst v - pb_basePtr p) div unat (pb_bufSize p))"

definition view_of :: "nat \<Rightarrow> ProvidedBufferRing \<Rightarrow> view \<Rightarrow> bool" where
  "view_of k p v \<longleftrightarrow> unat (view_bid p v) < 2 ^ k \<and> fst v = pb_bufPointers p ! unat (view_bid p v) \<and>
     0 < snd v \<and> snd v \<le> unat (pb_bufSize p)"

text \<open>
  All ids of the ring are published, owed to a caller (the first list of ids) or under a view.
\<close>

definition class_ok :: "u16 \<Rightarrow> ProvidedBufferRing \<Rightarrow> u16 multiset \<Rightarrow> view list \<Rightarrow> bool" where
  "class_ok h p owed views \<longleftrightarrow> (\<exists>k bids. pb_owned k (h, bids, p) \<and> mset bids = owed + mset (map (view_bid p) views) \<and>
     list_all (view_of k p) views)"

lemma pointer_bid:
  assumes "pbr_ok k p" and "unat b < 2 ^ k"
  shows "view_bid p (pb_bufPointers p ! unat b, len) = b"
proof -
  have "0 < unat (pb_bufSize p)" using assms(1) by (simp add: pbr_ok_def)
  then have "unat (pb_bufPointers p ! unat b - pb_basePtr p) div unat (pb_bufSize p) = unat b"
    using pbr_pointer(3) [OF assms] by simp
  then show ?thesis by (simp add: view_bid_def)
qed

lemma class_registered:
  assumes "RegisterBufferRing senv fd bgid capacity sz tr = Some (Inr p, tr')" and "mmap_fresh senv"
  shows "class_ok 0 p {#} []"
proof -
  obtain k where "pb_valid k 0 p" "pb_bids 0 p = map of_nat [0..<2 ^ k]" using RegisterBufferRing_success [OF assms] by blast
  from pb_owned_fresh [OF this] show ?thesis unfolding class_ok_def by (intro exI [of _ k] exI [of _ "[]"]) simp
qed

lemma class_pick:
  assumes ok: "class_ok h p owed views" and b: "pb_bids h p = b # bs"
  shows "class_ok (h + 1) p (add_mset b owed) views"
proof -
  obtain k bids where o: "pb_owned k (h, bids, p)" "mset bids = owed + mset (map (view_bid p) views)" "list_all (view_of k p) views"
    using ok by (auto simp: class_ok_def)
  have "pb_owned k (h + 1, b # bids, p)" by (rule pb_owned_step [OF pb_step.pick [OF b] o(1)])
  then show ?thesis unfolding class_ok_def using o(2,3) by (intro exI [of _ k] exI [of _ "b # bids"]) simp
qed

lemma class_view:
  assumes ok: "class_ok h p (add_mset b owed) views" and len: "0 < len" "len \<le> unat (pb_bufSize p)"
  shows "class_ok h p owed ((pb_bufPointers p ! unat b, len) # views)"
proof -
  obtain k bids where o: "pb_owned k (h, bids, p)" "mset bids = add_mset b owed + mset (map (view_bid p) views)" "list_all (view_of k p) views"
    using ok by (auto simp: class_ok_def)
  have "b \<in># mset bids" unfolding o(2) by simp
  then have small: "unat b < 2 ^ k" using pb_owned_held(4) [OF o(1), of b] by simp
  have "pbr_ok k p" using pb_owned_valid [OF o(1)] by (simp add: pb_valid_def)
  note bid = pointer_bid [OF this small]
  have "view_of k p (pb_bufPointers p ! unat b, len)" unfolding view_of_def bid using small len by simp
  then show ?thesis unfolding class_ok_def using o bid by (intro exI [of _ k] exI [of _ bids]) simp
qed

text \<open>A view that is handed back: its buffer is published again.\<close>

lemma class_release:
  assumes ok: "class_ok h p owed views" and v: "v \<in> set views"
  shows "\<exists>p'. ReleaseView (fst v) p = Some (Inr p') \<and> class_ok h p' owed (remove1 v views) \<and> 0 < snd v \<and>
    pb_bufSize p' = pb_bufSize p \<and> pb_bids h p' = pb_bids h p @ [view_bid p v]"
proof -
  obtain k bids where o: "pb_owned k (h, bids, p)" "mset bids = owed + mset (map (view_bid p) views)" "list_all (view_of k p) views"
    using ok by (auto simp: class_ok_def)
  let ?b = "view_bid p v"
  have vo: "view_of k p v" using o(3) v by (simp add: list_all_iff)
  have valid: "pb_valid k h p" "pbr_ok k p" using pb_owned_valid [OF o(1)] by (simp_all add: pb_valid_def)
  have "mset views = add_mset v (mset (remove1 v views))" using v by simp
  then have m: "mset (map (view_bid p) views) = add_mset ?b (mset (map (view_bid p) (remove1 v views)))"
    unfolding mset_map by (metis image_mset_add_mset)
  then have "?b \<in># mset bids" unfolding o(2) by simp
  then have b: "?b \<in> set bids" by simp
  then have small: "unat ?b < 2 ^ k" by (rule pb_owned_held(4) [OF o(1)])
  have "0 < length bids" using b by (cases bids) auto
  then have room: "pb_count h p < 2 ^ k" using pb_owned_held(2) [OF o(1)] by linarith
  obtain p' where p': "ReleaseBuffer ?b p = Some p'" "p' = p\<lparr>pb_ring := pb_ring p'\<rparr>" "pb_bids h p' = pb_bids h p @ [?b]"
    using ReleaseBuffer_valid [OF valid(1) small room] by blast
  have same: "pb_bufPointers p' = pb_bufPointers p" "pb_bufSize p' = pb_bufSize p" "pb_basePtr p' = pb_basePtr p" by (subst p'(2), simp)+
  have "fst v = pb_bufPointers p ! unat ?b" using vo by (simp add: view_of_def)
  then have hit: "ReleaseView (fst v) p = Some (Inr p')" using ReleaseView_hit [OF valid(2) small] p'(1) by simp
  have own: "pb_owned k (h, remove1 ?b bids, p')" by (rule pb_owned_step [OF pb_step.release [OF b p'(1)] o(1)])
  have bid: "view_bid p' = view_bid p" "view_of k p' = view_of k p" by (simp_all add: view_bid_def view_of_def same fun_eq_iff)
  have "mset (remove1 ?b bids) = owed + mset (map (view_bid p') (remove1 v views))" unfolding mset_remove1 o(2) m bid by simp
  moreover have "list_all (view_of k p') (remove1 v views)" using o(3) unfolding bid by (auto simp: list_all_iff dest: notin_set_remove1)
  ultimately have "class_ok h p' owed (remove1 v views)" unfolding class_ok_def using own by blast
  then show ?thesis using hit same p'(3) vo by (auto simp: view_of_def)
qed

text \<open>What \<open>ReplenishOne\<close> does under an honest head: nothing where all buffers are published, and otherwise it
  publishes the buffer of the descriptor before the head.\<close>

lemma ReplenishOne_turn:
  assumes ok: "pbr_ok k p" and status: "sys_pbuf_status senv tr (pb_fd p) (pb_bgid p) = Inr (ucast (h :: u16))"
  shows "pb_count h p = unat (pb_capacity p) \<Longrightarrow> ReplenishOne senv tr p = Some (None, p)"
    and "pb_count h p \<noteq> unat (pb_capacity p) \<Longrightarrow>
      ReplenishOne senv tr p = map_option (\<lambda>p'. (None, p')) (ReleaseBuffer (last_taken h p) p)"
proof -
  have "ucast (ucast (ringTail p) - ucast h :: u32) = ringTail p - h" by (simp add: ucast_down_diff ucast_ucast_same)
  then have avail: "unat (ucast (ucast (ucast (ringTail p) - ucast h :: u32) :: u16) :: u32) = pb_count h p"
    by (simp add: pb_count_def unat_ucast_up)
  have full: "ucast (ucast (ucast (ringTail p) - ucast h :: u32) :: u16) = pb_capacity p \<longleftrightarrow> pb_count h p = unat (pb_capacity p)"
    unfolding word_unat_eq_iff [where 'a = 32] avail ..
  have "unat ((ucast h - 1) AND pb_mask p :: u32) < 2 ^ k"
    using ok by (simp add: pbr_ok_def unat_and_mask)
  then have "unat ((ucast h - 1) AND pb_mask p :: u32) < length (pb_ring p)" using ok unfolding pbr_ok_def by linarith
  then show "pb_count h p = unat (pb_capacity p) \<Longrightarrow> ReplenishOne senv tr p = Some (None, p)"
    and "pb_count h p \<noteq> unat (pb_capacity p) \<Longrightarrow>
      ReplenishOne senv tr p = map_option (\<lambda>p'. (None, p')) (ReleaseBuffer (last_taken h p) p)"
    using status full by (simp_all add: ReplenishOne_def Let_def entry_def last_taken_def)
qed

text \<open>So a lost buffer comes back.\<close>

lemma class_back:
  assumes ok: "class_ok h p (add_mset (last_taken h p) owed) views"
    and status: "sys_pbuf_status senv tr (pb_fd p) (pb_bgid p) = Inr (ucast h)"
  shows "\<exists>p'. ReplenishOne senv tr p = Some (None, p') \<and> class_ok h p' owed views \<and> pb_bufSize p' = pb_bufSize p"
proof -
  let ?b = "last_taken h p"
  obtain k bids where o: "pb_owned k (h, bids, p)" "mset bids = add_mset ?b owed + mset (map (view_bid p) views)" "list_all (view_of k p) views"
    using ok by (auto simp: class_ok_def)
  have "?b \<in># mset bids" unfolding o(2) by simp
  then have b: "?b \<in> set bids" by simp
  have small: "unat ?b < 2 ^ k" by (rule pb_owned_held(4) [OF o(1) b])
  have valid: "pb_valid k h p" "pbr_ok k p" using pb_owned_valid [OF o(1)] by (simp_all add: pb_valid_def)
  have "0 < length bids" using b by (cases bids) auto
  then have room: "pb_count h p < 2 ^ k" using pb_owned_held(2) [OF o(1)] by linarith
  moreover have "unat (pb_capacity p) = 2 ^ k" using valid(2) by (simp add: pbr_ok_def)
  ultimately have turn: "ReplenishOne senv tr p = map_option (\<lambda>p'. (None, p')) (ReleaseBuffer ?b p)"
    by (intro ReplenishOne_turn(2) [OF valid(2) status]) simp
  obtain p' where p': "ReleaseBuffer ?b p = Some p'" "p' = p\<lparr>pb_ring := pb_ring p'\<rparr>"
    using ReleaseBuffer_valid [OF valid(1) small room] by blast
  have same: "pb_bufPointers p' = pb_bufPointers p" "pb_bufSize p' = pb_bufSize p" "pb_basePtr p' = pb_basePtr p" by (subst p'(2), simp)+
  have bid: "view_bid p' = view_bid p" "view_of k p' = view_of k p" by (simp_all add: view_bid_def view_of_def same fun_eq_iff)
  have own: "pb_owned k (h, remove1 ?b bids, p')" by (rule pb_owned_step [OF pb_step.release [OF b p'(1)] o(1)])
  have "mset (remove1 ?b bids) = owed + mset (map (view_bid p') views)" unfolding mset_remove1 o(2) bid by simp
  moreover have "list_all (view_of k p') views" using o(3) unfolding bid .
  ultimately have "class_ok h p' owed views" unfolding class_ok_def using own by blast
  then show ?thesis using turn p'(1) same(2) by simp
qed

lemma class_full:
  assumes ok: "class_ok h p owed views" and full: "pb_count h p = unat (pb_capacity p)"
  shows "owed = {#}"
    and "sys_pbuf_status senv tr (pb_fd p) (pb_bgid p) = Inr (ucast h) \<Longrightarrow> ReplenishOne senv tr p = Some (None, p)"
proof -
  obtain k bids where o: "pb_owned k (h, bids, p)" "mset bids = owed + mset (map (view_bid p) views)"
    using ok by (auto simp: class_ok_def)
  have valid: "pbr_ok k p" using pb_owned_valid [OF o(1)] by (simp add: pb_valid_def)
  then have "unat (pb_capacity p) = 2 ^ k" by (simp add: pbr_ok_def)
  then have "length bids = 0" using pb_owned_held(2) [OF o(1)] full by linarith
  then show "owed = {#}" using o(2) by simp
  show "sys_pbuf_status senv tr (pb_fd p) (pb_bgid p) = Inr (ucast h) \<Longrightarrow> ReplenishOne senv tr p = Some (None, p)"
    by (rule ReplenishOne_turn(1) [OF valid _ full])
qed

section \<open>Bytes\<close>

text \<open>No byte in common; the second is a length in bytes.\<close>

definition apart :: "view \<Rightarrow> view \<Rightarrow> bool" where
  "apart v w \<longleftrightarrow> unat (fst v) + snd v \<le> unat (fst w) \<or> unat (fst w) + snd w \<le> unat (fst v)"

lemma buffers_apart:
  assumes ok: "pbr_ok k p" and b: "unat b < 2 ^ k" "unat b' < 2 ^ k" "b \<noteq> b'"
    and len: "n \<le> unat (pb_bufSize p)" "n' \<le> unat (pb_bufSize p)"
  shows "apart (pb_bufPointers p ! unat b, n) (pb_bufPointers p ! unat b', n')"
proof -
  let ?z = "unat (pb_bufSize p)"
  have "unat b < unat b' \<or> unat b' < unat b" using b(3) by (auto simp: word_unat_eq_iff)
  then have "unat b * ?z + ?z \<le> unat b' * ?z \<or> unat b' * ?z + ?z \<le> unat b * ?z"
    using mult_le_mono1 [of "Suc (unat b)" "unat b'" ?z] mult_le_mono1 [of "Suc (unat b')" "unat b" ?z] by auto
  then show ?thesis using pbr_pointer(1) [OF ok b(1)] pbr_pointer(1) [OF ok b(2)] len by (auto simp: apart_def)
qed

text \<open>Of one class, two views are apart, and apart from what is published.\<close>

lemma class_apart:
  assumes "class_ok h p owed views"
  shows "i < length views \<Longrightarrow> j < length views \<Longrightarrow> i \<noteq> j \<Longrightarrow> apart (views ! i) (views ! j)"
    and "v \<in> set views \<Longrightarrow> (addr, len, bid) \<in> set (pb_pending h p) \<Longrightarrow> apart v (addr, unat len)"
proof -
  obtain k bids where o: "pb_owned k (h, bids, p)" "mset bids = owed + mset (map (view_bid p) views)" "list_all (view_of k p) views"
    using assms by (auto simp: class_ok_def)
  have valid: "pb_valid k h p" "pbr_ok k p" using pb_owned_valid [OF o(1)] by (simp_all add: pb_valid_def)
  have "distinct (pb_bids h p @ bids)" by (rule pb_owned_held(3) [OF o(1)])
  then have d: "distinct bids" "set (pb_bids h p) \<inter> set bids = {}" by simp_all
  have dv: "distinct (map (view_bid p) views)"
  proof -
    obtain os where "mset os = owed" using ex_mset by blast
    then have "mset bids = mset (os @ map (view_bid p) views)" unfolding o(2) by simp
    then show ?thesis using d(1) mset_eq_imp_distinct_iff by (metis distinct_append)
  qed
  have of: "view_of k p v" if "v \<in> set views" for v using o(3) that by (simp add: list_all_iff)
  have shape: "v = (pb_bufPointers p ! unat (view_bid p v), snd v)" if "v \<in> set views" for v
    using of [OF that] by (simp add: view_of_def prod_eq_iff)
  show "apart (views ! i) (views ! j)" if "i < length views" "j < length views" "i \<noteq> j"
  proof -
    have ne: "view_bid p (views ! i) \<noteq> view_bid p (views ! j)" using dv that by (simp add: distinct_conv_nth)
    have "apart (pb_bufPointers p ! unat (view_bid p (views ! i)), snd (views ! i))
        (pb_bufPointers p ! unat (view_bid p (views ! j)), snd (views ! j))"
      by (rule buffers_apart [OF valid(2) _ _ ne]) (use of that in \<open>auto simp: view_of_def\<close>)
    then show ?thesis using shape [of "views ! i"] shape [of "views ! j"] that by simp
  qed
  show "apart v (addr, unat len)" if v: "v \<in> set views" and pub: "(addr, len, bid) \<in> set (pb_pending h p)"
  proof -
    have "(addr, len, bid) \<in> buffer_descr p ` set (pb_bids h p)" using pub pb_valid_pending [OF valid(1)] by simp
    then have a: "addr = pb_bufPointers p ! unat bid" "len = pb_bufSize p" "bid \<in> set (pb_bids h p)" by (auto simp: buffer_descr_def)
    have "view_bid p v \<in># mset bids" unfolding o(2) using v by simp
    then have ne: "view_bid p v \<noteq> bid" using a(3) d(2) by auto
    have small: "unat bid < 2 ^ k" using a(3) valid(1) by (simp add: pb_valid_def list_all_iff)
    have "apart (pb_bufPointers p ! unat (view_bid p v), snd v) (pb_bufPointers p ! unat bid, unat (pb_bufSize p))"
      by (rule buffers_apart [OF valid(2) _ small ne]) (use of [OF v] in \<open>simp_all add: view_of_def\<close>)
    then show ?thesis using shape [OF v] a by simp
  qed
qed

section \<open>What is owed\<close>

text \<open>The buffer the kernel picked for a call that was answered and has not returned.\<close>

fun owe :: "nat \<Rightarrow> (net_call \<times> (i32 \<times> u32) option) option \<Rightarrow> u16 option" where
  "owe k (Some (call, Some (res, flags))) = (if call_class call = Some k \<and> 0 < sint res then Some (bid_of_flags flags) else None)"
| "owe k x = None"

definition owes :: "nat \<Rightarrow> promise \<Rightarrow> u64 \<Rightarrow> u16 option" where
  "owes k a = (\<lambda>g. owe k (a g))"

definition owed_bids :: "(u64 \<Rightarrow> u16 option) \<Rightarrow> u16 multiset" where
  "owed_bids f = image_mset (\<lambda>g. the (f g)) (mset_set (dom f))"

lemma owes_upd [simp]: "owes k (a(g := x)) = (owes k a)(g := owe k x)"
  by (simp add: owes_def fun_eq_iff)

lemma owed_bids_add: "f g = None \<Longrightarrow> owed_bids (f(g \<mapsto> b)) = add_mset b (owed_bids f)"
proof -
  assume none: "f g = None"
  then have g: "g \<notin> dom f" by auto
  have "image_mset (\<lambda>h. the ((f(g \<mapsto> b)) h)) (mset_set (dom f)) = owed_bids f"
    unfolding owed_bids_def by (rule image_mset_cong) (use g in auto)
  then show ?thesis using g by (simp add: owed_bids_def)
qed

lemma owed_bids_del: "f g = Some b \<Longrightarrow> owed_bids f = add_mset b (owed_bids (f(g := None)))"
  using owed_bids_add [of "f(g := None)" g b] by (simp add: fun_upd_idem)

lemma owed_bids_same: "f g = None \<Longrightarrow> f(g := None) = f"
  by (simp add: fun_upd_idem)

text \<open>The part of a list that belongs to one class.\<close>

definition of_class :: "nat \<Rightarrow> (nat \<times> 'a) list \<Rightarrow> 'a list" where
  "of_class k xs = map snd (filter (\<lambda>x. fst x = k) xs)"

lemma of_class_simps [simp]:
  "of_class k [] = []" "of_class k ((j, v) # xs) = (if j = k then v # of_class k xs else of_class k xs)"
  by (simp_all add: of_class_def)

lemma of_class_remove1: "of_class k (remove1 (j, v) xs) = (if j = k then remove1 v (of_class k xs) else of_class k xs)"
  by (induction xs) (auto split: if_splits)

lemma set_of_class: "v \<in> set (of_class k xs) \<longleftrightarrow> (k, v) \<in> set xs"
  by (induction xs) (auto split: if_splits)

lemma of_class_filter: "of_class k (filter (\<lambda>x. fst x \<noteq> j) xs) = (if j = k then [] else of_class k xs)"
  by (induction xs) auto

text \<open>The reads of a class that were answered with an end of file and have not returned, counted.\<close>

fun at_eof :: "nat \<Rightarrow> (net_call \<times> (i32 \<times> u32) option) option \<Rightarrow> bool" where
  "at_eof k (Some (Call_read fd sizeClass, Some (res, flags))) \<longleftrightarrow> unat sizeClass = k \<and> res = 0"
| "at_eof k x \<longleftrightarrow> False"

definition eofs :: "nat \<Rightarrow> promise \<Rightarrow> nat" where
  "eofs k a = card {g. at_eof k (a g)}"

lemma eofs_grow: "\<not> at_eof k (a g) \<Longrightarrow> eofs k a \<le> eofs k (a(g := x))"
  unfolding eofs_def by (rule card_mono) auto

lemma eofs_close: "eofs k a \<le> Suc (eofs k (a(g := x)))"
proof -
  have "eofs k a \<le> card (insert g {h. at_eof k ((a(g := x)) h)})" unfolding eofs_def by (rule card_mono) auto
  also have "\<dots> \<le> Suc (eofs k (a(g := x)))" unfolding eofs_def by (rule card_insert_le_m1) simp_all
  finally show ?thesis .
qed

lemma eofs_more:
  assumes "\<not> at_eof k (a g)" and "at_eof k x"
  shows "eofs k (a(g := x)) = Suc (eofs k a)"
proof -
  have "{h. at_eof k ((a(g := x)) h)} = insert g {h. at_eof k (a h)}" using assms by auto
  then show ?thesis using assms(1) by (simp add: eofs_def)
qed

fun promise_ok :: "ProvidedBufferRing option list \<Rightarrow> net_call \<times> (i32 \<times> u32) option \<Rightarrow> bool" where
  "promise_ok pbrs (call, ans) \<longleftrightarrow> (case call_class call of None \<Rightarrow> True
     | Some k \<Rightarrow> k < 5 \<and> (case pbrs ! k of None \<Rightarrow> False
       | Some p \<Rightarrow> (case ans of None \<Rightarrow> True
         | Some (res, flags) \<Rightarrow> 0 < sint res \<longrightarrow> flags AND CQEFBuffer \<noteq> 0 \<and> nat (sint res) \<le> unat (pb_bufSize p))))"

text \<open>
  All buffers of a class are published, owed, lost or under views, and no more are lost than reads at an end of file
  are open and askings for the head have failed.
\<close>

definition lend_ok :: "ProvidedBufferRing option list \<Rightarrow> promise \<Rightarrow> lending \<Rightarrow> bool" where
  "lend_ok pbrs a l \<longleftrightarrow> (case l of (heads, views, lost, failed) \<Rightarrow> length pbrs = 5 \<and>
     (\<forall>g pr. a g = Some pr \<longrightarrow> promise_ok pbrs pr) \<and>
     (\<forall>k v. (k, v) \<in> set views \<longrightarrow> k < 5 \<and> pbrs ! k \<noteq> None) \<and> (\<forall>k b. (k, b) \<in> set lost \<longrightarrow> k < 5 \<and> pbrs ! k \<noteq> None) \<and>
     (\<forall>k p. k < 5 \<longrightarrow> pbrs ! k = Some p \<longrightarrow>
        class_ok (heads k) p (owed_bids (owes k a) + mset (of_class k lost)) (of_class k views)) \<and>
     (\<forall>k. length (of_class k lost) \<le> eofs k a + failed k))"

lemma lend_okI:
  assumes "length pbrs = 5" and "\<And>g pr. a g = Some pr \<Longrightarrow> promise_ok pbrs pr"
    and "\<And>k v. (k, v) \<in> set views \<Longrightarrow> k < 5 \<and> pbrs ! k \<noteq> None" and "\<And>k b. (k, b) \<in> set lost \<Longrightarrow> k < 5 \<and> pbrs ! k \<noteq> None"
    and "\<And>k p. k < 5 \<Longrightarrow> pbrs ! k = Some p \<Longrightarrow>
      class_ok (heads k) p (owed_bids (owes k a) + mset (of_class k lost)) (of_class k views)"
    and "\<And>k. length (of_class k lost) \<le> eofs k a + failed k"
  shows "lend_ok pbrs a (heads, views, lost, failed)"
  unfolding lend_ok_def prod.case using assms by blast

lemma lend_okD:
  assumes "lend_ok pbrs a (heads, views, lost, failed)"
  shows "length pbrs = 5" and "a g = Some pr \<Longrightarrow> promise_ok pbrs pr" and "(k, v) \<in> set views \<Longrightarrow> k < 5 \<and> pbrs ! k \<noteq> None"
    and "k < 5 \<Longrightarrow> pbrs ! k = Some p \<Longrightarrow>
      class_ok (heads k) p (owed_bids (owes k a) + mset (of_class k lost)) (of_class k views)"
    and "(k, b) \<in> set lost \<Longrightarrow> k < 5 \<and> pbrs ! k \<noteq> None" and "length (of_class k lost) \<le> eofs k a + failed k"
  using assms unfolding lend_ok_def prod.case by blast+

section \<open>Every step keeps it\<close>

lemma asks_class:
  assumes "asks env e call"
  shows "wants_buffer e \<longleftrightarrow> call_class call \<noteq> None"
    and "call_class call = Some k \<Longrightarrow> k < 5 \<Longrightarrow> unat (sqe_BufIndex e) = k"
    and "sqe_Opcode e = OpRead \<Longrightarrow> \<exists>fd sizeClass. call = Call_read fd sizeClass"
proof -
  obtain c idx where r: "request env (call_task call c) (call_fd call) idx = Some e" using assms by (auto simp: asks_def)
  show "wants_buffer e \<longleftrightarrow> call_class call \<noteq> None"
    using r by (cases call) (auto simp: request_def plain_task_def Let_def wants_buffer_def uring_consts)
  have "\<exists>sizeClass :: u64. k = unat sizeClass \<and> sqe_BufIndex e = ucast sizeClass" if "call_class call = Some k"
    using r that by (cases call) (auto simp: request_def plain_task_def Let_def)
  then show "call_class call = Some k \<Longrightarrow> k < 5 \<Longrightarrow> unat (sqe_BufIndex e) = k"
    by (auto simp: unat_ucast_mod)
  show "sqe_Opcode e = OpRead \<Longrightarrow> \<exists>fd sizeClass. call = Call_read fd sizeClass"
    using r by (cases call) (auto simp: request_def plain_task_def Let_def uring_consts)
qed

lemma size_class_range:
  assumes "SizeClass_Size sizeClass = Some capacity" and "capacity \<noteq> 0"
  shows "unat sizeClass < 5"
  using assms by (auto simp: SizeClass_Size_def sizeClassesCapacity_def split: if_splits)

lemma check_class_ok:
  assumes "check_class fd sizeClass nr = Some (Inr capacity)"
  shows "unat sizeClass < 5 \<and> nr_pbrs nr ! unat sizeClass \<noteq> None"
  using assms by (auto simp: check_class_def intro: size_class_range split: option.splits if_splits)

lemma checked_promise:
  assumes "call_check call nr = Some None"
  shows "promise_ok (nr_pbrs nr) (call, None)"
proof -
  have "\<exists>capacity. x = Some (Inr capacity)"
    if "map_option (\<lambda>r. case r of Inl e \<Rightarrow> Some e | Inr capacity \<Rightarrow> None) x = Some None" for x :: "(netring_error + u32) option"
  proof (cases x)
    case (Some r)
    then show ?thesis using that by (cases r) auto
  qed (use that in simp)
  then show ?thesis using assms check_class_ok by (cases call) fastforce+
qed

lemma release_op_view:
  assumes "length (nr_pbrs nr) = 5" and "unat sizeClass < 5" and "nr_pbrs nr ! unat sizeClass = Some p"
    and "ReleaseView (fst v) p = Some (Inr p')" and "0 < snd v"
  shows "ReleaseBuffer_op env sizeClass v nr = Some (nr\<lparr>nr_pbrs := (nr_pbrs nr)[unat sizeClass := Some p']\<rparr>)"
proof -
  have "unat (ucast sizeClass :: u16) = unat sizeClass" using assms(2) by (simp add: unat_ucast_mod)
  then show ?thesis using assms by (simp add: ReleaseBuffer_op_def submit_def release_task_def Let_def)
qed

lemma register_op_new:
  assumes "RegisterBufferRing_op senv sizeClass capacity (nr, tr) = Some (None, nr', tr')" and "length (nr_pbrs nr) = 5"
  shows "\<exists>p sz. unat sizeClass < 5 \<and> nr_pbrs nr ! unat sizeClass = None \<and> nr_pbrs nr' = (nr_pbrs nr)[unat sizeClass := Some p] \<and>
    RegisterBufferRing senv (r_FD (nr_r nr)) (ucast sizeClass) capacity sz tr = Some (Inr p, tr')"
  using assms
  by (auto simp: RegisterBufferRing_op_def Let_def split: option.splits if_splits sum.splits prod.splits)

lemma promise_ok_update:
  assumes "promise_ok pbrs pr" and "length pbrs = 5" and "\<And>q. pbrs ! k = Some q \<Longrightarrow> pb_bufSize p' = pb_bufSize q"
  shows "promise_ok (pbrs[k := Some p']) pr"
  using assms by (cases pr; cases "k < 5") (auto simp: nth_list_update split: option.splits)

inductive_cases spec_began: "spec_step env a (Began g call) a'"
inductive_cases spec_answered: "spec_step env a (Answered e res flags) a'"
inductive_cases spec_ended: "spec_step env a (Ended g rings out) a'"

inductive_simps spec_still [simp]:
  "spec_step env a (Sent fd ptr len) a'" "spec_step env a (Released sizeClass v) a'" "spec_step env a (Registered sizeClass) a'"
  "spec_step env a (Unregistered sizeClass) a'" "spec_step env a (Unregister_failed sizeClass err) a'"
  "spec_step env a Misfired a'" "spec_step env a Silent a'"

text \<open>What a call that returns has given its caller.\<close>

lemma outcome_view:
  assumes "promise_ok pbrs (call, Some (res, flags))" and "call_outcome call res flags pbrs = Out_view (Inr (Some v))"
  shows "\<exists>k p. call_class call = Some k \<and> 0 < sint res \<and> k < 5 \<and> pbrs ! k = Some p \<and>
    v = (pb_bufPointers p ! unat (bid_of_flags flags), nat (sint res)) \<and> nat (sint res) \<le> unat (pb_bufSize p)"
proof -
  have pos: "0 < sint res" if "\<not> sint res < 0" "res \<noteq> 0" using that by (metis linorder_neqE_linordered_idom signed_eq_0_iff)
  show ?thesis using assms pos
    by (cases call) (auto simp: received_def kernel_error_def split: if_splits option.splits)
qed

lemma outcome_no_view:
  assumes "promise_ok pbrs (call, Some (res, flags))" and "\<forall>v. call_outcome call res flags pbrs \<noteq> Out_view (Inr (Some v))"
  shows "owe k (Some (call, Some (res, flags))) = None"
  using assms by (cases call) (auto simp: received_def kernel_error_def split: if_splits option.splits)

text \<open>Nothing moves.\<close>

lemma lend_ok_same:
  assumes ok: "lend_ok pbrs a (heads, views, lost, failed)" and none: "\<And>k. owes k a g = None" "\<And>k. owe k x = None"
    and eof: "\<And>k. \<not> at_eof k (a g)" and pr: "\<And>pr. x = Some pr \<Longrightarrow> promise_ok pbrs pr"
  shows "lend_ok pbrs (a(g := x)) (heads, views, lost, failed)"
proof (rule lend_okI)
  show "length pbrs = 5" by (rule lend_okD(1) [OF ok])
  show "promise_ok pbrs q" if "(a(g := x)) h = Some q" for h q
    using that pr lend_okD(2) [OF ok, of h q] by (cases "h = g") (simp_all del: promise_ok.simps)
  show "k < 5 \<and> pbrs ! k \<noteq> None" if "(k, v) \<in> set views" for k v by (rule lend_okD(3) [OF ok that])
  show "k < 5 \<and> pbrs ! k \<noteq> None" if "(k, b) \<in> set lost" for k b by (rule lend_okD(5) [OF ok that])
  show "class_ok (heads k) p (owed_bids (owes k (a(g := x))) + mset (of_class k lost)) (of_class k views)" if "k < 5" "pbrs ! k = Some p" for k p
    using lend_okD(4) [OF ok that] none by (simp add: owed_bids_same)
  show "length (of_class k lost) \<le> eofs k (a(g := x)) + failed k" for k
    using lend_okD(6) [OF ok, of k] eofs_grow [where a = a and g = g, OF eof, of k x] by linarith
qed

text \<open>The kernel picks a buffer for a call.\<close>

lemma lend_ok_pick:
  assumes ok: "lend_ok pbrs a (heads, views, lost, failed)" and g: "a g = Some (call, None)" and call: "call_class call = Some c" and res: "0 < sint res"
    and p: "pbrs ! c = Some p" "pb_bids (heads c) p = b # bs" "nat (sint res) \<le> unat (pb_bufSize p)"
  shows "lend_ok pbrs (a(g \<mapsto> (call, Some (res, push_bit 16 (ucast b) OR CQEFBuffer)))) (heads(c := heads c + 1), views, lost, failed)"
proof (rule lend_okI)
  let ?a = "a(g \<mapsto> (call, Some (res, push_bit 16 (ucast b) OR CQEFBuffer)))"
  show "length pbrs = 5" by (rule lend_okD(1) [OF ok])
  show "k < 5 \<and> pbrs ! k \<noteq> None" if "(k, v) \<in> set views" for k v by (rule lend_okD(3) [OF ok that])
  show "k < 5 \<and> pbrs ! k \<noteq> None" if "(k, x) \<in> set lost" for k x by (rule lend_okD(5) [OF ok that])
  have "promise_ok pbrs (call, None)" by (rule lend_okD(2) [OF ok g])
  then show "promise_ok pbrs q" if "?a h = Some q" for h q
    using that lend_okD(2) [OF ok, of h q] call p buffer_flag_set [of b] by (cases "h = g") auto
  have none: "owes k a g = None" for k by (simp add: owes_def g)
  show "class_ok ((heads(c := heads c + 1)) k) q (owed_bids (owes k ?a) + mset (of_class k lost)) (of_class k views)"
    if k: "k < 5" "pbrs ! k = Some q" for k q
  proof (cases "k = c")
    case True
    have "class_ok (heads k + 1) p (add_mset b (owed_bids (owes k a) + mset (of_class k lost))) (of_class k views)"
      by (rule class_pick [OF lend_okD(4) [OF ok]]) (use k p True in simp_all)
    then show ?thesis using True k p call res none [of k] by (simp add: owed_bids_add bid_of_flags_round)
  next
    case False
    then show ?thesis using lend_okD(4) [OF ok k] call none [of k] by (simp add: owed_bids_same)
  qed
  have eof: "\<not> at_eof k (a g)" for k by (simp add: g)
  show "length (of_class k lost) \<le> eofs k ?a + failed k" for k
    using lend_okD(6) [OF ok, of k] eofs_grow [where a = a and g = g, OF eof] by (rule order_trans [OF _ add_right_mono])
qed

text \<open>The kernel uses a buffer up for a read at an end of file.\<close>

lemma lend_ok_eof:
  assumes ok: "lend_ok pbrs a (heads, views, lost, failed)" and g: "a g = Some (Call_read fd sizeClass, None)"
    and c: "c = unat sizeClass" and p: "pbrs ! c = Some p" "pb_bids (heads c) p = b # bs"
  shows "lend_ok pbrs (a(g \<mapsto> (Call_read fd sizeClass, Some (0, flags)))) (heads(c := heads c + 1), views, (c, b) # lost, failed)"
proof (rule lend_okI)
  let ?a = "a(g \<mapsto> (Call_read fd sizeClass, Some (0, flags)))"
  have pr: "promise_ok pbrs (Call_read fd sizeClass, None)" by (rule lend_okD(2) [OF ok g])
  show "length pbrs = 5" by (rule lend_okD(1) [OF ok])
  show "k < 5 \<and> pbrs ! k \<noteq> None" if "(k, v) \<in> set views" for k v by (rule lend_okD(3) [OF ok that])
  show "k < 5 \<and> pbrs ! k \<noteq> None" if "(k, x) \<in> set ((c, b) # lost)" for k x
    using that lend_okD(5) [OF ok, of k x] pr p(1) c by auto
  show "promise_ok pbrs q" if "?a h = Some q" for h q
    using that lend_okD(2) [OF ok, of h q] pr p(1) c by (cases "h = g") auto
  have none: "owes k a g = None" "owe k (Some (Call_read fd sizeClass, Some (0, flags))) = None" for k by (simp_all add: owes_def g)
  show "class_ok ((heads(c := heads c + 1)) k) q (owed_bids (owes k ?a) + mset (of_class k ((c, b) # lost))) (of_class k views)"
    if k: "k < 5" "pbrs ! k = Some q" for k q
  proof (cases "k = c")
    case True
    have "class_ok (heads k + 1) p (add_mset b (owed_bids (owes k a) + mset (of_class k lost))) (of_class k views)"
      by (rule class_pick [OF lend_okD(4) [OF ok]]) (use k p True in simp_all)
    then show ?thesis using True k p none by (simp add: owed_bids_same)
  next
    case False
    then show ?thesis using lend_okD(4) [OF ok k] none by (simp add: owed_bids_same)
  qed
  have eof: "\<not> at_eof k (a g)" for k by (simp add: g)
  show "length (of_class k ((c, b) # lost)) \<le> eofs k ?a + failed k" for k
  proof (cases "k = c")
    case True
    then have "eofs k ?a = Suc (eofs k a)" by (intro eofs_more [where a = a and g = g, OF eof]) (simp add: c)
    then show ?thesis using True lend_okD(6) [OF ok, of k] by simp
  next
    case False
    then show ?thesis using lend_okD(6) [OF ok, of k] eofs_grow [where a = a and g = g, OF eof, of k "Some (Call_read fd sizeClass, Some (0, flags))"] by simp
  qed
qed

text \<open>A call returns with a view.\<close>

lemma lend_ok_view:
  assumes ok: "lend_ok pbrs a (heads, views, lost, failed)" and g: "a g = Some (call, Some (res, flags))"
    and out: "call_outcome call res flags pbrs = Out_view (Inr (Some v))" and call: "call_class call = Some c"
  shows "lend_ok pbrs (a(g := None)) (heads, (c, v) # views, lost, failed)"
proof (rule lend_okI)
  have pr: "promise_ok pbrs (call, Some (res, flags))" by (rule lend_okD(2) [OF ok g])
  obtain p where v: "0 < sint res" "c < 5" "pbrs ! c = Some p" "v = (pb_bufPointers p ! unat (bid_of_flags flags), nat (sint res))"
    "nat (sint res) \<le> unat (pb_bufSize p)" using outcome_view [OF pr out] call by auto
  show "length pbrs = 5" by (rule lend_okD(1) [OF ok])
  show "k < 5 \<and> pbrs ! k \<noteq> None" if "(k, w) \<in> set ((c, v) # views)" for k w
    using that v(2,3) lend_okD(3) [OF ok, of k w] by auto
  show "k < 5 \<and> pbrs ! k \<noteq> None" if "(k, x) \<in> set lost" for k x by (rule lend_okD(5) [OF ok that])
  show "promise_ok pbrs q" if "(a(g := None)) h = Some q" for h q
    using that lend_okD(2) [OF ok, of h q] by (simp del: promise_ok.simps split: if_splits)
  show "class_ok (heads k) q (owed_bids (owes k (a(g := None))) + mset (of_class k lost)) (of_class k ((c, v) # views))"
    if k: "k < 5" "pbrs ! k = Some q" for k q
  proof (cases "k = c")
    case True
    have "owes k a g = Some (bid_of_flags flags)" using True call v(1) by (simp add: owes_def g)
    note split = owed_bids_del [where f = "owes k a" and g = g, OF this]
    have "class_ok (heads k) p (owed_bids ((owes k a)(g := None)) + mset (of_class k lost))
        ((pb_bufPointers p ! unat (bid_of_flags flags), nat (sint res)) # of_class k views)"
      by (rule class_view) (use lend_okD(4) [OF ok k] split k v True in simp_all)
    then show ?thesis using True k v by simp
  next
    case False
    then have "owes k a g = None" using call by (simp add: owes_def g)
    then show ?thesis using lend_okD(4) [OF ok k] False by (simp add: owed_bids_same)
  qed
  have "res \<noteq> 0" using v(1) by auto
  then have eof: "\<not> at_eof k (a g)" for k by (cases call) (simp_all add: g)
  show "length (of_class k lost) \<le> eofs k (a(g := None)) + failed k" for k
    using lend_okD(6) [OF ok, of k] eofs_grow [where a = a and g = g, OF eof, of k None] by linarith
qed

text \<open>A class of buffers is replaced by another that serves the same views; \<open>g\<close> may be done with its call.\<close>

lemma lend_ok_ring:
  assumes ok: "lend_ok pbrs a (heads, views, lost, failed)" and c: "c < 5"
    and pr: "\<And>q. pbrs ! c = Some q \<Longrightarrow> pb_bufSize p = pb_bufSize q"
    and same: "\<And>k. k \<noteq> c \<Longrightarrow> heads' k = heads k \<and> of_class k views' = of_class k views \<and> of_class k lost' = of_class k lost"
    and sub: "set views' \<subseteq> set views" "set lost' \<subseteq> set lost"
    and new: "class_ok (heads' c) p (owed_bids (owes c a) + mset (of_class c lost')) (of_class c views')"
    and a': "a' = a \<or> (\<exists>g. a' = a(g := None) \<and> (\<forall>k. owes k a g = None))"
    and count: "\<And>k. length (of_class k lost') \<le> eofs k a' + failed' k"
  shows "lend_ok (pbrs[c := Some p]) a' (heads', views', lost', failed')"
proof (rule lend_okI)
  note len = lend_okD(1) [OF ok]
  have owed: "owes k a' = owes k a" for k using a' by (auto simp: owed_bids_same)
  show "length (pbrs[c := Some p]) = 5" using len by simp
  show "promise_ok (pbrs[c := Some p]) q" if "a' g = Some q" for g q
  proof -
    have "a g = Some q" using a' that by (auto split: if_splits)
    then show ?thesis using promise_ok_update [OF lend_okD(2) [OF ok] len] pr by blast
  qed
  show "k < 5 \<and> pbrs[c := Some p] ! k \<noteq> None" if "(k, v) \<in> set views'" for k v
    using lend_okD(3) [OF ok, of k v] that sub len c by (cases "k = c") auto
  show "k < 5 \<and> pbrs[c := Some p] ! k \<noteq> None" if "(k, b) \<in> set lost'" for k b
    using lend_okD(5) [OF ok, of k b] that sub len c by (cases "k = c") auto
  show "class_ok (heads' k) q (owed_bids (owes k a') + mset (of_class k lost')) (of_class k views')"
    if "k < 5" "pbrs[c := Some p] ! k = Some q" for k q
    using that new same [of k] lend_okD(4) [OF ok, of k q] len c by (cases "k = c") (auto simp: owed)
qed (rule count)

lemma lend_ok_release:
  assumes ok: "lend_ok (nr_pbrs nr) a (heads, views, lost, failed)" and v: "(unat sizeClass, v) \<in> set views"
    and op: "ReleaseBuffer_op env sizeClass v nr = Some nr'"
  shows "lend_ok (nr_pbrs nr') a (heads, remove1 (unat sizeClass, v) views, lost, failed)"
proof -
  let ?c = "unat sizeClass"
  obtain p where c: "?c < 5" "nr_pbrs nr ! ?c = Some p" using lend_okD(3) [OF ok v] by auto
  have "v \<in> set (of_class ?c views)" using v by (simp add: set_of_class)
  then obtain p' where p': "ReleaseView (fst v) p = Some (Inr p')"
    "class_ok (heads ?c) p' (owed_bids (owes ?c a) + mset (of_class ?c lost)) (remove1 v (of_class ?c views))" "0 < snd v"
    "pb_bufSize p' = pb_bufSize p"
    using class_release [OF lend_okD(4) [OF ok c]] by blast
  have rings: "nr_pbrs nr' = (nr_pbrs nr)[?c := Some p']" using release_op_view [OF lend_okD(1) [OF ok] c p'(1,3), of env] op by simp
  show ?thesis unfolding rings
    by (rule lend_ok_ring [OF ok c(1)]) (use c p' lend_okD(6) [OF ok] in \<open>simp_all add: of_class_remove1 set_remove1_subset\<close>)
qed

text \<open>Of a class that is not registered nothing is owed, held or lost.\<close>

lemma lend_ok_unused:
  assumes ok: "lend_ok pbrs a (heads, views, lost, failed)" and none: "pbrs ! c = None"
  shows "owed_bids (owes c a) = {#}" "of_class c views = []" "of_class c lost = []"
proof -
  have "owes c a g = None" for g
  proof (cases "a g")
    case (Some pr)
    then show ?thesis using lend_okD(2) [OF ok Some] none by (cases pr; cases "snd pr") (auto simp: owes_def split: option.splits)
  qed (simp add: owes_def)
  then show "owed_bids (owes c a) = {#}" by (simp add: owed_bids_def dom_def)
  have empty: "of_class c xs = []" if "\<And>x. (c, x) \<notin> set xs" for xs :: "(nat \<times> 'b) list"
  proof (rule ccontr)
    assume "of_class c xs \<noteq> []"
    then have "hd (of_class c xs) \<in> set (of_class c xs)" by simp
    then show False using that by (simp add: set_of_class)
  qed
  show "of_class c views = []" by (rule empty) (use lend_okD(3) [OF ok, of c] none in blast)
  show "of_class c lost = []" by (rule empty) (use lend_okD(5) [OF ok, of c] none in blast)
qed

lemma lend_ok_register:
  assumes ok: "lend_ok (nr_pbrs nr) a (heads, views, lost, failed)" and fresh: "mmap_fresh senv"
    and op: "RegisterBufferRing_op senv sizeClass capacity (nr, tr) = Some (None, nr', tr')"
  shows "lend_ok (nr_pbrs nr') a (heads(unat sizeClass := 0), views, lost, failed)"
proof -
  let ?c = "unat sizeClass"
  obtain p sz where p: "?c < 5" "nr_pbrs nr ! ?c = None" "nr_pbrs nr' = (nr_pbrs nr)[?c := Some p]"
    "RegisterBufferRing senv (r_FD (nr_r nr)) (ucast sizeClass) capacity sz tr = Some (Inr p, tr')"
    using register_op_new [OF op lend_okD(1) [OF ok]] by blast
  note unused = lend_ok_unused [OF ok p(2)]
  have new: "class_ok ((heads(?c := 0)) ?c) p (owed_bids (owes ?c a) + mset (of_class ?c lost)) (of_class ?c views)"
    using class_registered [OF p(4) fresh] unfolding unused by simp
  show ?thesis unfolding p(3)
    by (rule lend_ok_ring [where c = ?c and heads' = "heads(?c := 0)" and views' = views and lost' = lost, OF ok p(1) _ _ _ _ new])
      (use p(2) lend_okD(6) [OF ok] in simp_all)
qed

text \<open>A class is unregistered that nobody uses.\<close>

lemma unregister_op:
  assumes "UnregisterBufferRing_op senv sizeClass (nr, tr) = Some (err, nr', tr')"
  shows "err = None \<Longrightarrow> nr_pbrs nr' = (nr_pbrs nr)[unat sizeClass := None]"
    and "err = Some (Size_class_not_provisioned sizeClass) \<or> err = Some (Unregister_buffer_ring (Unregister_pbuf_ring errno)) \<Longrightarrow>
      nr_pbrs nr' = nr_pbrs nr"
proof -
  show "err = None \<Longrightarrow> nr_pbrs nr' = (nr_pbrs nr)[unat sizeClass := None]"
    using assms by (auto simp: UnregisterBufferRing_op_def Let_def split: if_splits option.splits prod.splits)
  have same: "q = p" if "Unregister senv tr p = ((Some (Unregister_pbuf_ring errno), q), tr2)" for p q tr2
    using that by (auto simp: Unregister_def Let_def split: if_splits prod.splits)
  show "err = Some (Size_class_not_provisioned sizeClass) \<or> err = Some (Unregister_buffer_ring (Unregister_pbuf_ring errno)) \<Longrightarrow>
      nr_pbrs nr' = nr_pbrs nr"
    using assms by (auto simp: UnregisterBufferRing_op_def Let_def list_update_same_conv dest!: same split: if_splits option.splits prod.splits)
qed

lemma lend_ok_unregister:
  assumes ok: "lend_ok pbrs a (heads, views, lost, failed)" and views: "\<And>v. (c, v) \<notin> set views"
    and calls: "\<And>g call ans. a g = Some (call, ans) \<Longrightarrow> call_class call \<noteq> Some c"
  shows "lend_ok (pbrs[c := None]) a (heads, views, filter (\<lambda>x. fst x \<noteq> c) lost, failed(c := 0))"
proof (rule lend_okI)
  note len = lend_okD(1) [OF ok]
  show "length (pbrs[c := None]) = 5" using len by simp
  show "promise_ok (pbrs[c := None]) pr" if "a g = Some pr" for g pr
  proof -
    obtain call ans where pr: "pr = (call, ans)" by (cases pr)
    have "call_class call \<noteq> Some c" using calls [of g call ans] that pr by simp
    then show ?thesis using lend_okD(2) [OF ok that] unfolding pr by (auto split: option.splits)
  qed
  show "k < 5 \<and> pbrs[c := None] ! k \<noteq> None" if "(k, v) \<in> set views" for k v
    using lend_okD(3) [OF ok that] views [of v] that by (cases "k = c") auto
  show "k < 5 \<and> pbrs[c := None] ! k \<noteq> None" if "(k, b) \<in> set (filter (\<lambda>x. fst x \<noteq> c) lost)" for k b
    using lend_okD(5) [OF ok, of k b] that by auto
  show "class_ok (heads k) p (owed_bids (owes k a) + mset (of_class k (filter (\<lambda>x. fst x \<noteq> c) lost))) (of_class k views)"
    if "k < 5" "pbrs[c := None] ! k = Some p" for k p
    using that lend_okD(4) [OF ok, of k p] len by (cases "k = c") (auto simp: of_class_filter)
  show "length (of_class k (filter (\<lambda>x. fst x \<noteq> c) lost)) \<le> eofs k a + (failed(c := 0)) k" for k
    using lend_okD(6) [OF ok, of k] by (cases "k = c") (simp_all add: of_class_filter)
qed

text \<open>A read returns from an end of file.\<close>

lemma lend_ok_read:
  assumes ok: "lend_ok pbrs a (heads, views, lost, failed)" and g: "a g = Some (Call_read fd sizeClass, Some (0, flags))"
    and c: "c = unat sizeClass" "c < 5" "pbrs ! c = Some p" and size: "pb_bufSize p' = pb_bufSize p"
    and new: "class_ok (heads c) p' (owed_bids (owes c a) + mset (of_class c lost')) (of_class c views)"
    and same: "\<And>k. k \<noteq> c \<Longrightarrow> of_class k lost' = of_class k lost \<and> failed' k = failed k" and sub: "set lost' \<subseteq> set lost"
    and count: "of_class c lost' = [] \<or> length (of_class c lost') + failed c < length (of_class c lost) + failed' c"
  shows "lend_ok (pbrs[c := Some p']) (a(g := None)) (heads, views, lost', failed')"
proof (rule lend_ok_ring [OF ok c(2)])
  show "pb_bufSize p' = pb_bufSize q" if "pbrs ! c = Some q" for q using that c(3) size by simp
  show "heads k = heads k \<and> of_class k views = of_class k views \<and> of_class k lost' = of_class k lost" if "k \<noteq> c" for k
    using same [OF that] by simp
  show "class_ok (heads c) p' (owed_bids (owes c a) + mset (of_class c lost')) (of_class c views)" by (rule new)
  have "owes k a g = None" for k by (simp add: owes_def g)
  then show "a(g := None) = a \<or> (\<exists>h. a(g := None) = a(h := None) \<and> (\<forall>k. owes k a h = None))" by blast
  show "length (of_class k lost') \<le> eofs k (a(g := None)) + failed' k" for k
  proof (cases "k = c")
    case True
    show ?thesis using count lend_okD(6) [OF ok, of c] eofs_close [of c a g None] unfolding True by fastforce
  next
    case False
    then have "\<not> at_eof k (a g)" using c(1) by (simp add: g)
    note eofs_grow [where a = a and g = g, OF this, of None]
    then show ?thesis using same [OF False] lend_okD(6) [OF ok, of k] by simp
  qed
qed (use sub in simp_all)

lemma ends_at_eof_rings:
  assumes "ends_at_eof senv s g s' k p status"
  obtains ph fd sizeClass c tr err p' where "sy_calls s g = Some (ph, Call_read fd sizeClass, c)" "k = unat sizeClass"
    "nr_pbrs (sy_nr s) ! k = Some p" "k < length (nr_pbrs (sy_nr s))" "status = sys_pbuf_status senv tr (pb_fd p) (pb_bgid p)"
    "ReplenishOne senv tr p = Some (err, p')" "nr_pbrs (sy_nr s') = (nr_pbrs (sy_nr s))[k := Some p']"
proof -
  obtain ph fd sizeClass c tr where e: "sy_calls s g = Some (ph, Call_read fd sizeClass, c)" "k = unat sizeClass"
    "call_finish senv tr (Call_read fd sizeClass) c (sy_nr s) = Some (Out_view (Inr None), sy_nr s')"
    "nr_pbrs (sy_nr s) ! k = Some p" "status = sys_pbuf_status senv tr (pb_fd p) (pb_bgid p)"
    using assms unfolding ends_at_eof_def by blast
  have fin: "Read_finish senv tr sizeClass c (sy_nr s) = Some (Inr None, sy_nr s')" using e(3) by auto
  have "nr_pbrs (sy_nr s) ! unat sizeClass = Some p" using e(2,4) by simp
  from Read_finish_eof [OF fin this] show thesis using that e by blast
qed

lemma lend_step:
  assumes step: "ring_step env senv idleAfter n s ev s'" and lend: "lend senv s ev s' l l'" and fresh: "mmap_fresh senv"
    and spec: "spec_step env a ev a'" and keeps: "sys_keeps s a" and ok: "lend_ok (nr_pbrs (sy_nr s)) a l"
  shows "lend_ok (nr_pbrs (sy_nr s')) a' l'"
proof -
  let ?pbrs = "nr_pbrs (sy_nr s)"
  note eff = ring_step_effect [OF step]
  have call: "call' = call" if "sy_calls s g = Some (ph, call', c)" "a g = Some (call, ans)" for g ph call' c call ans
    using keeps_calls [OF keeps, of g] that by simp
  have ended: "\<exists>call res flags. a g = Some (call, Some (res, flags)) \<and> out = call_outcome call res flags ?pbrs \<and> a' = a(g := None)"
    if "ev = Ended g rings out" for g rings out
    using eff spec that by (auto elim!: spec_ended)
  have over: "lend_ok ?pbrs (a(g := None)) l"
    if "a g = Some (call, Some (res, flags))" "\<forall>v. call_outcome call res flags ?pbrs \<noteq> Out_view (Inr (Some v))"
      "\<And>k. \<not> at_eof k (a g)" for g call res flags
  proof -
    obtain heads views lost failed where l: "l = (heads, views, lost, failed)" by (cases l)
    have none: "owes k a g = None" for k
      using outcome_no_view [OF lend_okD(2) [OF ok [unfolded l] that(1)] that(2), of k] by (simp add: owes_def that(1))
    show ?thesis using lend_ok_same [OF ok [unfolded l] none _ that(3), of None] l by simp
  qed
  have read: "lend_ok (?pbrs[k := Some p']) a' (heads, views, lost', failed')"
    if "ev = Ended g rings (Out_view (Inr None))" "l = (heads, views, lost, failed)" "sy_calls s g = Some (ph, Call_read fd sizeClass, c)"
      "k = unat sizeClass" "k < 5" "?pbrs ! k = Some p" "pb_bufSize p' = pb_bufSize p"
      "class_ok (heads k) p' (owed_bids (owes k a) + mset (of_class k lost')) (of_class k views)"
      "\<And>j. j \<noteq> k \<Longrightarrow> of_class j lost' = of_class j lost \<and> failed' j = failed j" "set lost' \<subseteq> set lost"
      "of_class k lost' = [] \<or> length (of_class k lost') + failed k < length (of_class k lost) + failed' k"
    for g rings heads views lost failed ph fd sizeClass c k p p' lost' failed'
  proof -
    note ends = ended [OF that(1)]
    obtain call' res flags where g: "a g = Some (call', Some (res, flags))" "Out_view (Inr None) = call_outcome call' res flags ?pbrs"
      "a' = a(g := None)" using ends by blast
    have g': "a g = Some (Call_read fd sizeClass, Some (res, flags))" using call [OF that(3) g(1)] g(1) by simp
    have "res = 0" using g(2) call [OF that(3) g(1)]
      by (auto simp: received_def split: option.splits if_splits)
    then show ?thesis unfolding g(3) using that g'
      by (intro lend_ok_read [OF ok [unfolded that(2)]]) simp_all
  qed
  show ?thesis
    using lend
  proof (cases rule: lend.cases)
    case (ld_pick e res c pbr heads b bs views lost failed)
    have "sqe_Opcode e \<noteq> OpSend" using ld_pick(4) by (auto simp: wants_buffer_def uring_consts)
    then obtain g call where g: "a g = Some (call, None)" "asks env e call"
      "a' = a(g \<mapsto> (call, Some (res, push_bit 16 (ucast b) OR CQEFBuffer)))"
      using spec unfolding ld_pick(1) by (auto elim!: spec_answered)
    have okl: "lend_ok ?pbrs a (heads, views, lost, failed)" using ok ld_pick(2) by simp
    obtain k where k: "call_class call = Some k" using asks_class(1) [OF g(2)] ld_pick(4) by auto
    then have "k < 5" using lend_okD(2) [OF okl g(1)] by simp
    then have "c = k" using asks_class(2) [OF g(2) k] ld_pick(6) by simp
    then have "lend_ok ?pbrs a' (heads(c := heads c + 1), views, lost, failed)"
      unfolding g(3) by (intro lend_ok_pick [OF okl g(1) _ ld_pick(5,8,9,10)]) (use k in simp)
    then show ?thesis using eff ld_pick(1,3) by (simp add: keeps_rings_def)
  next
    case (ld_eof e c pbr heads b bs flags views lost failed)
    have "sqe_Opcode e \<noteq> OpSend" using ld_eof(4) by (simp add: uring_consts)
    then obtain g call where g: "a g = Some (call, None)" "asks env e call" "a' = a(g \<mapsto> (call, Some (0, flags)))"
      using spec unfolding ld_eof(1) by (auto elim!: spec_answered)
    have okl: "lend_ok ?pbrs a (heads, views, lost, failed)" using ok ld_eof(2) by simp
    obtain fd sizeClass where read: "call = Call_read fd sizeClass" using asks_class(3) [OF g(2) ld_eof(4)] by blast
    then have "call_class call = Some (unat sizeClass)" by simp
    moreover have "unat sizeClass < 5" using lend_okD(2) [OF okl g(1)] read by simp
    ultimately have c: "c = unat sizeClass" using asks_class(2) [OF g(2)] ld_eof(5) by simp
    have "lend_ok ?pbrs a' (heads(c := heads c + 1), views, (c, b) # lost, failed)"
      unfolding g(3) read by (rule lend_ok_eof [OF okl g(1) [unfolded read] c ld_eof(7,8)])
    then show ?thesis using eff ld_eof(1,3) by (simp add: keeps_rings_def)
  next
    case (ld_answer e res flags)
    obtain heads views lost failed where l: "l = (heads, views, lost, failed)" by (cases l)
    note okl = ok [unfolded l]
    have same: "nr_pbrs (sy_nr s') = ?pbrs" using eff ld_answer(1) by (simp add: keeps_rings_def)
    have l': "l' = (heads, views, lost, failed)" using ld_answer(2) l by simp
    show ?thesis
      using spec unfolding ld_answer(1) same l'
    proof (rule spec_answered)
      fix g call
      assume g: "a' = a(g \<mapsto> (call, Some (res, flags)))" "a g = Some (call, None)" "asks env e call"
      have off: "call_class call = None \<or> \<not> 0 < sint res" using asks_class(1) [OF g(3)] ld_answer(3) by auto
      then have "promise_ok ?pbrs (call, Some (res, flags))"
        using lend_okD(2) [OF okl g(2)] by (auto split: option.splits)
      then show "lend_ok ?pbrs a' (heads, views, lost, failed)"
        unfolding g(1) by (intro lend_ok_same [OF okl]) (use g(2) off in \<open>auto simp: owes_def simp del: promise_ok.simps\<close>)
    qed (use okl in simp)
  next
    case (ld_view g ph call c k rings v heads views lost failed)
    have okl: "lend_ok ?pbrs a (heads, views, lost, failed)" using ok ld_view(2) by simp
    obtain call' res flags where g: "a g = Some (call', Some (res, flags))" "Out_view (Inr (Some v)) = call_outcome call' res flags ?pbrs"
      "a' = a(g := None)" using ended [OF ld_view(1)] by blast
    have "call' = call" using \<open>\<And>g ph call' c call ans. sy_calls s g = Some (ph, call', c) \<Longrightarrow> a g = Some (call, ans) \<Longrightarrow> call' = call\<close>
      [OF ld_view(4) g(1)] by simp
    then have "lend_ok ?pbrs a' (heads, (k, v) # views, lost, failed)"
      unfolding g(3) using ld_view(5) by (intro lend_ok_view [OF okl g(1) g(2) [symmetric]]) simp
    then show ?thesis using eff ld_view(1,3) by (simp add: keeps_rings_def)
  next
    case (ld_end out g rings)
    obtain call' res flags where g: "a g = Some (call', Some (res, flags))" "out = call_outcome call' res flags ?pbrs"
      "a' = a(g := None)" using ended [OF ld_end(1)] by blast
    have "\<not> at_eof k (a g)" for k
      using ld_end(3) g(1,2) by (cases call') (auto simp: received_def kernel_error_def)
    then have "lend_ok ?pbrs a' l" unfolding g(3) by (intro over [OF g(1)]) (use ld_end(3) g(2) in simp_all)
    then show ?thesis using eff ld_end(1,2,3) by (auto simp: keeps_rings_def)
  next
    case (ld_recv_eof g ph fd sizeClass c rings)
    obtain call' res flags where g: "a g = Some (call', Some (res, flags))" "Out_view (Inr None) = call_outcome call' res flags ?pbrs"
      "a' = a(g := None)" using ended [OF ld_recv_eof(1)] by blast
    have "\<not> at_eof k (a g)" for k using call [OF ld_recv_eof(3) g(1)] g(1) by auto
    then have "lend_ok ?pbrs a' l" unfolding g(3) by (intro over [OF g(1)]) (use g(2) [symmetric] in simp_all)
    then show ?thesis using eff ld_recv_eof(1,2,3) by (auto simp: keeps_rings_def)
  next
    case (ld_read_full g k pbr heads rings views lost failed)
    obtain ph fd sizeClass c tr err p' where e: "sy_calls s g = Some (ph, Call_read fd sizeClass, c)" "k = unat sizeClass"
      "?pbrs ! k = Some pbr" "k < length ?pbrs" "Inr (ucast (heads k)) = sys_pbuf_status senv tr (pb_fd pbr) (pb_bgid pbr)"
      "ReplenishOne senv tr pbr = Some (err, p')" "nr_pbrs (sy_nr s') = ?pbrs[k := Some p']"
      using ends_at_eof_rings [OF ld_read_full(4)] by blast
    note okl = ok [unfolded ld_read_full(2)]
    have k: "k < 5" using e(4) lend_okD(1) [OF okl] by simp
    note cl = lend_okD(4) [OF okl k e(3)]
    note full = class_full [OF cl ld_read_full(5)]
    have "p' = pbr" using full(2) [OF e(5) [symmetric]] e(6) by simp
    moreover have "of_class k lost = []" using full(1) by simp
    ultimately show ?thesis unfolding e(7) ld_read_full(3)
      by (intro read [OF ld_read_full(1,2) e(1,2) k e(3)]) (use cl in simp_all)
  next
    case (ld_read_back g k pbr heads lost rings views failed)
    obtain ph fd sizeClass c tr err p' where e: "sy_calls s g = Some (ph, Call_read fd sizeClass, c)" "k = unat sizeClass"
      "?pbrs ! k = Some pbr" "k < length ?pbrs" "Inr (ucast (heads k)) = sys_pbuf_status senv tr (pb_fd pbr) (pb_bgid pbr)"
      "ReplenishOne senv tr pbr = Some (err, p')" "nr_pbrs (sy_nr s') = ?pbrs[k := Some p']"
      using ends_at_eof_rings [OF ld_read_back(4)] by blast
    note okl = ok [unfolded ld_read_back(2)]
    have k: "k < 5" using e(4) lend_okD(1) [OF okl] by simp
    let ?b = "last_taken (heads k) pbr" and ?lost = "remove1 (k, last_taken (heads k) pbr) lost"
    have b: "?b \<in> set (of_class k lost)" using ld_read_back(6) by (simp add: set_of_class)
    then have "mset (of_class k lost) = add_mset ?b (mset (of_class k ?lost))" by (simp add: of_class_remove1)
    then have "class_ok (heads k) pbr (add_mset ?b (owed_bids (owes k a) + mset (of_class k ?lost))) (of_class k views)"
      using lend_okD(4) [OF okl k e(3)] by simp
    note again = class_back [OF this e(5) [symmetric]]
    have put: "class_ok (heads k) p' (owed_bids (owes k a) + mset (of_class k ?lost)) (of_class k views)" "pb_bufSize p' = pb_bufSize pbr"
      using again e(6) by auto
    have "0 < length (of_class k lost)" using b by (cases "of_class k lost") auto
    then have "length (of_class k ?lost) < length (of_class k lost)" using b by (simp add: of_class_remove1 length_remove1)
    then show ?thesis unfolding e(7) ld_read_back(3)
      by (intro read [OF ld_read_back(1,2) e(1,2) k e(3) put(2,1)]) (simp_all add: of_class_remove1 set_remove1_subset)
  next
    case (ld_read_fails g k pbr errno rings heads views lost failed)
    obtain ph fd sizeClass c tr err p' where e: "sy_calls s g = Some (ph, Call_read fd sizeClass, c)" "k = unat sizeClass"
      "?pbrs ! k = Some pbr" "k < length ?pbrs" "Inl errno = sys_pbuf_status senv tr (pb_fd pbr) (pb_bgid pbr)"
      "ReplenishOne senv tr pbr = Some (err, p')" "nr_pbrs (sy_nr s') = ?pbrs[k := Some p']"
      using ends_at_eof_rings [OF ld_read_fails(4)] by blast
    note okl = ok [unfolded ld_read_fails(2)]
    have k: "k < 5" using e(4) lend_okD(1) [OF okl] by simp
    have "p' = pbr" using e(5,6) by (simp add: ReplenishOne_def split: sum.splits)
    then show ?thesis unfolding e(7) ld_read_fails(3)
      by (intro read [OF ld_read_fails(1,2) e(1,2) k e(3)]) (use lend_okD(4) [OF okl k e(3)] in simp_all)
  next
    case (ld_release sizeClass v views heads lost failed)
    have "lend_ok ?pbrs a (heads, views, lost, failed)" "ReleaseBuffer_op env sizeClass v (sy_nr s) = Some (sy_nr s')" "a' = a"
      using ok eff spec ld_release(1,2) by simp_all
    then show ?thesis using lend_ok_release ld_release(3,4) by blast
  next
    case (ld_register sizeClass heads views lost failed)
    have "lend_ok ?pbrs a (heads, views, lost, failed)" "a' = a" using ok spec ld_register(1,2) by simp_all
    moreover obtain capacity tr tr' where "RegisterBufferRing_op senv sizeClass capacity (sy_nr s, tr) = Some (None, sy_nr s', tr')"
      using eff ld_register(1) by auto
    ultimately show ?thesis using lend_ok_register [OF _ fresh] ld_register(3) by blast
  next
    case (ld_unregister sizeClass views heads lost failed)
    have okl: "lend_ok ?pbrs a (heads, views, lost, failed)" "a' = a" using ok spec ld_unregister(1,2) by simp_all
    obtain tr tr' where "UnregisterBufferRing_op senv sizeClass (sy_nr s, tr) = Some (None, sy_nr s', tr')"
      using eff ld_unregister(1) by auto
    then have rings: "nr_pbrs (sy_nr s') = ?pbrs[unat sizeClass := None]" by (rule unregister_op(1)) simp
    have "call_class call \<noteq> Some (unat sizeClass)" if "a g = Some (call, ans)" for g call ans
    proof -
      note known = keeps_calls [OF keeps, of g, unfolded that]
      obtain ph c where "sy_calls s g = Some (ph, call, c)" using known by (cases "sy_calls s g") auto
      then show ?thesis using ld_unregister(5) by blast
    qed
    then show ?thesis unfolding rings ld_unregister(3) okl(2)
      by (intro lend_ok_unregister [OF okl(1)]) (use ld_unregister(4) in blast)+
  next
    case (ld_unregister_refused err sizeClass errno)
    obtain tr tr' where u: "UnregisterBufferRing_op senv sizeClass (sy_nr s, tr) = Some (Some err, sy_nr s', tr')"
      using eff ld_unregister_refused(1) by auto
    have "nr_pbrs (sy_nr s') = ?pbrs" by (rule unregister_op(2) [OF u, of errno]) (use ld_unregister_refused(3) in simp)
    then show ?thesis using ok spec ld_unregister_refused(1,2) by simp
  next
    case (ld_begin g call)
    obtain heads views lost failed where l: "l = (heads, views, lost, failed)" by (cases l)
    have g: "a g = None" "a' = a(g \<mapsto> (call, None))" using spec unfolding ld_begin(1) by (auto elim: spec_began)
    have "call_check call (sy_nr s) = Some None" "nr_pbrs (sy_nr s') = ?pbrs" using eff ld_begin(1) by (simp_all add: keeps_rings_def)
    moreover have "lend_ok ?pbrs a' (heads, views, lost, failed)"
      unfolding g(2) by (rule lend_ok_same [OF ok [unfolded l]])
        (use g(1) checked_promise calculation(1) in \<open>auto simp: owes_def simp del: promise_ok.simps\<close>)
    ultimately show ?thesis using ld_begin(2) l by simp
  qed (use ok spec eff in \<open>simp_all add: keeps_rings_def\<close>)
qed

lemma view_run_ok:
  assumes "view_run env senv idleAfter n s0 evs s l" and "wakeups_succeed env" and "Misfired \<notin> set evs" and "mmap_fresh senv"
    and "sys_good env m n s0" and "sys_keeps s0 Map.empty" and "nr_pbrs (sy_nr s0) = replicate 5 None"
  shows "sys_good env m n s \<and> (\<exists>a. sys_keeps s a \<and> lend_ok (nr_pbrs (sy_nr s)) a l)"
  using assms
proof (induction rule: view_run.induct)
  case vr_start
  have "lend_ok (replicate 5 None) Map.empty lend_start" unfolding lend_start_def by (rule lend_okI) simp_all
  then show ?case using vr_start by auto
next
  case (vr_step evs s l ev s' l')
  have calm: "Misfired \<notin> set evs" "ev \<noteq> Misfired" using vr_step.prems(2) by auto
  obtain a where a: "sys_good env m n s" "sys_keeps s a" "lend_ok (nr_pbrs (sy_nr s)) a l"
    using vr_step.IH [OF vr_step.prems(1) calm(1) vr_step.prems(3-6)] by blast
  obtain a' where a': "sys_good env m n s'" "spec_step env a ev a'" "sys_keeps s' a'"
    using system_step [OF vr_step.hyps(2) vr_step.prems(1) calm(2) a(1,2)] by blast
  show ?case using lend_step [OF vr_step.hyps(2,3) vr_step.prems(3) a'(2) a(2,3)] a'(1,3) by blast
qed

lemma start_view_run:
  assumes "new_netring r logger os = Some (Inr nr)" and "fresh_ring m n r" and "wakeups_succeed env" and "mmap_fresh senv"
    and "view_run env senv idleAfter n (ring_start nr) evs s l" and "Misfired \<notin> set evs"
  obtains a where "sys_keeps s a" and "lend_ok (nr_pbrs (sy_nr s)) a l"
proof -
  have "nr_pbrs (sy_nr (ring_start nr)) = replicate 5 None"
    using assms(1) by (auto simp: ring_start_def new_netring_def split: if_splits option.splits sum.splits)
  from view_run_ok [OF assms(5,3,6,4) start_good [OF assms(1,2)] this] show thesis using that by blast
qed

lemma class_apart_all:
  assumes "class_ok h p owed views"
  shows "sorted_wrt apart views" "v \<in> set views \<Longrightarrow> list_all (\<lambda>(addr, len, bid). apart v (addr, unat len)) (pb_pending h p)"
proof -
  show "sorted_wrt apart views" using class_apart(1) [OF assms] by (simp add: sorted_wrt_iff_nth_less)
  show "list_all (\<lambda>(addr, len, bid). apart v (addr, unat len)) (pb_pending h p)" if "v \<in> set views"
    using class_apart(2) [OF assms that] by (auto simp only: list_all_iff split: prod.split)
qed

text \<open>Right after the kernel has used a buffer up, the descriptor before its head is of that buffer.\<close>

lemma last_taken_pick:
  assumes v: "pb_valid k h p" and b: "pb_bids h p = x # bs"
  shows "last_taken (h + 1) p = x"
proof -
  have k: "k \<le> 15" and cap: "unat (pb_capacity p) = 2 ^ k" and msk: "pb_mask p = mask k" and len: "2 ^ k \<le> length (pb_ring p)"
    using v by (auto simp: pb_valid_def pbr_ok_def)
  have "0 < length (pb_bids h p)" unfolding b by simp
  then have count: "0 < pb_count h p" by simp
  let ?i = "unat h mod 2 ^ k"
  have "unat ((ucast (h + 1) - 1) AND pb_mask p :: u32) = unat (ucast (h + 1) - 1 :: u32) mod 2 ^ k"
    by (simp add: msk unat_and_mask)
  also have "\<dots> = unat (ucast (ucast (h + 1) - 1 :: u32) :: u16) mod 2 ^ k"
    unfolding unat_ucast_mod by (rule mod_mod_cancel [symmetric]) (use k in \<open>simp only: len_num1 len_bit0 le_imp_power_dvd\<close>)
  also have "ucast (ucast (h + 1) - 1 :: u32) = h"
    by (simp add: ucast_down_diff ucast_ucast_same)
  finally have idx: "unat ((ucast (h + 1) - 1) AND pb_mask p :: u32) = ?i" .
  have dl: "length (pb_descrs p) = 2 ^ k" using len cap by (simp add: pb_descrs_def)
  have "x = snd (snd (pb_pending h p ! 0))"
    using b count by (simp add: pb_bids_def pb_pending_def nth_append) (metis (no_types, lifting) b length_map length_pb_bids nth_Cons_0 nth_map pb_bids_def pb_pending_def)
  also have "pb_pending h p ! 0 = pb_descrs p ! ?i"
    using count by (simp add: pb_pending_def nth_ring_list dl)
  finally have "x = be_BID (pb_ring p ! ?i)" using len cap by (simp add: pb_descrs_def descr_def)
  then show ?thesis by (simp add: last_taken_def idx)
qed

section \<open>Two example runs\<close>

text \<open>Class 0 is registered with two buffers; goroutine 77 receives 100 bytes on descriptor 5, or meets an end of file there.
  The kernel's head is 1 when it is asked.\<close>

definition ex_sys1 :: sys_env where
  "ex_sys1 = ex_sys\<lparr>sys_pbuf_status := \<lambda>tr fd b. Inr 1\<rparr>"

lemma ex_sys1_fresh: "mmap_fresh ex_sys1"
  using ex_sys_ok(1) by (simp add: mmap_fresh_def ex_sys1_def)

lemma ex_register_tiny: "\<exists>p tr. RegisterBufferRing ex_sys1 fd 0 2 128 [] = Some (Inr p, tr)"
proof -
  have "check_ring_args 2 128 = None"
    using ones_count_exp [of 1, where 'a = 32] by (simp add: check_ring_args_def maxPbufRingEntries_def)
  moreover have "mmap ex_sys1 (- 1) 0 (unat (ucast (2 :: u32) * ucast (128 :: u32) :: u64)) [] = (Inr 4096, [Mapped 4096 256])"
    by (simp add: mmap_def ex_sys1_def ex_sys_def Sys_Calls.ex_fresh_def)
  moreover have "\<exists>ring tr. mmap ex_sys1 (- 1) 0
      (unat ((ucast (2 :: u32) * of_nat pbufRingEntrySize + 4095) AND NOT (4095 :: u64))) [Mapped 4096 256] = (Inr ring, tr)"
    by (simp add: mmap_def ex_sys1_def ex_sys_def Sys_Calls.ex_fresh_def live_maps_def pbufRingEntrySize_def)
  moreover have "sys_register_pbuf ex_sys1 tr fd ring 2 0 = 0" for tr ring by (simp add: ex_sys1_def ex_sys_def)
  ultimately show ?thesis using RegisterBufferRing_total by blast
qed

definition ex_call :: "net_call \<Rightarrow> bool" where
  "ex_call call \<longleftrightarrow> call = Call_recv 5 0 \<or> call = Call_read 5 0"

abbreviation ex_state :: "NetRing \<Rightarrow> SQEntry list \<Rightarrow> (u64 \<rightharpoonup> call_phase \<times> net_call \<times> cell_ref) \<Rightarrow> ring_sys" where
  "ex_state nr fl calls \<equiv> \<lparr>sy_nr = nr, sy_flight = fl, sy_calls = calls, sy_spin = 0, sy_waits = False\<rparr>"

abbreviation ex_run :: "NetRing \<Rightarrow> event list \<Rightarrow> ring_sys \<Rightarrow> lending \<Rightarrow> bool" where
  "ex_run nr \<equiv> view_run ex_env ex_sys1 10 1 (ring_start nr)"

text \<open>The ring of class 0 as it is registered.\<close>

definition ex_class :: "NetRing \<Rightarrow> ProvidedBufferRing \<Rightarrow> bool" where
  "ex_class nr p \<longleftrightarrow> length (nr_pbrs nr) = 5 \<and> nr_pbrs nr ! 0 = Some p \<and> pb_valid 1 0 p \<and> pb_bids 0 p = [0, 1] \<and> pb_bufSize p = 128"

lemma ex_call_begun:
  assumes call: "ex_call call"
  shows "\<exists>nr nr3 c e p. new_netring ex_new_ring True [] = Some (Inr nr) \<and>
     ex_run nr [Registered 0, Began 77 call] (ex_state nr3 [] [77 \<mapsto> (Call_sent, call, c)]) lend_start \<and>
     in_core c 77 (call_opcode call) 5 e nr3 \<and> request ex_env (call_task call c) 5 (sqe_UserData e) = Some e \<and> ex_class nr3 p"
proof -
  have h: "(\<lambda>c. 0)(unat (0 :: u64) := 0) = ((\<lambda>c. 0) :: nat \<Rightarrow> u16)" by auto
  obtain nr where nr: "new_netring ex_new_ring True [] = Some (Inr nr)" "quiet nr" using quiet_start by blast
  have pbrs: "nr_pbrs nr = replicate 5 None" using nr(1) by (auto simp: new_netring_def split: if_splits option.splits sum.splits)
  obtain p tr where reg: "RegisterBufferRing ex_sys1 (r_FD (nr_r nr)) 0 2 128 [] = Some (Inr p, tr)" using ex_register_tiny by blast
  obtain k where k: "pb_valid k 0 p" "unat (2 :: u32) = 2 ^ k" "pb_bids 0 p = map of_nat [0..<2 ^ k]" "pb_bufSize p = 128"
    using RegisterBufferRing_success [OF reg ex_sys1_fresh] by blast
  have "(2 :: nat) ^ k = 2 ^ 1" using k(2) by simp
  then have k1: "k = 1" by (rule power_inject_exp [THEN iffD1, rotated]) simp
  have "[0..<2] = [0, 1 :: nat]" by (simp add: upt_rec)
  then have bids: "pb_bids 0 p = [0, 1]" using k(3) k1 by simp
  have sz: "SizeClass_Size 0 = Some 128" by (simp add: SizeClass_Size_def sizeClassesCapacity_def)
  let ?nr1 = "nr\<lparr>nr_pbrs := (nr_pbrs nr)[0 := Some p]\<rparr>"
  have p1: "length (nr_pbrs ?nr1) = 5" "nr_pbrs ?nr1 ! 0 = Some p" by (simp_all add: pbrs)
  have op: "RegisterBufferRing_op ex_sys1 0 2 (sy_nr (ring_start nr), []) = Some (None, ?nr1, tr)"
    using reg by (simp add: RegisterBufferRing_op_def sz ring_start_def pbrs)
  have reg0: "lend ex_sys1 (ring_start nr) (Registered 0) (ex_state ?nr1 [] Map.empty) lend_start lend_start"
    using ld_register [where sizeClass = 0 and heads = "\<lambda>c. 0" and views = "[]" and lost = "[]" and failed = "\<lambda>c. 0"]
    unfolding lend_start_def h by blast
  have run1: "ex_run nr [Registered 0] (ex_state ?nr1 [] Map.empty) lend_start"
    using vr_step [OF vr_start rs_register [OF op]] reg0 by (simp add: ring_start_def)
  have q1: "quiet ?nr1" using nr(2) by (simp add: quiet_def quiescent_def nr_ok_def)
  obtain c nr2 where t: "take_cell 77 (call_opcode call) 5 ?nr1 = (c, nr2)" by fastforce
  have self: "nr2\<lparr>nr_sendCells := nr_sendCells nr2\<rparr> = nr2" by (cases nr2) simp
  have task: "rt_Ctx (call_task call c) = c" "queues (call_task call c)" by (rule call_opcode_parks(4), rule call_opcode_parks(2))
  obtain nr3 e where b: "submit ex_env True (call_task call c) nr2 = Some (True, nr3)" "in_core c 77 (call_opcode call) 5 e nr3"
    "request ex_env (call_task call c) 5 (sqe_UserData e) = Some e" "nr_pbrs nr3 = nr_pbrs ?nr1"
    using quiet_submit [OF q1 t task, of True "nr_sendCells nr2"] unfolding self by blast
  have check: "call_check call (sy_nr (ex_state ?nr1 [] Map.empty)) = Some None"
    using p1 call by (auto simp: ex_call_def check_class_def sz)
  have fd: "call_fd call = 5" using call by (auto simp: ex_call_def)
  have "sy_calls (ex_state ?nr1 [] Map.empty) 77 = None"
    and "take_cell 77 (call_opcode call) (call_fd call) (sy_nr (ex_state ?nr1 [] Map.empty)) = (c, nr2)" using t fd by simp_all
  note began = rs_begin [OF this(1) check this(2) b(1)]
  have run2: "ex_run nr [Registered 0, Began 77 call] (ex_state nr3 [] [77 \<mapsto> (Call_sent, call, c)]) lend_start"
    using vr_step [OF run1 began ld_begin] by simp
  have "ex_class nr3 p" using b(4) p1 k(1,4) k1 bids by (simp add: ex_class_def)
  then show ?thesis using nr(1) run2 b(2,3) by blast
qed

text \<open>The kernel answers with or without a buffer used up, the poller delivers the answer and the caller does not sleep.\<close>

lemma ex_call_answered:
  assumes call: "ex_call call" and lost: "res = 0 \<and> call = Call_read 5 0 \<and> lost = [(0, 0)] \<or>
    0 < sint res \<and> sint res \<le> 128 \<and> flags = push_bit 16 (ucast (0 :: u16)) OR CQEFBuffer \<and> lost = []"
  shows "\<exists>nr nr5 c cell e p. new_netring ex_new_ring True [] = Some (Inr nr) \<and>
     ex_run nr [Registered 0, Began 77 call, Silent, Answered e res flags, Silent, Silent]
       (ex_state nr5 [] [77 \<mapsto> (Call_resumed, call, c)]) ((\<lambda>c. 0)(0 := 1), [], lost, \<lambda>c. 0) \<and>
     nr_cells nr5 c = Some cell \<and> tc_res cell = res \<and> tc_flags cell = flags \<and> cell_error cell = None \<and> ex_class nr5 p"
proof -
  obtain nr nr3 c e p where nr: "new_netring ex_new_ring True [] = Some (Inr nr)"
    and run2: "ex_run nr [Registered 0, Began 77 call] (ex_state nr3 [] [77 \<mapsto> (Call_sent, call, c)]) lend_start"
    and b: "in_core c 77 (call_opcode call) 5 e nr3" "request ex_env (call_task call c) 5 (sqe_UserData e) = Some e" and p: "ex_class nr3 p"
    using ex_call_begun [OF call] by blast
  let ?calls = "[77 \<mapsto> (Call_sent, call, c)]" and ?l = "((\<lambda>c. 0)(0 := 1), [], lost, \<lambda>c. 0) :: lending"
  note pc = p [unfolded ex_class_def]
  obtain r1 r2 where steps: "ring_step ex_env ex_sys1 10 1 (ex_state nr3 [] ?calls) Silent (ex_state (nr3\<lparr>nr_r := r1\<rparr>) [e] ?calls)"
    "ring_step ex_env ex_sys1 10 1 (ex_state (nr3\<lparr>nr_r := r1\<rparr>) [e] ?calls) (Answered e res flags) (ex_state (nr3\<lparr>nr_r := r2\<rparr>) [] ?calls)"
    and r2: "answered_core c e res flags nr3 r2" using in_core_answered [OF b(1), of ex_sys1 ?calls 0 res flags] by blast
  obtain idx where asked: "request ex_env (call_task call c) 5 idx = Some e" using b(2) by blast
  have e: "wants_buffer e" "call = Call_read 5 0 \<Longrightarrow> sqe_Opcode e = OpRead" "unat (sqe_BufIndex e) = 0"
    using call asked by (auto simp: ex_call_def request_def plain_task_def Let_def wants_buffer_def)
  let ?s1 = "ex_state (nr3\<lparr>nr_r := r1\<rparr>) [e] ?calls" and ?s2 = "ex_state (nr3\<lparr>nr_r := r2\<rparr>) [] ?calls"
  have class0: "0 < length (nr_pbrs (sy_nr ?s1))" "nr_pbrs (sy_nr ?s1) ! 0 = Some p" "pb_bids ((\<lambda>c. 0 :: u16) (0 :: nat)) p = 0 # [1]"
    "pb_bufSize p = 128" using pc by simp_all
  have pick: "lend ex_sys1 ?s1 (Answered e res flags) ?s2 lend_start ?l"
    using lost
  proof
    assume eof: "res = 0 \<and> call = Call_read 5 0 \<and> lost = [(0, 0)]"
    then show ?thesis using ld_eof [OF e(2) e(3) [symmetric] class0(1-3), of ex_sys1 flags ?s2 "[]" "[]" "\<lambda>c. 0"]
      by (simp add: lend_start_def)
  next
    assume got: "0 < sint res \<and> sint res \<le> 128 \<and> flags = push_bit 16 (ucast (0 :: u16)) OR CQEFBuffer \<and> lost = []"
    have "unat (pb_bufSize p) = 128" unfolding class0(4) by simp
    then have "0 < sint res" "nat (sint res) \<le> unat (pb_bufSize p)" using got by linarith+
    from ld_pick [OF e(1) this(1) e(3) [symmetric] class0(1-3) this(2), of ex_sys1 ?s2 "[]" "[]" "\<lambda>c. 0"] got
    show ?thesis by (simp add: lend_start_def)
  qed
  have run3: "ex_run nr [Registered 0, Began 77 call, Silent, Answered e res flags] ?s2 ?l"
    using vr_step [OF vr_step [OF run2 steps(1) ld_silent] steps(2) pick] by simp
  let ?q = "\<lparr>cqe_UserData = sqe_UserData e, cqe_Res = res, cqe_Flags = flags\<rparr> :: CQEntry" and ?cell = "armed_cell 77 (call_opcode call) 5"
  let ?nr3 = "nr3\<lparr>nr_r := r2\<rparr>" and ?r3 = "r2\<lparr>r_CQHead := r_CQHead r2 + 1\<rparr>"
  have r2': "cq_ok 1 (nr_r ?nr3)" "cq_pending (nr_r ?nr3) = ?q # []" using r2 by (simp_all add: answered_core_def)
  have core: "slots_inv 13 (nr_slots nr3)" "live (nr_slots nr3) = [sqe_UserData e \<mapsto> c]" "nr_cells nr3 c = Some ?cell"
    using b(1) by (simp_all add: in_core_def nr_ok_def)
  let ?nr4 = "(?nr3\<lparr>nr_r := ?r3\<rparr>)\<lparr>nr_cells := (nr_cells nr3)(c \<mapsto> delivered ?q ?cell), nr_ready := nr_ready nr3 @ woken ?cell\<rparr>"
  have turn: "poll_turn ex_env 10 (sy_spin ?s2, sy_nr ?s2) = Some (0, ?nr4)"
    using poll_turn_ready [OF r2', of ex_env 10 0] dispatch_cqe_parked [of 13 "?nr3\<lparr>nr_r := ?r3\<rparr>" ?q c ?cell] core
    by (simp add: armed_cell_def)
  have busy: "\<not> sy_waits ?s2" "cq_pending (nr_r (sy_nr ?s2)) \<noteq> [] \<or> sy_spin ?s2 + 1 < 10" using r2' by simp_all
  let ?done = "(delivered ?q ?cell)\<lparr>tc_taskState := taskStateParked\<rparr>"
  let ?nr5 = "?nr4\<lparr>nr_cells := (nr_cells ?nr4)(c \<mapsto> ?done)\<rparr>"
  have park: "park_cell c (sy_nr (ex_state ?nr4 [] ?calls)) = Some (False, ?nr5)"
    by (simp add: park_cell_def netringParkUnlock_def delivered_def armed_cell_def waker_cas_def task_states)
  have asleep: "sy_calls (ex_state ?nr4 [] ?calls) 77 = Some (Call_sent, call, c)" by simp
  have run4: "ex_run nr [Registered 0, Began 77 call, Silent, Answered e res flags, Silent] (ex_state ?nr4 [] ?calls) ?l"
    using vr_step [OF run3 rs_poll [OF busy turn] ld_silent] by simp
  have run5: "ex_run nr [Registered 0, Began 77 call, Silent, Answered e res flags, Silent, Silent]
      (ex_state ?nr5 [] [77 \<mapsto> (Call_resumed, call, c)]) ?l"
    using vr_step [OF run4 rs_park [OF asleep park] ld_silent] by simp
  have "\<not> sint res < 0" using lost by auto
  then have "cell_error ?done = None" by (simp add: cell_error_def delivered_def armed_cell_def)
  then show ?thesis using nr run5 p
    by (intro exI [of _ nr] exI [of _ ?nr5] exI [of _ c] exI [of _ ?done] exI [of _ e] exI [of _ p]) (simp add: ex_class_def delivered_def)
qed

lemma ex_view_run:
  "\<exists>nr e rings s v p. new_netring ex_new_ring True [] = Some (Inr nr) \<and>
     ex_run nr [Registered 0, Began 77 (Call_recv 5 0), Silent, Answered e 100 (push_bit 16 (ucast (0 :: u16)) OR CQEFBuffer), Silent, Silent,
       Ended 77 rings (Out_view (Inr (Some v)))] s ((\<lambda>c. 0)(0 := 1), [(0, v)], [], \<lambda>c. 0) \<and> sy_calls s = Map.empty \<and> snd v = 100 \<and>
     nr_pbrs (sy_nr s) ! 0 = Some p \<and> pb_bids 1 p = [1]"
proof -
  let ?call = "Call_recv 5 0" and ?flags = "push_bit 16 (ucast (0 :: u16)) OR CQEFBuffer :: u32" and ?h = "(\<lambda>c. 0)(0 := 1) :: nat \<Rightarrow> u16"
  have "ex_call ?call" by (simp add: ex_call_def)
  from ex_call_answered [OF this, of 100 "[]" ?flags]
  obtain nr nr5 c cell e p where r: "new_netring ex_new_ring True [] = Some (Inr nr)"
    "ex_run nr [Registered 0, Began 77 ?call, Silent, Answered e 100 ?flags, Silent, Silent]
       (ex_state nr5 [] [77 \<mapsto> (Call_resumed, ?call, c)]) (?h, [], [], \<lambda>c. 0)"
    "nr_cells nr5 c = Some cell" "tc_res cell = 100" "tc_flags cell = ?flags" "cell_error cell = None" "ex_class nr5 p" by auto
  let ?s = "ex_state nr5 [] [77 \<mapsto> (Call_resumed, ?call, c)]" and ?v = "(pb_bufPointers p ! 0, 100) :: view"
  note p = r(7) [unfolded ex_class_def]
  have len: "length (pb_bufPointers p) = 2" using p by (simp add: pb_valid_def pbr_ok_def)
  have "Buffer 0 p = Some (pb_bufPointers p ! 0, 128)" using p len by (simp add: Buffer_def)
  then have "received_view 0 cell nr5 = Some (Inr ?v)"
    using p r(4,5) buffer_flag_set [of 0] bid_of_flags_round [of 0] by (simp add: received_view_def)
  then have fin: "call_finish ex_sys1 [] ?call c (sy_nr ?s) = Some (Out_view (Inr (Some ?v)), pool_put c nr5)"
    using r(3,4,6) by (simp add: Recv_finish_def)
  have up: "sy_calls ?s 77 = Some (Call_resumed, ?call, c)" by simp
  have ends: "lend ex_sys1 ?s (Ended 77 (nr_pbrs (sy_nr ?s)) (Out_view (Inr (Some ?v)))) (ex_state (pool_put c nr5) [] Map.empty)
      (?h, [], [], \<lambda>c. 0) (?h, [(0, ?v)], [], \<lambda>c. 0)"
    by (rule ld_view [OF up]) simp
  have run6: "ex_run nr ([Registered 0, Began 77 ?call, Silent, Answered e 100 ?flags, Silent, Silent] @
      [Ended 77 (nr_pbrs (sy_nr ?s)) (Out_view (Inr (Some ?v)))]) (ex_state (pool_put c nr5) [] Map.empty) (?h, [(0, ?v)], [], \<lambda>c. 0)"
    using vr_step [OF r(2) rs_end [OF up fin]] ends by simp
  have "pb_bids (0 + of_nat 1) p = drop 1 (pb_bids 0 p)"
    by (rule pb_advance(2) [where k = 1]) (use p length_pb_bids [of 0 p] in simp_all)
  then have "pb_bids 1 p = [1]" using p by simp
  then show ?thesis using r(1) run6 p
    by (intro exI [of _ nr] exI [of _ e] exI [of _ "nr_pbrs (sy_nr ?s)"] exI [of _ "ex_state (pool_put c nr5) [] Map.empty"]
        exI [of _ ?v] exI [of _ p]) (simp add: pool_put_def)
qed

lemma ex_eof_run:
  "\<exists>nr e rings s p. new_netring ex_new_ring True [] = Some (Inr nr) \<and>
     ex_run nr [Registered 0, Began 77 (Call_read 5 0), Silent, Answered e 0 0, Silent, Silent, Ended 77 rings (Out_view (Inr None))] s
       ((\<lambda>c. 0)(0 := 1), [], [], \<lambda>c. 0) \<and> sy_calls s = Map.empty \<and> nr_pbrs (sy_nr s) ! 0 = Some p \<and> pb_bids 1 p = [1, 0]"
proof -
  let ?call = "Call_read 5 0" and ?h = "(\<lambda>c. 0)(0 := 1) :: nat \<Rightarrow> u16"
  have "ex_call ?call" by (simp add: ex_call_def)
  from ex_call_answered [OF this, of 0 "[(0, 0)]" 0]
  obtain nr nr5 c cell e p where r: "new_netring ex_new_ring True [] = Some (Inr nr)"
    "ex_run nr [Registered 0, Began 77 ?call, Silent, Answered e 0 0, Silent, Silent]
       (ex_state nr5 [] [77 \<mapsto> (Call_resumed, ?call, c)]) (?h, [], [(0, 0)], \<lambda>c. 0)"
    "nr_cells nr5 c = Some cell" "tc_res cell = 0" "cell_error cell = None" "ex_class nr5 p" by auto
  let ?s = "ex_state nr5 [] [77 \<mapsto> (Call_resumed, ?call, c)]"
  note p = r(6) [unfolded ex_class_def]
  have status: "sys_pbuf_status ex_sys1 [] (pb_fd p) (pb_bgid p) = Inr (ucast (0 + of_nat 1 :: u16))" by (simp add: ex_sys1_def)
  have one: "0 < (1 :: nat)" "1 \<le> pb_count 0 p" using p length_pb_bids [of 0 p] by simp_all
  have v: "pb_valid 1 0 p" using p by simp
  from ReplenishOne_last [OF v one status]
  obtain p' where p': "ReplenishOne ex_sys1 [] p = Some (None, p')" "pb_bids 1 p' = drop 1 (pb_bids 0 p) @ [pb_bids 0 p ! 0]" by auto
  let ?nr' = "pool_put c (nr5\<lparr>nr_pbrs := (nr_pbrs nr5)[0 := Some p']\<rparr>)"
  let ?s' = "ex_state ?nr' [] Map.empty"
  have fin: "call_finish ex_sys1 [] ?call c (sy_nr ?s) = Some (Out_view (Inr None), ?nr')"
    using r(3-5) p p'(1) by (simp add: Read_finish_def Let_def)
  have up: "sy_calls ?s 77 = Some (Call_resumed, ?call, c)" by simp
  have eof: "ends_at_eof ex_sys1 ?s 77 ?s' 0 p (Inr (ucast (?h 0)))"
    unfolding ends_at_eof_def using fin p status
    by (intro exI [of _ Call_resumed] exI [of _ 5] exI [of _ 0] exI [of _ c] exI [of _ "[]"]) simp
  have taken: "last_taken (?h 0) p = 0" using last_taken_pick [OF v, of 0 "[1]"] p by simp
  have "pb_count 1 p = 1" using pb_advance(3) [OF v, of 1] one p length_pb_bids [of 0 p] by simp
  then have notfull: "pb_count (?h 0) p \<noteq> unat (pb_capacity p)" using v by (simp add: pb_valid_def pbr_ok_def)
  have ends: "lend ex_sys1 ?s (Ended 77 (nr_pbrs (sy_nr ?s)) (Out_view (Inr None))) ?s' (?h, [], [(0, 0)], \<lambda>c. 0) (?h, [], [], \<lambda>c. 0)"
  proof -
    have "lend ex_sys1 ?s (Ended 77 (nr_pbrs (sy_nr ?s)) (Out_view (Inr None))) ?s' (?h, [], [(0, 0)], \<lambda>c. 0)
        (?h, [], remove1 (0, last_taken (?h 0) p) [(0, 0)], \<lambda>c. 0)"
      by (rule ld_read_back [where heads = ?h and k = 0, OF eof notfull]) (simp only: taken list.set insertI1)
    then show ?thesis unfolding taken by simp
  qed
  have run6: "ex_run nr ([Registered 0, Began 77 ?call, Silent, Answered e 0 0, Silent, Silent] @
      [Ended 77 (nr_pbrs (sy_nr ?s)) (Out_view (Inr None))]) ?s' (?h, [], [], \<lambda>c. 0)"
    using vr_step [OF r(2) rs_end [OF up fin]] ends by simp
  have "pb_bids 1 p' = [1, 0]" using p'(2) p by simp
  then show ?thesis using r(1) run6 p
    by (intro exI [of _ nr] exI [of _ e] exI [of _ "nr_pbrs (sy_nr ?s)"] exI [of _ ?s'] exI [of _ p']) (simp add: pool_put_def)
qed

section \<open>Properties\<close>





end
