(* ===== verification/Priority_Queue.thy ===== *)
theory Priority_Queue
  imports Prelude "HOL-Library.Multiset"
begin

text \<open>
  The bounded priority queue of \<open>internal/pqueue/pqueue.go\<close>: a binary heap in an array of
  fixed length. A panic (an index out of range, a negative capacity) is \<open>None\<close>. Weights are
  only compared, so Go's \<open>int\<close> is \<open>int\<close>; \<open>zero\<close> is the zero value of the payload type.
\<close>

section \<open>Data\<close>

record 'a queueSlot =
  weight :: int
  payload :: 'a

record 'a PriorityQueue =
  pq_data :: "'a queueSlot list"
  pq_len :: nat
  pq_cap :: nat
  pq_depth :: nat

definition absent :: "'a \<Rightarrow> 'a queueSlot" where
  "absent zero = \<lparr>weight = - 1, payload = zero\<rparr>"

definition new_pqueue :: "'a \<Rightarrow> int \<Rightarrow> 'a PriorityQueue option" where
  "new_pqueue zero capacity = (if capacity < 0 then None else
     Some \<lparr>pq_data = replicate (nat capacity) (absent zero), pq_len = 0, pq_cap = nat capacity, pq_depth = 0\<rparr>)"

definition parentIdx :: "nat \<Rightarrow> nat" where
  "parentIdx idx = (idx - 1) div 2"

definition childrenArrayStartIdx :: "nat \<Rightarrow> nat" where
  "childrenArrayStartIdx idx = 2 * idx + 1"

section \<open>Operations\<close>

definition exchange :: "nat \<Rightarrow> nat \<Rightarrow> 'a list \<Rightarrow> 'a list" where
  "exchange i j d = d[i := d ! j, j := d ! i]"

text \<open>The loop of \<open>Push\<close>.\<close>

function sift_up :: "'a queueSlot list \<Rightarrow> nat \<Rightarrow> 'a queueSlot list" where
  "sift_up d idx = (if 0 < idx then
     (let pidx = parentIdx idx in
      if weight (d ! pidx) > weight (d ! idx) then sift_up (exchange pidx idx d) pidx else d)
   else d)"
  by pat_completeness auto
termination by (relation "measure snd") (auto simp: parentIdx_def)

definition Push_pq :: "int \<Rightarrow> 'a \<Rightarrow> 'a PriorityQueue \<Rightarrow> (bool \<times> 'a PriorityQueue) option" where
  "Push_pq w x q = (if pq_len q = pq_cap q then Some (False, q)
     else if length (pq_data q) \<le> pq_len q then None
     else Some (True, q\<lparr>pq_data := sift_up ((pq_data q)[pq_len q := \<lparr>weight = w, payload = x\<rparr>]) (pq_len q),
                        pq_len := pq_len q + 1\<rparr>))"

text \<open>The loop of \<open>Pop\<close>; \<open>len\<close> is the length after the decrement.\<close>

definition pick :: "'a queueSlot list \<Rightarrow> nat \<Rightarrow> nat \<Rightarrow> nat" where
  "pick d len lidx = (if lidx + 1 \<ge> len then lidx
     else if weight (d ! lidx) \<le> weight (d ! (lidx + 1)) then lidx else lidx + 1)"

function sift_down :: "'a queueSlot list \<Rightarrow> nat \<Rightarrow> nat \<Rightarrow> 'a queueSlot list" where
  "sift_down d len idx = (if idx < len then
     (let lidx = childrenArrayStartIdx idx in
      if lidx \<ge> len then d
      else if weight (d ! idx) \<le> weight (d ! pick d len lidx) then d
      else sift_down (exchange idx (pick d len lidx) d) len (pick d len lidx))
   else d)"
  by pat_completeness auto
termination by (relation "measure (\<lambda>(d, len, idx). len - idx)") (auto simp: pick_def childrenArrayStartIdx_def)

definition Pop_pq :: "'a \<Rightarrow> 'a PriorityQueue \<Rightarrow> (('a \<times> bool) \<times> 'a PriorityQueue) option" where
  "Pop_pq zero q = (if pq_len q = 0 then Some ((zero, False), q)
     else if length (pq_data q) < pq_len q then None
     else let lastIdx = pq_len q - 1;
              d = (pq_data q)[0 := pq_data q ! lastIdx, lastIdx := absent zero]
          in Some ((payload (pq_data q ! 0), True), q\<lparr>pq_data := sift_down d lastIdx 0, pq_len := lastIdx\<rparr>))"

definition Len :: "'a PriorityQueue \<Rightarrow> nat" where "Len q = pq_len q"

definition Cap :: "'a PriorityQueue \<Rightarrow> nat" where "Cap q = pq_cap q"

declare sift_up.simps [simp del] sift_down.simps [simp del]

section \<open>Exchanging two slots\<close>

lemma length_exchange [simp]: "length (exchange i j d) = length d"
  by (simp add: exchange_def)

lemma exchange_nth: "i < length d \<Longrightarrow> j < length d \<Longrightarrow> k < length d \<Longrightarrow>
    exchange i j d ! k = (if k = i then d ! j else if k = j then d ! i else d ! k)"
  by (auto simp: exchange_def nth_list_update)

lemma exchange_take: "i < n \<Longrightarrow> j < n \<Longrightarrow> n \<le> length d \<Longrightarrow> take n (exchange i j d) = exchange i j (take n d)"
  by (simp add: exchange_def take_update_swap)

lemma exchange_drop: "i < n \<Longrightarrow> j < n \<Longrightarrow> drop n (exchange i j d) = drop n d"
  by (simp add: exchange_def)

lemma exchange_mset: "i < n \<Longrightarrow> j < n \<Longrightarrow> n \<le> length d \<Longrightarrow>
    mset (take n (exchange i j d)) = mset (take n d)"
  using mset_swap [of j "take n d" i] by (simp add: exchange_take) (simp add: exchange_def)

section \<open>The heap order\<close>

definition heap_at :: "'a queueSlot list \<Rightarrow> nat \<Rightarrow> bool" where
  "heap_at d i \<longleftrightarrow> weight (d ! parentIdx i) \<le> weight (d ! i)"

definition is_heap :: "'a queueSlot list \<Rightarrow> nat \<Rightarrow> bool" where
  "is_heap d n \<longleftrightarrow> (\<forall>i. 0 < i \<and> i < n \<longrightarrow> heap_at d i)"

text \<open>A heap but for the slot \<open>k\<close>, which may be lighter than its parent.\<close>

definition heap_up :: "'a queueSlot list \<Rightarrow> nat \<Rightarrow> nat \<Rightarrow> bool" where
  "heap_up d n k \<longleftrightarrow> (\<forall>i. 0 < i \<and> i < n \<and> i \<noteq> k \<longrightarrow> heap_at d i) \<and>
     (0 < k \<longrightarrow> (\<forall>c. 0 < c \<and> c < n \<and> parentIdx c = k \<longrightarrow> weight (d ! parentIdx k) \<le> weight (d ! c)))"

text \<open>A heap but for the slot \<open>k\<close>, which may be heavier than its children.\<close>

definition heap_down :: "'a queueSlot list \<Rightarrow> nat \<Rightarrow> nat \<Rightarrow> bool" where
  "heap_down d n k \<longleftrightarrow> (\<forall>i. 0 < i \<and> i < n \<and> parentIdx i \<noteq> k \<longrightarrow> heap_at d i) \<and>
     (0 < k \<longrightarrow> (\<forall>c. 0 < c \<and> c < n \<and> parentIdx c = k \<longrightarrow> weight (d ! parentIdx k) \<le> weight (d ! c)))"

lemma parentIdx_less: "0 < i \<Longrightarrow> parentIdx i < i"
  by (simp add: parentIdx_def)

lemma parentIdx_bound: "0 < i \<Longrightarrow> i < n \<Longrightarrow> parentIdx i < n"
  by (simp add: parentIdx_def)

lemma parentIdx_children: "parentIdx c = k \<and> 0 < c \<longleftrightarrow> c = 2 * k + 1 \<or> c = 2 * k + 2"
  unfolding parentIdx_def by presburger

lemma heap_up_exchange:
  assumes h: "heap_up d n k" and k: "0 < k" "k < n" "n \<le> length d" and w: "weight (d ! k) < weight (d ! parentIdx k)"
  shows "heap_up (exchange (parentIdx k) k d) n (parentIdx k)"
proof -
  define p where "p = parentIdx k"
  have p: "p < k" using parentIdx_less [OF k(1)] by (simp add: p_def)
  have at: "heap_at d i" if "0 < i" "i < n" "i \<noteq> k" for i using h that by (simp add: heap_up_def)
  have kid: "weight (d ! p) \<le> weight (d ! c)" if "0 < c" "c < n" "parentIdx c = k" for c
    using h that k(1) by (simp add: heap_up_def p_def)
  have nth: "exchange p k d ! i = (if i = p then d ! k else if i = k then d ! p else d ! i)" if "i < n" for i
    using that p k by (simp add: exchange_nth)
  have up: "parentIdx i < n" if "0 < i" "i < n" for i using that by (rule parentIdx_bound)
  have "heap_at (exchange p k d) i" if i: "0 < i" "i < n" "i \<noteq> p" for i
  proof (cases "i = k")
    case True
    then show ?thesis using w p k by (simp add: heap_at_def nth p_def [symmetric])
  next
    case False
    then show ?thesis using at [OF i(1,2)] kid [OF i(1,2)] w i p up [OF i(1,2)]
      by (auto simp: heap_at_def nth p_def [symmetric])
  qed
  moreover have "weight (exchange p k d ! parentIdx p) \<le> weight (exchange p k d ! c)"
    if c: "0 < p" "0 < c" "c < n" "parentIdx c = p" for c
  proof -
    have "parentIdx p < p" "c \<noteq> p" using parentIdx_less [OF c(1)] parentIdx_less [OF c(2)] c(4) by auto
    moreover have "weight (d ! parentIdx p) \<le> weight (d ! p)" using at [of p] c p k by (simp add: heap_at_def)
    moreover have "weight (d ! p) \<le> weight (d ! c)" if "c \<noteq> k" using at [of c] c that by (simp add: heap_at_def)
    moreover have "exchange p k d ! parentIdx p = d ! parentIdx p"
      "exchange p k d ! c = (if c = k then d ! p else d ! c)"
      using c p k calculation(1,2) by (simp_all add: nth)
    ultimately show ?thesis by (cases "c = k") auto
  qed
  ultimately show ?thesis unfolding p_def [symmetric] by (auto simp: heap_up_def)
qed

lemma heap_down_exchange:
  assumes h: "heap_down d n k" and n: "n \<le> length d" "2 * k + 1 < n" and p: "p = pick d n (2 * k + 1)"
    and w: "weight (d ! p) < weight (d ! k)"
  shows "heap_down (exchange k p d) n p"
proof -
  have pk: "k < p" "p < n" "parentIdx p = k"
    using n by (auto simp: p pick_def parentIdx_def)
  have least: "weight (d ! p) \<le> weight (d ! c)" if "0 < c" "c < n" "parentIdx c = k" for c
  proof -
    have "c = 2 * k + 1 \<or> c = 2 * k + 2" using that parentIdx_children by blast
    then show ?thesis using that(2) by (auto simp: p pick_def)
  qed
  have at: "heap_at d i" if "0 < i" "i < n" "parentIdx i \<noteq> k" for i using h that by (simp add: heap_down_def)
  have nth: "exchange k p d ! i = (if i = k then d ! p else if i = p then d ! k else d ! i)" if "i < n" for i
    using that pk n by (simp add: exchange_nth)
  have up: "parentIdx i < n" if "0 < i" "i < n" for i using that by (rule parentIdx_bound)
  have "heap_at (exchange k p d) i" if i: "0 < i" "i < n" "parentIdx i \<noteq> p" for i
  proof (cases "i = k")
    case True
    then have "weight (d ! parentIdx k) \<le> weight (d ! p)" using h pk i by (auto simp: heap_down_def)
    then show ?thesis using True i pk up [OF i(1,2)] parentIdx_less [OF i(1)] by (simp add: heap_at_def nth)
  next
    case False
    then show ?thesis using at [OF i(1,2)] least [OF i(1,2)] w i pk up [OF i(1,2)]
      by (auto simp: heap_at_def nth)
  qed
  moreover have "weight (exchange k p d ! parentIdx p) \<le> weight (exchange k p d ! c)"
    if c: "0 < c" "c < n" "parentIdx c = p" for c
  proof -
    have "p < c" using parentIdx_less [OF c(1)] c by simp
    then show ?thesis using at [OF c(1,2)] c pk by (simp add: heap_at_def nth)
  qed
  ultimately show ?thesis by (auto simp: heap_down_def)
qed

text \<open>Both loops keep the slots outside the heap, permute those inside, and end with a heap.\<close>

lemma sift_up_heap:
  "heap_up d n k \<Longrightarrow> k < n \<Longrightarrow> n \<le> length d \<Longrightarrow>
   is_heap (sift_up d k) n \<and> mset (take n (sift_up d k)) = mset (take n d) \<and>
   drop n (sift_up d k) = drop n d \<and> length (sift_up d k) = length d"
proof (induction d k rule: sift_up.induct)
  case (1 d k)
  show ?case
  proof (cases "0 < k \<and> weight (d ! k) < weight (d ! parentIdx k)")
    case True
    then have p: "parentIdx k < n" using 1(3) by (simp add: parentIdx_bound)
    have "heap_up (exchange (parentIdx k) k d) n (parentIdx k)"
      using True 1(2-4) by (intro heap_up_exchange) auto
    moreover have "sift_up d k = sift_up (exchange (parentIdx k) k d) (parentIdx k)"
      using True by (subst sift_up.simps) (simp add: Let_def)
    ultimately show ?thesis
      using 1(1) [of "parentIdx k"] True 1(3,4) p by (simp add: exchange_mset exchange_drop)
  next
    case False
    then have "sift_up d k = d" by (subst sift_up.simps) (auto simp: Let_def)
    moreover have "heap_at d i" if "0 < i" "i < n" for i
      using False 1(2) that by (cases "i = k") (auto simp: heap_up_def heap_at_def not_less)
    ultimately show ?thesis by (simp add: is_heap_def)
  qed
qed

lemma sift_down_heap:
  "heap_down d n k \<Longrightarrow> n \<le> length d \<Longrightarrow>
   is_heap (sift_down d n k) n \<and> mset (take n (sift_down d n k)) = mset (take n d) \<and>
   drop n (sift_down d n k) = drop n d \<and> length (sift_down d n k) = length d"
proof (induction d n k rule: sift_down.induct)
  case (1 d n k)
  define p where "p = pick d n (2 * k + 1)"
  show ?case
  proof (cases "2 * k + 1 < n \<and> weight (d ! p) < weight (d ! k)")
    case True
    then have "k < n" "p < n" by (auto simp: p_def pick_def)
    have "heap_down (exchange k p d) n p"
      using True 1(2-3) by (intro heap_down_exchange) (auto simp: p_def)
    moreover have "sift_down d n k = sift_down (exchange k p d) n p"
      using True \<open>k < n\<close> by (subst sift_down.simps) (simp add: Let_def childrenArrayStartIdx_def p_def)
    ultimately show ?thesis
      using 1(1) [of "2 * k + 1"] True 1(3) \<open>k < n\<close> \<open>p < n\<close>
      by (simp add: childrenArrayStartIdx_def p_def exchange_mset exchange_drop)
  next
    case False
    then have "sift_down d n k = d"
      by (subst sift_down.simps) (auto simp: Let_def childrenArrayStartIdx_def p_def)
    moreover have "heap_at d i" if i: "0 < i" "i < n" for i
    proof (cases "parentIdx i = k")
      case True
      then have "i = 2 * k + 1 \<or> i = 2 * k + 2" using i parentIdx_children by blast
      then show ?thesis using False True i by (auto simp: p_def pick_def heap_at_def split: if_splits)
    next
      case False
      then show ?thesis using 1(2) i by (simp add: heap_down_def)
    qed
    ultimately show ?thesis by (simp add: is_heap_def)
  qed
qed

lemma heap_least:
  assumes "is_heap d n" "i < n"
  shows "weight (d ! 0) \<le> weight (d ! i)"
  using assms(2)
proof (induction i rule: less_induct)
  case (less i)
  show ?case
  proof (cases "i = 0")
    case False
    then have "parentIdx i < i" using parentIdx_less by simp
    then have "weight (d ! 0) \<le> weight (d ! parentIdx i)" using less by simp
    also have "\<dots> \<le> weight (d ! i)" using assms(1) False less.prems by (simp add: is_heap_def heap_at_def)
    finally show ?thesis .
  qed simp
qed

section \<open>Contents and well-formedness\<close>

definition contents :: "'a PriorityQueue \<Rightarrow> (int \<times> 'a) multiset" where
  "contents q = mset (map (\<lambda>e. (weight e, payload e)) (take (pq_len q) (pq_data q)))"

text \<open>Beyond the length every slot is cleared, so no payload is kept alive after its \<open>Pop\<close>.\<close>

definition pq_wf :: "'a \<Rightarrow> 'a PriorityQueue \<Rightarrow> bool" where
  "pq_wf zero q \<longleftrightarrow> length (pq_data q) = pq_cap q \<and> pq_len q \<le> pq_cap q \<and> is_heap (pq_data q) (pq_len q) \<and>
     drop (pq_len q) (pq_data q) = replicate (pq_cap q - pq_len q) (absent zero)"

lemma size_contents: "pq_wf zero q \<Longrightarrow> size (contents q) = pq_len q"
  by (simp add: contents_def pq_wf_def)

lemma contents_mset: "contents q = image_mset (\<lambda>e. (weight e, payload e)) (mset (take (pq_len q) (pq_data q)))"
  by (simp add: contents_def)

lemma new_pqueue_wf: "0 \<le> c \<Longrightarrow> \<exists>q. new_pqueue zero c = Some q \<and> pq_wf zero q \<and> contents q = {#} \<and> pq_cap q = nat c"
  by (simp add: new_pqueue_def pq_wf_def contents_def is_heap_def)

lemma Push_pq_full: "pq_len q = pq_cap q \<Longrightarrow> Push_pq w x q = Some (False, q)"
  by (simp add: Push_pq_def)

lemma Push_pq_room:
  assumes wf: "pq_wf zero q" and room: "pq_len q < pq_cap q"
  shows "\<exists>q'. Push_pq w x q = Some (True, q') \<and> pq_wf zero q' \<and> pq_cap q' = pq_cap q \<and>
    contents q' = add_mset (w, x) (contents q)"
proof -
  define n e d where "n = pq_len q" and "e = \<lparr>weight = w, payload = x\<rparr>" and "d = (pq_data q)[n := e]"
  have len: "n < length d" "length d = pq_cap q" using wf room by (simp_all add: pq_wf_def n_def d_def)
  have "is_heap (pq_data q) n" using wf by (simp add: pq_wf_def n_def)
  then have "heap_at d i" if "0 < i" "i < n" for i
    using that parentIdx_bound [OF that] by (simp add: is_heap_def heap_at_def d_def)
  then have up1: "\<forall>i. 0 < i \<and> i < Suc n \<and> i \<noteq> n \<longrightarrow> heap_at d i" by (auto simp: less_Suc_eq)
  have "\<not> c < Suc n" if "0 < c" "parentIdx c = n" for c using parentIdx_less [OF that(1)] that(2) by simp
  then have up2: "\<forall>c. 0 < c \<and> c < Suc n \<and> parentIdx c = n \<longrightarrow> weight (d ! parentIdx n) \<le> weight (d ! c)" by blast
  have "heap_up d (Suc n) n" unfolding heap_up_def using up1 up2 by blast
  then have s: "is_heap (sift_up d n) (Suc n)" "mset (take (Suc n) (sift_up d n)) = mset (take (Suc n) d)"
    "drop (Suc n) (sift_up d n) = drop (Suc n) d" "length (sift_up d n) = length d"
    using sift_up_heap [of d "Suc n" n] len by auto
  have take: "take (Suc n) d = take n (pq_data q) @ [e]"
    using len by (simp add: d_def take_Suc_conv_app_nth)
  have "drop (Suc n) d = drop (Suc n) (pq_data q)" by (simp add: d_def)
  also have "\<dots> = drop 1 (drop n (pq_data q))" by simp
  also have "\<dots> = replicate (pq_cap q - Suc n) (absent zero)" using wf by (simp add: pq_wf_def n_def)
  finally have rest: "drop (Suc n) d = replicate (pq_cap q - Suc n) (absent zero)" .
  define q' where "q' = q\<lparr>pq_data := sift_up d n, pq_len := n + 1\<rparr>"
  have "Push_pq w x q = Some (True, q')"
    using len room by (simp add: Push_pq_def q'_def n_def d_def e_def)
  moreover have "pq_wf zero q'" using s len rest room by (simp add: pq_wf_def q'_def n_def)
  moreover have "contents q' = add_mset (w, x) (contents q)"
    using s(2) take by (simp add: contents_mset q'_def n_def e_def)
  moreover have "pq_cap q' = pq_cap q" by (simp add: q'_def)
  ultimately show ?thesis by blast
qed

lemma Pop_pq_empty: "pq_len q = 0 \<Longrightarrow> Pop_pq zero q = Some ((zero, False), q)"
  by (simp add: Pop_pq_def)

lemma Pop_pq_some:
  assumes wf: "pq_wf zero q" and len: "0 < pq_len q"
  shows "\<exists>q'. Pop_pq zero q = Some ((payload (pq_data q ! 0), True), q') \<and> pq_wf zero q' \<and> pq_cap q' = pq_cap q \<and>
    contents q = add_mset (weight (pq_data q ! 0), payload (pq_data q ! 0)) (contents q')"
proof -
  define n d where "n = pq_len q - 1" and "d = (pq_data q)[0 := pq_data q ! n, n := absent zero]"
  have n: "pq_len q = Suc n" "n < length (pq_data q)" "length d = pq_cap q" "n < pq_cap q"
    using wf len by (auto simp: pq_wf_def n_def d_def)
  have h: "is_heap (pq_data q) (Suc n)" using wf n by (simp add: pq_wf_def)
  have nth: "d ! i = (if i = 0 then pq_data q ! n else pq_data q ! i)" if "i < n" for i
    using that n by (auto simp: d_def nth_list_update)
  have "heap_at d i" if i: "0 < i" "i < n" "parentIdx i \<noteq> 0" for i
    using h i parentIdx_bound [OF i(1,2)] by (simp add: heap_at_def is_heap_def nth)
  then have "heap_down d n 0" by (simp add: heap_down_def)
  then have s: "is_heap (sift_down d n 0) n" "mset (take n (sift_down d n 0)) = mset (take n d)"
    "drop n (sift_down d n 0) = drop n d" "length (sift_down d n 0) = length d"
    using sift_down_heap [of d n 0] n by auto
  have first: "mset (take (Suc n) (pq_data q)) = add_mset (pq_data q ! 0) (mset (take n d))"
  proof (cases n)
    case 0
    then show ?thesis using n by (simp add: take_Suc_conv_app_nth)
  next
    case (Suc m)
    obtain a as where as: "pq_data q = a # as" using n by (cases "pq_data q") auto
    have "take (Suc n) (pq_data q) = a # take m as @ [as ! m]"
      using n Suc as by (simp add: take_Suc_conv_app_nth)
    moreover have "take n d = as ! m # take m as" using as Suc by (simp add: d_def)
    ultimately show ?thesis using as by simp
  qed
  have "d ! n = absent zero" "drop (Suc n) d = drop (Suc n) (pq_data q)" using n by (simp_all add: d_def)
  then have "drop n d = absent zero # drop (Suc n) (pq_data q)"
    using n Cons_nth_drop_Suc [of n d] by simp
  also have "drop (Suc n) (pq_data q) = replicate (pq_cap q - Suc n) (absent zero)" using wf n by (simp add: pq_wf_def)
  finally have rest: "drop n d = replicate (pq_cap q - n) (absent zero)"
    using n by (metis Suc_diff_Suc replicate_Suc)
  define q' where "q' = q\<lparr>pq_data := sift_down d n 0, pq_len := n\<rparr>"
  have "Pop_pq zero q = Some ((payload (pq_data q ! 0), True), q')"
    using n by (simp add: Pop_pq_def q'_def d_def)
  moreover have "pq_wf zero q'" using s n rest by (simp add: pq_wf_def q'_def)
  moreover have "contents q = add_mset (weight (pq_data q ! 0), payload (pq_data q ! 0)) (contents q')"
    using first s(2) n by (simp add: contents_mset q'_def)
  moreover have "pq_cap q' = pq_cap q" by (simp add: q'_def)
  ultimately show ?thesis by blast
qed

lemma head_least: "pq_wf zero q \<Longrightarrow> (v, y) \<in># contents q \<Longrightarrow> weight (pq_data q ! 0) \<le> v"
  using heap_least by (fastforce simp: contents_def pq_wf_def in_set_conv_nth)

section \<open>The interface\<close>

text \<open>
  What a client of a bounded priority queue relies on. \<open>take_least\<close> answers a payload and a flag;
  the payload belongs to a least weight, and a queue in which nothing is left says so.
\<close>

locale bounded_priority_queue =
  fixes valid :: "'s \<Rightarrow> bool"
    and elems :: "'s \<Rightarrow> (int \<times> 'a) multiset"
    and capacity :: "'s \<Rightarrow> nat"
    and insert :: "int \<Rightarrow> 'a \<Rightarrow> 's \<Rightarrow> (bool \<times> 's) option"
    and take_least :: "'s \<Rightarrow> (('a \<times> bool) \<times> 's) option"
  assumes insert_law: "valid s \<Longrightarrow> size (elems s) < capacity s \<Longrightarrow>
      \<exists>s'. insert w x s = Some (True, s') \<and> valid s' \<and> capacity s' = capacity s \<and> elems s' = add_mset (w, x) (elems s)"
    and insert_full: "valid s \<Longrightarrow> size (elems s) = capacity s \<Longrightarrow> insert w x s = Some (False, s)"
    and take_least_law: "valid s \<Longrightarrow> elems s \<noteq> {#} \<Longrightarrow>
      \<exists>w x s'. take_least s = Some ((x, True), s') \<and> valid s' \<and> capacity s' = capacity s \<and>
        elems s = add_mset (w, x) (elems s') \<and> (\<forall>v y. (v, y) \<in># elems s \<longrightarrow> w \<le> v)"
    and take_least_empty: "valid s \<Longrightarrow> elems s = {#} \<Longrightarrow> \<exists>z. take_least s = Some ((z, False), s)"
begin

primrec insert_list :: "(int \<times> 'a) list \<Rightarrow> 's \<Rightarrow> 's option" where
  "insert_list [] s = Some s"
| "insert_list (e # es) s = Option.bind (insert (fst e) (snd e) s) (\<lambda>r. insert_list es (snd r))"

text \<open>Extract until the flag is false; \<open>n\<close> bounds the number of calls.\<close>

primrec take_least_all :: "nat \<Rightarrow> 's \<Rightarrow> ('a list \<times> 's) option" where
  "take_least_all 0 s = None"
| "take_least_all (Suc n) s = Option.bind (take_least s) (\<lambda>((x, found), s').
     if found then map_option (\<lambda>(xs, s''). (x # xs, s'')) (take_least_all n s') else Some ([], s'))"

lemma insert_list_elems:
  "valid s \<Longrightarrow> size (elems s) + length es \<le> capacity s \<Longrightarrow>
   \<exists>s'. insert_list es s = Some s' \<and> valid s' \<and> capacity s' = capacity s \<and> elems s' = mset es + elems s"
proof (induction es arbitrary: s)
  case (Cons e es)
  then obtain s1 where s1: "insert (fst e) (snd e) s = Some (True, s1)" "valid s1" "capacity s1 = capacity s"
    "elems s1 = add_mset e (elems s)"
    using insert_law [of s "fst e" "snd e"] by auto
  then have "size (elems s1) + length es \<le> capacity s1" using Cons.prems by simp
  from Cons.IH [OF s1(2) this] s1 show ?case by auto
qed simp

lemma take_least_all_sorted:
  "valid s \<Longrightarrow> size (elems s) < n \<Longrightarrow>
   \<exists>ws xs s'. take_least_all n s = Some (xs, s') \<and> valid s' \<and> elems s' = {#} \<and> capacity s' = capacity s \<and>
     length ws = length xs \<and> sorted ws \<and> mset (zip ws xs) = elems s"
proof (induction n arbitrary: s)
  case (Suc n)
  show ?case
  proof (cases "elems s = {#}")
    case True
    then obtain z where "take_least s = Some ((z, False), s)" using take_least_empty Suc.prems by blast
    then show ?thesis using True Suc.prems by (intro exI [of _ "[]"]) simp
  next
    case False
    then obtain w x s1 where s1: "take_least s = Some ((x, True), s1)" "valid s1" "capacity s1 = capacity s"
      "elems s = add_mset (w, x) (elems s1)" "\<forall>v y. (v, y) \<in># elems s \<longrightarrow> w \<le> v"
      using take_least_law Suc.prems by blast
    then have "size (elems s1) < n" using Suc.prems by simp
    from Suc.IH [OF s1(2) this] obtain ws xs s' where ih: "take_least_all n s1 = Some (xs, s')" "valid s'"
      "elems s' = {#}" "capacity s' = capacity s1" "length ws = length xs" "sorted ws" "mset (zip ws xs) = elems s1"
      by blast
    have "w \<le> v" if "v \<in> set ws" for v
    proof -
      have "v \<in> set (map fst (zip ws xs))" using that ih(5) by simp
      then obtain y where "(v, y) \<in> set (zip ws xs)" by auto
      then have "(v, y) \<in># elems s" using ih(7) s1(4) by (metis insert_iff set_mset_add_mset_insert set_mset_mset)
      then show ?thesis using s1(5) by blast
    qed
    then have "sorted (w # ws)" using ih(6) by simp
    moreover have "take_least_all (Suc n) s = Some (x # xs, s')" using s1(1) ih(1) by simp
    moreover have "mset (zip (w # ws) (x # xs)) = elems s" using ih(7) s1(4) by simp
    ultimately show ?thesis using ih s1(3) by (metis length_Cons)
  qed
qed simp

end

interpretation pqueue: bounded_priority_queue "pq_wf zero" contents pq_cap Push_pq "Pop_pq zero"
proof
  fix s :: "'a PriorityQueue" and w :: int and x :: 'a
  assume wf: "pq_wf zero s"
  show "\<exists>s'. Push_pq w x s = Some (True, s') \<and> pq_wf zero s' \<and> pq_cap s' = pq_cap s \<and> contents s' = add_mset (w, x) (contents s)"
    if "size (contents s) < pq_cap s"
    using Push_pq_room wf that by (simp add: size_contents)
  show "Push_pq w x s = Some (False, s)" if "size (contents s) = pq_cap s"
    using Push_pq_full wf that by (metis size_contents)
  show "\<exists>w x s'. Pop_pq zero s = Some ((x, True), s') \<and> pq_wf zero s' \<and> pq_cap s' = pq_cap s \<and>
      contents s = add_mset (w, x) (contents s') \<and> (\<forall>v y. (v, y) \<in># contents s \<longrightarrow> w \<le> v)"
    if "contents s \<noteq> {#}"
  proof -
    have "0 < pq_len s" using that by (auto simp: contents_def)
    from Pop_pq_some [OF wf this] head_least [OF wf] show ?thesis by blast
  qed
  show "\<exists>z. Pop_pq zero s = Some ((z, False), s)" if "contents s = {#}"
    using that wf size_contents [OF wf] by (simp add: Pop_pq_empty)
qed

section \<open>Properties\<close>

text \<open>\<open>Push\<close> never panics on a well-formed queue: it inserts the element and answers true while
  there is room, and changes nothing and answers false when the queue is full.\<close>

theorem Push_inserts:
  assumes "pq_wf zero q"
  shows "\<exists>q'. Push_pq w x q = Some (pq_len q < pq_cap q, q') \<and> pq_wf zero q' \<and> pq_cap q' = pq_cap q \<and>
    contents q' = (if pq_len q < pq_cap q then add_mset (w, x) (contents q) else contents q)"
proof (cases "pq_len q < pq_cap q")
  case True
  then show ?thesis using Push_pq_room [OF assms] by simp
next
  case False
  then have "pq_len q = pq_cap q" using assms by (simp add: pq_wf_def)
  then show ?thesis using Push_pq_full [of q w x] assms by simp
qed

text \<open>C31. \<open>Pop\<close> never panics on a well-formed queue: it takes out an element of least weight and answers
  its payload, and an empty queue answers the zero value and false.\<close>

theorem Pop_takes_least:
  assumes "pq_wf zero q"
  shows "if contents q = {#} then Pop_pq zero q = Some ((zero, False), q)
    else \<exists>x q'. Pop_pq zero q = Some ((x, True), q') \<and> pq_wf zero q' \<and> pq_cap q' = pq_cap q \<and>
      contents q = add_mset (Min (fst ` set_mset (contents q)), x) (contents q')"
proof (cases "contents q = {#}")
  case True
  then show ?thesis using size_contents [OF assms] by (simp add: Pop_pq_empty)
next
  case False
  obtain w x q' where q': "Pop_pq zero q = Some ((x, True), q')" "pq_wf zero q'" "pq_cap q' = pq_cap q"
    "contents q = add_mset (w, x) (contents q')" "\<And>v y. (v, y) \<in># contents q \<Longrightarrow> w \<le> v"
    using pqueue.take_least_law [OF assms False] by blast
  have "w \<in> fst ` set_mset (contents q)" using q'(4) by force
  moreover have "w \<le> v" if "v \<in> fst ` set_mset (contents q)" for v using q'(5) that by auto
  ultimately have "Min (fst ` set_mset (contents q)) = w" by (intro Min_eqI) auto
  then show ?thesis using q' False by auto
qed

text \<open>Elements pushed into a new queue that holds them all come out by ascending weight, each once,
  and then the queue reports that it is empty.\<close>

theorem queue_sorts_by_weight:
  assumes "int (length es) \<le> capacity"
  shows "\<exists>q0 q ws xs q'. new_pqueue zero capacity = Some q0 \<and>
    bounded_priority_queue.insert_list Push_pq es q0 = Some q \<and>
    bounded_priority_queue.take_least_all (Pop_pq zero) (length es + 1) q = Some (xs, q') \<and>
    length ws = length xs \<and> sorted ws \<and> mset (zip ws xs) = mset es \<and> pq_wf zero q' \<and> contents q' = {#}"
proof -
  obtain q0 where q0: "new_pqueue zero capacity = Some q0" "pq_wf zero q0" "contents q0 = {#}" "pq_cap q0 = nat capacity"
    using new_pqueue_wf [of capacity zero] assms by auto
  obtain q where q: "bounded_priority_queue.insert_list Push_pq es q0 = Some q" "pq_wf zero q" "contents q = mset es"
    using pqueue.insert_list_elems [OF q0(2), of es] q0(3,4) assms le_nat_iff [of capacity "length es"] by auto
  then have "size (contents q) < length es + 1" by simp
  from pqueue.take_least_all_sorted [OF q(2) this] q q0(1) show ?thesis by metis
qed

section \<open>Examples\<close>

definition ex_queue :: "string PriorityQueue" where
  "ex_queue = \<lparr>pq_data = [\<lparr>weight = 1, payload = ''a''\<rparr>, \<lparr>weight = 3, payload = ''b''\<rparr>, absent []],
     pq_len = 2, pq_cap = 3, pq_depth = 0\<rparr>"

lemma ex_queue_wf: "pq_wf [] ex_queue"
  by (auto simp: pq_wf_def ex_queue_def is_heap_def heap_at_def parentIdx_def less_2_cases_iff)

theorem Push_inserts_witness:
  "\<exists>q'. Push_pq 2 ''c'' ex_queue = Some (True, q') \<and> contents q' = {#(2, ''c''), (1, ''a''), (3, ''b'')#}"
  using Push_inserts [OF ex_queue_wf, of 2 "''c''"]
  by (auto simp: ex_queue_def contents_def numeral_2_eq_2)

theorem Pop_takes_least_witness:
  "\<exists>q'. Pop_pq [] ex_queue = Some ((''a'', True), q') \<and> contents q' = {#(3, ''b'')#}"
  using Pop_takes_least [OF ex_queue_wf]
  by (auto simp: ex_queue_def contents_def numeral_2_eq_2 add_eq_conv_ex)

definition ex_items :: "(int \<times> string) list" where
  "ex_items = [(5, ''e''), (2, ''b''), (9, ''i'')]"

theorem queue_sorts_by_weight_witness:
  "\<exists>q0 q ws xs q'. new_pqueue [] 3 = Some q0 \<and> bounded_priority_queue.insert_list Push_pq ex_items q0 = Some q \<and>
    bounded_priority_queue.take_least_all (Pop_pq []) (length ex_items + 1) q = Some (xs, q') \<and>
    length ws = length xs \<and> sorted ws \<and> mset (zip ws xs) = mset ex_items \<and> pq_wf [] q' \<and> contents q' = {#}"
  by (rule queue_sorts_by_weight) (simp add: ex_items_def)

end
