(* ===== verification/Timing_Wheel.thy ===== *)
theory Timing_Wheel
  imports Prelude
begin

unbundle bit_operations_syntax

text \<open>
  The timing wheel of \<open>internal/timingwheel/timingwheel.go\<close>: 4096 buckets, each a doubly linked
  list of pool cells, and a stack of free cells. An index out of range is \<open>None\<close> (a panic). A
  callback is a value of type \<open>'c\<close>; the calls a \<open>Tick\<close> makes are its result, in order.
  A callback that calls back into the wheel is not modelled.
\<close>

section \<open>Data\<close>

definition invalidIndex :: u32 where "invalidIndex = 0xFFFFFFFF"

definition numBuckets :: nat where "numBuckets = 4096"

record NodeLinks =
  link_prev :: u32
  link_next :: u32
  link_bucket :: u32
  link_generation :: u32

record 'c NodeValue =
  val_fd :: int
  val_callback :: "'c option"

record 'c TimingWheel =
  currentBucket :: u32
  buckets :: "u32 list"
  linksPool :: "NodeLinks list"
  valuesPool :: "'c NodeValue list"
  freeNodes :: "u32 list"

record TimerId =
  Index :: u32
  Generation :: u32

text \<open>The top of the stack of free cells is the last element of the list.\<close>

definition NewTimingWheel :: "int \<Rightarrow> 'c TimingWheel option" where
  "NewTimingWheel maxConnections = (if maxConnections < 0 then None else
     let n = nat maxConnections in Some
     \<lparr>currentBucket = 0, buckets = replicate numBuckets invalidIndex,
      linksPool = replicate n \<lparr>link_prev = invalidIndex, link_next = invalidIndex, link_bucket = 0, link_generation = 0\<rparr>,
      valuesPool = replicate n \<lparr>val_fd = 0, val_callback = None\<rparr>,
      freeNodes = map of_nat [0..<n]\<rparr>)"

section \<open>Operations\<close>

definition releaseNode :: "u32 \<Rightarrow> 'c TimingWheel \<Rightarrow> 'c TimingWheel" where
  "releaseNode idx tw = tw\<lparr>
     linksPool := (linksPool tw)[unat idx := (linksPool tw ! unat idx)\<lparr>
       link_prev := invalidIndex, link_next := invalidIndex,
       link_generation := link_generation (linksPool tw ! unat idx) + 1\<rparr>],
     valuesPool := (valuesPool tw)[unat idx := (valuesPool tw ! unat idx)\<lparr>val_callback := None\<rparr>],
     freeNodes := freeNodes tw @ [idx]\<rparr>"

text \<open>The calls a cell makes when it expires.\<close>

definition calls :: "'c NodeValue \<Rightarrow> ('c \<times> int) list" where
  "calls v = (case val_callback v of Some cb \<Rightarrow> [(cb, val_fd v)] | None \<Rightarrow> [])"

definition open_links :: "NodeLinks list \<Rightarrow> nat" where
  "open_links ls = length (filter (\<lambda>l. link_next l \<noteq> invalidIndex) ls)"

lemma open_links_release:
  "unat idx < length (linksPool tw) \<Longrightarrow> link_next (linksPool tw ! unat idx) \<noteq> invalidIndex \<Longrightarrow>
   open_links (linksPool (releaseNode idx tw)) < open_links (linksPool tw)"
  using count_update [of "unat idx" "linksPool tw" "\<lambda>l. link_next l \<noteq> invalidIndex"
      "(linksPool tw ! unat idx)\<lparr>link_prev := invalidIndex, link_next := invalidIndex,
         link_generation := link_generation (linksPool tw ! unat idx) + 1\<rparr>"]
  by (simp add: open_links_def releaseNode_def)

lemma open_links_release_le:
  "open_links (linksPool (releaseNode idx tw)) \<le> open_links (linksPool tw)"
proof (cases "unat idx < length (linksPool tw)")
  case True
  then show ?thesis
    using count_update [of "unat idx" "linksPool tw" "\<lambda>l. link_next l \<noteq> invalidIndex"
        "(linksPool tw ! unat idx)\<lparr>link_prev := invalidIndex, link_next := invalidIndex,
           link_generation := link_generation (linksPool tw ! unat idx) + 1\<rparr>"]
    by (simp add: open_links_def releaseNode_def)
qed (simp add: open_links_def releaseNode_def list_update_beyond not_less)

text \<open>
  The loop of \<open>Tick\<close>. It ends on any pool: a released cell links to nothing, so every
  further turn leaves fewer linked cells.
\<close>

function tick_loop :: "'c TimingWheel \<Rightarrow> u32 \<Rightarrow> ('c TimingWheel \<times> ('c \<times> int) list) option" where
  "tick_loop tw currentIdx =
     (if currentIdx = invalidIndex then Some (tw, [])
      else if length (linksPool tw) \<le> unat currentIdx \<or> length (valuesPool tw) \<le> unat currentIdx then None
      else map_option (\<lambda>(tw', log). (tw', calls (valuesPool tw ! unat currentIdx) @ log))
             (tick_loop (releaseNode currentIdx tw) (link_next (linksPool tw ! unat currentIdx))))"
  by pat_completeness auto
termination
proof (relation "measures [\<lambda>(tw, idx). open_links (linksPool tw), \<lambda>(tw, idx). if idx = invalidIndex then 0 else 1]", goal_cases)
  case (2 tw idx)
  then show ?case
    using open_links_release [of idx tw] open_links_release_le [of idx tw] by auto
qed simp

definition Tick :: "'c TimingWheel \<Rightarrow> ('c TimingWheel \<times> ('c \<times> int) list) option" where
  "Tick tw = (let bucketToProcess = unat (currentBucket tw) in
     if length (buckets tw) \<le> bucketToProcess then None
     else tick_loop (tw\<lparr>currentBucket := (currentBucket tw + 1) AND (of_nat numBuckets - 1),
                       buckets := (buckets tw)[bucketToProcess := invalidIndex]\<rparr>)
            (buckets tw ! bucketToProcess))"

definition Add_timer :: "u32 \<Rightarrow> int \<Rightarrow> 'c option \<Rightarrow> 'c TimingWheel \<Rightarrow> (TimerId \<times> 'c TimingWheel) option" where
  "Add_timer ttlSeconds fd cb tw =
    (if freeNodes tw = [] \<or> ttlSeconds = 0 then Some (\<lparr>Index = invalidIndex, Generation = 0\<rparr>, tw)
     else let idx = last (freeNodes tw); i = unat idx;
              targetEpoch = (currentBucket tw + ttlSeconds) AND (of_nat numBuckets - 1) in
       if length (valuesPool tw) \<le> i \<or> length (linksPool tw) \<le> i \<or> length (buckets tw) \<le> unat targetEpoch then None
       else let oldHeadIdx = buckets tw ! unat targetEpoch;
                link = (linksPool tw ! i)\<lparr>link_bucket := targetEpoch, link_next := oldHeadIdx, link_prev := invalidIndex\<rparr>;
                links = (linksPool tw)[i := link] in
         if oldHeadIdx \<noteq> invalidIndex \<and> length links \<le> unat oldHeadIdx then None
         else Some (\<lparr>Index = idx, Generation = link_generation link\<rparr>, tw\<lparr>
           freeNodes := butlast (freeNodes tw),
           valuesPool := (valuesPool tw)[i := \<lparr>val_fd = fd, val_callback = cb\<rparr>],
           linksPool := (if oldHeadIdx \<noteq> invalidIndex
             then links[unat oldHeadIdx := (links ! unat oldHeadIdx)\<lparr>link_prev := idx\<rparr>] else links),
           buckets := (buckets tw)[unat targetEpoch := idx]\<rparr>))"

declare tick_loop.simps [simp del]

section \<open>Linked lists in the pool\<close>

text \<open>The cells met from \<open>i\<close> on; \<open>n\<close> bounds their number.\<close>

primrec chain :: "NodeLinks list \<Rightarrow> nat \<Rightarrow> u32 \<Rightarrow> u32 list" where
  "chain ls 0 i = []"
| "chain ls (Suc n) i = (if i = invalidIndex \<or> length ls \<le> unat i then []
     else i # chain ls n (link_next (ls ! unat i)))"

text \<open>The doubly linked list \<open>xs\<close> from \<open>i\<close> on, when \<open>p\<close> comes before it.\<close>

primrec dlist :: "NodeLinks list \<Rightarrow> u32 \<Rightarrow> u32 \<Rightarrow> u32 list \<Rightarrow> bool" where
  "dlist ls p i [] \<longleftrightarrow> i = invalidIndex"
| "dlist ls p i (x # xs) \<longleftrightarrow> i = x \<and> x \<noteq> invalidIndex \<and> unat x < length ls \<and> link_prev (ls ! unat x) = p \<and>
     dlist ls x (link_next (ls ! unat x)) xs"

lemma dlist_chain: "dlist ls p i xs \<Longrightarrow> length xs \<le> n \<Longrightarrow> chain ls n i = xs"
proof (induction xs arbitrary: p i n)
  case Nil
  then show ?case by (cases n) auto
next
  case (Cons x xs)
  then show ?case by (cases n) auto
qed

lemma dlist_range: "dlist ls p i xs \<Longrightarrow> x \<in> set xs \<Longrightarrow> unat x < length ls"
  by (induction xs arbitrary: p i) auto

lemma dlist_frame:
  "dlist ls p i xs \<Longrightarrow> length ls' = length ls \<Longrightarrow> (\<And>x. x \<in> set xs \<Longrightarrow> ls' ! unat x = ls ! unat x) \<Longrightarrow> dlist ls' p i xs"
  by (induction xs arbitrary: p i) auto

lemma nth_word_neq: "y \<noteq> x \<Longrightarrow> xs[unat x := v] ! unat y = xs ! unat (y :: u32)"
  by (metis nth_list_update_neq word_unat_eq_iff)

lemma card_unat_image: "card (unat ` A) = card (A :: u32 set)"
  by (intro card_image inj_onI) (simp add: word_unat_eq_iff)

lemma dlist_relink:
  assumes "dlist ls p x (x # xs)" "x \<notin> set xs"
  shows "dlist (ls[unat x := (ls ! unat x)\<lparr>link_prev := q\<rparr>]) q x (x # xs)"
proof -
  define ls' where "ls' = ls[unat x := (ls ! unat x)\<lparr>link_prev := q\<rparr>]"
  have x: "x \<noteq> invalidIndex" "unat x < length ls" "dlist ls x (link_next (ls ! unat x)) xs" using assms(1) by auto
  have "ls' ! unat y = ls ! unat y" if "y \<in> set xs" for y
  proof -
    have "y \<noteq> x" using that assms(2) by blast
    then show ?thesis by (simp add: ls'_def nth_word_neq)
  qed
  then have "dlist ls' x (link_next (ls ! unat x)) xs" by (intro dlist_frame [OF x(3)]) (simp_all add: ls'_def)
  then show ?thesis using x by (simp add: ls'_def)
qed

lemma dlist_length:
  assumes "dlist ls p i xs" "distinct xs"
  shows "length xs \<le> length ls"
proof -
  have "unat ` set xs \<subseteq> {..<length ls}" using dlist_range [OF assms(1)] by auto
  then have "card (unat ` set xs) \<le> card {..<length ls}" by (intro card_mono) simp_all
  moreover have "card (unat ` set xs) = length xs"
    using assms(2) by (simp add: card_unat_image distinct_card)
  ultimately show ?thesis by simp
qed

lemma dlist_chain_all: "dlist ls p i xs \<Longrightarrow> distinct xs \<Longrightarrow> chain ls (length ls) i = xs"
  by (simp add: dlist_chain dlist_length)

section \<open>Well-formed wheels\<close>

definition bucket_nodes :: "'c TimingWheel \<Rightarrow> nat \<Rightarrow> u32 list" where
  "bucket_nodes tw b = chain (linksPool tw) (length (linksPool tw)) (buckets tw ! b)"

definition bucket_ok :: "'c TimingWheel \<Rightarrow> nat \<Rightarrow> bool" where
  "bucket_ok tw b \<longleftrightarrow> dlist (linksPool tw) invalidIndex (buckets tw ! b) (bucket_nodes tw b) \<and>
     distinct (bucket_nodes tw b) \<and>
     (\<forall>x \<in> set (bucket_nodes tw b). unat (link_bucket (linksPool tw ! unat x)) = b \<and> x \<notin> set (freeNodes tw))"

text \<open>
  Every bucket is a doubly linked list of cells that carry its number and are not free, and every
  cell is in a bucket or free.
\<close>

definition wheel_wf :: "'c TimingWheel \<Rightarrow> bool" where
  "wheel_wf tw \<longleftrightarrow> length (buckets tw) = numBuckets \<and> length (valuesPool tw) = length (linksPool tw) \<and>
     length (linksPool tw) \<le> unat invalidIndex \<and> unat (currentBucket tw) < numBuckets \<and>
     (\<forall>b < numBuckets. bucket_ok tw b) \<and> distinct (freeNodes tw) \<and>
     (\<forall>x \<in> set (freeNodes tw). unat x < length (linksPool tw)) \<and>
     (\<forall>x. unat x < length (linksPool tw) \<longrightarrow> x \<in> set (freeNodes tw) \<or> (\<exists>b < numBuckets. x \<in> set (bucket_nodes tw b)))"

lemma bucket_nodes_eq:
  "dlist (linksPool tw) p (buckets tw ! b) xs \<Longrightarrow> distinct xs \<Longrightarrow> bucket_nodes tw b = xs"
  by (simp add: bucket_nodes_def dlist_chain_all)

lemma bucket_okI:
  assumes "dlist (linksPool tw) invalidIndex (buckets tw ! b) xs" "distinct xs"
    "\<And>x. x \<in> set xs \<Longrightarrow> unat (link_bucket (linksPool tw ! unat x)) = b \<and> x \<notin> set (freeNodes tw)"
  shows "bucket_ok tw b \<and> bucket_nodes tw b = xs"
  using bucket_nodes_eq [OF assms(1,2)] assms by (simp add: bucket_ok_def)

text \<open>The calls that are due at the \<open>k\<close>-th tick from now, counted from 0.\<close>

definition bucket_calls :: "'c TimingWheel \<Rightarrow> nat \<Rightarrow> ('c \<times> int) list" where
  "bucket_calls tw b = concat (map (\<lambda>x. calls (valuesPool tw ! unat x)) (bucket_nodes tw b))"

definition due :: "'c TimingWheel \<Rightarrow> nat \<Rightarrow> ('c \<times> int) list" where
  "due tw k = bucket_calls tw ((unat (currentBucket tw) + k) mod numBuckets)"

lemma new_wheel_wf:
  assumes "0 \<le> n" "n < 2 ^ 32 - 1"
  shows "\<exists>tw. NewTimingWheel n = Some (tw :: 'c TimingWheel) \<and> wheel_wf tw \<and> (\<forall>k. due tw k = []) \<and> length (freeNodes tw) = nat n"
proof -
  define m where "m = nat n"
  have m: "m < 2 ^ 32 - 1" using assms by (simp add: m_def)
  define tw :: "'c TimingWheel" where "tw = the (NewTimingWheel n)"
  have new: "NewTimingWheel n = Some tw" using assms by (simp add: NewTimingWheel_def tw_def Let_def)
  have f: "buckets tw = replicate numBuckets invalidIndex" "freeNodes tw = map of_nat [0..<m]"
    "length (linksPool tw) = m" "length (valuesPool tw) = m" "currentBucket tw = 0"
    using assms by (simp_all add: tw_def NewTimingWheel_def Let_def m_def)
  have small: "unat (of_nat i :: u32) = i" if "i < m" for i using that m by (simp add: unat_of_nat_small)
  have "inj_on (of_nat :: nat \<Rightarrow> u32) {0..<m}" using small by (intro inj_onI) (metis atLeastLessThan_iff)
  then have "distinct (freeNodes tw)" by (simp add: f distinct_map)
  moreover have "x \<in> set (freeNodes tw)" if "unat x < m" for x
    using that by (auto simp: f image_iff intro!: bexI [of _ "unat x"])
  moreover have nodes: "bucket_ok tw b \<and> bucket_nodes tw b = []" if "b < numBuckets" for b
    using that by (intro bucket_okI) (simp_all add: f)
  ultimately have "wheel_wf tw"
    using m small by (auto simp: wheel_wf_def f invalidIndex_def numBuckets_def)
  moreover have "due tw k = []" for k
    using nodes by (simp add: due_def bucket_calls_def numBuckets_def)
  ultimately show ?thesis using new f(2) m_def by auto
qed

section \<open>Tick\<close>

lemma releaseNode_frame [simp]:
  "length (linksPool (releaseNode x tw)) = length (linksPool tw)"
  "length (valuesPool (releaseNode x tw)) = length (valuesPool tw)"
  "buckets (releaseNode x tw) = buckets tw" "currentBucket (releaseNode x tw) = currentBucket tw"
  "freeNodes (releaseNode x tw) = freeNodes tw @ [x]"
  "y \<noteq> x \<Longrightarrow> linksPool (releaseNode x tw) ! unat y = linksPool tw ! unat y"
  "y \<noteq> x \<Longrightarrow> valuesPool (releaseNode x tw) ! unat y = valuesPool tw ! unat y"
  by (simp_all add: releaseNode_def nth_word_neq)

lemma release_all_frame [simp]:
  "length (linksPool (fold releaseNode xs tw)) = length (linksPool tw)"
  "length (valuesPool (fold releaseNode xs tw)) = length (valuesPool tw)"
  "buckets (fold releaseNode xs tw) = buckets tw" "currentBucket (fold releaseNode xs tw) = currentBucket tw"
  "freeNodes (fold releaseNode xs tw) = freeNodes tw @ xs"
  "y \<notin> set xs \<Longrightarrow> linksPool (fold releaseNode xs tw) ! unat y = linksPool tw ! unat y"
  "y \<notin> set xs \<Longrightarrow> valuesPool (fold releaseNode xs tw) ! unat y = valuesPool tw ! unat y"
  by (induction xs arbitrary: tw) simp_all

lemma tick_loop_chain:
  "dlist (linksPool tw) p i xs \<Longrightarrow> distinct xs \<Longrightarrow> length (valuesPool tw) = length (linksPool tw) \<Longrightarrow>
   tick_loop tw i = Some (fold releaseNode xs tw, concat (map (\<lambda>x. calls (valuesPool tw ! unat x)) xs))"
proof (induction xs arbitrary: tw p i)
  case Nil
  then show ?case by (subst tick_loop.simps) simp
next
  case (Cons x xs)
  then have x: "i = x" "x \<noteq> invalidIndex" "unat x < length (linksPool tw)" "x \<notin> set xs"
    "dlist (linksPool tw) x (link_next (linksPool tw ! unat x)) xs" by auto
  have ne: "y \<noteq> x" if "y \<in> set xs" for y using that x(4) by blast
  then have "dlist (linksPool (releaseNode x tw)) x (link_next (linksPool tw ! unat x)) xs"
    by (intro dlist_frame [OF x(5)]) simp_all
  from Cons.IH [OF this] Cons.prems(2,3)
  have "tick_loop (releaseNode x tw) (link_next (linksPool tw ! unat x)) =
    Some (fold releaseNode xs (releaseNode x tw), concat (map (\<lambda>y. calls (valuesPool (releaseNode x tw) ! unat y)) xs))"
    by simp
  moreover have "map (\<lambda>y. calls (valuesPool (releaseNode x tw) ! unat y)) xs = map (\<lambda>y. calls (valuesPool tw ! unat y)) xs"
    using ne by simp
  ultimately show ?case using x Cons.prems(3) by (subst tick_loop.simps) simp
qed

lemma bucket_disjoint:
  assumes "wheel_wf tw" "b < numBuckets" "c < numBuckets" "x \<in> set (bucket_nodes tw b)" "x \<in> set (bucket_nodes tw c)"
  shows "b = c"
  using assms unfolding wheel_wf_def bucket_ok_def by metis

lemma and_numBuckets: "unat (x AND (of_nat numBuckets - 1) :: u32) = unat x mod numBuckets"
proof -
  have "(of_nat numBuckets - 1 :: u32) = mask 12" by (simp add: numBuckets_def mask_eq_exp_minus_1)
  then show ?thesis using unat_and_mask [of x 12] by (simp add: numBuckets_def)
qed

lemma mod_numBuckets_add: "unat (x + y :: u32) mod numBuckets = (unat x + unat y) mod numBuckets"
  using unat_word_plus_nat_mod [of 12 x "unat y"] by (simp add: numBuckets_def)

text \<open>The wheel after a tick: the next bucket is current, the old one is empty and its cells are free.\<close>

definition due_nodes :: "'c TimingWheel \<Rightarrow> u32 list" where
  "due_nodes tw = bucket_nodes tw (unat (currentBucket tw))"

definition ticked :: "'c TimingWheel \<Rightarrow> 'c TimingWheel" where
  "ticked tw = fold releaseNode (due_nodes tw)
     (tw\<lparr>currentBucket := (currentBucket tw + 1) AND (of_nat numBuckets - 1),
         buckets := (buckets tw)[unat (currentBucket tw) := invalidIndex]\<rparr>)"

lemma ticked_frame:
  "length (linksPool (ticked tw)) = length (linksPool tw)"
  "length (valuesPool (ticked tw)) = length (valuesPool tw)"
  "buckets (ticked tw) = (buckets tw)[unat (currentBucket tw) := invalidIndex]"
  "freeNodes (ticked tw) = freeNodes tw @ due_nodes tw"
  "unat (currentBucket (ticked tw)) = (unat (currentBucket tw) + 1) mod numBuckets"
  using mod_numBuckets_add [of "currentBucket tw" 1] by (simp_all add: ticked_def and_numBuckets)

lemma ticked_keep:
  assumes "y \<notin> set (due_nodes tw)"
  shows "linksPool (ticked tw) ! unat y = linksPool tw ! unat y"
    and "valuesPool (ticked tw) ! unat y = valuesPool tw ! unat y"
  using assms by (simp_all add: ticked_def)

lemma wheel_wf_bucket: "wheel_wf tw \<Longrightarrow> b < numBuckets \<Longrightarrow> bucket_ok tw b"
  by (simp add: wheel_wf_def)

lemma wheel_wf_current: "wheel_wf tw \<Longrightarrow> unat (currentBucket tw) < numBuckets" "wheel_wf tw \<Longrightarrow> length (buckets tw) = numBuckets"
  by (simp_all add: wheel_wf_def)

lemma Tick_ticked:
  assumes wf: "wheel_wf tw"
  shows "Tick tw = Some (ticked tw, due tw 0)"
proof -
  note cur = wheel_wf_current [OF wf]
  have "bucket_ok tw (unat (currentBucket tw))" using wheel_wf_bucket [OF wf cur(1)] .
  then have "dlist (linksPool tw) invalidIndex (buckets tw ! unat (currentBucket tw)) (due_nodes tw)" "distinct (due_nodes tw)"
    by (simp_all add: bucket_ok_def due_nodes_def)
  moreover have "length (valuesPool tw) = length (linksPool tw)" using wf by (simp add: wheel_wf_def)
  ultimately have "tick_loop (tw\<lparr>currentBucket := (currentBucket tw + 1) AND (of_nat numBuckets - 1),
      buckets := (buckets tw)[unat (currentBucket tw) := invalidIndex]\<rparr>) (buckets tw ! unat (currentBucket tw)) =
    Some (ticked tw, concat (map (\<lambda>x. calls (valuesPool tw ! unat x)) (due_nodes tw)))"
    unfolding ticked_def by (subst tick_loop_chain) simp_all
  moreover have "due tw 0 = concat (map (\<lambda>x. calls (valuesPool tw ! unat x)) (due_nodes tw))"
    using cur by (simp add: due_def bucket_calls_def due_nodes_def)
  ultimately show ?thesis using cur by (simp add: Tick_def Let_def)
qed

lemma not_due:
  assumes "wheel_wf tw" "b < numBuckets" "b \<noteq> unat (currentBucket tw)" "x \<in> set (bucket_nodes tw b)"
  shows "x \<notin> set (due_nodes tw)"
  using bucket_disjoint [OF assms(1,2) wheel_wf_current(1) [OF assms(1)] assms(4)] assms(3)
  unfolding due_nodes_def by blast

lemma ticked_bucket:
  assumes wf: "wheel_wf tw" and b: "b < numBuckets"
  shows "bucket_ok (ticked tw) b \<and>
    bucket_nodes (ticked tw) b = (if b = unat (currentBucket tw) then [] else bucket_nodes tw b)"
proof (cases "b = unat (currentBucket tw)")
  case True
  then have "buckets (ticked tw) ! b = invalidIndex" using wheel_wf_current [OF wf] by (simp add: ticked_frame)
  then show ?thesis using True by (intro conjI) (use bucket_okI [of "ticked tw" b "[]"] in auto)
next
  case False
  note bo = wheel_wf_bucket [OF wf b, unfolded bucket_ok_def]
  note out = not_due [OF wf b False]
  note keep = ticked_keep(1) [OF out]
  have "dlist (linksPool (ticked tw)) invalidIndex (buckets tw ! b) (bucket_nodes tw b)"
    by (rule dlist_frame [OF _ ticked_frame(1) keep]) (use bo in blast)+
  moreover have "unat (link_bucket (linksPool (ticked tw) ! unat x)) = b \<and> x \<notin> set (freeNodes (ticked tw))"
    if "x \<in> set (bucket_nodes tw b)" for x
    using bo out [OF that] that keep [OF that] by (simp add: ticked_frame(4))
  ultimately show ?thesis
    using bucket_okI [of "ticked tw" b "bucket_nodes tw b"] bo False by (simp add: ticked_frame(3))
qed

lemma ticked_wf:
  assumes wf: "wheel_wf tw"
  shows "wheel_wf (ticked tw)"
proof -
  note cur = wheel_wf_current [OF wf]
  note co = wheel_wf_bucket [OF wf cur(1), unfolded bucket_ok_def, folded due_nodes_def]
  have "x \<in> set (freeNodes (ticked tw)) \<or> (\<exists>b < numBuckets. x \<in> set (bucket_nodes (ticked tw) b))"
    if x: "unat x < length (linksPool tw)" for x
  proof -
    consider "x \<in> set (freeNodes tw)" | b where "b < numBuckets" "x \<in> set (bucket_nodes tw b)"
      using wf x unfolding wheel_wf_def by blast
    then show ?thesis
    proof cases
      case (2 b)
      then show ?thesis using ticked_bucket [OF wf 2(1)]
        by (cases "b = unat (currentBucket tw)") (auto simp: ticked_frame(4) due_nodes_def)
    qed (simp add: ticked_frame(4))
  qed
  moreover have "unat x < length (linksPool tw)" if "x \<in> set (freeNodes (ticked tw))" for x
    using that wf dlist_range co by (auto simp: ticked_frame(4) wheel_wf_def)
  moreover have "distinct (freeNodes (ticked tw))" using wf co by (auto simp: ticked_frame(4) wheel_wf_def)
  ultimately show ?thesis
    using wf ticked_bucket [OF wf] unfolding wheel_wf_def ticked_frame
    by (simp add: numBuckets_def)
qed

lemma ticked_calls:
  assumes wf: "wheel_wf tw" and b: "b < numBuckets"
  shows "bucket_calls (ticked tw) b = (if b = unat (currentBucket tw) then [] else bucket_calls tw b)"
proof (cases "b = unat (currentBucket tw)")
  case True
  then show ?thesis using ticked_bucket [OF wf b] by (simp add: bucket_calls_def)
next
  case False
  have "map (\<lambda>x. calls (valuesPool (ticked tw) ! unat x)) (bucket_nodes tw b) =
    map (\<lambda>x. calls (valuesPool tw ! unat x)) (bucket_nodes tw b)"
    by (rule map_cong [OF refl]) (simp add: ticked_keep(2) [OF not_due [OF wf b False]])
  then show ?thesis using ticked_bucket [OF wf b] False by (simp add: bucket_calls_def cong: map_cong)
qed

text \<open>Every call that is not made comes one tick closer.\<close>

lemma ticked_due:
  assumes wf: "wheel_wf tw" and k: "k < numBuckets"
  shows "due (ticked tw) k = (if Suc k < numBuckets then due tw (Suc k) else [])"
proof -
  define c where "c = unat (currentBucket tw)"
  define b where "b = (c + Suc k) mod numBuckets"
  have c: "c < numBuckets" using wheel_wf_current [OF wf] by (simp add: c_def)
  have b: "b < numBuckets" by (simp add: b_def numBuckets_def)
  have "((c + 1) mod numBuckets + k) mod numBuckets = b" by (simp add: b_def mod_simps)
  then have "due (ticked tw) k = bucket_calls (ticked tw) b" by (simp add: due_def ticked_frame c_def)
  moreover have "b = c \<longleftrightarrow> \<not> Suc k < numBuckets"
    using c k by (auto simp: b_def mod_if)
  moreover have "due tw (Suc k) = bucket_calls tw b" by (simp add: due_def b_def c_def)
  ultimately show ?thesis using ticked_calls [OF wf b] by (auto simp: c_def)
qed

section \<open>Add\<close>

text \<open>The bucket and the cell of a new timer, and the wheel with it.\<close>

definition target :: "u32 \<Rightarrow> 'c TimingWheel \<Rightarrow> nat" where
  "target ttl tw = (unat (currentBucket tw) + unat ttl) mod numBuckets"

definition new_link :: "u32 \<Rightarrow> 'c TimingWheel \<Rightarrow> NodeLinks" where
  "new_link ttl tw = (linksPool tw ! unat (last (freeNodes tw)))\<lparr>link_bucket := (currentBucket tw + ttl) AND (of_nat numBuckets - 1),
     link_next := buckets tw ! target ttl tw, link_prev := invalidIndex\<rparr>"

definition new_links :: "u32 \<Rightarrow> 'c TimingWheel \<Rightarrow> NodeLinks list" where
  "new_links ttl tw = (let idx = last (freeNodes tw); old = buckets tw ! target ttl tw;
       links = (linksPool tw)[unat idx := new_link ttl tw]
     in if old \<noteq> invalidIndex then links[unat old := (links ! unat old)\<lparr>link_prev := idx\<rparr>] else links)"

definition added :: "u32 \<Rightarrow> int \<Rightarrow> 'c option \<Rightarrow> 'c TimingWheel \<Rightarrow> 'c TimingWheel" where
  "added ttl fd cb tw = tw\<lparr>freeNodes := butlast (freeNodes tw),
     valuesPool := (valuesPool tw)[unat (last (freeNodes tw)) := \<lparr>val_fd = fd, val_callback = cb\<rparr>],
     linksPool := new_links ttl tw, buckets := (buckets tw)[target ttl tw := last (freeNodes tw)]\<rparr>"

lemma target_less: "target ttl tw < numBuckets"
  by (simp add: target_def numBuckets_def)

lemma target_word: "unat ((currentBucket tw + ttl) AND (of_nat numBuckets - 1)) = target ttl tw"
  by (simp only: and_numBuckets mod_numBuckets_add target_def)

lemma free_cell:
  assumes wf: "wheel_wf tw" and free: "freeNodes tw \<noteq> []"
  defines "idx \<equiv> last (freeNodes tw)"
  shows "unat idx < length (linksPool tw)" "idx \<noteq> invalidIndex" "idx \<in> set (freeNodes tw)"
    "b < numBuckets \<Longrightarrow> idx \<notin> set (bucket_nodes tw b)" "set (freeNodes tw) = insert idx (set (butlast (freeNodes tw)))"
    "idx \<notin> set (butlast (freeNodes tw))" "distinct (butlast (freeNodes tw))"
proof -
  show mem: "idx \<in> set (freeNodes tw)" using free by (simp add: idx_def)
  show less: "unat idx < length (linksPool tw)" using wf mem by (simp add: wheel_wf_def)
  then show "idx \<noteq> invalidIndex" using wf by (auto simp: wheel_wf_def)
  show "idx \<notin> set (bucket_nodes tw b)" if "b < numBuckets"
    using wheel_wf_bucket [OF wf that] mem by (auto simp: bucket_ok_def)
  have split: "freeNodes tw = butlast (freeNodes tw) @ [idx]" using free by (simp add: idx_def)
  have "distinct (butlast (freeNodes tw) @ [idx])" using wf split by (simp add: wheel_wf_def)
  then show "idx \<notin> set (butlast (freeNodes tw))" "distinct (butlast (freeNodes tw))" by auto
  show "set (freeNodes tw) = insert idx (set (butlast (freeNodes tw)))" by (subst split) simp
qed

text \<open>The old head of a bucket is in its list.\<close>

lemma head_node:
  assumes "dlist ls p i xs" "i \<noteq> invalidIndex"
  shows "i \<in> set xs" "unat i < length ls"
  using assms by (cases xs; auto)+

lemma Add_timer_added:
  assumes wf: "wheel_wf tw" and free: "freeNodes tw \<noteq> []" and ttl: "ttl \<noteq> 0"
  shows "Add_timer ttl fd cb tw =
    Some (\<lparr>Index = last (freeNodes tw), Generation = link_generation (linksPool tw ! unat (last (freeNodes tw)))\<rparr>,
          added ttl fd cb tw)"
proof -
  have len: "length (valuesPool tw) = length (linksPool tw)" "length (buckets tw) = numBuckets"
    using wf by (simp_all add: wheel_wf_def)
  have old: "unat (buckets tw ! target ttl tw) < length (linksPool tw)" if "buckets tw ! target ttl tw \<noteq> invalidIndex"
    using wheel_wf_bucket [OF wf target_less [of ttl tw]] head_node(2) that unfolding bucket_ok_def by blast
  show ?thesis
    using free ttl len old free_cell(1) [OF wf free] target_less [of ttl tw]
    by (cases "buckets tw ! target ttl tw = invalidIndex") (simp_all add: not_le Add_timer_def Let_def target_word added_def new_links_def new_link_def)
qed

lemma new_links_length [simp]: "length (new_links ttl tw) = length (linksPool tw)"
  by (simp add: new_links_def Let_def)

lemma new_links_keep:
  "y \<noteq> last (freeNodes tw) \<Longrightarrow> y \<noteq> buckets tw ! target ttl tw \<Longrightarrow> new_links ttl tw ! unat y = linksPool tw ! unat y"
  by (simp add: new_links_def Let_def nth_word_neq)

lemma new_links_bucket:
  "y \<noteq> last (freeNodes tw) \<Longrightarrow> link_bucket (new_links ttl tw ! unat y) = link_bucket (linksPool tw ! unat y)"
  by (cases "y = buckets tw ! target ttl tw"; cases "unat y < length (linksPool tw)")
    (simp_all add: new_links_def Let_def nth_word_neq list_update_beyond)

lemma added_target:
  assumes wf: "wheel_wf tw" and free: "freeNodes tw \<noteq> []"
  shows "dlist (new_links ttl tw) invalidIndex (last (freeNodes tw)) (last (freeNodes tw) # bucket_nodes tw (target ttl tw))"
    and "link_bucket (new_links ttl tw ! unat (last (freeNodes tw))) = (currentBucket tw + ttl) AND (of_nat numBuckets - 1)"
proof -
  define idx where "idx = last (freeNodes tw)"
  define old where "old = buckets tw ! target ttl tw"
  define xs where "xs = bucket_nodes tw (target ttl tw)"
  define links where "links = (linksPool tw)[unat idx := new_link ttl tw]"
  note cell = free_cell [OF wf free, folded idx_def]
  have xs: "dlist (linksPool tw) invalidIndex old xs" "distinct xs" "idx \<notin> set xs"
    using wheel_wf_bucket [OF wf target_less [of ttl tw]] cell(4) [OF target_less [of ttl tw]]
    unfolding bucket_ok_def xs_def old_def by blast+
  have ne: "y \<noteq> idx" if "y \<in> set xs" for y using that xs(3) by blast
  have old_idx: "old \<noteq> idx" if "old \<noteq> invalidIndex" using head_node(1) [OF xs(1) that] ne by blast
  have links: "dlist links invalidIndex old xs"
    by (rule dlist_frame [OF xs(1)]) (simp_all add: links_def nth_word_neq ne)
  have nl: "new_links ttl tw = (if old \<noteq> invalidIndex then links[unat old := (links ! unat old)\<lparr>link_prev := idx\<rparr>] else links)"
    by (simp add: new_links_def Let_def links_def idx_def old_def)
  have self: "new_links ttl tw ! unat idx = new_link ttl tw"
    using old_idx cell(1) by (auto simp: nl nth_word_neq links_def)
  have tail: "dlist (new_links ttl tw) idx old xs"
  proof (cases "old = invalidIndex")
    case True
    then show ?thesis using links nl by (cases xs) auto
  next
    case False
    then obtain ys where ys: "xs = old # ys" using xs(1) by (cases xs) auto
    then show ?thesis using dlist_relink [of links invalidIndex old ys idx] links xs(2) False nl by simp
  qed
  show "dlist (new_links ttl tw) invalidIndex (last (freeNodes tw)) (last (freeNodes tw) # bucket_nodes tw (target ttl tw))"
    using tail self cell(1,2) by (simp add: idx_def [symmetric] xs_def [symmetric] new_link_def old_def [symmetric])
  show "link_bucket (new_links ttl tw ! unat (last (freeNodes tw))) = (currentBucket tw + ttl) AND (of_nat numBuckets - 1)"
    using self by (simp add: idx_def new_link_def)
qed

lemma added_bucket:
  assumes wf: "wheel_wf tw" and free: "freeNodes tw \<noteq> []" and b: "b < numBuckets"
  shows "bucket_ok (added ttl fd cb tw) b \<and> bucket_nodes (added ttl fd cb tw) b =
    (if b = target ttl tw then last (freeNodes tw) # bucket_nodes tw b else bucket_nodes tw b)"
proof -
  define tw' where "tw' = added ttl fd cb tw"
  have f: "linksPool tw' = new_links ttl tw" "freeNodes tw' = butlast (freeNodes tw)"
    "buckets tw' = (buckets tw)[target ttl tw := last (freeNodes tw)]" by (simp_all add: tw'_def added_def)
  note cell = free_cell [OF wf free]
  note bo = wheel_wf_bucket [OF wf b, unfolded bucket_ok_def]
  have ne: "y \<noteq> last (freeNodes tw)" if "y \<in> set (bucket_nodes tw b)" for y using that cell(4) [OF b] by blast
  have tag: "unat (link_bucket (new_links ttl tw ! unat y)) = b \<and> y \<notin> set (freeNodes tw')"
    if "y \<in> set (bucket_nodes tw b)" for y
    using bo that new_links_bucket [OF ne [OF that]] cell(5) by (simp add: f)
  show ?thesis
  proof (cases "b = target ttl tw")
    case True
    have "buckets tw' ! b = last (freeNodes tw)" using True wf b by (simp add: f wheel_wf_def)
    then have "bucket_ok tw' b \<and> bucket_nodes tw' b = last (freeNodes tw) # bucket_nodes tw b"
    proof (intro bucket_okI)
      show "dlist (linksPool tw') invalidIndex (buckets tw' ! b) (last (freeNodes tw) # bucket_nodes tw b)"
        if "buckets tw' ! b = last (freeNodes tw)"
        using added_target(1) [OF wf free, of ttl] that True by (simp add: f)
      show "distinct (last (freeNodes tw) # bucket_nodes tw b)" using bo ne by auto
      fix x
      assume x: "x \<in> set (last (freeNodes tw) # bucket_nodes tw b)"
      have "unat (link_bucket (new_links ttl tw ! unat (last (freeNodes tw)))) = b"
        using added_target(2) [OF wf free, of ttl] target_word [of tw ttl] True by simp
      then show "unat (link_bucket (linksPool tw' ! unat x)) = b \<and> x \<notin> set (freeNodes tw')"
        using x tag cell(6) by (auto simp: f)
    qed
    then show ?thesis using True unfolding tw'_def by simp
  next
    case False
    have head: "y \<noteq> buckets tw ! target ttl tw" if "y \<in> set (bucket_nodes tw b)" for y
    proof
      assume y: "y = buckets tw ! target ttl tw"
      note to = wheel_wf_bucket [OF wf target_less [of ttl tw], unfolded bucket_ok_def]
      have "y \<noteq> invalidIndex" using bo that dlist_range wf by (fastforce simp: wheel_wf_def)
      then have "y \<in> set (bucket_nodes tw (target ttl tw))" using to y head_node(1) by blast
      then show False using bucket_disjoint [OF wf b target_less that] False by blast
    qed
    have "dlist (new_links ttl tw) invalidIndex (buckets tw ! b) (bucket_nodes tw b)"
      by (rule dlist_frame [OF _ new_links_length new_links_keep]) (use bo ne head in blast)+
    then show ?thesis
      using False bo tag bucket_okI [of tw' b "bucket_nodes tw b"]
      unfolding tw'_def [symmetric] by (simp add: f)
  qed
qed

lemma added_wf:
  assumes wf: "wheel_wf tw" and free: "freeNodes tw \<noteq> []"
  shows "wheel_wf (added ttl fd cb tw)"
proof -
  define tw' where "tw' = added ttl fd cb tw"
  have f: "length (linksPool tw') = length (linksPool tw)" "length (valuesPool tw') = length (valuesPool tw)"
    "freeNodes tw' = butlast (freeNodes tw)" "length (buckets tw') = length (buckets tw)"
    "currentBucket tw' = currentBucket tw" by (simp_all add: tw'_def added_def)
  note cell = free_cell [OF wf free]
  note bucket = added_bucket [OF wf free, of _ ttl fd cb, folded tw'_def]
  have "x \<in> set (freeNodes tw') \<or> (\<exists>b < numBuckets. x \<in> set (bucket_nodes tw' b))"
    if x: "unat x < length (linksPool tw)" for x
  proof -
    consider "x \<in> set (freeNodes tw')" | "x = last (freeNodes tw)" | b where "b < numBuckets" "x \<in> set (bucket_nodes tw b)"
      using wf x cell(5) unfolding wheel_wf_def f by blast
    then show ?thesis
    proof cases
      case 2
      then have "x \<in> set (bucket_nodes tw' (target ttl tw))" using bucket [OF target_less [of ttl tw]] by simp
      then show ?thesis using target_less by blast
    next
      case (3 b)
      then have "x \<in> set (bucket_nodes tw' b)" using bucket [OF 3(1)] by (cases "b = target ttl tw") auto
      then show ?thesis using 3(1) by blast
    qed blast
  qed
  moreover have "unat x < length (linksPool tw)" if "x \<in> set (freeNodes tw')" for x
    using that wf by (auto simp: f wheel_wf_def dest: in_set_butlastD)
  ultimately have "wheel_wf tw'"
    using wf bucket cell(7) unfolding wheel_wf_def f by blast
  then show ?thesis by (simp add: tw'_def)
qed

lemma added_calls:
  assumes wf: "wheel_wf tw" and free: "freeNodes tw \<noteq> []" and b: "b < numBuckets"
  shows "bucket_calls (added ttl fd cb tw) b =
    (if b = target ttl tw then calls \<lparr>val_fd = fd, val_callback = cb\<rparr> else []) @ bucket_calls tw b"
proof -
  define idx where "idx = last (freeNodes tw)"
  note cell = free_cell [OF wf free, folded idx_def]
  have vals: "valuesPool (added ttl fd cb tw) = (valuesPool tw)[unat idx := \<lparr>val_fd = fd, val_callback = cb\<rparr>]"
    by (simp add: added_def idx_def)
  have "map (\<lambda>x. calls (valuesPool (added ttl fd cb tw) ! unat x)) (bucket_nodes tw b) =
    map (\<lambda>x. calls (valuesPool tw ! unat x)) (bucket_nodes tw b)"
  proof (rule map_cong [OF refl])
    fix x assume "x \<in> set (bucket_nodes tw b)"
    then have "x \<noteq> idx" using cell(4) [OF b] by blast
    then show "calls (valuesPool (added ttl fd cb tw) ! unat x) = calls (valuesPool tw ! unat x)"
      by (simp add: vals nth_word_neq)
  qed
  moreover have "valuesPool (added ttl fd cb tw) ! unat idx = \<lparr>val_fd = fd, val_callback = cb\<rparr>"
    using cell(1) wf by (simp add: vals wheel_wf_def)
  ultimately show ?thesis
    using added_bucket [OF wf free b, of ttl fd cb] by (simp add: bucket_calls_def idx_def cong: map_cong)
qed

lemma added_due:
  assumes wf: "wheel_wf tw" and free: "freeNodes tw \<noteq> []" and k: "k < numBuckets"
  shows "due (added ttl fd cb tw) k =
    (if k = unat ttl mod numBuckets then calls \<lparr>val_fd = fd, val_callback = cb\<rparr> else []) @ due tw k"
proof -
  define c where "c = unat (currentBucket tw)"
  have c: "c < numBuckets" using wheel_wf_current [OF wf] by (simp add: c_def)
  define b where "b = (c + k) mod numBuckets"
  have b: "b < numBuckets" by (simp add: b_def numBuckets_def)
  have "b = target ttl tw \<longleftrightarrow> k = unat ttl mod numBuckets"
  proof -
    have "b = target ttl tw \<longleftrightarrow> (c + k) mod numBuckets = (c + unat ttl mod numBuckets) mod numBuckets"
      by (simp add: b_def target_def c_def mod_simps)
    also have "\<dots> \<longleftrightarrow> k = unat ttl mod numBuckets"
    proof -
      have "unat ttl mod numBuckets < numBuckets" by (simp add: numBuckets_def)
      then show ?thesis using k ring_index_inj [of c k numBuckets "unat ttl mod numBuckets"] by auto
    qed
    finally show ?thesis .
  qed
  moreover have "currentBucket (added ttl fd cb tw) = currentBucket tw" by (simp add: added_def)
  then have "due (added ttl fd cb tw) k = bucket_calls (added ttl fd cb tw) b" "due tw k = bucket_calls tw b"
    by (simp_all add: due_def b_def c_def)
  ultimately show ?thesis using added_calls [OF wf free b, of ttl fd cb] by simp
qed

section \<open>The interface\<close>

text \<open>
  What a client of a timer service relies on: an advance makes the calls that are due and brings
  all others one step closer, and starting a timer delays or drops none. Then a call that is due in
  \<open>k\<close> steps is made by the advance after \<open>k\<close> others, whatever is started in between.
\<close>

datatype 'a timer_op = Start 'a | Advance

locale timer_service =
  fixes valid :: "'s \<Rightarrow> bool"
    and due_in :: "'s \<Rightarrow> nat \<Rightarrow> 'e list"
    and horizon :: nat
    and start :: "'a \<Rightarrow> 's \<Rightarrow> 's option"
    and advance :: "'s \<Rightarrow> ('s \<times> 'e list) option"
  assumes advance_law: "valid s \<Longrightarrow> \<exists>s'. advance s = Some (s', due_in s 0) \<and> valid s' \<and>
      (\<forall>k. Suc k < horizon \<longrightarrow> due_in s' k = due_in s (Suc k))"
    and start_law: "valid s \<Longrightarrow> \<exists>s'. start a s = Some s' \<and> valid s' \<and>
      (\<forall>k < horizon. set (due_in s k) \<subseteq> set (due_in s' k))"
begin

primrec run :: "'a timer_op list \<Rightarrow> 's \<Rightarrow> ('s \<times> 'e list list) option" where
  "run [] s = Some (s, [])"
| "run (op # ops) s = (case op of
     Start a \<Rightarrow> Option.bind (start a s) (run ops)
   | Advance \<Rightarrow> Option.bind (advance s) (\<lambda>(s1, made). map_option (\<lambda>(s', log). (s', made # log)) (run ops s1)))"

definition advances :: "'a timer_op list \<Rightarrow> nat" where
  "advances ops = length (filter (\<lambda>op. op = Advance) ops)"

lemma run_valid: "valid s \<Longrightarrow> \<exists>s' log. run ops s = Some (s', log) \<and> valid s' \<and> length log = advances ops"
proof (induction ops arbitrary: s)
  case (Cons op ops)
  show ?case
  proof (cases op)
    case (Start a)
    then show ?thesis using start_law [OF Cons.prems, of a] Cons.IH by (fastforce simp: advances_def)
  next
    case Advance
    then show ?thesis using advance_law [OF Cons.prems] Cons.IH by (fastforce simp: advances_def)
  qed
qed (simp add: advances_def)

lemma due_is_made:
  "valid s \<Longrightarrow> k < horizon \<Longrightarrow> e \<in> set (due_in s k) \<Longrightarrow> advances ops = k \<Longrightarrow>
   \<exists>s' log made. run (ops @ [Advance]) s = Some (s', log @ [made]) \<and> length log = k \<and> e \<in> set made"
proof (induction ops arbitrary: s k)
  case Nil
  then show ?case using advance_law [OF Nil(1)] by (force simp: advances_def)
next
  case (Cons op ops)
  show ?case
  proof (cases op)
    case (Start a)
    then obtain s1 where s1: "start a s = Some s1" "valid s1" "set (due_in s k) \<subseteq> set (due_in s1 k)"
      using start_law [OF Cons.prems(1), of a] Cons.prems(2) by blast
    have "advances ops = k" using Cons.prems(4) Start by (simp add: advances_def)
    from Cons.IH [OF s1(2) Cons.prems(2) _ this] s1 Cons.prems(3) Start show ?thesis by auto
  next
    case Advance
    then obtain j where k: "k = Suc j" using Cons.prems(4) by (cases k) (auto simp: advances_def)
    obtain s1 where s1: "advance s = Some (s1, due_in s 0)" "valid s1" "due_in s1 j = due_in s (Suc j)"
      using advance_law [OF Cons.prems(1)] Cons.prems(2) k by blast
    have "advances ops = j" using Cons.prems(4) Advance k by (simp add: advances_def)
    from Cons.IH [OF s1(2) _ _ this] s1(3) Cons.prems(2,3) k
    obtain s' log made where "run (ops @ [Advance]) s1 = Some (s', log @ [made])" "length log = j" "e \<in> set made"
      by auto
    then show ?thesis using s1(1) Advance k
      by (intro exI [of _ s'] exI [of _ "due_in s 0 # log"] exI [of _ made]) simp
  qed
qed

end

definition start_timer :: "u32 \<times> int \<times> 'c option \<Rightarrow> 'c TimingWheel \<Rightarrow> 'c TimingWheel option" where
  "start_timer = (\<lambda>(ttl, fd, cb) tw. map_option snd (Add_timer ttl fd cb tw))"

text \<open>The cells of the pool are never more or fewer.\<close>

definition sized_wheel :: "nat \<Rightarrow> 'c TimingWheel \<Rightarrow> bool" where
  "sized_wheel n tw \<longleftrightarrow> wheel_wf tw \<and> length (linksPool tw) = n"

interpretation wheel: timer_service "sized_wheel n" due numBuckets start_timer Tick
proof
  fix tw :: "'c TimingWheel" and a :: "u32 \<times> int \<times> 'c option"
  assume "sized_wheel n tw"
  then have wf: "wheel_wf tw" and n: "length (linksPool tw) = n" by (simp_all add: sized_wheel_def)
  have "sized_wheel n (ticked tw)" using ticked_wf [OF wf] n by (simp add: sized_wheel_def ticked_frame(1))
  then show "\<exists>tw'. Tick tw = Some (tw', due tw 0) \<and> sized_wheel n tw' \<and>
      (\<forall>k. Suc k < numBuckets \<longrightarrow> due tw' k = due tw (Suc k))"
    using Tick_ticked [OF wf] ticked_due [OF wf] Suc_lessD by auto
  obtain ttl fd cb where a: "a = (ttl, fd, cb)" by (cases a)
  show "\<exists>tw'. start_timer a tw = Some tw' \<and> sized_wheel n tw' \<and> (\<forall>k < numBuckets. set (due tw k) \<subseteq> set (due tw' k))"
  proof (cases "freeNodes tw = [] \<or> ttl = 0")
    case True
    then show ?thesis using wf n by (auto simp: start_timer_def a Add_timer_def sized_wheel_def)
  next
    case False
    then have "sized_wheel n (added ttl fd cb tw)"
      using added_wf [OF wf] n by (simp add: sized_wheel_def) (simp add: added_def)
    then show ?thesis using False Add_timer_added [OF wf] added_due [OF wf]
      by (auto simp: start_timer_def a)
  qed
qed

section \<open>Counting cells\<close>

definition scheduled :: "'c TimingWheel \<Rightarrow> nat" where
  "scheduled tw = sum_list (map (\<lambda>b. length (bucket_nodes tw b)) [0..<numBuckets])"

lemma cells_partition:
  assumes wf: "wheel_wf tw"
  shows "length (freeNodes tw) + scheduled tw = length (linksPool tw)"
proof -
  define B where "B = (\<lambda>b. set (bucket_nodes tw b))"
  define n where "n = length (linksPool tw)"
  have ok: "bucket_ok tw b" if "b < numBuckets" for b using wheel_wf_bucket [OF wf that] .
  have "card (\<Union>b \<in> {0..<numBuckets}. B b) = (\<Sum>b = 0..<numBuckets. card (B b))"
    using bucket_disjoint [OF wf] by (intro card_UN_disjoint) (fastforce simp: B_def)+
  also have "\<dots> = (\<Sum>b = 0..<numBuckets. length (bucket_nodes tw b))"
    using ok by (intro sum.cong) (auto simp: B_def bucket_ok_def distinct_card)
  also have "\<dots> = scheduled tw" by (simp add: scheduled_def interv_sum_list_conv_sum_set_nat)
  finally have card_B: "card (\<Union>b \<in> {0..<numBuckets}. B b) = scheduled tw" .
  have "set (freeNodes tw) \<inter> (\<Union>b \<in> {0..<numBuckets}. B b) = {}"
    using ok by (auto simp: B_def bucket_ok_def)
  then have "card (set (freeNodes tw) \<union> (\<Union>b \<in> {0..<numBuckets}. B b)) = length (freeNodes tw) + scheduled tw"
    using wf card_B by (subst card_Un_disjoint) (auto simp: B_def wheel_wf_def distinct_card)
  moreover have "set (freeNodes tw) \<union> (\<Union>b \<in> {0..<numBuckets}. B b) = {x. unat x < n}"
  proof -
    have "unat x < n" if "b < numBuckets" "x \<in> B b" for b x
      using ok [OF that(1)] that(2) dlist_range unfolding B_def bucket_ok_def n_def by blast
    then show ?thesis using wf by (auto simp: wheel_wf_def B_def n_def)
  qed
  moreover have "card {x :: u32. unat x < n} = n"
  proof -
    have "n < 2 ^ 32" using wf by (auto simp: wheel_wf_def n_def invalidIndex_def)
    then have "m \<in> unat ` {x :: u32. unat x < n}" if "m < n" for m
      using that by (intro image_eqI [of _ _ "of_nat m"]) (simp_all add: unat_of_nat_small)
    then have "unat ` {x :: u32. unat x < n} = {..<n}" by auto
    then show ?thesis using card_unat_image [of "{x :: u32. unat x < n}"] by simp
  qed
  ultimately show ?thesis by (simp add: n_def)
qed

section \<open>Properties\<close>

text \<open>C30. On a well-formed wheel \<open>Tick\<close> never panics: it makes exactly the calls that are due, frees their
  cells, and every other call comes one tick closer.\<close>

theorem Tick_makes_due_calls:
  assumes "wheel_wf tw" "k < numBuckets"
  shows "\<exists>tw'. Tick tw = Some (tw', due tw 0) \<and> wheel_wf tw' \<and>
    due tw' k = (if Suc k < numBuckets then due tw (Suc k) else [])"
  using Tick_ticked ticked_wf ticked_due assms by blast

text \<open>\<open>Add\<close> never panics: with a free cell and a time above 0 it puts the call in front of those that
  are due \<open>ttl mod 4096\<close> ticks after the next one and moves no other; otherwise it answers the
  invalid index and changes nothing.\<close>

theorem Add_timer_schedules:
  assumes "wheel_wf tw" "k < numBuckets"
  shows "if freeNodes tw = [] \<or> ttl = 0
    then Add_timer ttl fd cb tw = Some (\<lparr>Index = invalidIndex, Generation = 0\<rparr>, tw)
    else \<exists>timer tw'. Add_timer ttl fd cb tw = Some (timer, tw') \<and> wheel_wf tw' \<and> Index timer \<noteq> invalidIndex \<and>
      due tw' k = (if k = unat ttl mod numBuckets then calls \<lparr>val_fd = fd, val_callback = cb\<rparr> else []) @ due tw k"
proof (cases "freeNodes tw = [] \<or> ttl = 0")
  case True
  then show ?thesis by (simp add: Add_timer_def)
next
  case False
  then show ?thesis
    using Add_timer_added [OF assms(1)] added_wf [OF assms(1)] added_due [OF assms(1) _ assms(2)]
      free_cell(2) [OF assms(1)] by simp
qed

text \<open>C29. A timer that was accepted is called by the tick that follows \<open>ttl mod 4096\<close> others, whatever
  timers are added in between.\<close>

theorem timer_is_called_on_time:
  assumes "wheel_wf tw" "freeNodes tw \<noteq> []" "ttl \<noteq> 0"
    "timer_service.advances ops = unat ttl mod numBuckets"
  shows "\<exists>timer tw1 tw2 log made. Add_timer ttl fd (Some cb) tw = Some (timer, tw1) \<and>
    timer_service.run start_timer Tick (ops @ [Advance]) tw1 = Some (tw2, log @ [made]) \<and>
    length log = unat ttl mod numBuckets \<and> (cb, fd) \<in> set made"
proof -
  have k: "unat ttl mod numBuckets < numBuckets" by (simp add: numBuckets_def)
  have "(cb, fd) \<in> set (due (added ttl fd (Some cb) tw) (unat ttl mod numBuckets))"
    using added_due [OF assms(1,2) k, of ttl fd "Some cb"] by (simp add: calls_def)
  moreover have "sized_wheel (length (linksPool tw)) (added ttl fd (Some cb) tw)"
    using added_wf [OF assms(1,2)] by (simp add: sized_wheel_def) (simp add: added_def)
  ultimately show ?thesis
    using wheel.due_is_made [OF _ k _ assms(4)] Add_timer_added [OF assms(1-3)] by blast
qed

text \<open>No cell is lost: in every run of a new wheel the free cells and the scheduled ones are
  together as many as the connections it was made for.\<close>

theorem wheel_cells_conserved:
  fixes ops :: "(u32 \<times> int \<times> 'c option) timer_op list"
  assumes "0 \<le> n" "n < 2 ^ 32 - 1"
  shows "\<exists>tw tw' log. NewTimingWheel n = Some tw \<and> timer_service.run start_timer Tick ops tw = Some (tw', log) \<and>
    int (length (freeNodes tw') + scheduled tw') = n"
proof -
  obtain tw :: "'c TimingWheel" where tw: "NewTimingWheel n = Some tw" "wheel_wf tw"
    "length (freeNodes tw) = nat n" "\<forall>k. due tw k = []"
    using new_wheel_wf [OF assms] by blast
  then have "sized_wheel (nat n) tw" using assms by (auto simp: sized_wheel_def NewTimingWheel_def Let_def)
  from wheel.run_valid [OF this, of ops] obtain tw' log where
    "timer_service.run start_timer Tick ops tw = Some (tw', log)" "sized_wheel (nat n) tw'" by blast
  moreover from this(2) have "int (length (freeNodes tw') + scheduled tw') = n"
    using cells_partition [of tw'] assms(1) by (simp add: sized_wheel_def)
  ultimately show ?thesis using tw(1) by blast
qed

section \<open>Examples\<close>

text \<open>A timer for 4096 seconds is due at the very next tick: only the time modulo 4096 counts.\<close>

definition ex_wheel :: "string TimingWheel" where
  "ex_wheel = the (NewTimingWheel 2)"

lemma ex_wheel_wf: "wheel_wf ex_wheel" "length (freeNodes ex_wheel) = 2" "due ex_wheel k = []"
  using new_wheel_wf [of 2, where 'c = string] by (auto simp: ex_wheel_def)

lemma ex_wheel_free: "freeNodes ex_wheel \<noteq> []"
  using ex_wheel_wf(2) by auto

theorem Tick_makes_due_calls_witness:
  "\<exists>tw'. Tick (added 4096 7 (Some ''close'') ex_wheel) = Some (tw', [(''close'', 7)]) \<and> due tw' 0 = []"
proof -
  have "due (added 4096 7 (Some ''close'') ex_wheel) 0 = [(''close'', 7)]"
    "due (added 4096 7 (Some ''close'') ex_wheel) 1 = []"
    using added_due [OF ex_wheel_wf(1) ex_wheel_free, of _ 4096 7 "Some ''close''"] ex_wheel_wf(3)
    by (simp_all add: numBuckets_def calls_def)
  then show ?thesis
    using Tick_makes_due_calls [OF added_wf [OF ex_wheel_wf(1) ex_wheel_free], of 0 4096 7 "Some ''close''"]
    by (fastforce simp: numBuckets_def)
qed

theorem Add_timer_schedules_witness:
  "\<exists>timer tw'. Add_timer 3 7 (Some ''close'') ex_wheel = Some (timer, tw') \<and> due tw' 3 = [(''close'', 7)]"
  using Add_timer_schedules [OF ex_wheel_wf(1), of 3 3 7 "Some ''close''"] ex_wheel_free ex_wheel_wf(3)
  by (fastforce simp: numBuckets_def calls_def)

theorem timer_is_called_on_time_witness:
  "\<exists>timer tw1 tw2 log made. Add_timer 1 7 (Some ''close'') ex_wheel = Some (timer, tw1) \<and>
    timer_service.run start_timer Tick [Start (5, 8, None), Advance, Advance] tw1 = Some (tw2, log @ [made]) \<and>
    length log = 1 \<and> (''close'', 7) \<in> set made"
  using timer_is_called_on_time [OF ex_wheel_wf(1) ex_wheel_free, of 1 "[Start (5, 8, None), Advance]" 7 "''close''"]
  by (simp add: wheel.advances_def numBuckets_def)

theorem wheel_cells_conserved_witness:
  "\<exists>tw tw' log. NewTimingWheel 2 = Some (tw :: string TimingWheel) \<and>
    timer_service.run start_timer Tick [Start (5, 8, None), Advance] tw = Some (tw', log) \<and>
    int (length (freeNodes tw') + scheduled tw') = 2"
  by (rule wheel_cells_conserved) simp_all

end
