(* ===== verification/Test_Protocol.thy ===== *)
theory Test_Protocol
  imports Prelude
begin

unbundle bit_operations_syntax

text \<open>
  The echo protocol of \<open>internal/testprotocol/testprotocol.go\<close>: frames, their builders and
  their parsers. Byte slices are lists; the clock is an argument. An error is its cause, without
  the text. \<open>AppendUint64\<close> and \<open>Uint64\<close> of \<open>encoding/binary\<close> are modelled.
\<close>

section \<open>Little-endian numbers\<close>

fun le_bytes :: "nat \<Rightarrow> u64 \<Rightarrow> u8 list" where
  "le_bytes 0 x = []"
| "le_bytes (Suc k) x = ucast x # le_bytes k (drop_bit 8 x)"

fun le_read :: "u8 list \<Rightarrow> u64" where
  "le_read [] = 0"
| "le_read (b # bs) = ucast b OR push_bit 8 (le_read bs)"

definition appendUint64 :: "u8 list \<Rightarrow> u64 \<Rightarrow> u8 list" where
  "appendUint64 buf x = buf @ le_bytes 8 x"

definition uint64_at :: "u8 list \<Rightarrow> u64" where
  "uint64_at bs = le_read (take 8 bs)"

lemma length_le_bytes [simp]: "length (le_bytes k x) = k"
  by (induction k arbitrary: x) auto

lemma le_read_bytes: "le_read (le_bytes k x) = take_bit (8 * k) x"
proof (induction k arbitrary: x)
  case (Suc k)
  have "ucast (ucast x :: u8) OR push_bit 8 (take_bit (8 * k) (drop_bit 8 x)) = take_bit (8 + 8 * k) x"
    by (intro bit_eqI) (auto simp: bit_simps)
  then show ?case using Suc by simp
qed simp

lemma bit_le_read: "bit (le_read bs) n \<Longrightarrow> n < 8 * length bs"
proof (induction bs arbitrary: n)
  case (Cons b bs)
  show ?case
  proof (cases "n < 8")
    case False
    then have "\<not> bit (ucast b :: u64) n" by (auto simp: bit_simps dest: bit_imp_le_length)
    then have "bit (le_read bs) (n - 8)" using Cons.prems by (auto simp: bit_simps)
    then show ?thesis using Cons.IH [of "n - 8"] by simp
  qed simp
qed simp

lemma le_bytes_read: "length bs \<le> 8 \<Longrightarrow> le_bytes (length bs) (le_read bs) = bs"
proof (induction bs)
  case (Cons b bs)
  have "ucast (ucast b OR push_bit 8 (le_read bs)) = b"
    by (intro bit_eqI) (auto simp: bit_simps)
  moreover have "drop_bit 8 (ucast b OR push_bit 8 (le_read bs)) = le_read bs"
    using Cons.prems bit_le_read [of bs] by (intro bit_eqI) (fastforce simp: bit_simps dest: bit_imp_le_length)
  ultimately show ?case using Cons by simp
qed simp

lemma uint64_at_append: "uint64_at (le_bytes 8 x @ rest) = x"
  using le_read_bytes [of 8 x] by (simp add: uint64_at_def del: le_bytes.simps) (simp add: take_bit_word_eq_self)

lemma le_bytes_at: "8 \<le> length bs \<Longrightarrow> le_bytes 8 (uint64_at bs) = take 8 bs"
  using le_bytes_read [of "take 8 bs"] by (simp add: uint64_at_def min_absorb2)

declare le_bytes.simps [simp del]

section \<open>Frames and builders\<close>

definition HeaderCodeStop :: u8 where "HeaderCodeStop = 0"

definition HeaderCodePing :: u8 where "HeaderCodePing = 1"

definition helloText :: "u8 list" where "helloText = [0x48, 0x65, 0x6C, 0x6C, 0x6F]"

definition worldText :: "u8 list" where "worldText = [0x57, 0x6F, 0x72, 0x6C, 0x64]"

definition requestFrameSize :: int where "requestFrameSize = 22"

definition stopFrameSize :: int where "stopFrameSize = 1"

definition slackSize :: int where "slackSize = 64"

datatype frame_error = Too_short nat | Unexpected_text "u8 list" | Future_time u64 u64

definition parse_frame :: "u8 list \<Rightarrow> u8 list \<Rightarrow> frame_error + u64 \<times> u64" where
  "parse_frame marker input = (if length input < 21 then Inl (Too_short (length input))
     else if take 5 (drop 8 input) \<noteq> marker then Inl (Unexpected_text (take 5 (drop 8 input)))
     else Inr (uint64_at (take 8 input), uint64_at (drop 13 input)))"

definition ParseRequest :: "u64 \<Rightarrow> u8 list \<Rightarrow> frame_error + u64 \<times> u64" where
  "ParseRequest now input = (case parse_frame helloText input of
     Inl e \<Rightarrow> Inl e
   | Inr (sequenceID, clientTime) \<Rightarrow>
       if clientTime > now then Inl (Future_time sequenceID clientTime) else Inr (sequenceID, clientTime))"

definition ParseResponse :: "u8 list \<Rightarrow> frame_error + u64 \<times> u64" where
  "ParseResponse output = parse_frame worldText output"

record ResponseBuilder =
  rs_buf :: "u8 list"

text \<open>The answer is the builder's own buffer: the next \<open>Response\<close> overwrites it.\<close>

definition Response :: "u64 \<Rightarrow> u64 \<Rightarrow> ResponseBuilder \<Rightarrow> u8 list \<times> ResponseBuilder" where
  "Response now sequenceID p = (let buf = take 0 (rs_buf p);
       buf = appendUint64 buf sequenceID; buf = buf @ worldText; buf = appendUint64 buf now
     in (buf, p\<lparr>rs_buf := buf\<rparr>))"

record RequestBuilder =
  rq_sequenceID :: u64
  rq_buf :: "u8 list"

text \<open>The buffer is made with its full length, so frames are appended behind that many zero bytes.\<close>

definition new_requests :: "int \<Rightarrow> int + RequestBuilder" where
  "new_requests requestsNo = (if requestsNo < 1 then Inl requestsNo
     else let size = requestsNo * requestFrameSize + stopFrameSize + slackSize
     in Inr \<lparr>rq_sequenceID = 0, rq_buf = replicate (nat size) 0\<rparr>)"

definition Request :: "u64 \<Rightarrow> RequestBuilder \<Rightarrow> (u64 \<times> u64 \<times> u8 list) \<times> RequestBuilder" where
  "Request now p = (let off = length (rq_buf p); sequenceID = rq_sequenceID p;
       buf = rq_buf p @ [HeaderCodePing]; buf = appendUint64 buf sequenceID; buf = buf @ helloText;
       buf = appendUint64 buf now
     in ((sequenceID, now, drop off buf), p\<lparr>rq_buf := buf, rq_sequenceID := sequenceID + 1\<rparr>))"

definition RequestStop :: "RequestBuilder \<Rightarrow> u8 list \<times> RequestBuilder" where
  "RequestStop p = (let off = length (rq_buf p); buf = rq_buf p @ [HeaderCodeStop]
     in (drop off buf, p\<lparr>rq_buf := buf\<rparr>))"

section \<open>Frames as numbers and text\<close>

definition frame_bytes :: "u8 list \<Rightarrow> u64 \<Rightarrow> u64 \<Rightarrow> u8 list" where
  "frame_bytes marker s t = le_bytes 8 s @ marker @ le_bytes 8 t"

lemma length_texts [simp]: "length helloText = 5" "length worldText = 5"
  by (simp_all add: helloText_def worldText_def)

lemma length_frame_bytes: "length marker = 5 \<Longrightarrow> length (frame_bytes marker s t) = 21"
  by (simp add: frame_bytes_def)

lemma parse_frame_bytes:
  assumes "length marker = 5"
  shows "parse_frame marker (frame_bytes marker s t @ rest) = Inr (s, t)"
proof -
  have "take 8 (frame_bytes marker s t @ rest) = le_bytes 8 s" by (simp add: frame_bytes_def)
  moreover have "drop 13 (frame_bytes marker s t @ rest) = le_bytes 8 t @ rest"
    using assms by (simp add: frame_bytes_def)
  moreover have "take 5 (drop 8 (frame_bytes marker s t @ rest)) = marker"
    using assms by (simp add: frame_bytes_def)
  ultimately show ?thesis
    using length_frame_bytes [OF assms, of s t] uint64_at_append [of s "[]"] uint64_at_append [of t rest]
    by (simp add: parse_frame_def)
qed

lemma parse_frame_iff:
  assumes m: "length marker = 5"
  shows "parse_frame marker input = Inr (s, t) \<longleftrightarrow> 21 \<le> length input \<and> take 21 input = frame_bytes marker s t"
proof
  assume p: "parse_frame marker input = Inr (s, t)"
  then have len: "21 \<le> length input" and mk: "take 5 (drop 8 input) = marker"
    and st: "s = uint64_at (take 8 input)" "t = uint64_at (drop 13 input)"
    by (auto simp: parse_frame_def split: if_splits)
  have "take 21 input = take 8 input @ take 5 (drop 8 input) @ take 8 (drop 13 input)"
    using take_add [of 8 13 input] take_add [of 5 8 "drop 8 input"] by simp
  also have "\<dots> = frame_bytes marker s t"
    using le_bytes_at [of "take 8 input"] le_bytes_at [of "drop 13 input"] len
    by (simp add: frame_bytes_def mk st)
  finally show "21 \<le> length input \<and> take 21 input = frame_bytes marker s t" using len by simp
next
  assume "21 \<le> length input \<and> take 21 input = frame_bytes marker s t"
  then show "parse_frame marker input = Inr (s, t)"
    using parse_frame_bytes [OF m, of s t "drop 21 input"] append_take_drop_id [of 21 input] by simp
qed

lemma Response_frame: "Response now s p = (frame_bytes worldText s now, p\<lparr>rs_buf := frame_bytes worldText s now\<rparr>)"
  by (simp add: Response_def Let_def appendUint64_def frame_bytes_def)

lemma Request_frame:
  "Request now p = ((rq_sequenceID p, now, HeaderCodePing # frame_bytes helloText (rq_sequenceID p) now),
     p\<lparr>rq_buf := rq_buf p @ HeaderCodePing # frame_bytes helloText (rq_sequenceID p) now, rq_sequenceID := rq_sequenceID p + 1\<rparr>)"
  by (simp add: Request_def Let_def appendUint64_def frame_bytes_def)

lemma RequestStop_frame: "RequestStop p = ([HeaderCodeStop], p\<lparr>rq_buf := rq_buf p @ [HeaderCodeStop]\<rparr>)"
  by (simp add: RequestStop_def Let_def)

section \<open>Properties\<close>

text \<open>A request is a ping header and 21 bytes that parse back to its number and time, unless the
  parsing clock is behind that time.\<close>

theorem request_round_trip:
  "\<exists>body p'. Request now p = ((rq_sequenceID p, now, HeaderCodePing # body), p') \<and> length body = 21 \<and>
    rq_buf p' = rq_buf p @ HeaderCodePing # body \<and> rq_sequenceID p' = rq_sequenceID p + 1 \<and>
    ParseRequest later body = (if now \<le> later then Inr (rq_sequenceID p, now) else Inl (Future_time (rq_sequenceID p) now))"
proof -
  have "parse_frame helloText (frame_bytes helloText (rq_sequenceID p) now) = Inr (rq_sequenceID p, now)"
    using parse_frame_bytes [of helloText _ _ "[]"] by simp
  then show ?thesis by (simp add: Request_frame ParseRequest_def length_frame_bytes not_le)
qed

text \<open>\<open>ParseRequest\<close> accepts exactly the byte strings that start with the encoding of a request
  whose time is not in the future, and answers what was encoded.\<close>

theorem ParseRequest_accepts:
  "ParseRequest now input = Inr (s, t) \<longleftrightarrow>
    21 \<le> length input \<and> take 21 input = frame_bytes helloText s t \<and> t \<le> now"
proof -
  have "ParseRequest now input = Inr (s, t) \<longleftrightarrow> parse_frame helloText input = Inr (s, t) \<and> t \<le> now"
    by (auto simp: ParseRequest_def split: sum.splits if_splits)
  then show ?thesis by (simp add: parse_frame_iff)
qed

text \<open>A response parses back to the number and time it was built from, whatever the builder's
  buffer held before.\<close>

theorem response_round_trip:
  "ParseResponse (fst (Response now s p) @ rest) = Inr (s, now) \<and> length (fst (Response now s p)) = 21"
  by (simp add: Response_frame ParseResponse_def parse_frame_bytes length_frame_bytes)

end
