(* ===== verification/Echo_Session.thy ===== *)
theory Echo_Session
  imports Test_Protocol
begin

text \<open>
  The echo program of \<open>internal/cmd/echo\<close>: the server side of one connection
  (\<open>handleRequest\<close> in \<open>main.go\<close>) and the client's sender and receiver
  (\<open>runWorkload\<close> in \<open>netring_client.go\<close>). The bytes that arrive, the results of the
  writes and of \<open>Recv\<close>, and the clock are arguments. Cancellation by the context, the
  watchdog and the log are left out.
\<close>

section \<open>The server\<close>

record server =
  sv_sequences :: "u64 list"
  sv_written :: "u8 list"
  sv_handled :: nat
  sv_duplicates :: "u64 list"
  sv_builder :: ResponseBuilder

datatype server_error =
    Read_header
  | Incorrect_header u8
  | Read_ping
  | Parse_request frame_error
  | Write_response u64
  | Close_connection

definition new_server :: server where
  "new_server = \<lparr>sv_sequences = [], sv_written = [], sv_handled = 0, sv_duplicates = [], sv_builder = \<lparr>rs_buf = []\<rparr>\<rparr>"

text \<open>
  One turn of the loop of \<open>handleRequest\<close>: the header, the rest of the frame, the parse at the
  first of the two times, the response at the second and its write. \<open>Inl\<close> is the return, with
  \<open>None\<close> when it is without an error; \<open>Inr\<close> goes on with the rest of the input.
\<close>

definition serve_turn :: "u64 \<times> u64 \<Rightarrow> bool \<Rightarrow> u8 list \<Rightarrow> server \<Rightarrow> (server_error option \<times> server) + (u8 list \<times> server)" where
  "serve_turn moments write_ok input sv = (case input of [] \<Rightarrow> Inl (Some Read_header, sv)
   | header # input \<Rightarrow>
     if header = HeaderCodeStop then Inl (None, sv)
     else if header \<noteq> HeaderCodePing then Inl (Some (Incorrect_header header), sv)
     else if length input < 21 then Inl (Some Read_ping, sv)
     else case ParseRequest (fst moments) (take 21 input) of
       Inl e \<Rightarrow> Inl (Some (Parse_request e), sv)
     | Inr (sequenceID, clientTime) \<Rightarrow>
         let duplicates = (if sequenceID \<in> set (sv_sequences sv) then sv_duplicates sv @ [sequenceID] else sv_duplicates sv);
             (response, builder) = Response (snd moments) sequenceID (sv_builder sv);
             sv = sv\<lparr>sv_sequences := List.insert sequenceID (sv_sequences sv), sv_duplicates := duplicates, sv_builder := builder\<rparr>
         in if \<not> write_ok then Inl (Some (Write_response sequenceID), sv)
            else Inr (drop 21 input, sv\<lparr>sv_written := sv_written sv @ response, sv_handled := sv_handled sv + 1\<rparr>))"

lemma serve_turn_shorter: "serve_turn moments write_ok input sv = Inr (rest, sv') \<Longrightarrow> length rest < length input"
  by (auto simp: serve_turn_def Let_def split: list.splits if_splits sum.splits prod.splits)

text \<open>
  The loop over the bytes that arrive until the end of the stream. For the \<open>k\<close>-th request
  \<open>clock k\<close> gives the two times and \<open>write_ok k\<close> tells whether the write succeeds.
\<close>

function serve :: "(nat \<Rightarrow> u64 \<times> u64) \<Rightarrow> (nat \<Rightarrow> bool) \<Rightarrow> u8 list \<Rightarrow> server \<Rightarrow> server_error option \<times> server" where
  "serve clock write_ok input sv = (case serve_turn (clock (sv_handled sv)) (write_ok (sv_handled sv)) input sv of
     Inl result \<Rightarrow> result
   | Inr (rest, sv') \<Rightarrow> serve clock write_ok rest sv')"
  by pat_completeness auto
termination
  by (relation "measure (\<lambda>(clock, ok, input, sv). length input)") (auto intro: serve_turn_shorter)

declare serve.simps [simp del]

text \<open>The deferred close replaces a missing error by its own.\<close>

definition handleRequest :: "(nat \<Rightarrow> u64 \<times> u64) \<Rightarrow> (nat \<Rightarrow> bool) \<Rightarrow> bool \<Rightarrow> u8 list \<Rightarrow> server_error option \<times> server" where
  "handleRequest clock write_ok close_ok input = (case serve clock write_ok input new_server of (err, sv) \<Rightarrow>
     (if \<not> close_ok \<and> err = None then Some Close_connection else err, sv))"

section \<open>The client\<close>

text \<open>The sender: the requests at the given times, then the stop frame.\<close>

fun send_requests :: "u64 list \<Rightarrow> RequestBuilder \<times> (u64 \<rightharpoonup> u64) \<times> u8 list \<Rightarrow> RequestBuilder \<times> (u64 \<rightharpoonup> u64) \<times> u8 list" where
  "send_requests [] st = st"
| "send_requests (now # moments) (requester, sequences, sent) =
    (let ((sequenceID, clientTime, payload), requester) = Request now requester
     in send_requests moments (requester, sequences(sequenceID \<mapsto> clientTime), sent @ payload))"

definition send_workload :: "u64 list \<Rightarrow> RequestBuilder \<Rightarrow> (u64 \<rightharpoonup> u64) \<times> u8 list" where
  "send_workload moments requester = (case send_requests moments (requester, Map.empty, []) of
     (requester, sequences, sent) \<Rightarrow> (sequences, sent @ fst (RequestStop requester)))"

record client =
  cl_sequences :: "u64 \<rightharpoonup> u64"
  cl_deleted :: "u64 list"
  cl_processed :: nat

datatype client_error =
    Process_response frame_error
  | Repeated_sequence u64
  | Unknown_sequence u64
  | Time_reversed u64 u64
  | Closed_early
  | Read_response
  | Not_responded

text \<open>The check of one response frame.\<close>

definition check_frame :: "client \<Rightarrow> u8 list \<Rightarrow> client_error + client" where
  "check_frame c frame = (case ParseResponse frame of
     Inl e \<Rightarrow> Inl (Process_response e)
   | Inr (sequenceID, serverTime) \<Rightarrow> (case cl_sequences c sequenceID of
       None \<Rightarrow> Inl (if sequenceID \<in> set (cl_deleted c) then Repeated_sequence sequenceID else Unknown_sequence sequenceID)
     | Some clientTime \<Rightarrow> if serverTime < clientTime then Inl (Time_reversed clientTime serverTime)
         else Inr (c\<lparr>cl_sequences := (cl_sequences c)(sequenceID := None),
                     cl_deleted := List.insert sequenceID (cl_deleted c), cl_processed := cl_processed c + 1\<rparr>)))"

text \<open>The inner loop: all whole frames of the bytes at hand; the rest is carried over.\<close>

definition responseFrameSize :: nat where "responseFrameSize = 21"

function check_frames :: "nat \<Rightarrow> client \<Rightarrow> u8 list \<Rightarrow> client_error + client \<times> u8 list" where
  "check_frames requestsNo c work =
    (if responseFrameSize \<le> length work \<and> cl_processed c < requestsNo
     then case check_frame c (take responseFrameSize work) of
         Inl e \<Rightarrow> Inl e
       | Inr c' \<Rightarrow> check_frames requestsNo c' (drop responseFrameSize work)
     else Inr (c, work))"
  by pat_completeness auto
termination by (relation "measure (\<lambda>(n, c, work). length work)") (auto simp: responseFrameSize_def)

declare check_frames.simps [simp del]

text \<open>What a \<open>Recv\<close> gives: a view, the report that no buffer was free, an error, or the end of the stream.\<close>

datatype recv_result = View "u8 list" | No_buffers | Recv_failed | End_of_stream

text \<open>The receiver over the results of its \<open>Recv\<close> calls; after the last it waits for more.\<close>

fun receive :: "nat \<Rightarrow> recv_result list \<Rightarrow> client \<times> u8 list \<Rightarrow> client_error + client \<times> u8 list" where
  "receive requestsNo [] st = Inr st"
| "receive requestsNo (r # rs) (c, carry) =
    (if \<not> cl_processed c < requestsNo then Inr (c, carry)
     else case r of
       No_buffers \<Rightarrow> receive requestsNo rs (c, carry)
     | Recv_failed \<Rightarrow> Inl Read_response
     | End_of_stream \<Rightarrow> Inl Closed_early
     | View view \<Rightarrow> (case check_frames requestsNo c (carry @ view) of
         Inl e \<Rightarrow> Inl e
       | Inr st \<Rightarrow> receive requestsNo rs st))"

text \<open>The verdict once all frames are in.\<close>

definition finish_check :: "client \<Rightarrow> client_error + client" where
  "finish_check c = (if cl_sequences c = Map.empty then Inr c else Inl Not_responded)"

section \<open>Reassembly\<close>

lemma check_frames_append:
  "check_frames n c (a @ b) =
    (case check_frames n c a of Inl e \<Rightarrow> Inl e | Inr (c', rest) \<Rightarrow> check_frames n c' (rest @ b))"
proof (induction n c a rule: check_frames.induct)
  case (1 n c a)
  show ?case
  proof (cases "responseFrameSize \<le> length a \<and> cl_processed c < n")
    case True
    then have "drop responseFrameSize (a @ b) = drop responseFrameSize a @ b" by simp
    then have "check_frames n c (a @ b) = (case check_frame c (take responseFrameSize a) of
        Inl e \<Rightarrow> Inl e | Inr c' \<Rightarrow> check_frames n c' (drop responseFrameSize a @ b))"
      using True by (subst check_frames.simps) (simp del: drop_append cong: sum.case_cong)
    moreover have "check_frames n c a = (case check_frame c (take responseFrameSize a) of
        Inl e \<Rightarrow> Inl e | Inr c' \<Rightarrow> check_frames n c' (drop responseFrameSize a))"
      using True by (subst check_frames.simps) simp
    ultimately show ?thesis using 1 True by (cases "check_frame c (take responseFrameSize a)") auto
  next
    case False
    then have "check_frames n c a = Inr (c, a)" by (subst check_frames.simps) auto
    then show ?thesis by simp
  qed
qed

lemma check_frames_done: "\<not> cl_processed c < n \<Longrightarrow> check_frames n c work = Inr (c, work)"
  by (subst check_frames.simps) simp

fun view_bytes :: "recv_result \<Rightarrow> u8 list" where
  "view_bytes (View view) = view"
| "view_bytes _ = []"

definition delivers :: "recv_result \<Rightarrow> bool" where
  "delivers r = (case r of View _ \<Rightarrow> True | No_buffers \<Rightarrow> True | _ \<Rightarrow> False)"

lemma check_frames_again: "check_frames n c work = Inr (c', rest) \<Longrightarrow> check_frames n c' rest = Inr (c', rest)"
proof (induction n c work rule: check_frames.induct)
  case (1 n c work)
  show ?case
  proof (cases "responseFrameSize \<le> length work \<and> cl_processed c < n")
    case True
    then show ?thesis using 1 by (subst (asm) check_frames.simps) (auto split: sum.splits)
  next
    case False
    then have "c' = c" "rest = work" using 1(2) by (auto simp: check_frames.simps [of n c work])
    then show ?thesis using 1(2) by simp
  qed
qed

lemma receive_check_frames:
  "list_all delivers rs \<Longrightarrow> check_frames n c carry = Inr (c, carry) \<Longrightarrow>
   map_sum id fst (receive n rs (c, carry)) = map_sum id fst (check_frames n c (carry @ concat (map view_bytes rs)))"
proof (induction rs arbitrary: c carry)
  case (Cons r rs)
  show ?case
  proof (cases "cl_processed c < n")
    case False
    then show ?thesis by (simp add: check_frames_done)
  next
    case True
    consider "r = No_buffers" | v where "r = View v" using Cons.prems(1) by (cases r) (auto simp: delivers_def)
    then show ?thesis
    proof cases
      case 1
      then show ?thesis using Cons True by simp
    next
      case (2 v)
      have "check_frames n c (carry @ v @ concat (map view_bytes rs)) =
        (case check_frames n c (carry @ v) of Inl e \<Rightarrow> Inl e
          | Inr (c', rest) \<Rightarrow> check_frames n c' (rest @ concat (map view_bytes rs)))"
        using check_frames_append [of n c "carry @ v"] by simp
      then show ?thesis
        using Cons.IH check_frames_again [of n c "carry @ v"] Cons.prems(1) True 2
        by (auto split: sum.splits)
    qed
  qed
qed simp

text \<open>C38. The client's verdict on a stream of responses does not depend on how the stream is cut into
  views, nor on how often no buffer was free: it is the verdict on the frames in a row.\<close>

theorem reassembly_is_split_independent:
  assumes "list_all delivers rs"
  shows "map_sum id fst (receive requestsNo rs (c, [])) =
    map_sum id fst (check_frames requestsNo c (concat (map view_bytes rs)))"
  using receive_check_frames [OF assms, of requestsNo c "[]"]
  by (simp add: check_frames.simps [of requestsNo c "[]"] responseFrameSize_def)

section \<open>A whole session\<close>

text \<open>The requests as the sender makes them: consecutive numbers, and their stream of bytes.\<close>

fun numbered :: "u64 \<Rightarrow> u64 list \<Rightarrow> (u64 \<times> u64) list" where
  "numbered s [] = []"
| "numbered s (t # ts) = (s, t) # numbered (s + 1) ts"

definition request_stream :: "(u64 \<times> u64) list \<Rightarrow> u8 list" where
  "request_stream reqs = concat (map (\<lambda>(s, t). HeaderCodePing # frame_bytes helloText s t) reqs)"

lemma send_requests_stream:
  "\<exists>p'. send_requests ts (p, seqs, sent) =
    (p', seqs ++ map_of (rev (numbered (rq_sequenceID p) ts)), sent @ request_stream (numbered (rq_sequenceID p) ts))"
proof (induction ts arbitrary: p seqs sent)
  case (Cons t ts)
  define seqs' where "seqs' = seqs(rq_sequenceID p \<mapsto> t)"
  have "seqs' ++ m = seqs ++ ([rq_sequenceID p \<mapsto> t] ++ m)" for m by (simp add: seqs'_def)
  then show ?case
    using Cons [of "snd (Request t p)" seqs' "sent @ HeaderCodePing # frame_bytes helloText (rq_sequenceID p) t"]
    by (auto simp: Request_frame request_stream_def seqs'_def [symmetric] simp del: map_add_assoc)
qed (simp add: request_stream_def)

lemma numbered_fst: "map fst (numbered s ts) = map (\<lambda>i. s + of_nat i) [0..<length ts]"
proof (induction ts arbitrary: s)
  case (Cons t ts)
  have "[0..<length (t # ts)] = 0 # map Suc [0..<length ts]"
    by (simp add: map_Suc_upt upt_conv_Cons del: upt_Suc)
  then show ?case using Cons by (simp add: add.assoc comp_def del: upt_Suc)
qed simp

lemma numbered_distinct:
  assumes "length ts < 2 ^ 64"
  shows "distinct (map fst (numbered s ts))"
proof -
  have "i = j" if "s + of_nat i = s + of_nat j" "i < length ts" "j < length ts" for i j
  proof -
    have "unat (of_nat i :: u64) = unat (of_nat j :: u64)" using that(1) by simp
    then show ?thesis using that(2,3) assms by (simp add: unat_of_nat_small)
  qed
  then show ?thesis unfolding numbered_fst by (auto simp: distinct_map inj_on_def)
qed

lemma length_numbered [simp]: "length (numbered s ts) = length ts"
  by (induction ts arbitrary: s) auto

lemma send_workload_stream:
  assumes "length ts < 2 ^ 64"
  shows "send_workload ts p = (map_of (numbered (rq_sequenceID p) ts),
    request_stream (numbered (rq_sequenceID p) ts) @ [HeaderCodeStop])"
proof -
  obtain p' where "send_requests ts (p, Map.empty, []) =
    (p', map_of (rev (numbered (rq_sequenceID p) ts)), request_stream (numbered (rq_sequenceID p) ts))"
    using send_requests_stream [of ts p Map.empty "[]"] by auto
  moreover have "map_of (rev (numbered (rq_sequenceID p) ts)) = map_of (numbered (rq_sequenceID p) ts)"
    using numbered_distinct [OF assms] by (subst map_of_inject_set) (simp_all add: rev_map [symmetric])
  ultimately show ?thesis by (simp add: send_workload_def RequestStop_frame)
qed

text \<open>What the server answers, from its \<open>k\<close>-th request on.\<close>

fun answers :: "(nat \<Rightarrow> u64 \<times> u64) \<Rightarrow> nat \<Rightarrow> (u64 \<times> u64) list \<Rightarrow> (u64 \<times> u64) list" where
  "answers clock k [] = []"
| "answers clock k ((s, t) # reqs) = (s, snd (clock k)) # answers clock (Suc k) reqs"

definition response_stream :: "(u64 \<times> u64) list \<Rightarrow> u8 list" where
  "response_stream as = concat (map (\<lambda>(s, t). frame_bytes worldText s t) as)"

text \<open>The server's clock is not behind the times of the requests.\<close>

fun in_time :: "(nat \<Rightarrow> u64 \<times> u64) \<Rightarrow> nat \<Rightarrow> (u64 \<times> u64) list \<Rightarrow> bool" where
  "in_time clock k [] = True"
| "in_time clock k ((s, t) # reqs) = (t \<le> fst (clock k) \<and> t \<le> snd (clock k) \<and> in_time clock (Suc k) reqs)"

lemma serve_turn_stop: "serve_turn moments ok (HeaderCodeStop # rest) sv = Inl (None, sv)"
  by (simp add: serve_turn_def)

lemma serve_turn_ping:
  assumes "t \<le> fst moments"
  shows "\<exists>sv'. serve_turn moments True (HeaderCodePing # frame_bytes helloText s t @ rest) sv = Inr (rest, sv') \<and>
    sv_handled sv' = sv_handled sv + 1 \<and> sv_written sv' = sv_written sv @ frame_bytes worldText s (snd moments)"
proof -
  have len: "length (frame_bytes helloText s t) = 21" by (simp add: length_frame_bytes)
  then have "ParseRequest (fst moments) (frame_bytes helloText s t) = Inr (s, t)"
    using assms by (simp add: ParseRequest_accepts)
  then show ?thesis
    using len by (simp add: serve_turn_def HeaderCodePing_def HeaderCodeStop_def Response_frame Let_def)
qed

lemma request_stream_simps [simp]:
  "request_stream [] = []" "request_stream ((s, t) # reqs) = HeaderCodePing # frame_bytes helloText s t @ request_stream reqs"
  "request_stream (xs @ ys) = request_stream xs @ request_stream ys"
  by (simp_all add: request_stream_def)

lemma response_stream_simps [simp]:
  "response_stream [] = []" "response_stream ((s, t) # as) = frame_bytes worldText s t @ response_stream as"
  "response_stream (xs @ ys) = response_stream xs @ response_stream ys"
  by (simp_all add: response_stream_def)

lemma serve_stream:
  assumes "\<And>k. write_ok k"
  shows "in_time clock (sv_handled sv) reqs \<Longrightarrow>
    \<exists>sv'. serve clock write_ok (request_stream reqs @ [HeaderCodeStop]) sv = (None, sv') \<and>
      sv_written sv' = sv_written sv @ response_stream (answers clock (sv_handled sv) reqs) \<and>
      sv_handled sv' = sv_handled sv + length reqs"
proof (induction reqs arbitrary: sv)
  case Nil
  then show ?case by (subst serve.simps) (simp add: serve_turn_stop)
next
  case (Cons r reqs)
  obtain s t where r: "r = (s, t)" by (cases r)
  have "t \<le> fst (clock (sv_handled sv))" using Cons.prems r by simp
  from serve_turn_ping [OF this, of s "request_stream reqs @ [HeaderCodeStop]" sv] obtain sv1 where sv1:
    "serve_turn (clock (sv_handled sv)) True (request_stream (r # reqs) @ [HeaderCodeStop]) sv =
      Inr (request_stream reqs @ [HeaderCodeStop], sv1)"
    "sv_handled sv1 = sv_handled sv + 1" "sv_written sv1 = sv_written sv @ frame_bytes worldText s (snd (clock (sv_handled sv)))"
    by (auto simp: r)
  then have "serve clock write_ok (request_stream (r # reqs) @ [HeaderCodeStop]) sv =
      serve clock write_ok (request_stream reqs @ [HeaderCodeStop]) sv1"
    using assms by (subst serve.simps) simp
  then show ?case using Cons.IH [of sv1] Cons.prems r sv1(2,3) by simp
qed

lemma check_answers:
  "distinct (map fst as) \<Longrightarrow> cl_processed c + length as \<le> n \<Longrightarrow>
   (\<And>s t. (s, t) \<in> set as \<Longrightarrow> \<exists>t0. cl_sequences c s = Some t0 \<and> t0 \<le> t) \<Longrightarrow>
   \<exists>c'. check_frames n c (response_stream as) = Inr (c', []) \<and> cl_processed c' = cl_processed c + length as \<and>
     cl_sequences c' = cl_sequences c |` (- fst ` set as)"
proof (induction as arbitrary: c)
  case Nil
  then show ?case by (simp add: response_stream_def check_frames.simps [of n c "[]"] responseFrameSize_def)
next
  case (Cons a as)
  obtain s t where a: "a = (s, t)" by (cases a)
  obtain t0 where t0: "cl_sequences c s = Some t0" "t0 \<le> t" using Cons.prems(3) a by auto
  define c1 where "c1 = c\<lparr>cl_sequences := (cl_sequences c)(s := None), cl_deleted := List.insert s (cl_deleted c),
    cl_processed := cl_processed c + 1\<rparr>"
  have "check_frame c (frame_bytes worldText s t) = Inr c1"
    using t0 parse_frame_bytes [of worldText s t "[]"] by (simp add: check_frame_def ParseResponse_def c1_def not_less)
  then have step: "check_frames n c (response_stream (a # as)) = check_frames n c1 (response_stream as)"
    using Cons.prems(2) a length_frame_bytes [of worldText s t]
    by (subst check_frames.simps) (simp add: response_stream_def responseFrameSize_def)
  have "\<exists>t0. cl_sequences c1 s' = Some t0 \<and> t0 \<le> t'" if "(s', t') \<in> set as" for s' t'
  proof -
    have "s' \<noteq> s" using that Cons.prems(1) a by force
    then show ?thesis using Cons.prems(3) [of s' t'] that by (simp add: c1_def)
  qed
  moreover have "distinct (map fst as)" "cl_processed c1 + length as \<le> n" using Cons.prems(1,2) by (simp_all add: c1_def)
  ultimately obtain c' where c': "check_frames n c1 (response_stream as) = Inr (c', [])"
    "cl_processed c' = cl_processed c1 + length as" "cl_sequences c' = cl_sequences c1 |` (- fst ` set as)"
    using Cons.IH by blast
  have "cl_sequences c' = cl_sequences c |` (- fst ` set (a # as))"
    unfolding c'(3) by (rule ext) (simp add: c1_def a restrict_map_def)
  then show ?case using step c'(1,2) by (simp add: c1_def)
qed

lemma answers_fst: "map fst (answers clock k reqs) = map fst reqs"
  by (induction clock k reqs rule: answers.induct) auto

lemma answers_in_time:
  "in_time clock k reqs \<Longrightarrow> (s, t) \<in> set (answers clock k reqs) \<Longrightarrow> \<exists>t0. (s, t0) \<in> set reqs \<and> t0 \<le> t"
  by (induction clock k reqs rule: answers.induct) auto

text \<open>A whole session: when the writes succeed and the server's clock is not behind the times of the
  requests, the server answers every request of the sender and stops without an error, and the client
  verifies every answer, in whatever views they arrive.\<close>

theorem echo_session_succeeds:
  assumes "length moments < 2 ^ 64"
    and "send_workload moments \<lparr>rq_sequenceID = 0, rq_buf = buf\<rparr> = (sequences, sent)"
    and "in_time clock 0 (numbered 0 moments)"
    and "handleRequest clock (\<lambda>_. True) True sent = (err, sv)"
    and "list_all delivers rs" "concat (map view_bytes rs) = sv_written sv"
  shows "err = None \<and> sv_handled sv = length moments \<and>
    (\<exists>c rest. receive (length moments) rs (\<lparr>cl_sequences = sequences, cl_deleted = [], cl_processed = 0\<rparr>, []) = Inr (c, rest) \<and>
      cl_processed c = length moments \<and> finish_check c = Inr c)"
proof -
  define reqs where "reqs = numbered 0 moments"
  define c0 where "c0 = \<lparr>cl_sequences = sequences, cl_deleted = [], cl_processed = 0\<rparr>"
  have seqs: "sequences = map_of reqs" "sent = request_stream reqs @ [HeaderCodeStop]"
    using send_workload_stream [OF assms(1), of "\<lparr>rq_sequenceID = 0, rq_buf = buf\<rparr>"] assms(2)
    by (simp_all add: reqs_def)
  have dist: "distinct (map fst reqs)" using numbered_distinct [OF assms(1)] by (simp add: reqs_def)
  have len: "length reqs = length moments" by (simp add: reqs_def)
  obtain sv' where sv': "serve clock (\<lambda>_. True) sent new_server = (None, sv')"
    "sv_written sv' = response_stream (answers clock 0 reqs)" "sv_handled sv' = length reqs"
    using serve_stream [of "\<lambda>_. True" clock new_server reqs] assms(3) seqs(2)
    by (auto simp: new_server_def reqs_def)
  then have sv: "err = None" "sv = sv'" using assms(4) by (auto simp: handleRequest_def)
  have la: "length (answers clock 0 reqs) = length moments"
    using answers_fst [of clock 0 reqs] len by (metis length_map)
  have "\<exists>t0. cl_sequences c0 s = Some t0 \<and> t0 \<le> t" if "(s, t) \<in> set (answers clock 0 reqs)" for s t
    using answers_in_time [OF assms(3) [folded reqs_def] that] dist by (auto simp: c0_def seqs(1))
  moreover have "distinct (map fst (answers clock 0 reqs))" using dist by (simp add: answers_fst)
  ultimately obtain c where c: "check_frames (length moments) c0 (response_stream (answers clock 0 reqs)) = Inr (c, [])"
    "cl_processed c = length moments" "cl_sequences c = map_of reqs |` (- fst ` set (answers clock 0 reqs))"
    using check_answers [of "answers clock 0 reqs" c0 "length moments"] la by (auto simp: c0_def seqs(1))
  have "fst ` set (answers clock 0 reqs) = fst ` set reqs" by (metis answers_fst set_map)
  then have "cl_sequences c = Map.empty"
    using c(3) by (auto simp: restrict_map_def fun_eq_iff map_of_eq_None_iff)
  moreover have "map_sum id fst (receive (length moments) rs (c0, [])) = Inr c"
    using receive_check_frames [OF assms(5), of "length moments" c0 "[]"] c(1) assms(6) sv sv'(2)
    by (simp add: check_frames.simps [of "length moments" c0 "[]"] responseFrameSize_def)
  then obtain rest where "receive (length moments) rs (c0, []) = Inr (c, rest)"
    by (cases "receive (length moments) rs (c0, [])") auto
  ultimately show ?thesis using sv sv'(3) len c(2) by (auto simp: c0_def finish_check_def)
qed

section \<open>Examples\<close>

definition ex_clock :: "nat \<Rightarrow> u64 \<times> u64" where
  "ex_clock k = (10, 20)"

definition ex_moments :: "u64 list" where
  "ex_moments = [5, 9]"

definition ex_sequences :: "u64 \<rightharpoonup> u64" where
  "ex_sequences = fst (send_workload ex_moments \<lparr>rq_sequenceID = 0, rq_buf = []\<rparr>)"

definition ex_sent :: "u8 list" where
  "ex_sent = snd (send_workload ex_moments \<lparr>rq_sequenceID = 0, rq_buf = []\<rparr>)"

definition ex_server :: server where
  "ex_server = snd (handleRequest ex_clock (\<lambda>_. True) True ex_sent)"

definition ex_views :: "recv_result list" where
  "ex_views = [View (take 30 (sv_written ex_server)), No_buffers, View (drop 30 (sv_written ex_server))]"

lemma ex_views_ok: "list_all delivers ex_views" "concat (map view_bytes ex_views) = sv_written ex_server"
  by (simp_all add: ex_views_def delivers_def)

theorem reassembly_is_split_independent_witness:
  "map_sum id fst (receive 2 ex_views (\<lparr>cl_sequences = ex_sequences, cl_deleted = [], cl_processed = 0\<rparr>, [])) =
   map_sum id fst (check_frames 2 \<lparr>cl_sequences = ex_sequences, cl_deleted = [], cl_processed = 0\<rparr> (sv_written ex_server))"
  using reassembly_is_split_independent [OF ex_views_ok(1)] by (simp only: ex_views_ok(2))

theorem echo_session_succeeds_witness:
  "sv_handled ex_server = 2 \<and>
   (\<exists>c rest. receive 2 ex_views (\<lparr>cl_sequences = ex_sequences, cl_deleted = [], cl_processed = 0\<rparr>, []) = Inr (c, rest) \<and>
     cl_processed c = 2 \<and> finish_check c = Inr c)"
proof -
  have len: "length ex_moments = 2" by (simp add: ex_moments_def)
  then have small: "length ex_moments < 2 ^ 64" by simp
  have "in_time ex_clock 0 (numbered 0 ex_moments)" by (simp add: ex_moments_def ex_clock_def word_le_nat_alt)
  moreover have "send_workload ex_moments \<lparr>rq_sequenceID = 0, rq_buf = []\<rparr> = (ex_sequences, ex_sent)"
    by (simp add: ex_sequences_def ex_sent_def)
  moreover have "handleRequest ex_clock (\<lambda>_. True) True ex_sent =
      (fst (handleRequest ex_clock (\<lambda>_. True) True ex_sent), ex_server)" by (simp add: ex_server_def)
  ultimately show ?thesis
    using echo_session_succeeds [OF small _ _ _ ex_views_ok] unfolding len by blast
qed

end
