(* ===== verification/Stdlib_Session.thy ===== *)
theory Stdlib_Session
  imports Echo_Session
begin

text \<open>
  The client over the standard library (\<open>internal/cmd/echo/stdlib_client.go\<close>) against the server
  of \<open>main.go\<close>: the sender, the receiver and the server's connection are three goroutines, interleaved
  at their reads, their writes and their accesses to the shared map. The two directions of the
  connection are queues of bytes, a blocking read of a whole frame is one step, and all three read the wall clock.
  Any read or write may fail, as they do at the latest when the ten seconds of a connection are over, the
  context may be cancelled and the clock set back: each of these leaves its mark in \<open>se_trouble\<close>. The two properties are
  about runs without trouble; \<open>Stdlib_Group\<close> has one that holds of the client in all of them.
\<close>

section \<open>The receiver\<close>

text \<open>
  What a turn of the receiver comes to: it goes on with the map, or it returns an error or, with
  \<open>None\<close>, none. Two of its error returns wrap \<open>err\<close>, which is nil there; whether \<open>beer.Wrap\<close>
  makes an error of it is the parameter \<open>wraps_nil\<close>.
\<close>

datatype turn_result = Go_on "u64 \<rightharpoonup> u64" | Return "client_error option"

definition wrap_nil :: "bool \<Rightarrow> client_error \<Rightarrow> client_error option" where
  "wrap_nil wraps_nil e = (if wraps_nil then Some e else None)"

definition stdlib_check :: "bool \<Rightarrow> (u64 \<rightharpoonup> u64) \<Rightarrow> u8 list \<Rightarrow> turn_result" where
  "stdlib_check wraps_nil sequences buf = (case ParseResponse buf of
     Inl e \<Rightarrow> Return (Some (Process_response e))
   | Inr (sequenceID, serverTime) \<Rightarrow> (case sequences sequenceID of
       None \<Rightarrow> Return (wrap_nil wraps_nil (Unknown_sequence sequenceID))
     | Some clientTime \<Rightarrow> if serverTime < clientTime then Return (wrap_nil wraps_nil (Time_reversed clientTime serverTime))
         else Go_on (sequences(sequenceID := None))))"

section \<open>The session\<close>

record session =
  se_now :: u64
  se_left :: nat
  se_requester :: RequestBuilder
  se_payload :: "u8 list option"
  se_stopped :: bool
  se_sequences :: "u64 \<rightharpoonup> u64"
  se_up :: "u8 list"
  se_server :: server
  se_exit :: "server_error option option"
  se_down :: "u8 list"
  se_read :: nat
  se_verdict :: "client_error option option"
  se_cancelled :: bool
  se_trouble :: bool

text \<open>
  \<open>se_left\<close> is the number of requests still to build, \<open>se_payload\<close> one that is stored in the map
  and not yet written, \<open>se_exit\<close> and \<open>se_verdict\<close> what the server's goroutine and the receiver
  have returned, \<open>se_cancelled\<close> tells whether the context of the client's group is done. A frame is 22 bytes on the way
  to the server and 21 on the way back; of a write that fails a part may have gone out.
\<close>

inductive session_step :: "bool \<Rightarrow> nat \<Rightarrow> session \<Rightarrow> session \<Rightarrow> bool" where
  store: "se_left s = Suc n \<Longrightarrow> se_payload s = None \<Longrightarrow> \<not> se_cancelled s \<Longrightarrow> se_now s \<le> t \<Longrightarrow>
    Request t (se_requester s) = ((sequenceID, clientTime, payload), requester) \<Longrightarrow>
    session_step wraps_nil requestsNo s (s\<lparr>se_now := t, se_left := n, se_requester := requester, se_payload := Some payload,
      se_sequences := (se_sequences s)(sequenceID \<mapsto> clientTime)\<rparr>)"
| write_payload: "se_payload s = Some payload \<Longrightarrow>
    session_step wraps_nil requestsNo s (s\<lparr>se_payload := None, se_up := se_up s @ payload\<rparr>)"
| write_stop: "se_left s = 0 \<Longrightarrow> se_payload s = None \<Longrightarrow> \<not> se_stopped s \<Longrightarrow>
    RequestStop (se_requester s) = (stop, requester) \<Longrightarrow>
    session_step wraps_nil requestsNo s (s\<lparr>se_requester := requester, se_stopped := True, se_up := se_up s @ stop\<rparr>)"
| answer: "se_exit s = None \<Longrightarrow> 22 \<le> length (se_up s) \<Longrightarrow> se_now s \<le> t1 \<Longrightarrow> t1 \<le> t2 \<Longrightarrow>
    serve_turn (t1, t2) True (se_up s) (se_server s) = Inr (rest, sv') \<Longrightarrow>
    session_step wraps_nil requestsNo s (s\<lparr>se_now := t2, se_up := rest, se_server := sv',
      se_down := se_down s @ drop (length (sv_written (se_server s))) (sv_written sv')\<rparr>)"
| leave: "se_exit s = None \<Longrightarrow> 22 \<le> length (se_up s) \<or> se_up s = [HeaderCodeStop] \<Longrightarrow> se_now s \<le> t1 \<Longrightarrow> t1 \<le> t2 \<Longrightarrow>
    serve_turn (t1, t2) True (se_up s) (se_server s) = Inl (err, sv') \<Longrightarrow>
    session_step wraps_nil requestsNo s (s\<lparr>se_now := t2, se_server := sv', se_exit := Some err\<rparr>)"
| check: "se_verdict s = None \<Longrightarrow> se_read s < requestsNo \<Longrightarrow> 21 \<le> length (se_down s) \<Longrightarrow>
    stdlib_check wraps_nil (se_sequences s) (take 21 (se_down s)) = Go_on sequences \<Longrightarrow>
    session_step wraps_nil requestsNo s (s\<lparr>se_sequences := sequences, se_down := drop 21 (se_down s), se_read := se_read s + 1\<rparr>)"
| refuse: "se_verdict s = None \<Longrightarrow> se_read s < requestsNo \<Longrightarrow> 21 \<le> length (se_down s) \<Longrightarrow>
    stdlib_check wraps_nil (se_sequences s) (take 21 (se_down s)) = Return v \<Longrightarrow>
    session_step wraps_nil requestsNo s
      (s\<lparr>se_down := drop 21 (se_down s), se_verdict := Some v, se_cancelled := se_cancelled s \<or> v \<noteq> None\<rparr>)"
| range: "se_verdict s = None \<Longrightarrow> \<not> se_read s < requestsNo \<Longrightarrow>
    v = (if se_sequences s = Map.empty then None else Some Not_responded) \<Longrightarrow>
    session_step wraps_nil requestsNo s (s\<lparr>se_verdict := Some v, se_cancelled := se_cancelled s \<or> v \<noteq> None\<rparr>)"
| write_fails: "se_payload s = Some payload \<Longrightarrow>
    session_step wraps_nil requestsNo s (s\<lparr>se_payload := None, se_left := 0, se_stopped := True,
      se_up := se_up s @ take j payload, se_cancelled := True, se_trouble := True\<rparr>)"
| stop_fails: "se_left s = 0 \<Longrightarrow> se_payload s = None \<Longrightarrow> \<not> se_stopped s \<Longrightarrow>
    session_step wraps_nil requestsNo s (s\<lparr>se_stopped := True, se_cancelled := True, se_trouble := True\<rparr>)"
| send_cancelled: "se_left s = Suc n \<Longrightarrow> se_payload s = None \<Longrightarrow> se_cancelled s \<Longrightarrow>
    session_step wraps_nil requestsNo s (s\<lparr>se_left := 0, se_stopped := True\<rparr>)"
| read_fails: "se_verdict s = None \<Longrightarrow> se_read s < requestsNo \<Longrightarrow>
    session_step wraps_nil requestsNo s
      (s\<lparr>se_verdict := Some (Some Read_response), se_cancelled := True, se_trouble := True\<rparr>)"
| read_cancelled: "se_verdict s = None \<Longrightarrow> se_read s < requestsNo \<Longrightarrow> se_cancelled s \<Longrightarrow>
    session_step wraps_nil requestsNo s (s\<lparr>se_verdict := Some None\<rparr>)"
| server_read_fails: "se_exit s = None \<Longrightarrow> err = Read_header \<or> err = Read_ping \<Longrightarrow>
    session_step wraps_nil requestsNo s (s\<lparr>se_exit := Some (Some err), se_trouble := True\<rparr>)"
| server_write_fails: "se_exit s = None \<Longrightarrow> 22 \<le> length (se_up s) \<Longrightarrow> se_now s \<le> t1 \<Longrightarrow> t1 \<le> t2 \<Longrightarrow>
    serve_turn (t1, t2) True (se_up s) (se_server s) = Inr (rest, whole) \<Longrightarrow>
    serve_turn (t1, t2) False (se_up s) (se_server s) = Inl (err, sv') \<Longrightarrow>
    session_step wraps_nil requestsNo s (s\<lparr>se_now := t2, se_server := sv', se_exit := Some err, se_trouble := True,
      se_down := se_down s @ take j (drop (length (sv_written (se_server s))) (sv_written whole))\<rparr>)"
| cancel: "session_step wraps_nil requestsNo s (s\<lparr>se_cancelled := True, se_trouble := True\<rparr>)"
| clock_set: "session_step wraps_nil requestsNo s (s\<lparr>se_now := t, se_trouble := True\<rparr>)"

definition session_start :: "nat \<Rightarrow> u64 \<Rightarrow> u8 list \<Rightarrow> session" where
  "session_start requestsNo now buf = \<lparr>se_now = now, se_left = requestsNo, se_requester = \<lparr>rq_sequenceID = 0, rq_buf = buf\<rparr>,
     se_payload = None, se_stopped = False, se_sequences = Map.empty, se_up = [], se_server = new_server, se_exit = None,
     se_down = [], se_read = 0, se_verdict = None, se_cancelled = False, se_trouble = False\<rparr>"

text \<open>
  The client before its goroutines start: a failed dial ends the process, a failed deadline or a number of
  requests below one is the error it returns, after closing the connection.
\<close>

datatype stdlib_begin = Process_exits | Set_test_deadline | Create_requests int | Session_begins session

definition begin_session :: "bool \<Rightarrow> bool \<Rightarrow> nat \<Rightarrow> u64 \<Rightarrow> stdlib_begin" where
  "begin_session dial_ok deadline_ok requestsNo now =
     (if \<not> dial_ok then Process_exits
      else if \<not> deadline_ok then Set_test_deadline
      else case new_requests (int requestsNo) of Inl n \<Rightarrow> Create_requests n
      | Inr requester \<Rightarrow> Session_begins (session_start requestsNo now (rq_buf requester)))"

lemma begin_session_starts:
  "0 < n \<Longrightarrow> \<exists>buf. begin_session True True n now = Session_begins (session_start n now buf)"
  by (intro exI) (simp add: begin_session_def new_requests_def Let_def)

section \<open>The invariant\<close>

text \<open>
  The requests on their way, oldest first: \<open>as\<close> answered, \<open>rs\<close> written, \<open>ps\<close> the one stored and not
  yet written. Their numbers follow one another, and the map holds just these, each with a time
  that is not after its answer's and not in the future.
\<close>

definition noted :: "(u64 \<rightharpoonup> u64) \<Rightarrow> u64 \<Rightarrow> (u64 \<times> u64) list \<Rightarrow> (u64 \<times> u64) list \<Rightarrow> bool" where
  "noted m now as os \<longleftrightarrow> (\<forall>(i, t) \<in> set as. \<exists>t0 \<le> t. m i = Some t0) \<and>
     (\<forall>(i, t) \<in> set os. m i = Some t \<and> t \<le> now) \<and> dom m = fst ` set (as @ os)"

definition in_flight :: "nat \<Rightarrow> session \<Rightarrow> (u64 \<times> u64) list \<Rightarrow> (u64 \<times> u64) list \<Rightarrow> (u64 \<times> u64) list \<Rightarrow> bool" where
  "in_flight N s as rs ps \<longleftrightarrow>
     map fst (as @ rs @ ps) = map of_nat [se_read s..<N - se_left s] \<and>
     se_down s = response_stream as \<and>
     se_up s = request_stream rs @ (if se_stopped s then [HeaderCodeStop] else []) \<and>
     se_payload s = (case ps of [] \<Rightarrow> None | p # _ \<Rightarrow> Some (request_stream [p])) \<and> length ps \<le> 1 \<and>
     noted (se_sequences s) (se_now s) as (rs @ ps)"

definition session_inv :: "nat \<Rightarrow> session \<Rightarrow> bool" where
  "session_inv N s \<longleftrightarrow> N < 2 ^ 64 \<and> \<not> se_cancelled s \<and> se_left s \<le> N \<and> se_read s + se_left s \<le> N \<and>
     rq_sequenceID (se_requester s) = of_nat (N - se_left s) \<and>
     (se_stopped s \<longrightarrow> se_left s = 0 \<and> se_payload s = None) \<and>
     (\<exists>as rs ps. in_flight N s as rs ps \<and> sv_handled (se_server s) = se_read s + length as \<and>
        (se_exit s \<noteq> None \<longrightarrow> se_exit s = Some None \<and> se_stopped s \<and> rs = [])) \<and>
     (se_verdict s \<noteq> None \<longrightarrow> se_verdict s = Some None \<and> se_read s = N)"

lemma session_inv_start: "N < 2 ^ 64 \<Longrightarrow> session_inv N (session_start N now buf)"
  by (auto simp: session_inv_def in_flight_def noted_def session_start_def new_server_def intro!: exI [of _ "[]"])

lemma numbers_distinct:
  assumes "N < 2 ^ 64" "map fst xs = map of_nat [a..<b]" "b \<le> N"
  shows "distinct (map fst (xs :: (u64 \<times> 'a) list))"
proof -
  have "i = j" if "(of_nat i :: u64) = of_nat j" "i < b" "j < b" for i j
  proof -
    have "unat (of_nat i :: u64) = unat (of_nat j :: u64)" using that(1) by simp
    then show ?thesis using that(2,3) assms(1,3) by (simp add: unat_of_nat_small)
  qed
  then show ?thesis unfolding assms(2) by (auto simp: distinct_map inj_on_def)
qed

lemma in_flight_distinct:
  assumes "in_flight N s as rs ps" "N < 2 ^ 64"
  shows "distinct (map fst (as @ rs @ ps))"
  using numbers_distinct [OF assms(2), of "as @ rs @ ps" "se_read s" "N - se_left s"] assms(1)
  by (simp add: in_flight_def)

lemma length_streams: "length (request_stream rs) = 22 * length rs" "length (response_stream as) = 21 * length as"
  by (induction rs, auto simp: length_frame_bytes) (induction as, auto simp: length_frame_bytes)

lemma noted_store:
  assumes "noted m now as os" "now \<le> t" "i \<notin> fst ` set (as @ os)"
  shows "noted (m(i \<mapsto> t)) t as (os @ [(i, t)])"
proof -
  have ne: "j \<noteq> i" if "(j, u) \<in> set as \<union> set os" for j u using that assms(3) by force
  have "\<exists>t0 \<le> u. (m(i \<mapsto> t)) j = Some t0" if "(j, u) \<in> set as" for j u
    using that assms(1) ne [of j u] by (auto simp: noted_def)
  moreover have "(m(i \<mapsto> t)) j = Some u \<and> u \<le> t" if "(j, u) \<in> set os" for j u
    using that assms(1,2) ne [of j u] by (auto simp: noted_def)
  moreover have "dom m = fst ` set (as @ os)" using assms(1) by (simp add: noted_def)
  ultimately show ?thesis unfolding noted_def by auto
qed

lemma noted_answer:
  assumes "noted m now as ((i, u) # os)" "now \<le> t"
  shows "noted m t (as @ [(i, t)]) os"
proof -
  have "m i = Some u" "u \<le> t" using assms by (auto simp: noted_def)
  moreover have "m j = Some v \<and> v \<le> t" if "(j, v) \<in> set os" for j v
    using that assms by (auto simp: noted_def)
  ultimately show ?thesis using assms(1) unfolding noted_def by auto
qed

lemma noted_check:
  assumes "noted m now ((i, t) # as) os" "i \<notin> fst ` set (as @ os)"
  shows "noted (m(i := None)) now as os"
proof -
  have ne: "j \<noteq> i" if "(j, u) \<in> set as \<union> set os" for j u using that assms(2) by force
  have "\<exists>t0 \<le> u. (m(i := None)) j = Some t0" if "(j, u) \<in> set as" for j u
    using that assms(1) ne [of j u] by (auto simp: noted_def)
  moreover have "(m(i := None)) j = Some u \<and> u \<le> now" if "(j, u) \<in> set os" for j u
    using that assms(1) ne [of j u] by (auto simp: noted_def)
  moreover have "dom (m(i := None)) = fst ` set (as @ os)" using assms by (simp add: noted_def)
  ultimately show ?thesis unfolding noted_def by auto
qed

text \<open>Storing a new request.\<close>

lemma in_flight_store:
  assumes fl: "in_flight N s as rs ps" and N: "N < 2 ^ 64" and left: "se_left s = Suc n" "se_left s \<le> N" "se_read s + se_left s \<le> N"
    and none: "se_payload s = None" and t: "se_now s \<le> t"
    and s': "se_left s' = n" "se_read s' = se_read s" "se_down s' = se_down s" "se_up s' = se_up s" "se_stopped s' = se_stopped s"
      "se_now s' = t" "se_sequences s' = (se_sequences s)(of_nat (N - se_left s) \<mapsto> t)"
      "se_payload s' = Some (HeaderCodePing # frame_bytes helloText (of_nat (N - se_left s)) t)"
  shows "in_flight N s' as rs [(of_nat (N - se_left s), t)]"
proof -
  let ?i = "of_nat (N - se_left s) :: u64"
  have ps: "ps = []" using fl none by (cases ps) (auto simp: in_flight_def)
  have nums: "map fst (as @ rs @ [(?i, t)]) = map of_nat [se_read s..<N - n]"
  proof -
    have "N - n = Suc (N - se_left s)" "se_read s \<le> N - se_left s" using left by simp_all
    then show ?thesis using fl ps by (simp add: in_flight_def)
  qed
  have "distinct (map fst (as @ rs @ [(?i, t)]))" by (rule numbers_distinct [OF N nums]) simp
  then have "?i \<notin> fst ` set (as @ rs)" by (simp add: image_Un)
  then have "noted (se_sequences s') t as (rs @ [(?i, t)])"
    using noted_store [of "se_sequences s" "se_now s" as rs t ?i] fl ps t by (simp add: in_flight_def s'(7))
  then show ?thesis using fl ps nums by (simp add: in_flight_def s')
qed

text \<open>Writing it.\<close>

lemma in_flight_write:
  assumes "in_flight N s as rs ps" "se_payload s = Some payload" "\<not> se_stopped s"
  shows "in_flight N (s\<lparr>se_payload := None, se_up := se_up s @ payload\<rparr>) as (rs @ ps) []"
proof -
  obtain p where "ps = [p]" using assms(1,2) by (cases ps) (auto simp: in_flight_def)
  then show ?thesis using assms by (auto simp: in_flight_def)
qed

text \<open>The server's turn on the oldest request it has not read.\<close>

lemma in_flight_answer:
  assumes fl: "in_flight N s as rs ps" and t: "se_now s \<le> t1" "t1 \<le> t2" and len: "22 \<le> length (se_up s)"
  shows "\<exists>i t rs' sv'. rs = (i, t) # rs' \<and> serve_turn (t1, t2) True (se_up s) sv =
      Inr (request_stream rs' @ (if se_stopped s then [HeaderCodeStop] else []), sv') \<and>
    sv_handled sv' = sv_handled sv + 1 \<and> sv_written sv' = sv_written sv @ frame_bytes worldText i t2 \<and>
    in_flight N (s\<lparr>se_now := t2, se_up := request_stream rs' @ (if se_stopped s then [HeaderCodeStop] else []), se_server := sv',
      se_down := se_down s @ frame_bytes worldText i t2\<rparr>) (as @ [(i, t2)]) rs' ps"
proof -
  let ?stop = "if se_stopped s then [HeaderCodeStop] else []"
  have up: "se_up s = request_stream rs @ ?stop" using fl by (simp add: in_flight_def)
  obtain i u rs' where rs: "rs = (i, u) # rs'" using up len by (cases rs) (auto split: if_splits)
  have u: "u \<le> se_now s" using fl rs by (auto simp: in_flight_def noted_def)
  have "u \<le> fst (t1, t2)" using u t by simp
  from serve_turn_ping [OF this, of i "request_stream rs' @ ?stop" sv] obtain sv' where sv':
    "serve_turn (t1, t2) True (se_up s) sv = Inr (request_stream rs' @ ?stop, sv')"
    "sv_handled sv' = sv_handled sv + 1" "sv_written sv' = sv_written sv @ frame_bytes worldText i t2"
    unfolding up rs by auto
  have "noted (se_sequences s) t2 (as @ [(i, t2)]) (rs' @ ps)"
    using noted_answer [of "se_sequences s" "se_now s" as i u "rs' @ ps" t2] fl rs t by (simp add: in_flight_def)
  then have "in_flight N (s\<lparr>se_now := t2, se_up := request_stream rs' @ ?stop, se_server := sv',
      se_down := se_down s @ frame_bytes worldText i t2\<rparr>) (as @ [(i, t2)]) rs' ps"
    using fl rs by (simp add: in_flight_def)
  then show ?thesis using rs sv' by blast
qed

text \<open>The receiver's turn on the oldest answer.\<close>

lemma in_flight_check:
  assumes fl: "in_flight N s as rs ps" and N: "N < 2 ^ 64" and len: "21 \<le> length (se_down s)"
  shows "\<exists>i t as'. as = (i, t) # as' \<and> se_read s < N - se_left s \<and>
    stdlib_check w (se_sequences s) (take 21 (se_down s)) = Go_on ((se_sequences s)(i := None)) \<and>
    in_flight N (s\<lparr>se_sequences := (se_sequences s)(i := None), se_down := drop 21 (se_down s), se_read := se_read s + 1\<rparr>) as' rs ps"
proof -
  have down: "se_down s = response_stream as" using fl by (simp add: in_flight_def)
  obtain i t as' where as: "as = (i, t) # as'" using down len by (cases as) auto
  have l21: "length (frame_bytes worldText i t) = 21" by (simp add: length_frame_bytes)
  obtain t0 where t0: "se_sequences s i = Some t0" "t0 \<le> t" using fl as by (auto simp: in_flight_def noted_def)
  have frame: "take 21 (se_down s) = frame_bytes worldText i t" "drop 21 (se_down s) = response_stream as'"
    using l21 unfolding down as by simp_all
  have chk: "stdlib_check w (se_sequences s) (take 21 (se_down s)) = Go_on ((se_sequences s)(i := None))"
    using t0 parse_frame_bytes [of worldText i t "[]"] unfolding frame
    by (simp add: stdlib_check_def ParseResponse_def not_less)
  have lt: "se_read s < N - se_left s"
    using fl as by (cases "se_read s < N - se_left s") (auto simp: in_flight_def)
  then have nums: "map fst (as' @ rs @ ps) = map of_nat [Suc (se_read s)..<N - se_left s]"
    using fl as by (simp add: in_flight_def upt_conv_Cons)
  have "distinct (map fst (as @ rs @ ps))" by (rule in_flight_distinct [OF fl N])
  then have "i \<notin> fst ` set (as' @ rs @ ps)" using as by (simp add: image_Un)
  then have "noted ((se_sequences s)(i := None)) (se_now s) as' (rs @ ps)"
    using noted_check [of "se_sequences s" "se_now s" i t as' "rs @ ps"] fl as by (simp add: in_flight_def)
  then have "in_flight N (s\<lparr>se_sequences := (se_sequences s)(i := None), se_down := drop 21 (se_down s),
      se_read := se_read s + 1\<rparr>) as' rs ps"
    using fl nums frame by (simp add: in_flight_def)
  then show ?thesis using as lt chk by blast
qed

section \<open>Preservation\<close>

text \<open>
  What holds besides the requests on their way: \<open>session_inv\<close> from its parts.
\<close>

lemma session_invI:
  assumes "N < 2 ^ 64" "\<not> se_cancelled s" "se_read s + se_left s \<le> N" "rq_sequenceID (se_requester s) = of_nat (N - se_left s)"
    "se_stopped s \<longrightarrow> se_left s = 0 \<and> se_payload s = None" "in_flight N s as rs ps"
    "sv_handled (se_server s) = se_read s + length as"
    "se_exit s \<noteq> None \<longrightarrow> se_exit s = Some None \<and> se_stopped s \<and> rs = []"
    "se_verdict s \<noteq> None \<longrightarrow> se_verdict s = Some None \<and> se_read s = N"
  shows "session_inv N s"
  unfolding session_inv_def using assms by (intro conjI exI [of _ as] exI [of _ rs] exI [of _ ps]) simp_all

lemma session_invE:
  assumes "session_inv N s"
  obtains as rs ps where "N < 2 ^ 64" "\<not> se_cancelled s" "se_read s + se_left s \<le> N" "rq_sequenceID (se_requester s) = of_nat (N - se_left s)"
    "se_stopped s \<longrightarrow> se_left s = 0 \<and> se_payload s = None" "in_flight N s as rs ps"
    "sv_handled (se_server s) = se_read s + length as"
    "se_exit s \<noteq> None \<longrightarrow> se_exit s = Some None \<and> se_stopped s \<and> rs = []"
    "se_verdict s \<noteq> None \<longrightarrow> se_verdict s = Some None \<and> se_read s = N"
  using assms unfolding session_inv_def by blast

text \<open>The stream to the server: a whole frame, or only the stop.\<close>

lemma in_flight_up:
  assumes "in_flight N s as rs ps"
  shows "22 \<le> length (se_up s) \<longleftrightarrow> rs \<noteq> []" "se_up s = [HeaderCodeStop] \<longleftrightarrow> rs = [] \<and> se_stopped s"
proof -
  have up: "se_up s = request_stream rs @ (if se_stopped s then [HeaderCodeStop] else [])" using assms by (simp add: in_flight_def)
  show "22 \<le> length (se_up s) \<longleftrightarrow> rs \<noteq> []" unfolding up by (cases rs) (auto simp: length_streams)
  show "se_up s = [HeaderCodeStop] \<longleftrightarrow> rs = [] \<and> se_stopped s"
    unfolding up by (cases rs) (auto simp: length_frame_bytes dest: arg_cong [of _ _ length])
qed

lemma in_flight_done:
  assumes "in_flight N s as rs ps" "\<not> se_read s < N"
  shows "se_sequences s = Map.empty"
proof -
  have "as @ rs @ ps = []" using assms by (simp add: in_flight_def)
  then have "dom (se_sequences s) = {}" using assms(1) by (simp add: in_flight_def noted_def)
  then show ?thesis by simp
qed

text \<open>Trouble stays.\<close>

lemma trouble_stays: "session_step w N s s' \<Longrightarrow> se_trouble s \<Longrightarrow> se_trouble s'"
  by (induction rule: session_step.induct) simp_all

lemma session_inv_step:
  assumes "session_step w N s s'" "session_inv N s" "\<not> se_trouble s'"
  shows "session_inv N s'"
  using assms(2)
proof (rule session_invE)
  fix as rs ps
  assume calm: "\<not> se_cancelled s" and inv: "N < 2 ^ 64" "se_read s + se_left s \<le> N" "rq_sequenceID (se_requester s) = of_nat (N - se_left s)"
    "se_stopped s \<longrightarrow> se_left s = 0 \<and> se_payload s = None" "in_flight N s as rs ps"
    "sv_handled (se_server s) = se_read s + length as"
    "se_exit s \<noteq> None \<longrightarrow> se_exit s = Some None \<and> se_stopped s \<and> rs = []"
    "se_verdict s \<noteq> None \<longrightarrow> se_verdict s = Some None \<and> se_read s = N"
  from assms(1) show ?thesis
  proof cases
    case (store n t i ct payload requester)
    have req: "i = of_nat (N - se_left s)" "ct = t" "payload = HeaderCodePing # frame_bytes helloText i t"
      "rq_sequenceID requester = of_nat (N - se_left s) + 1"
      using store(6) inv(3) by (auto simp: Request_frame)
    have "N - n = Suc (N - se_left s)" using store(2) inv(2) by simp
    moreover have "in_flight N s' as rs [(of_nat (N - se_left s), t)]"
      unfolding store(1)
      by (rule in_flight_store [OF inv(5,1) store(2) _ inv(2) store(3,5)]) (use inv(2) req store(2) in simp_all)
    ultimately show ?thesis
      using inv store req by (intro session_invI [of N s' as rs]) (auto simp: algebra_simps calm)
  next
    case (write_payload payload)
    then have "\<not> se_stopped s" using inv(4) by auto
    from in_flight_write [OF inv(5) write_payload(2) this] show ?thesis
      using inv calm write_payload \<open>\<not> se_stopped s\<close> by (intro session_invI [of N s' as "rs @ ps" "[]"]) auto
  next
    case (write_stop stop requester)
    then have "ps = []" using inv(5) by (cases ps) (auto simp: in_flight_def)
    then have "in_flight N s' as rs []"
      using inv(5) write_stop by (auto simp: in_flight_def RequestStop_frame)
    then show ?thesis
      using inv calm write_stop by (intro session_invI [of N s' as rs "[]"]) (auto simp: RequestStop_frame)
  next
    case (answer t1 t2 rest sv')
    from in_flight_answer [OF inv(5) answer(4,5,3), of "se_server s"] obtain i t rs' where
      a: "sv_handled sv' = sv_handled (se_server s) + 1" "sv_written sv' = sv_written (se_server s) @ frame_bytes worldText i t2"
      "rest = request_stream rs' @ (if se_stopped s then [HeaderCodeStop] else [])"
      "in_flight N (s\<lparr>se_now := t2, se_up := rest, se_server := sv', se_down := se_down s @ frame_bytes worldText i t2\<rparr>)
        (as @ [(i, t2)]) rs' ps"
      using answer(6) by auto
    then have "in_flight N s' (as @ [(i, t2)]) rs' ps" using answer(1) by simp
    then show ?thesis using inv calm answer(1,2) a(1) by (intro session_invI [of N s' "as @ [(i, t2)]" rs' ps]) auto
  next
    case (leave t1 t2 err sv')
    have "\<not> 22 \<le> length (se_up s)"
      using in_flight_answer [OF inv(5) leave(4,5), of "se_server s"] leave(6) by auto
    then have stop: "se_up s = [HeaderCodeStop]" "rs = []" "se_stopped s" using leave(3) in_flight_up [OF inv(5)] by auto
    then have "err = None" "sv' = se_server s" using leave(6) by (simp_all add: serve_turn_stop)
    moreover have "in_flight N s' as [] ps" using inv(5) inv(4) stop(2,3) leave(1)
      by (cases ps) (auto simp: in_flight_def noted_def)
    ultimately show ?thesis using inv calm leave(1) stop by (intro session_invI [of N s' as "[]" ps]) auto
  next
    case (check sequences)
    from in_flight_check [OF inv(5,1) check(4), of w] check(5) obtain i t as' where
      "as = (i, t) # as'" "se_read s < N - se_left s" "in_flight N s' as' rs ps"
      using check(1) by auto
    then show ?thesis using inv calm check(1,2) by (intro session_invI [of N s' as' rs ps]) auto
  next
    case (refuse v)
    then show ?thesis using in_flight_check [OF inv(5,1) refuse(4), of w] by auto
  next
    case (range v)
    then have "se_read s = N" using inv(2) by simp
    moreover have "in_flight N s' as rs ps" using inv(5) range(1) by (simp add: in_flight_def)
    ultimately show ?thesis
      using inv calm range in_flight_done [OF inv(5)] by (intro session_invI [of N s' as rs ps]) auto
  qed (use calm assms(3) in simp_all)
qed

section \<open>Progress and termination\<close>

text \<open>What is left to do: every step makes it less.\<close>

definition session_work :: "session \<Rightarrow> nat" where
  "session_work s = 100 * se_left s + (if se_payload s = None then 0 else 80) + 3 * length (se_up s) + length (se_down s) +
     (if se_stopped s then 0 else 10) + (if se_exit s = None then 1 else 0) + (if se_verdict s = None then 1 else 0)"

lemma session_work_step:
  assumes "session_step w N s s'" "session_inv N s" "\<not> se_trouble s'"
  shows "session_work s' < session_work s"
  using assms(2)
proof (rule session_invE)
  fix as rs ps
  assume N: "N < 2 ^ 64" and calm: "\<not> se_cancelled s" and fl: "in_flight N s as rs ps"
  from assms(1) show ?thesis
  proof cases
    case (write_payload payload)
    then have "length payload = 22" using fl by (cases ps) (auto simp: in_flight_def length_frame_bytes)
    then show ?thesis using write_payload by (simp add: session_work_def)
  next
    case (answer t1 t2 rest sv')
    have "length (se_up s) = length rest + 22" "length (sv_written sv') = length (sv_written (se_server s)) + 21"
      using in_flight_answer [OF fl answer(4,5,3), of "se_server s"] answer(6) fl
      by (auto simp: in_flight_def length_frame_bytes)
    then show ?thesis using answer(1) by (simp add: session_work_def)
  qed (use calm assms(3) in \<open>auto simp: session_work_def RequestStop_frame\<close>)
qed

lemma session_run:
  assumes "(session_step w N ^^ n) s s'" "session_inv N s" "\<not> se_trouble s'"
  shows "session_inv N s' \<and> session_work s' + n \<le> session_work s"
  using assms(1,3)
proof (induction n arbitrary: s')
  case 0
  then show ?case using assms(2) by simp
next
  case (Suc n)
  then obtain s1 where s1: "(session_step w N ^^ n) s s1" "session_step w N s1 s'" by auto
  have calm: "\<not> se_trouble s1" using trouble_stays [OF s1(2)] Suc.prems(2) by blast
  from Suc.IH [OF s1(1) calm] show ?case
    using session_inv_step [OF s1(2) _ Suc.prems(2)] session_work_step [OF s1(2) _ Suc.prems(2)] by auto
qed

lemma session_progress:
  assumes "session_inv N s" "se_exit s = None \<or> se_verdict s = None" "\<not> se_trouble s"
  shows "\<exists>s'. session_step w N s s' \<and> \<not> se_trouble s'"
  using assms(1)
proof (rule session_invE)
  fix as rs ps
  assume N: "N < 2 ^ 64" and calm: "\<not> se_cancelled s" and le: "se_read s + se_left s \<le> N" and stopped: "se_stopped s \<longrightarrow> se_left s = 0 \<and> se_payload s = None"
    and fl: "in_flight N s as rs ps" and exited: "se_exit s \<noteq> None \<longrightarrow> se_exit s = Some None \<and> se_stopped s \<and> rs = []"
  consider (payload) b where "se_payload s = Some b" | (more) n where "se_payload s = None" "se_left s = Suc n"
    | (stop) "se_payload s = None" "se_left s = 0" "\<not> se_stopped s" | (sent) "se_stopped s"
    by (cases "se_payload s"; cases "se_left s") auto
  then show ?thesis
  proof cases
    case payload
    then show ?thesis using session_step.write_payload [OF payload, of w N] assms(3) by force
  next
    case more
    then show ?thesis using session_step.store [OF more(2,1) calm order.refl, of _ _ _ _ w N] assms(3) by (force simp: Request_frame)
  next
    case stop
    then show ?thesis using session_step.write_stop [OF stop(2,1,3), of _ _ w N] assms(3) by (force simp: RequestStop_frame)
  next
    case sent
    then have ps: "ps = []" "se_left s = 0" using fl stopped by (cases ps; auto simp: in_flight_def)+
    show ?thesis
    proof (cases "rs = []")
      case False
      then have len: "22 \<le> length (se_up s)" using in_flight_up [OF fl] by simp
      have "se_exit s = None" using exited False by auto
      then show ?thesis
        using in_flight_answer [OF fl order.refl order.refl len, of "se_server s"]
          session_step.answer [OF _ len order.refl order.refl, of _ _ w N] assms(3) by fastforce
    next
      case True
      then have up: "se_up s = [HeaderCodeStop]" using in_flight_up [OF fl] sent by simp
      show ?thesis
      proof (cases "se_exit s")
        case None
        have "serve_turn (se_now s, se_now s) True (se_up s) (se_server s) = Inl (None, se_server s)"
          by (simp add: up serve_turn_stop)
        from session_step.leave [OF None disjI2 [OF up] order.refl order.refl this, of w N] assms(3) show ?thesis by force
      next
        case (Some e)
        then have open_: "se_verdict s = None" using assms(2) by simp
        show ?thesis
        proof (cases "se_read s < N")
          case False
          from session_step.range [OF open_ this refl, of w] assms(3) show ?thesis by force
        next
          case less: True
          have "map fst as = map of_nat [se_read s..<N]" using fl True ps by (simp add: in_flight_def)
          then have "length as = N - se_read s" by (metis length_map length_upt)
          then have "21 \<le> length (se_down s)" using fl less by (simp add: in_flight_def length_streams)
          from in_flight_check [OF fl N this, of w] session_step.check [OF open_ less this, of w] assms(3) show ?thesis by fastforce
        qed
      qed
    qed
  qed
qed

section \<open>Properties\<close>

text \<open>C32. Without trouble nobody reports an error. In every interleaving of sender, receiver and server in which no read and
  no write fails, so that the ten seconds of the connections are not over either, nobody cancels the context and the wall clock
  is never set back, with fewer than 2^64 requests: the server leaves only when told to stop and with every request
  read, and the receiver ends only when every request has its answer and nothing is left in the map, whatever wrapping
  a nil error gives. The checks of the code, of the frames, the sequence numbers and the times, refuse nothing on their own.\<close>

theorem echo_never_fails:
  assumes "requestsNo < 2 ^ 64" "(session_step wraps_nil requestsNo)\<^sup>*\<^sup>* (session_start requestsNo now buf) s"
    and "\<not> se_trouble s"
  shows "(se_exit s = None \<or> se_exit s = Some None \<and> sv_handled (se_server s) = requestsNo) \<and>
    (se_verdict s = None \<or> se_verdict s = Some None \<and> se_read s = requestsNo \<and> se_sequences s = Map.empty)"
proof -
  obtain n where "(session_step wraps_nil requestsNo ^^ n) (session_start requestsNo now buf) s"
    using assms(2) by (auto simp: rtranclp_power)
  then have "session_inv requestsNo s" using session_run [OF _ session_inv_start [OF assms(1)] assms(3)] by blast
  then show ?thesis
  proof (rule session_invE)
    fix as rs ps
    assume inv: "se_stopped s \<longrightarrow> se_left s = 0 \<and> se_payload s = None" "in_flight requestsNo s as rs ps"
      "sv_handled (se_server s) = se_read s + length as" "se_read s + se_left s \<le> requestsNo"
      "se_exit s \<noteq> None \<longrightarrow> se_exit s = Some None \<and> se_stopped s \<and> rs = []"
      "se_verdict s \<noteq> None \<longrightarrow> se_verdict s = Some None \<and> se_read s = requestsNo"
    have "sv_handled (se_server s) = requestsNo" if "se_exit s \<noteq> None"
    proof -
      have "rs = []" "ps = []" "se_left s = 0" using that inv(1,2,5) by (cases ps; auto simp: in_flight_def)+
      then have "map fst as = map of_nat [se_read s..<requestsNo]" using inv(2) by (simp add: in_flight_def)
      then have "length as = requestsNo - se_read s" by (metis length_map length_upt)
      then show ?thesis using inv(3,4) by simp
    qed
    then show ?thesis using inv(5,6) in_flight_done [OF inv(2)] by auto
  qed
qed

text \<open>C34. Without trouble the session ends. In runs as in the property before, with no failed read or write, no deadline, no
  cancellation and no clock set back: after \<open>n\<close> steps at most \<open>100 * requestsNo + 12 - n\<close> are left, and where no such step is
  possible any more, the server and the receiver have both returned without an error.\<close>

theorem echo_session_terminates:
  assumes "requestsNo < 2 ^ 64" "(session_step wraps_nil requestsNo ^^ n) (session_start requestsNo now buf) s"
    and "\<not> se_trouble s"
  shows "n \<le> 100 * requestsNo + 12 \<and>
    ((\<exists>s'. session_step wraps_nil requestsNo s s' \<and> \<not> se_trouble s') \<or> se_exit s = Some None \<and> se_verdict s = Some None)"
proof -
  have inv: "session_inv requestsNo s" and work: "session_work s + n \<le> session_work (session_start requestsNo now buf)"
    using session_run [OF assms(2) session_inv_start [OF assms(1)] assms(3)] by auto
  have "session_work (session_start requestsNo now buf) = 100 * requestsNo + 12"
    by (simp add: session_work_def session_start_def)
  moreover have "se_exit s = Some None \<and> se_verdict s = Some None" if "\<nexists>s'. session_step wraps_nil requestsNo s s' \<and> \<not> se_trouble s'"
  proof -
    have "se_exit s \<noteq> None \<and> se_verdict s \<noteq> None" using session_progress [OF inv _ assms(3), where w = wraps_nil] that
      by (cases "se_exit s"; cases "se_verdict s"; simp)
    then show ?thesis using inv by (blast elim: session_invE)
  qed
  ultimately show ?thesis using work by auto
qed

section \<open>Example run\<close>

text \<open>One request: it is stored, written and answered, checked, and both sides leave.\<close>

lemma five_steps: "P a b \<Longrightarrow> P b c \<Longrightarrow> P c d \<Longrightarrow> P d e \<Longrightarrow> P e f \<Longrightarrow> (P ^^ 5) a f"
  by (auto simp: eval_nat_numeral relcompp_apply)

lemma ex_session_run:
  "\<exists>s. (session_step False 1 ^^ 7) (session_start 1 5 []) s \<and> se_verdict s = Some None \<and> se_exit s = Some None \<and> \<not> se_trouble s"
proof -
  let ?step = "session_step False 1" and ?frame = "HeaderCodePing # frame_bytes helloText 0 7"
  define s0 where "s0 = session_start 1 5 []"
  define s1 where "s1 = s0\<lparr>se_now := 7, se_left := 0, se_requester := \<lparr>rq_sequenceID = 1, rq_buf = ?frame\<rparr>,
    se_payload := Some ?frame, se_sequences := [0 \<mapsto> 7]\<rparr>"
  define s2 where "s2 = s1\<lparr>se_payload := None, se_up := ?frame\<rparr>"
  have inv: "session_inv 1 s0" unfolding s0_def by (rule session_inv_start) simp
  have r01: "?step s0 s1"
    using session_step.store [of s0 0 7 0 7 ?frame "\<lparr>rq_sequenceID = 1, rq_buf = ?frame\<rparr>" False 1]
    by (simp add: s0_def s1_def session_start_def Request_frame word_le_nat_alt)
  have r12: "?step s1 s2" using session_step.write_payload [of s1 ?frame False 1] by (simp add: s2_def s1_def s0_def session_start_def)
  have "(?step ^^ 2) s0 s2" using r01 r12 by (auto simp: numeral_2_eq_2)
  moreover have "\<exists>s. (?step ^^ 5) s2 s \<and> se_verdict s = Some None \<and> se_exit s = Some None \<and> \<not> se_trouble s"
  proof -
    have s2: "se_exit s2 = None" "se_verdict s2 = None" "se_now s2 = 7" "se_up s2 = ?frame" "se_down s2 = []" "se_left s2 = 0"
      "se_payload s2 = None" "\<not> se_stopped s2" "se_server s2 = new_server" "se_read s2 = 0" "se_sequences s2 = [0 \<mapsto> 7]" "\<not> se_cancelled s2" "\<not> se_trouble s2"
      by (simp_all add: s2_def s1_def s0_def session_start_def)
    have "(7 :: u64) \<le> fst (7, 9)" by simp
    from serve_turn_ping [OF this, of 0 "[]" new_server] obtain sv where sv:
      "serve_turn (7, 9) True ?frame new_server = Inr ([], sv)" "sv_written sv = frame_bytes worldText 0 9"
      by (auto simp: new_server_def)
    define s3 where "s3 = s2\<lparr>se_now := 9, se_up := [], se_server := sv, se_down := frame_bytes worldText 0 9\<rparr>"
    define s4 where "s4 = s3\<lparr>se_sequences := Map.empty, se_down := [], se_read := 1\<rparr>"
    define s5 where "s5 = s4\<lparr>se_verdict := Some None, se_cancelled := False\<rparr>"
    define s6 where "s6 = s5\<lparr>se_requester := snd (RequestStop (se_requester s5)), se_stopped := True, se_up := [HeaderCodeStop]\<rparr>"
    define s7 where "s7 = s6\<lparr>se_now := 9, se_server := se_server s6, se_exit := Some None\<rparr>"
    have r23: "?step s2 s3"
      using session_step.answer [of s2 7 9 "[]" sv False 1] sv s2
      by (simp add: s3_def length_frame_bytes new_server_def word_le_nat_alt)
    have chk: "stdlib_check False [0 \<mapsto> 7] (frame_bytes worldText 0 9) = Go_on Map.empty"
      using parse_frame_bytes [of worldText 0 9 "[]"]
      by (simp add: stdlib_check_def ParseResponse_def word_less_nat_alt)
    have r34: "?step s3 s4"
      using session_step.check [of s3 1 False Map.empty] chk s2 by (simp add: s4_def s3_def length_frame_bytes)
    have r45: "?step s4 s5" using session_step.range [of s4 1 None False] s2 by (simp add: s5_def s4_def s3_def)
    have r56: "?step s5 s6"
      using session_step.write_stop [of s5 "[HeaderCodeStop]" "snd (RequestStop (se_requester s5))" False 1] s2
      by (simp add: s6_def s5_def s4_def s3_def RequestStop_frame)
    have r67: "?step s6 s7"
      using session_step.leave [of s6 9 9 None "se_server s6" False 1] s2 serve_turn_stop
      by (simp add: s7_def s6_def s5_def s4_def s3_def)
    have "(?step ^^ 5) s2 s7" 
      by (rule five_steps [where P = ?step, OF r23 r34 r45 r56 r67])
    then show ?thesis by (intro exI [of _ s7]) (simp add: s7_def s6_def s5_def s4_def s3_def s2)
  qed
  ultimately obtain s where "(?step ^^ (2 + 5)) s0 s" "se_verdict s = Some None" "se_exit s = Some None" "\<not> se_trouble s"
    unfolding relpowp_add by blast
  then show ?thesis unfolding s0_def by auto
qed

theorem echo_never_fails_witness:
  "\<exists>s. (session_step False 1)\<^sup>*\<^sup>* (session_start 1 5 []) s \<and> sv_handled (se_server s) = 1 \<and> se_sequences s = Map.empty"
proof -
  obtain s where s: "(session_step False 1 ^^ 7) (session_start 1 5 []) s" "se_verdict s = Some None" "se_exit s = Some None" "\<not> se_trouble s"
    using ex_session_run by blast
  have reach: "(session_step False 1)\<^sup>*\<^sup>* (session_start 1 5 []) s" using s(1) by (rule relpowp_imp_rtranclp)
  show ?thesis using echo_never_fails [OF _ reach s(4)] s(2,3) reach by auto
qed

theorem echo_session_terminates_witness:
  "\<exists>s. (session_step False 1 ^^ 7) (session_start 1 5 []) s \<and> 7 \<le> 100 * (1::nat) + 12 \<and>
     ((\<exists>s'. session_step False 1 s s' \<and> \<not> se_trouble s') \<or> se_exit s = Some None \<and> se_verdict s = Some None)"
proof -
  obtain s where s: "(session_step False 1 ^^ 7) (session_start 1 5 []) s" "\<not> se_trouble s" using ex_session_run by blast
  show ?thesis using echo_session_terminates [OF _ s] s by (intro exI [of _ s]) simp
qed

end
