(* ===== verification/Echo_Workload.thy ===== *)
theory Echo_Workload
  imports Echo_Session
begin

text \<open>
  \<open>runWorkload\<close> of \<open>internal/cmd/echo/netring_client.go\<close>: the sender's and the receiver's goroutine in
  one group, with its cancellation. They are interleaved at their looks at the context, their accesses to
  the shared map and their calls of \<open>Send\<close>, \<open>FlushFDSends\<close> and \<open>Recv\<close>, whose results are
  free; what a view holds is checked in one step. The first error of the two is the group's and cancels the
  other, which sees it only when it looks: a receiver inside \<open>Recv\<close> waits on.
\<close>

section \<open>The group\<close>

datatype workload_error = Create_requester | Send_request u64 | Send_stop | Flush_requests | Check_responses client_error

text \<open>A sender with so many requests left: at its look at the context, or with one stored and not yet sent.\<close>

datatype sender_phase = Sender_looks nat | Sender_sends nat u64 "u8 list" | Sender_flushes | Sender_returned

datatype receiver_phase = Receiver_looks | Receiver_receives | Receiver_returned

record workload =
  wl_sender :: sender_phase
  wl_receiver :: receiver_phase
  wl_requester :: RequestBuilder
  wl_client :: client
  wl_carry :: "u8 list"
  wl_sent :: "u8 list"
  wl_cancelled :: bool
  wl_outside :: bool
  wl_err :: "workload_error option"

text \<open>
  The map of \<open>wl_client\<close> is the one both share; \<open>wl_sent\<close> is what was handed to \<open>Send\<close>;
  \<open>wl_outside\<close> tells that the caller's context was cancelled. \<open>worker_returns\<close> is what the group does with the result of a goroutine.
\<close>

definition worker_returns :: "workload_error option \<Rightarrow> workload \<Rightarrow> workload" where
  "worker_returns err w = (case err of None \<Rightarrow> w
     | Some e \<Rightarrow> if wl_err w = None then w\<lparr>wl_err := Some e, wl_cancelled := True\<rparr> else w)"

definition store_request :: "u64 \<Rightarrow> u64 \<Rightarrow> workload \<Rightarrow> workload" where
  "store_request sequenceID clientTime w =
     w\<lparr>wl_client := (wl_client w)\<lparr>cl_sequences := (cl_sequences (wl_client w))(sequenceID \<mapsto> clientTime)\<rparr>\<rparr>"

inductive workload_step :: "nat \<Rightarrow> workload \<Rightarrow> workload \<Rightarrow> bool" for requestsNo :: nat where
  send_next: "wl_sender w = Sender_looks (Suc n) \<Longrightarrow> \<not> wl_cancelled w \<Longrightarrow>
    Request now (wl_requester w) = ((sequenceID, clientTime, payload), requester) \<Longrightarrow>
    workload_step requestsNo w ((store_request sequenceID clientTime w)\<lparr>wl_requester := requester, wl_sender := Sender_sends n sequenceID payload\<rparr>)"
| send_cancelled: "wl_sender w = Sender_looks (Suc n) \<Longrightarrow> wl_cancelled w \<Longrightarrow>
    workload_step requestsNo w (w\<lparr>wl_sender := Sender_returned\<rparr>)"
| send_done: "wl_sender w = Sender_sends n sequenceID payload \<Longrightarrow>
    workload_step requestsNo w (w\<lparr>wl_sender := Sender_looks n, wl_sent := wl_sent w @ payload\<rparr>)"
| send_failed: "wl_sender w = Sender_sends n sequenceID payload \<Longrightarrow>
    workload_step requestsNo w (worker_returns (Some (Send_request sequenceID)) (w\<lparr>wl_sender := Sender_returned\<rparr>))"
| stop_sent: "wl_sender w = Sender_looks 0 \<Longrightarrow> RequestStop (wl_requester w) = (frame, requester) \<Longrightarrow>
    workload_step requestsNo w (w\<lparr>wl_sender := Sender_flushes, wl_requester := requester, wl_sent := wl_sent w @ frame\<rparr>)"
| stop_failed: "wl_sender w = Sender_looks 0 \<Longrightarrow>
    workload_step requestsNo w (worker_returns (Some Send_stop) (w\<lparr>wl_sender := Sender_returned\<rparr>))"
| flushed: "wl_sender w = Sender_flushes \<Longrightarrow> err = None \<or> err = Some Flush_requests \<Longrightarrow>
    workload_step requestsNo w (worker_returns err (w\<lparr>wl_sender := Sender_returned\<rparr>))"
| recv_enters: "wl_receiver w = Receiver_looks \<Longrightarrow> cl_processed (wl_client w) < requestsNo \<Longrightarrow> \<not> wl_cancelled w \<Longrightarrow>
    workload_step requestsNo w (w\<lparr>wl_receiver := Receiver_receives\<rparr>)"
| recv_cancelled: "wl_receiver w = Receiver_looks \<Longrightarrow> cl_processed (wl_client w) < requestsNo \<Longrightarrow> wl_cancelled w \<Longrightarrow>
    workload_step requestsNo w (w\<lparr>wl_receiver := Receiver_returned\<rparr>)"
| recv_checked: "wl_receiver w = Receiver_receives \<Longrightarrow> receive requestsNo [r] (wl_client w, wl_carry w) = Inr (c, carry) \<Longrightarrow>
    workload_step requestsNo w (w\<lparr>wl_receiver := Receiver_looks, wl_client := c, wl_carry := carry\<rparr>)"
| recv_failed: "wl_receiver w = Receiver_receives \<Longrightarrow> receive requestsNo [r] (wl_client w, wl_carry w) = Inl e \<Longrightarrow>
    workload_step requestsNo w (worker_returns (Some (Check_responses e)) (w\<lparr>wl_receiver := Receiver_returned\<rparr>))"
| recv_finished: "wl_receiver w = Receiver_looks \<Longrightarrow> \<not> cl_processed (wl_client w) < requestsNo \<Longrightarrow>
    err = (case finish_check (wl_client w) of Inl e \<Rightarrow> Some (Check_responses e) | Inr c \<Rightarrow> None) \<Longrightarrow>
    workload_step requestsNo w (worker_returns err (w\<lparr>wl_receiver := Receiver_returned\<rparr>))"
| outside: "workload_step requestsNo w (w\<lparr>wl_cancelled := True, wl_outside := True\<rparr>)"

inductive_cases workload_step_cases: "workload_step requestsNo w w'"

definition workload_start :: "nat \<Rightarrow> u8 list \<Rightarrow> workload" where
  "workload_start requestsNo buf = \<lparr>wl_sender = Sender_looks requestsNo, wl_receiver = Receiver_looks,
     wl_requester = \<lparr>rq_sequenceID = 0, rq_buf = buf\<rparr>,
     wl_client = \<lparr>cl_sequences = Map.empty, cl_deleted = [], cl_processed = 0\<rparr>, wl_carry = [], wl_sent = [],
     wl_cancelled = False, wl_outside = False, wl_err = None\<rparr>"

text \<open>With less than one request \<open>testprotocol.New\<close> refuses and the group is not started.\<close>

definition begin_workload :: "nat \<Rightarrow> workload_error + workload" where
  "begin_workload requestsNo = (case new_requests (int requestsNo) of Inl n \<Rightarrow> Inl Create_requester
     | Inr requester \<Rightarrow> Inr (workload_start requestsNo (rq_buf requester)))"

text \<open>The wait for the group ends when both have returned, with the group's error.\<close>

definition group_done :: "workload \<Rightarrow> bool" where
  "group_done w \<longleftrightarrow> wl_sender w = Sender_returned \<and> wl_receiver w = Receiver_returned"

section \<open>Counting requests\<close>

text \<open>
  Every number handed out so far is in the map or among the deleted ones, and the map has no more
  entries than requests were stored and not yet answered.
\<close>

definition counted :: "nat \<Rightarrow> client \<Rightarrow> bool" where
  "counted k c \<longleftrightarrow> finite (dom (cl_sequences c)) \<and> card (dom (cl_sequences c)) + cl_processed c \<le> k \<and>
     dom (cl_sequences c) \<union> set (cl_deleted c) = (of_nat :: nat \<Rightarrow> u64) ` {..<k}"

lemma counted_check_frame:
  assumes "counted k c" and "check_frame c frame = Inr c'"
  shows "counted k c'"
proof -
  obtain s t where s: "cl_sequences c s = Some t" "c' = c\<lparr>cl_sequences := (cl_sequences c)(s := None),
      cl_deleted := List.insert s (cl_deleted c), cl_processed := cl_processed c + 1\<rparr>"
    using assms(2) by (auto simp: check_frame_def split: sum.splits prod.splits option.splits if_splits)
  have sD: "s \<in> dom (cl_sequences c)" and fin: "finite (dom (cl_sequences c))" using s(1) assms(1) by (auto simp: counted_def)
  have dom': "dom (cl_sequences c') = dom (cl_sequences c) - {s}" and del': "set (cl_deleted c') = insert s (set (cl_deleted c))"
    and proc': "cl_processed c' = cl_processed c + 1"
    by (simp_all add: s(2))
  have card: "Suc (card (dom (cl_sequences c) - {s})) = card (dom (cl_sequences c))" by (rule card_Suc_Diff1 [OF fin sD])
  have union: "dom (cl_sequences c) - {s} \<union> insert s (set (cl_deleted c)) = dom (cl_sequences c) \<union> set (cl_deleted c)" using sD by blast
  show ?thesis using assms(1) card fin unfolding counted_def dom' del' proc' union by simp
qed

lemma counted_check_frames: "counted k c \<Longrightarrow> check_frames n c work = Inr (c', rest) \<Longrightarrow> counted k c'"
proof (induction n c work rule: check_frames.induct)
  case (1 n c work)
  show ?case
  proof (cases "responseFrameSize \<le> length work \<and> cl_processed c < n")
    case True
    then obtain c1 where "check_frame c (take responseFrameSize work) = Inr c1"
      "check_frames n c1 (drop responseFrameSize work) = Inr (c', rest)"
      using 1(3) by (subst (asm) check_frames.simps) (auto split: sum.splits)
    then show ?thesis using 1(1) [OF True] counted_check_frame [OF 1(2)] by blast
  next
    case False
    then have "c' = c" using 1(3) by (subst (asm) check_frames.simps) auto
    then show ?thesis using 1(2) by simp
  qed
qed

lemma counted_receive: "counted k c \<Longrightarrow> receive n [r] (c, carry) = Inr (c', carry') \<Longrightarrow> counted k c'"
  by (auto simp: counted_check_frames split: if_splits recv_result.splits sum.splits)

lemma counted_store:
  assumes "counted k c"
  shows "counted (Suc k) (c\<lparr>cl_sequences := (cl_sequences c)(of_nat k \<mapsto> t)\<rparr>)"
proof -
  have "card (insert (of_nat k) (dom (cl_sequences c))) \<le> Suc (card (dom (cl_sequences c)))"
    by (rule card_insert_le_m1) simp_all
  moreover have "(of_nat :: nat \<Rightarrow> u64) ` {..<Suc k} = insert (of_nat k) (of_nat ` {..<k})" by (simp add: lessThan_Suc)
  ultimately show ?thesis using assms by (auto simp: counted_def)
qed

text \<open>With all answered the map is empty: the final check cannot fail.\<close>

lemma counted_all:
  assumes "counted k c" and "k \<le> n" and "n \<le> cl_processed c"
  shows "k = n" "cl_processed c = n" "cl_sequences c = Map.empty" "set (cl_deleted c) = (of_nat :: nat \<Rightarrow> u64) ` {..<n}"
proof -
  have c: "finite (dom (cl_sequences c))" "card (dom (cl_sequences c)) + cl_processed c \<le> k"
    "dom (cl_sequences c) \<union> set (cl_deleted c) = (of_nat :: nat \<Rightarrow> u64) ` {..<k}"
    using assms(1) by (simp_all add: counted_def)
  show k: "k = n" "cl_processed c = n" using c(2) assms(2,3) by linarith+
  have "card (dom (cl_sequences c)) = 0" using c(2) k by linarith
  then have "dom (cl_sequences c) = {}" using c(1) by simp
  then show "cl_sequences c = Map.empty" "set (cl_deleted c) = (of_nat :: nat \<Rightarrow> u64) ` {..<n}" using c(3) k(1) by auto
qed

section \<open>The invariant\<close>

lemma numbered_snoc: "numbered s (ts @ [t]) = numbered s ts @ [(s + of_nat (length ts), t)]"
  by (induction ts arbitrary: s) (auto simp: add.assoc)

text \<open>How many requests are stored, what was sent, and the payload at hand.\<close>

definition sending :: "nat \<Rightarrow> workload \<Rightarrow> nat \<Rightarrow> bool" where
  "sending N w k \<longleftrightarrow> k \<le> N \<and> (case wl_sender w of
     Sender_looks n \<Rightarrow> k + n = N \<and> rq_sequenceID (wl_requester w) = of_nat k \<and>
       (\<exists>ts. length ts = k \<and> wl_sent w = request_stream (numbered 0 ts))
   | Sender_sends n s payload \<Rightarrow> k + n = N \<and> rq_sequenceID (wl_requester w) = of_nat k \<and>
       (\<exists>ts t. Suc (length ts) = k \<and> wl_sent w = request_stream (numbered 0 ts) \<and> payload = request_stream [(of_nat (length ts), t)])
   | Sender_flushes \<Rightarrow> k = N \<and> (\<exists>ts. length ts = N \<and> wl_sent w = request_stream (numbered 0 ts) @ [HeaderCodeStop])
   | Sender_returned \<Rightarrow> wl_cancelled w \<or> (\<exists>ts. length ts = N \<and> wl_sent w = request_stream (numbered 0 ts) @ [HeaderCodeStop]))"

definition workload_inv :: "nat \<Rightarrow> workload \<Rightarrow> bool" where
  "workload_inv N w \<longleftrightarrow> (\<exists>k. sending N w k \<and> counted k (wl_client w)) \<and>
     (wl_cancelled w \<longleftrightarrow> wl_outside w \<or> wl_err w \<noteq> None) \<and>
     (wl_receiver w = Receiver_returned \<longrightarrow> wl_cancelled w \<or> N \<le> cl_processed (wl_client w))"

lemma workload_inv_start: "workload_inv N (workload_start N buf)"
  by (auto simp: workload_inv_def workload_start_def sending_def counted_def intro!: exI [of _ 0])

lemma worker_returns_simps [simp]:
  "wl_sender (worker_returns err w) = wl_sender w" "wl_receiver (worker_returns err w) = wl_receiver w"
  "wl_client (worker_returns err w) = wl_client w" "wl_sent (worker_returns err w) = wl_sent w"
  "wl_requester (worker_returns err w) = wl_requester w" "wl_outside (worker_returns err w) = wl_outside w"
  "wl_cancelled (worker_returns err w) \<longleftrightarrow> wl_cancelled w \<or> err \<noteq> None \<and> wl_err w = None"
  "wl_err (worker_returns err w) = (if wl_err w = None then err else wl_err w)"
  by (auto simp: worker_returns_def split: option.splits)

lemma workload_invI:
  assumes "sending N w k" and "counted k (wl_client w)" and "wl_cancelled w \<longleftrightarrow> wl_outside w \<or> wl_err w \<noteq> None"
    and "wl_receiver w = Receiver_returned \<Longrightarrow> wl_cancelled w \<or> N \<le> cl_processed (wl_client w)"
  shows "workload_inv N w"
  using assms unfolding workload_inv_def by blast

text \<open>A step of the receiver, or a cancellation, leaves the sender's part alone.\<close>

lemma sending_frame:
  assumes "sending N w k" and "wl_sender w' = wl_sender w" and "wl_requester w' = wl_requester w" and "wl_sent w' = wl_sent w"
    and "wl_cancelled w \<Longrightarrow> wl_cancelled w'"
  shows "sending N w' k"
  using assms by (auto simp: sending_def split: sender_phase.splits)

lemma workload_inv_step:
  assumes step: "workload_step N w w'" and inv: "workload_inv N w"
  shows "workload_inv N w'"
proof -
  obtain k where s: "sending N w k" and c: "counted k (wl_client w)" and can: "wl_cancelled w \<longleftrightarrow> wl_outside w \<or> wl_err w \<noteq> None"
    and rec: "wl_receiver w = Receiver_returned \<Longrightarrow> wl_cancelled w \<or> N \<le> cl_processed (wl_client w)"
    using inv unfolding workload_inv_def by blast
  show ?thesis
    using step
  proof cases
    case (send_next n now sequenceID clientTime payload requester)
    have k: "k + Suc n = N" "rq_sequenceID (wl_requester w) = of_nat k"
      and ts: "\<exists>ts. length ts = k \<and> wl_sent w = request_stream (numbered 0 ts)"
      using s send_next(2) by (simp_all add: sending_def)
    have r: "sequenceID = of_nat k" "payload = request_stream [(of_nat k, now)]" "rq_sequenceID requester = of_nat (Suc k)"
      using send_next(4) k(2) by (auto simp: Request_frame)
    show ?thesis
    proof (rule workload_invI)
      show "sending N w' (Suc k)" using k ts r by (auto simp: sending_def send_next(1) store_request_def)
      show "counted (Suc k) (wl_client w')" using counted_store [OF c] r(1) by (simp add: send_next(1) store_request_def)
    qed (use can rec in \<open>simp_all add: send_next(1) store_request_def\<close>)
  next
    case (send_cancelled n)
    show ?thesis
    proof (rule workload_invI)
      show "sending N w' k" using s send_cancelled by (simp add: sending_def)
      show "counted k (wl_client w')" using c send_cancelled(1) by simp
    qed (use can rec send_cancelled(1) in simp_all)
  next
    case (send_done n sequenceID payload)
    obtain ts t where ts: "Suc (length ts) = k" "wl_sent w = request_stream (numbered 0 ts)" "payload = request_stream [(of_nat (length ts), t)]"
      and k: "k + n = N" "rq_sequenceID (wl_requester w) = of_nat k"
      using s send_done(2) by (auto simp: sending_def)
    have "length (ts @ [t]) = k" "wl_sent w @ payload = request_stream (numbered 0 (ts @ [t]))"
      using ts by (simp_all add: numbered_snoc)
    then have ts': "\<exists>ts. length ts = k \<and> wl_sent w @ payload = request_stream (numbered 0 ts)" by blast
    show ?thesis
    proof (rule workload_invI)
      show "sending N w' k" using k ts' by (simp add: sending_def send_done(1))
      show "counted k (wl_client w')" using c send_done(1) by simp
    qed (use can rec send_done(1) in simp_all)
  next
    case (send_failed n sequenceID payload)
    have "wl_cancelled w'" using send_failed(1) can by auto
    then show ?thesis
      by (intro workload_invI [of _ _ k]) (use s c can rec send_failed(1) in \<open>auto simp: sending_def\<close>)
  next
    case (stop_sent frame requester)
    then show ?thesis
      by (intro workload_invI [of _ _ k]) (use s c can rec in \<open>auto simp: sending_def RequestStop_frame\<close>)
  next
    case stop_failed
    have "wl_cancelled w'" using stop_failed(1) can by auto
    then show ?thesis
      by (intro workload_invI [of _ _ k]) (use s c can rec stop_failed(1) in \<open>auto simp: sending_def\<close>)
  next
    case (flushed err)
    then show ?thesis
      by (intro workload_invI [of _ _ k]) (use s c can rec in \<open>auto simp: sending_def\<close>)
  next
    case recv_enters
    then show ?thesis
      by (intro workload_invI [of _ _ k] sending_frame [OF s]) (use c can in simp_all)
  next
    case recv_cancelled
    then show ?thesis
      by (intro workload_invI [of _ _ k] sending_frame [OF s]) (use c can in simp_all)
  next
    case (recv_checked r c1 carry)
    then show ?thesis
      by (intro workload_invI [of _ _ k] sending_frame [OF s]) (use counted_receive [OF c] can in simp_all)
  next
    case (recv_failed r e)
    then show ?thesis
      by (intro workload_invI [of _ _ k] sending_frame [OF s]) (use c can in auto)
  next
    case (recv_finished err)
    then show ?thesis
      by (intro workload_invI [of _ _ k] sending_frame [OF s]) (use c can in auto)
  next
    case outside
    then show ?thesis
      by (intro workload_invI [of _ _ k] sending_frame [OF s]) (use c can rec in auto)
  qed
qed

lemma workload_inv_run: "(workload_step N)\<^sup>*\<^sup>* (workload_start N buf) w \<Longrightarrow> workload_inv N w"
  by (induction rule: rtranclp_induct) (auto intro: workload_inv_start workload_inv_step)

section \<open>Example\<close>

text \<open>One request, answered at time 9.\<close>

definition ex_answer :: "u8 list" where
  "ex_answer = frame_bytes worldText 0 9"

definition ex_workload :: workload where
  "ex_workload = \<lparr>wl_sender = Sender_returned, wl_receiver = Receiver_returned,
     wl_requester = \<lparr>rq_sequenceID = 1, rq_buf = request_stream [(0, 5)] @ [HeaderCodeStop]\<rparr>,
     wl_client = \<lparr>cl_sequences = Map.empty, cl_deleted = [0], cl_processed = 1\<rparr>, wl_carry = [],
     wl_sent = request_stream [(0, 5)] @ [HeaderCodeStop],
     wl_cancelled = False, wl_outside = False, wl_err = None\<rparr>"

lemma ex_receive: "receive 1 [View ex_answer] (\<lparr>cl_sequences = [0 \<mapsto> 5], cl_deleted = [], cl_processed = 0\<rparr>, []) =
  Inr (\<lparr>cl_sequences = Map.empty, cl_deleted = [0], cl_processed = 1\<rparr>, [])"
proof -
  let ?c = "\<lparr>cl_sequences = [0 \<mapsto> 5], cl_deleted = [], cl_processed = 0\<rparr>"
  have len: "length ex_answer = 21" by (simp add: ex_answer_def length_frame_bytes)
  have "ParseResponse ex_answer = Inr (0, 9)"
    using parse_frame_bytes [of worldText 0 9 "[]"] by (simp add: ParseResponse_def ex_answer_def)
  then have "check_frame ?c ex_answer = Inr \<lparr>cl_sequences = Map.empty, cl_deleted = [0], cl_processed = 1\<rparr>"
    by (simp add: check_frame_def word_less_nat_alt)
  then have "check_frames 1 ?c ex_answer = Inr (\<lparr>cl_sequences = Map.empty, cl_deleted = [0], cl_processed = 1\<rparr>, [])"
    using len by (subst check_frames.simps) (simp add: responseFrameSize_def check_frames_done)
  then show ?thesis by simp
qed

lemma ex_workload_run: "(workload_step 1)\<^sup>*\<^sup>* (workload_start 1 []) ex_workload"
proof -
  let ?w0 = "workload_start 1 []"
  let ?p = "request_stream [(0, 5)]"
  let ?rq1 = "\<lparr>rq_sequenceID = 1, rq_buf = ?p\<rparr>"
  let ?w1 = "(store_request 0 5 ?w0)\<lparr>wl_requester := ?rq1, wl_sender := Sender_sends 0 0 ?p\<rparr>"
  let ?w2 = "?w1\<lparr>wl_sender := Sender_looks 0, wl_sent := ?p\<rparr>"
  let ?w3 = "?w2\<lparr>wl_sender := Sender_flushes, wl_requester := \<lparr>rq_sequenceID = 1, rq_buf = ?p @ [HeaderCodeStop]\<rparr>,
    wl_sent := ?p @ [HeaderCodeStop]\<rparr>"
  let ?w4 = "?w3\<lparr>wl_sender := Sender_returned\<rparr>"
  let ?w5 = "?w4\<lparr>wl_receiver := Receiver_receives\<rparr>"
  let ?w6 = "?w5\<lparr>wl_receiver := Receiver_looks, wl_client := \<lparr>cl_sequences = Map.empty, cl_deleted = [0], cl_processed = 1\<rparr>, wl_carry := []\<rparr>"
  note s = workload_start_def store_request_def
  have "(workload_step 1)\<^sup>*\<^sup>* ?w0 ?w1"
    by (rule r_into_rtranclp, rule send_next [of _ 0 5]) (simp_all add: s Request_frame)
  also have "workload_step 1 ?w1 ?w2"
    using send_done [of ?w1 0 0 ?p 1] by (simp add: s)
  also (rtranclp.rtrancl_into_rtrancl) have "workload_step 1 ?w2 ?w3"
    using stop_sent [of ?w2 "[HeaderCodeStop]" "\<lparr>rq_sequenceID = 1, rq_buf = ?p @ [HeaderCodeStop]\<rparr>" 1]
    by (simp add: s RequestStop_frame)
  also (rtranclp.rtrancl_into_rtrancl) have "workload_step 1 ?w3 ?w4"
    using flushed [of ?w3 None 1] by (simp add: s worker_returns_def)
  also (rtranclp.rtrancl_into_rtrancl) have "workload_step 1 ?w4 ?w5"
    using recv_enters [of ?w4 1] by (simp add: s)
  also (rtranclp.rtrancl_into_rtrancl) have "workload_step 1 ?w5 ?w6"
    by (rule recv_checked [of _ _ "View ex_answer"]) (use ex_receive in \<open>simp_all add: s\<close>)
  also (rtranclp.rtrancl_into_rtrancl) have "workload_step 1 ?w6 ex_workload"
    using recv_finished [of ?w6 1 None] by (simp add: s finish_check_def worker_returns_def ex_workload_def)
  finally (rtranclp.rtrancl_into_rtrancl) show ?thesis .
qed

section \<open>Properties\<close>

text \<open>C35. When the client's group ends without an error and nobody cancelled it from outside, everything was
  done: the requests \<open>0\<close> to \<open>requestsNo - 1\<close> and the stop frame were handed to \<open>Send\<close>, in
  this order, and every request has got one answer, of its own number and not older than itself; the map is empty.\<close>

theorem quiet_workload_is_complete:
  assumes "(workload_step requestsNo)\<^sup>*\<^sup>* (workload_start requestsNo buf) w"
    and "group_done w" and "wl_err w = None" and "\<not> wl_outside w"
  shows "cl_processed (wl_client w) = requestsNo \<and> set (cl_deleted (wl_client w)) = of_nat ` {..<requestsNo} \<and>
    cl_sequences (wl_client w) = Map.empty \<and>
    (\<exists>ts. length ts = requestsNo \<and> wl_sent w = request_stream (numbered 0 ts) @ [HeaderCodeStop])"
proof -
  have inv: "workload_inv requestsNo w" by (rule workload_inv_run [OF assms(1)])
  then obtain k where k: "sending requestsNo w k" "counted k (wl_client w)" by (auto simp: workload_inv_def)
  have quiet: "\<not> wl_cancelled w" "requestsNo \<le> cl_processed (wl_client w)"
    using inv assms(2-4) by (auto simp: workload_inv_def group_done_def)
  have "k \<le> requestsNo" using k(1) by (simp add: sending_def)
  from counted_all [OF k(2) this quiet(2)] show ?thesis
    using k(1) quiet(1) assms(2) by (auto simp: sending_def group_done_def)
qed

theorem quiet_workload_is_complete_witness:
  "cl_processed (wl_client ex_workload) = 1 \<and> set (cl_deleted (wl_client ex_workload)) = {0} \<and>
   (\<exists>t. wl_sent ex_workload = request_stream [(0, t)] @ [HeaderCodeStop])"
proof -
  have "group_done ex_workload" "wl_err ex_workload = None" "\<not> wl_outside ex_workload"
    by (simp_all add: group_done_def ex_workload_def)
  from quiet_workload_is_complete [OF ex_workload_run this] obtain ts where
    "cl_processed (wl_client ex_workload) = 1" "set (cl_deleted (wl_client ex_workload)) = of_nat ` {..<1}"
    "length ts = 1" "wl_sent ex_workload = request_stream (numbered 0 ts) @ [HeaderCodeStop]"
    by blast
  then show ?thesis by (auto simp: length_Suc_conv lessThan_Suc)
qed

text \<open>A cancellation from outside ends the group without an error though nothing was sent or answered.\<close>

theorem cancelled_workload_reports_success:
  "\<exists>w. (workload_step (Suc n))\<^sup>*\<^sup>* (workload_start (Suc n) buf) w \<and> group_done w \<and> wl_err w = None \<and>
     wl_sent w = [] \<and> cl_processed (wl_client w) = 0"
proof -
  let ?w0 = "workload_start (Suc n) buf"
  let ?w1 = "?w0\<lparr>wl_cancelled := True, wl_outside := True\<rparr>"
  let ?w2 = "?w1\<lparr>wl_sender := Sender_returned\<rparr>"
  let ?w3 = "?w2\<lparr>wl_receiver := Receiver_returned\<rparr>"
  have "(workload_step (Suc n))\<^sup>*\<^sup>* ?w0 ?w1" by (rule r_into_rtranclp, rule outside)
  also have "workload_step (Suc n) ?w1 ?w2" by (rule send_cancelled) (simp_all add: workload_start_def)
  also (rtranclp.rtrancl_into_rtrancl) have "workload_step (Suc n) ?w2 ?w3" by (rule recv_cancelled) (simp_all add: workload_start_def)
  finally (rtranclp.rtrancl_into_rtrancl) have "(workload_step (Suc n))\<^sup>*\<^sup>* ?w0 ?w3" .
  then show ?thesis by (intro exI [of _ ?w3]) (simp add: group_done_def workload_start_def)
qed

end
