(* ===== verification/Stdlib_Group.thy ===== *)
theory Stdlib_Group
  imports Stdlib_Session Echo_Workload
begin

text \<open>
  The client over the standard library (\<open>internal/cmd/echo/stdlib_client.go\<close>) against any peer and any
  network: its two goroutines as one group with its cancellation, interleaved at their looks at the context,
  their accesses to the shared map, their reads and their writes, which may fail, as they do at the latest
  when the connection's deadline has passed. \<open>Stdlib_Session\<close> is the same client against the server of \<open>main.go\<close>.
\<close>

section \<open>The group\<close>

datatype stdlib_error = Std_send_request u64 | Std_send_stop | Check_response client_error

text \<open>The sender is that of \<open>Echo_Workload\<close> without the flush; a receiver has so many responses left, and looks or reads.\<close>

datatype std_receiver = Std_looks nat | Std_reads nat | Std_returned

record stdlib_group =
  sg_sender :: sender_phase
  sg_receiver :: std_receiver
  sg_requester :: RequestBuilder
  sg_sequences :: "u64 \<rightharpoonup> u64"
  sg_sent :: "u8 list"
  sg_read :: nat
  sg_cancelled :: bool
  sg_outside :: bool
  sg_err :: "stdlib_error option"

text \<open>
  \<open>sg_sent\<close> is what was written to the connection, of a write that failed perhaps a part; \<open>sg_read\<close> counts
  the responses that passed their check; \<open>sg_outside\<close> tells that the caller's context was cancelled.
\<close>

definition std_returns :: "stdlib_error option \<Rightarrow> stdlib_group \<Rightarrow> stdlib_group" where
  "std_returns err s = (case err of None \<Rightarrow> s
     | Some e \<Rightarrow> if sg_err s = None then s\<lparr>sg_err := Some e, sg_cancelled := True\<rparr> else s)"

inductive std_step :: "bool \<Rightarrow> stdlib_group \<Rightarrow> stdlib_group \<Rightarrow> bool" for wraps_nil :: bool where
  std_store: "sg_sender s = Sender_looks (Suc n) \<Longrightarrow> \<not> sg_cancelled s \<Longrightarrow>
    Request now (sg_requester s) = ((sequenceID, clientTime, payload), requester) \<Longrightarrow>
    std_step wraps_nil s (s\<lparr>sg_sequences := (sg_sequences s)(sequenceID \<mapsto> clientTime), sg_requester := requester,
      sg_sender := Sender_sends n sequenceID payload\<rparr>)"
| std_send_cancelled: "sg_sender s = Sender_looks (Suc n) \<Longrightarrow> sg_cancelled s \<Longrightarrow>
    std_step wraps_nil s (s\<lparr>sg_sender := Sender_returned\<rparr>)"
| std_written: "sg_sender s = Sender_sends n sequenceID payload \<Longrightarrow>
    std_step wraps_nil s (s\<lparr>sg_sender := Sender_looks n, sg_sent := sg_sent s @ payload\<rparr>)"
| std_write_failed: "sg_sender s = Sender_sends n sequenceID payload \<Longrightarrow>
    std_step wraps_nil s (std_returns (Some (Std_send_request sequenceID))
      (s\<lparr>sg_sender := Sender_returned, sg_sent := sg_sent s @ take j payload\<rparr>))"
| std_stop_written: "sg_sender s = Sender_looks 0 \<Longrightarrow> RequestStop (sg_requester s) = (frame, requester) \<Longrightarrow>
    std_step wraps_nil s (s\<lparr>sg_sender := Sender_returned, sg_requester := requester, sg_sent := sg_sent s @ frame\<rparr>)"
| std_stop_failed: "sg_sender s = Sender_looks 0 \<Longrightarrow> RequestStop (sg_requester s) = (frame, requester) \<Longrightarrow>
    std_step wraps_nil s (std_returns (Some Std_send_stop) (s\<lparr>sg_sender := Sender_returned, sg_requester := requester\<rparr>))"
| std_look: "sg_receiver s = Std_looks (Suc n) \<Longrightarrow> \<not> sg_cancelled s \<Longrightarrow>
    std_step wraps_nil s (s\<lparr>sg_receiver := Std_reads n\<rparr>)"
| std_read_cancelled: "sg_receiver s = Std_looks (Suc n) \<Longrightarrow> sg_cancelled s \<Longrightarrow>
    std_step wraps_nil s (s\<lparr>sg_receiver := Std_returned\<rparr>)"
| std_read_failed: "sg_receiver s = Std_reads n \<Longrightarrow>
    std_step wraps_nil s (std_returns (Some (Check_response Read_response)) (s\<lparr>sg_receiver := Std_returned\<rparr>))"
| std_checked: "sg_receiver s = Std_reads n \<Longrightarrow> length buf = 21 \<Longrightarrow>
    stdlib_check wraps_nil (sg_sequences s) buf = Go_on sequences \<Longrightarrow>
    std_step wraps_nil s (s\<lparr>sg_receiver := Std_looks n, sg_sequences := sequences, sg_read := sg_read s + 1\<rparr>)"
| std_refused: "sg_receiver s = Std_reads n \<Longrightarrow> length buf = 21 \<Longrightarrow>
    stdlib_check wraps_nil (sg_sequences s) buf = Return v \<Longrightarrow>
    std_step wraps_nil s (std_returns (map_option Check_response v) (s\<lparr>sg_receiver := Std_returned\<rparr>))"
| std_range: "sg_receiver s = Std_looks 0 \<Longrightarrow>
    std_step wraps_nil s (std_returns (if sg_sequences s = Map.empty then None else Some (Check_response Not_responded))
      (s\<lparr>sg_receiver := Std_returned\<rparr>))"
| std_outside: "std_step wraps_nil s (s\<lparr>sg_cancelled := True, sg_outside := True\<rparr>)"

definition std_start :: "nat \<Rightarrow> u8 list \<Rightarrow> stdlib_group" where
  "std_start requestsNo buf = \<lparr>sg_sender = Sender_looks requestsNo, sg_receiver = Std_looks requestsNo,
     sg_requester = \<lparr>rq_sequenceID = 0, rq_buf = buf\<rparr>, sg_sequences = Map.empty, sg_sent = [], sg_read = 0,
     sg_cancelled = False, sg_outside = False, sg_err = None\<rparr>"

text \<open>The wait for the group ends when both have returned, with the group's error.\<close>

definition std_done :: "stdlib_group \<Rightarrow> bool" where
  "std_done s \<longleftrightarrow> sg_sender s = Sender_returned \<and> sg_receiver s = Std_returned"

lemma std_returns_simps [simp]:
  "sg_sender (std_returns err s) = sg_sender s" "sg_receiver (std_returns err s) = sg_receiver s"
  "sg_sequences (std_returns err s) = sg_sequences s" "sg_sent (std_returns err s) = sg_sent s" "sg_read (std_returns err s) = sg_read s"
  "sg_requester (std_returns err s) = sg_requester s" "sg_outside (std_returns err s) = sg_outside s"
  "sg_cancelled (std_returns err s) \<longleftrightarrow> sg_cancelled s \<or> err \<noteq> None \<and> sg_err s = None"
  "sg_err (std_returns err s) = (if sg_err s = None then err else sg_err s)"
  by (auto simp: std_returns_def split: option.splits)

section \<open>The invariant\<close>

text \<open>A response passes for an entry of the map, and takes it out; so there are no more of them than requests were stored.\<close>

definition std_counted :: "nat \<Rightarrow> (u64 \<rightharpoonup> u64) \<Rightarrow> nat \<Rightarrow> bool" where
  "std_counted k m r \<longleftrightarrow> finite (dom m) \<and> card (dom m) + r \<le> k"

lemma std_counted_check:
  assumes "std_counted k m r" and "stdlib_check wraps_nil m buf = Go_on m'"
  shows "std_counted k m' (r + 1)"
proof -
  obtain i t where i: "m i = Some t" "m' = m(i := None)"
    using assms(2) by (auto simp: stdlib_check_def split: sum.splits prod.splits option.splits if_splits)
  have fin: "finite (dom m)" and iD: "i \<in> dom m" using assms(1) i(1) by (auto simp: std_counted_def)
  have "Suc (card (dom m - {i})) = card (dom m)" by (rule card_Suc_Diff1 [OF fin iD])
  then show ?thesis using assms(1) by (simp add: std_counted_def i(2))
qed

lemma std_counted_store:
  assumes "std_counted k m r"
  shows "std_counted (Suc k) (m(i \<mapsto> t)) r"
proof -
  have "card (insert i (dom m)) \<le> Suc (card (dom m))" by (rule card_insert_le_m1) simp_all
  then show ?thesis using assms by (auto simp: std_counted_def)
qed

lemma std_counted_all:
  assumes "std_counted k m n" and "k \<le> n"
  shows "m = Map.empty"
proof -
  have fin: "finite (dom m)" and "card (dom m) + n \<le> k" using assms(1) by (simp_all add: std_counted_def)
  moreover from this(2) assms(2) have "card (dom m) = 0" by linarith
  ultimately have "dom m = {}" by (simp only: card_0_eq)
  then show ?thesis by simp
qed

text \<open>What the sender has stored and written.\<close>

definition std_sending :: "nat \<Rightarrow> stdlib_group \<Rightarrow> nat \<Rightarrow> bool" where
  "std_sending N s k \<longleftrightarrow> k \<le> N \<and> (case sg_sender s of
     Sender_looks n \<Rightarrow> k + n = N \<and> rq_sequenceID (sg_requester s) = of_nat k \<and>
       (\<exists>ts. length ts = k \<and> sg_sent s = request_stream (numbered 0 ts))
   | Sender_sends n i payload \<Rightarrow> k + n = N \<and> rq_sequenceID (sg_requester s) = of_nat k \<and>
       (\<exists>ts t. Suc (length ts) = k \<and> sg_sent s = request_stream (numbered 0 ts) \<and> payload = request_stream [(of_nat (length ts), t)])
   | Sender_flushes \<Rightarrow> False
   | Sender_returned \<Rightarrow> sg_cancelled s \<or> (\<exists>ts. length ts = N \<and> sg_sent s = request_stream (numbered 0 ts) @ [HeaderCodeStop]))"

definition std_receiving :: "bool \<Rightarrow> nat \<Rightarrow> stdlib_group \<Rightarrow> bool" where
  "std_receiving wraps_nil N s \<longleftrightarrow> (case sg_receiver s of
     Std_looks n \<Rightarrow> sg_read s + n = N
   | Std_reads n \<Rightarrow> sg_read s + Suc n = N
   | Std_returned \<Rightarrow> wraps_nil \<longrightarrow> sg_cancelled s \<or> sg_read s = N)"

definition std_inv :: "bool \<Rightarrow> nat \<Rightarrow> stdlib_group \<Rightarrow> bool" where
  "std_inv wraps_nil N s \<longleftrightarrow> (\<exists>k. std_sending N s k \<and> std_counted k (sg_sequences s) (sg_read s)) \<and>
     std_receiving wraps_nil N s \<and> (sg_cancelled s \<longleftrightarrow> sg_outside s \<or> sg_err s \<noteq> None) \<and>
     sg_err s \<noteq> Some (Check_response Not_responded)"

lemma std_inv_start: "std_inv w N (std_start N buf)"
  by (auto simp: std_inv_def std_start_def std_sending_def std_receiving_def std_counted_def intro!: exI [of _ 0])

lemma std_invI:
  assumes "std_sending N s k" "std_counted k (sg_sequences s) (sg_read s)" "std_receiving w N s"
    "sg_cancelled s \<longleftrightarrow> sg_outside s \<or> sg_err s \<noteq> None" "sg_err s \<noteq> Some (Check_response Not_responded)"
  shows "std_inv w N s"
  using assms unfolding std_inv_def by blast

text \<open>A step of one goroutine leaves the other's part alone.\<close>

lemma std_sending_frame:
  assumes "std_sending N s k" "sg_sender s' = sg_sender s" "sg_requester s' = sg_requester s" "sg_sent s' = sg_sent s"
    "sg_cancelled s \<Longrightarrow> sg_cancelled s'"
  shows "std_sending N s' k"
  using assms by (auto simp: std_sending_def split: sender_phase.splits)

lemma std_receiving_frame:
  assumes "std_receiving w N s" "sg_receiver s' = sg_receiver s" "sg_read s' = sg_read s" "sg_cancelled s \<Longrightarrow> sg_cancelled s'"
  shows "std_receiving w N s'"
  using assms by (auto simp: std_receiving_def split: std_receiver.splits)

lemma refused_error: "stdlib_check w m buf = Return v \<Longrightarrow> v \<noteq> Some Not_responded \<and> (w \<longrightarrow> v \<noteq> None)"
  by (auto simp: stdlib_check_def wrap_nil_def split: sum.splits prod.splits option.splits if_splits)

lemma std_inv_step:
  assumes step: "std_step w s s'" and inv: "std_inv w N s"
  shows "std_inv w N s'"
proof -
  obtain k where s: "std_sending N s k" and c: "std_counted k (sg_sequences s) (sg_read s)" and r: "std_receiving w N s"
    and can: "sg_cancelled s \<longleftrightarrow> sg_outside s \<or> sg_err s \<noteq> None" and err: "sg_err s \<noteq> Some (Check_response Not_responded)"
    using inv unfolding std_inv_def by blast
  show ?thesis
    using step
  proof cases
    case (std_store n now sequenceID clientTime payload requester)
    have k: "k + Suc n = N" "rq_sequenceID (sg_requester s) = of_nat k"
      and ts: "\<exists>ts. length ts = k \<and> sg_sent s = request_stream (numbered 0 ts)"
      using s std_store(2) by (simp_all add: std_sending_def)
    have q: "sequenceID = of_nat k" "payload = request_stream [(of_nat k, now)]" "rq_sequenceID requester = of_nat (Suc k)"
      using std_store(4) k(2) by (auto simp: Request_frame)
    show ?thesis
    proof (rule std_invI)
      show "std_sending N s' (Suc k)" using k ts q by (auto simp: std_sending_def std_store(1))
      show "std_counted (Suc k) (sg_sequences s') (sg_read s')" using std_counted_store [OF c] by (simp add: std_store(1))
      show "std_receiving w N s'" by (rule std_receiving_frame [OF r]) (simp_all add: std_store(1))
    qed (use can err in \<open>simp_all add: std_store(1)\<close>)
  next
    case (std_send_cancelled n)
    then show ?thesis
      by (intro std_invI [of _ _ k] std_receiving_frame [OF r]) (use s c can err in \<open>auto simp: std_sending_def\<close>)
  next
    case (std_written n sequenceID payload)
    obtain ts t where ts: "Suc (length ts) = k" "sg_sent s = request_stream (numbered 0 ts)" "payload = request_stream [(of_nat (length ts), t)]"
      and k: "k \<le> N" "k + n = N" "rq_sequenceID (sg_requester s) = of_nat k"
      using s std_written(2) by (auto simp: std_sending_def)
    have "length (ts @ [t]) = k" "sg_sent s @ payload = request_stream (numbered 0 (ts @ [t]))"
      using ts by (simp_all add: numbered_snoc)
    then have ts': "\<exists>ts. length ts = k \<and> sg_sent s @ payload = request_stream (numbered 0 ts)" by blast
    show ?thesis
    proof (rule std_invI)
      show "std_sending N s' k" using k ts' by (simp add: std_sending_def std_written(1))
      show "std_receiving w N s'" by (rule std_receiving_frame [OF r]) (simp_all add: std_written(1))
    qed (use c can err in \<open>simp_all add: std_written(1)\<close>)
  next
    case (std_write_failed n sequenceID payload j)
    have "sg_cancelled s'" using std_write_failed(1) can by auto
    then show ?thesis
      by (intro std_invI [of _ _ k] std_receiving_frame [OF r]) (use s c can err std_write_failed(1) in \<open>auto simp: std_sending_def\<close>)
  next
    case (std_stop_written frame requester)
    then show ?thesis
      by (intro std_invI [of _ _ k] std_receiving_frame [OF r]) (use s c can err in \<open>auto simp: std_sending_def RequestStop_frame\<close>)
  next
    case (std_stop_failed frame requester)
    have "sg_cancelled s'" using std_stop_failed(1) can by auto
    then show ?thesis
      by (intro std_invI [of _ _ k] std_receiving_frame [OF r]) (use s c can err std_stop_failed(1) in \<open>auto simp: std_sending_def\<close>)
  next
    case (std_look n)
    then show ?thesis
      by (intro std_invI [of _ _ k] std_sending_frame [OF s]) (use c r can err in \<open>auto simp: std_receiving_def\<close>)
  next
    case (std_read_cancelled n)
    then show ?thesis
      by (intro std_invI [of _ _ k] std_sending_frame [OF s]) (use c r can err in \<open>auto simp: std_receiving_def\<close>)
  next
    case (std_read_failed n)
    have "sg_cancelled s'" using std_read_failed(1) can by auto
    then show ?thesis
      by (intro std_invI [of _ _ k] std_sending_frame [OF s]) (use c r can err std_read_failed(1) in \<open>auto simp: std_receiving_def\<close>)
  next
    case (std_checked n buf sequences)
    then show ?thesis
      by (intro std_invI [of _ _ k] std_sending_frame [OF s]) (use std_counted_check [OF c] r can err in \<open>auto simp: std_receiving_def\<close>)
  next
    case (std_refused n buf v)
    have "sg_cancelled s'" if w using refused_error [OF std_refused(4)] that std_refused(1) can by (cases v) auto
    then have "std_receiving w N s'" using std_refused(1) by (simp add: std_receiving_def)
    then show ?thesis
      by (intro std_invI [of _ _ k] std_sending_frame [OF s])
        (use c can err refused_error [OF std_refused(4)] std_refused(1) in \<open>auto split: if_splits\<close>)
  next
    case std_range
    have all: "sg_read s = N" using r std_range(2) by (simp add: std_receiving_def)
    have "k \<le> N" using s by (simp add: std_sending_def)
    then have "sg_sequences s = Map.empty" using std_counted_all c all by simp
    then have s': "s' = s\<lparr>sg_receiver := Std_returned\<rparr>" using std_range(1) by (simp add: std_returns_def)
    show ?thesis
      by (intro std_invI [of _ _ k] std_sending_frame [OF s]) (use c all can err in \<open>simp_all add: s' std_receiving_def\<close>)
  next
    case std_outside
    then show ?thesis
      by (intro std_invI [of _ _ k] std_sending_frame [OF s] std_receiving_frame [OF r]) (use c can err in auto)
  qed
qed

lemma std_inv_run: "(std_step w)\<^sup>*\<^sup>* (std_start N buf) s \<Longrightarrow> std_inv w N s"
  by (induction rule: rtranclp_induct) (auto intro: std_inv_start std_inv_step)

section \<open>Examples\<close>

text \<open>One request, written at time 5; then the receiver reads a response of the number \<open>r\<close>.\<close>

definition ex_std_sent :: stdlib_group where
  "ex_std_sent = \<lparr>sg_sender = Sender_returned, sg_receiver = Std_reads 0,
     sg_requester = \<lparr>rq_sequenceID = 1, rq_buf = request_stream [(0, 5)] @ [HeaderCodeStop]\<rparr>, sg_sequences = [0 \<mapsto> 5],
     sg_sent = request_stream [(0, 5)] @ [HeaderCodeStop], sg_read = 0, sg_cancelled = False, sg_outside = False, sg_err = None\<rparr>"

lemma ex_std_run: "(std_step w)\<^sup>*\<^sup>* (std_start 1 []) ex_std_sent"
proof -
  let ?s0 = "std_start 1 []" and ?p = "request_stream [(0, 5)]"
  let ?rq = "\<lparr>rq_sequenceID = 1, rq_buf = ?p\<rparr>"
  let ?s1 = "?s0\<lparr>sg_sequences := [0 \<mapsto> 5], sg_requester := ?rq, sg_sender := Sender_sends 0 0 ?p\<rparr>"
  let ?s2 = "?s1\<lparr>sg_sender := Sender_looks 0, sg_sent := ?p\<rparr>"
  let ?s3 = "?s2\<lparr>sg_sender := Sender_returned, sg_requester := \<lparr>rq_sequenceID = 1, rq_buf = ?p @ [HeaderCodeStop]\<rparr>,
    sg_sent := ?p @ [HeaderCodeStop]\<rparr>"
  have "std_step w ?s0 (?s0\<lparr>sg_sequences := (sg_sequences ?s0)(0 \<mapsto> 5), sg_requester := ?rq, sg_sender := Sender_sends 0 0 ?p\<rparr>)"
    by (rule std_store [of _ 0 5]) (simp_all add: std_start_def Request_frame)
  then have "(std_step w)\<^sup>*\<^sup>* ?s0 ?s1" by (simp add: std_start_def r_into_rtranclp)
  also have "std_step w ?s1 ?s2" using std_written [of ?s1 0 0 ?p w] by (simp add: std_start_def)
  also (rtranclp.rtrancl_into_rtrancl) have "std_step w ?s2 ?s3"
    using std_stop_written [of ?s2 "[HeaderCodeStop]" "\<lparr>rq_sequenceID = 1, rq_buf = ?p @ [HeaderCodeStop]\<rparr>" w]
    by (simp add: std_start_def RequestStop_frame)
  also (rtranclp.rtrancl_into_rtrancl) have "std_step w ?s3 ex_std_sent"
    using std_look [of ?s3 0 w] by (simp add: std_start_def ex_std_sent_def)
  finally (rtranclp.rtrancl_into_rtrancl) show ?thesis .
qed

lemma ex_response: "ParseResponse (frame_bytes worldText r 9) = Inr (r, 9)" "length (frame_bytes worldText r 9) = 21"
  using parse_frame_bytes [of worldText r 9 "[]"] by (simp_all add: ParseResponse_def length_frame_bytes)

section \<open>Properties\<close>

text \<open>C33. Against any peer and any network, what an end without an error means: if nobody cancelled the client from outside, all
  requests and the stop frame were written, in their order; and if wrapping a nil error makes an error, every request has got its
  response and none was left over. The final check of the map never fails.\<close>

theorem stdlib_success_is_complete:
  assumes "(std_step wraps_nil)\<^sup>*\<^sup>* (std_start requestsNo buf) s" and "std_done s" and "\<not> sg_outside s"
  shows "sg_err s \<noteq> Some (Check_response Not_responded) \<and>
    (sg_err s = None \<longrightarrow>
      (\<exists>ts. length ts = requestsNo \<and> sg_sent s = request_stream (numbered 0 ts) @ [HeaderCodeStop]) \<and>
      (wraps_nil \<longrightarrow> sg_read s = requestsNo \<and> sg_sequences s = Map.empty))"
proof -
  have inv: "std_inv wraps_nil requestsNo s" by (rule std_inv_run [OF assms(1)])
  then obtain k where k: "std_sending requestsNo s k" "std_counted k (sg_sequences s) (sg_read s)" by (auto simp: std_inv_def)
  have "sg_sequences s = Map.empty" if "sg_read s = requestsNo"
    using std_counted_all [OF k(2)] k(1) that by (simp add: std_sending_def)
  then show ?thesis
    using inv k(1) assms(2,3) by (auto simp: std_inv_def std_sending_def std_receiving_def std_done_def)
qed

theorem stdlib_success_is_complete_witness:
  "\<exists>s. (std_step True)\<^sup>*\<^sup>* (std_start 1 []) s \<and> std_done s \<and> sg_err s = None \<and> sg_read s = 1 \<and>
     (\<exists>t. sg_sent s = request_stream [(0, t)] @ [HeaderCodeStop])"
proof -
  let ?s1 = "ex_std_sent\<lparr>sg_receiver := Std_looks 0, sg_sequences := Map.empty, sg_read := 1\<rparr>"
  let ?s2 = "?s1\<lparr>sg_receiver := Std_returned\<rparr>"
  have "stdlib_check True (sg_sequences ex_std_sent) (frame_bytes worldText 0 9) = Go_on Map.empty"
    using ex_response(1) [of 0] by (simp add: stdlib_check_def ex_std_sent_def word_less_nat_alt)
  then have "std_step True ex_std_sent ?s1"
    using std_checked [of ex_std_sent 0 "frame_bytes worldText 0 9" True Map.empty] ex_response(2) by (simp add: ex_std_sent_def)
  with ex_std_run have "(std_step True)\<^sup>*\<^sup>* (std_start 1 []) ?s1" by (rule rtranclp.rtrancl_into_rtrancl)
  moreover have "std_step True ?s1 ?s2" using std_range [of ?s1 True] by (simp add: std_returns_def)
  ultimately have run: "(std_step True)\<^sup>*\<^sup>* (std_start 1 []) ?s2" by (rule rtranclp.rtrancl_into_rtrancl)
  have d: "std_done ?s2" "\<not> sg_outside ?s2" "sg_err ?s2 = None" by (simp_all add: std_done_def ex_std_sent_def)
  obtain ts where "length ts = 1" "sg_sent ?s2 = request_stream (numbered 0 ts) @ [HeaderCodeStop]" "sg_read ?s2 = 1"
    using stdlib_success_is_complete [OF run d(1,2)] d(3) by blast
  then show ?thesis using run d by (intro exI [of _ ?s2]) (auto simp: length_Suc_conv)
qed

text \<open>If wrapping a nil error gives nil, a response to a request that was never made ends the client
  without an error, though its own request has got no answer.\<close>

theorem wrong_response_passes:
  "\<exists>s. (std_step False)\<^sup>*\<^sup>* (std_start 1 []) s \<and> std_done s \<and> \<not> sg_outside s \<and> sg_err s = None \<and>
     sg_read s = 0 \<and> sg_sequences s \<noteq> Map.empty"
proof -
  let ?s1 = "ex_std_sent\<lparr>sg_receiver := Std_returned\<rparr>"
  have "stdlib_check False (sg_sequences ex_std_sent) (frame_bytes worldText 7 9) = Return None"
    using ex_response(1) [of 7] by (simp add: stdlib_check_def ex_std_sent_def wrap_nil_def)
  then have "std_step False ex_std_sent ?s1"
    using std_refused [of ex_std_sent 0 "frame_bytes worldText 7 9" False None] ex_response(2)
    by (simp add: ex_std_sent_def std_returns_def)
  with ex_std_run have "(std_step False)\<^sup>*\<^sup>* (std_start 1 []) ?s1" by (rule rtranclp.rtrancl_into_rtrancl)
  then show ?thesis by (intro exI [of _ ?s1]) (auto simp: std_done_def ex_std_sent_def fun_eq_iff)
qed

end
