(* ===== verification/Echo_Server.thy ===== *)
theory Echo_Server
  imports Sys_Calls Echo_Session
begin

text \<open>
  The listening side: \<open>Listen\<close> of \<open>internal/sysnet/listen.go\<close> over the trace of system calls,
  and the accept loop of \<open>internal/cmd/echo/main.go\<close> with the goroutine it starts for a connection.
  The system calls, the constants of \<open>golang.org/x/sys/unix\<close> and the result of parsing the address
  are parameters.
\<close>

section \<open>Listening socket\<close>

record socket_env =
  sk_socket :: "sys_trace \<Rightarrow> int \<Rightarrow> int \<Rightarrow> int \<Rightarrow> nat + i64"
  sk_setsockopt :: "sys_trace \<Rightarrow> i64 \<Rightarrow> int \<Rightarrow> int \<Rightarrow> int \<Rightarrow> nat"
  sk_bind :: "sys_trace \<Rightarrow> i64 \<Rightarrow> int \<Rightarrow> u8 list \<Rightarrow> nat"
  sk_listen :: "sys_trace \<Rightarrow> i64 \<Rightarrow> int \<Rightarrow> nat"
  sk_AF_INET :: int
  sk_SOCK_STREAM :: int
  sk_SOL_SOCKET :: int
  sk_SO_REUSEADDR :: int
  sk_SOMAXCONN :: int

datatype listen_error = Create_socket nat | Set_socket_flags nat | Bind_socket nat | Listen_connections nat

text \<open>The four bytes of the address; \<open>ip4\<close> is what \<open>ParseIP(ip).To4()\<close> gives, empty when it is nil.\<close>

definition socket_address :: "u8 list \<Rightarrow> u8 list" where
  "socket_address ip4 = (let n = min 4 (length ip4) in take n ip4 @ drop n (replicate 4 0))"

definition Listen :: "socket_env \<Rightarrow> u8 list \<Rightarrow> int \<Rightarrow> sys_trace \<Rightarrow> (listen_error + i64) \<times> sys_trace" where
  "Listen env ip4 port tr = (case sk_socket env tr (sk_AF_INET env) (sk_SOCK_STREAM env) 0 of
     Inl e \<Rightarrow> (Inl (Create_socket e), tr)
   | Inr fd \<Rightarrow> (let tr = tr @ [Opened fd];
         flags = sk_setsockopt env tr fd (sk_SOL_SOCKET env) (sk_SO_REUSEADDR env) 1;
         bound = sk_bind env tr fd port (socket_address ip4);
         listening = sk_listen env tr fd (sk_SOMAXCONN env)
       in if flags \<noteq> 0 then (Inl (Set_socket_flags flags), tr)
          else if bound \<noteq> 0 then (Inl (Bind_socket bound), tr)
          else if listening \<noteq> 0 then (Inl (Listen_connections listening), tr)
          else (Inr fd, tr)))"

text \<open>
  A returned descriptor is the one socket opened, and every call on it has succeeded. After any
  failure but the first that socket is open too, and nobody knows its number.
\<close>

lemma Listen_opens:
  assumes "Listen env ip4 port tr = (r, tr')"
  shows "case r of
      Inr fd \<Rightarrow> live_fds tr' = live_fds tr @ [fd] \<and> sk_bind env tr' fd port (socket_address ip4) = 0 \<and>
        sk_listen env tr' fd (sk_SOMAXCONN env) = 0
    | Inl (Create_socket e) \<Rightarrow> tr' = tr
    | Inl _ \<Rightarrow> \<exists>fd. live_fds tr' = live_fds tr @ [fd]"
  using assms by (auto simp: Listen_def Let_def live_fds_snoc split: sum.splits if_splits listen_error.splits)

text \<open>An address that does not parse listens on every interface.\<close>

lemma socket_address_bad: "socket_address [] = [0, 0, 0, 0]"
  by (simp add: socket_address_def numeral_nat)

lemma socket_address_good: "length ip4 = 4 \<Longrightarrow> socket_address ip4 = ip4"
  by (simp add: socket_address_def)

section \<open>The accept loop\<close>

datatype conn_error = Set_read_deadline | Interact server_error

text \<open>The goroutine of a connection: what it puts into \<open>clientErrors\<close>, if anything.\<close>

definition serve_conn :: "bool \<Rightarrow> (nat \<Rightarrow> u64 \<times> u64) \<Rightarrow> (nat \<Rightarrow> bool) \<Rightarrow> bool \<Rightarrow> u8 list \<Rightarrow> conn_error option" where
  "serve_conn deadline_ok clock write_ok close_ok input =
     (if \<not> deadline_ok then Some Set_read_deadline
      else map_option Interact (fst (handleRequest clock write_ok close_ok input)))"

text \<open>
  What \<open>Accept\<close> comes to: a connection, with what \<open>clientErrors\<close> holds when the loop looks
  after starting its goroutine, or an error, with whether the end was asked for.
\<close>

datatype accept_event = Accepted "conn_error option" | Accept_failed bool

datatype loop_error = Accept_connection | Client_error conn_error

datatype loop_state = Serving nat | Stopped nat "loop_error option"

fun accept_loop :: "accept_event list \<Rightarrow> nat \<Rightarrow> loop_state" where
  "accept_loop [] started = Serving started"
| "accept_loop (Accept_failed stopping # events) started = Stopped started (if stopping then None else Some Accept_connection)"
| "accept_loop (Accepted reported # events) started = (case reported of
     Some e \<Rightarrow> Stopped (started + 1) (Some (Client_error e))
   | None \<Rightarrow> accept_loop events (started + 1))"

text \<open>
  The loop looks for an error only right after an \<open>Accept\<close>. What a connection reports after that
  is seen when another one comes, and is lost when the listener is closed instead.
\<close>

lemma accept_loop_quiet:
  "accept_loop (replicate n (Accepted None) @ [Accept_failed stopping]) started =
     Stopped (started + n) (if stopping then None else Some Accept_connection)"
  by (induction n arbitrary: started) simp_all

lemma serve_conn_session:
  assumes "in_time clock 0 reqs" "\<And>k. write_ok k"
  shows "serve_conn True clock write_ok True (request_stream reqs @ [HeaderCodeStop]) = None"
  using serve_stream [of write_ok clock new_server reqs] assms
  by (auto simp: serve_conn_def handleRequest_def new_server_def)

end
