(* ===== verification/Echo_Client.thy ===== *)
theory Echo_Client
  imports Netring_Setup Echo_Server Echo_Workload
begin

text \<open>
  The client of \<open>internal/cmd/echo/netring_client.go\<close> around its workload: resolving the server's
  address, opening and provisioning a \<open>NetRing\<close>, the socket and its timeouts, the connection, the watchdog and the
  teardown. What runs between two waits is a function; the poller and the kernel act in between. The
  workload itself is in \<open>Echo_Workload\<close>.
\<close>

section \<open>Before the connection\<close>

record client_env = socket_env +
  ce_setsockopt_timeval :: "sys_trace \<Rightarrow> i64 \<Rightarrow> int \<Rightarrow> int \<Rightarrow> nat \<Rightarrow> nat"
  ce_SO_RCVTIMEO :: int
  ce_SO_SNDTIMEO :: int

datatype client_failure = Resolve_server | Create_netring open_error | Provision_tiny netring_error
  | Provision_huge netring_error | Create_client_socket nat | Set_socket_timeouts nat | Connect_server netring_error
  | Run_workload workload_error | Context_cancelled | Deadline_exceeded

definition SizeClassTiny :: u64 where "SizeClassTiny = 0"
definition SizeClassBig :: u64 where "SizeClassBig = 3"

text \<open>The two buffer rings; an error leaves the ring and its poller as they are.\<close>

definition client_provision :: "sys_env \<Rightarrow> NetRing \<times> sys_trace \<Rightarrow> (client_failure option \<times> NetRing \<times> sys_trace) option" where
  "client_provision env s = (case RegisterBufferRing_op env SizeClassTiny 16384 s of None \<Rightarrow> None
     | Some (Some e, s1) \<Rightarrow> Some (Some (Provision_tiny e), s1)
     | Some (None, s1) \<Rightarrow>
         (case RegisterBufferRing_op env SizeClassBig 16384 s1 of None \<Rightarrow> None
          | Some (Some e, s2) \<Rightarrow> Some (Some (Provision_huge e), s2)
          | Some (None, s2) \<Rightarrow> Some (None, s2)))"

text \<open>The socket with both timeouts of ten seconds.\<close>

definition client_socket :: "client_env \<Rightarrow> sys_trace \<Rightarrow> (client_failure + i64) \<times> sys_trace" where
  "client_socket env tr = (case sk_socket env tr (sk_AF_INET env) (sk_SOCK_STREAM env) 0 of
     Inl e \<Rightarrow> (Inl (Create_client_socket e), tr)
   | Inr fd \<Rightarrow>
      (let tr = tr @ [Opened fd];
           receiving = ce_setsockopt_timeval env tr fd (sk_SOL_SOCKET env) (ce_SO_RCVTIMEO env) 10;
           sending = ce_setsockopt_timeval env tr fd (sk_SOL_SOCKET env) (ce_SO_SNDTIMEO env) 10
       in if receiving \<noteq> 0 then (Inl (Set_socket_timeouts receiving), tr)
          else if sending \<noteq> 0 then (Inl (Set_socket_timeouts sending), tr)
          else (Inr fd, tr)))"

text \<open>
  The client up to its \<open>Connect\<close>. \<open>target\<close> is what the resolver gives, an IPv4 address and a port. The result
  is the failure it returns with, or the connected socket's number and the address; beside it the ring,
  if there is one, whose poller runs from then on.
\<close>

definition client_setup :: "client_env \<Rightarrow> sys_env \<Rightarrow> (ring_handle \<Rightarrow> IOUring) \<Rightarrow> (u8 list \<times> i64) option \<Rightarrow> sys_trace \<Rightarrow>
    ((client_failure + i64 \<times> Sockaddr) \<times> NetRing option \<times> sys_trace) option" where
  "client_setup cenv env attach target tr =
     (case target of None \<Rightarrow> Some (Inl Resolve_server, None, tr)
      | Some (ip, port) \<Rightarrow>
         (case open_netring env attach 256 True [] tr of None \<Rightarrow> None
          | Some (Inl e, tr1) \<Rightarrow> Some (Inl (Create_netring e), None, tr1)
          | Some (Inr (h, nr), tr1) \<Rightarrow>
             (case client_provision env (nr, tr1) of None \<Rightarrow> None
              | Some (Some e, nr2, tr2) \<Rightarrow> Some (Inl e, Some nr2, tr2)
              | Some (None, nr2, tr2) \<Rightarrow>
                 (case client_socket cenv tr2 of
                    (Inl e, tr3) \<Rightarrow> Some (Inl e, Some nr2, tr3)
                  | (Inr fd, tr3) \<Rightarrow> Some (Inr (fd, SockaddrInet4 port (socket_address ip)), Some nr2, tr3)))))"

section \<open>Connecting, waiting, leaving\<close>

text \<open>\<open>Connect\<close> up to its park and from its wake-up.\<close>

definition client_connect :: "uring_env \<Rightarrow> bool \<Rightarrow> u64 \<Rightarrow> u64 \<Rightarrow> i64 \<times> Sockaddr \<Rightarrow> NetRing \<Rightarrow>
    ((client_failure + cell_ref) \<times> NetRing) option" where
  "client_connect env choice g rawptr conn nr =
     map_option (map_prod (map_sum Connect_server id) id) (Connect_start env choice g rawptr (fst conn) (snd conn) nr)"

definition client_connected :: "cell_ref \<Rightarrow> NetRing \<Rightarrow> (client_failure option \<times> NetRing) option" where
  "client_connected c nr = map_option (map_prod (map_option Connect_server) id) (Connect_finish c nr)"

text \<open>What ends the wait for the workload: its result, the context, or ten seconds.\<close>

datatype awaited = Workload_done "workload_error option" | Context_done | Time_over

definition client_wait :: "awaited \<Rightarrow> client_failure option" where
  "client_wait what = (case what of Workload_done err \<Rightarrow> map_option Run_workload err
     | Context_done \<Rightarrow> Some Context_cancelled | Time_over \<Rightarrow> Some Deadline_exceeded)"

text \<open>
  The end of a client whose workload succeeded, from the return of the \<open>Close\<close> of its socket, whose error
  \<open>closed\<close> is only logged: with the stop flag set, the poller leaves its loop at the next turn; then \<open>Stop\<close>.
  The client returns no error.
\<close>

definition client_leave :: "uring_env \<Rightarrow> int \<Rightarrow> netring_error option \<Rightarrow> (NetRing \<Rightarrow> NetRing) \<Rightarrow> int \<times> NetRing \<Rightarrow> NetRing option" where
  "client_leave env idleAfter closed others s =
     Option.bind (poll_loop env idleAfter [(True, others)] (fst s, if closed = None then snd s else log_entry (snd s)))
       (\<lambda>(left, nr). Stop nr)"

section \<open>What the client leaves open\<close>

text \<open>The descriptors and mappings a client has opened when it gets to a result.\<close>

definition opened_fds :: "ring_handle \<Rightarrow> client_failure + i64 \<times> Sockaddr \<Rightarrow> i64 list \<Rightarrow> bool" where
  "opened_fds h r fds = (case r of Inr (fd, sa) \<Rightarrow> fds = [h_FD h, fd]
     | Inl (Set_socket_timeouts e) \<Rightarrow> \<exists>fd. fds = [h_FD h, fd]
     | Inl f \<Rightarrow> fds = [h_FD h])"

definition opened_maps :: "ring_handle \<Rightarrow> NetRing \<Rightarrow> client_failure + i64 \<times> Sockaddr \<Rightarrow> (u64 \<times> nat) list" where
  "opened_maps h nr r = (let tiny = pbuf_maps (the (nr_pbrs nr ! 0)); big = pbuf_maps (the (nr_pbrs nr ! 3)) in
     ring_maps h @ (case r of Inl (Provision_tiny e) \<Rightarrow> [] | Inl (Provision_huge e) \<Rightarrow> tiny | _ \<Rightarrow> tiny @ big))"

lemma sizes [simp]: "SizeClass_Size SizeClassTiny = Some 128" "SizeClass_Size SizeClassBig = Some 4096"
  "unat SizeClassTiny = 0" "unat SizeClassBig = 3"
  by (simp_all add: SizeClass_Size_def sizeClassesCapacity_def SizeClassTiny_def SizeClassBig_def)

lemma provision_cases:
  assumes prov: "client_provision env (nr, tr) = Some (err, nr', tr')" and pbrs: "nr_pbrs nr = replicate 5 None"
    and fresh: "mmap_fresh env" and un: "munmap_live env"
  shows "live_fds tr' = live_fds tr"
    and "case err of
        Some (Provision_tiny e) \<Rightarrow> nr' = nr \<and> live_maps tr' = live_maps tr
      | Some (Provision_huge e) \<Rightarrow> \<exists>p. nr' = nr\<lparr>nr_pbrs := (nr_pbrs nr)[0 := Some p]\<rparr> \<and> live_maps tr' = live_maps tr @ pbuf_maps p
      | Some f \<Rightarrow> False
      | None \<Rightarrow> \<exists>p q. nr' = nr\<lparr>nr_pbrs := (nr_pbrs nr)[0 := Some p, 3 := Some q]\<rparr> \<and>
          pb_valid 14 0 p \<and> pb_valid 14 0 q \<and> pb_bufSize p = 128 \<and> pb_bufSize q = 4096 \<and>
          live_maps tr' = live_maps tr @ pbuf_maps p @ pbuf_maps q"
proof -
  have k14: "k = 14" if "unat (16384 :: u32) = 2 ^ k" for k
  proof -
    have "(2 :: nat) ^ k = 2 ^ 14" using that by simp
    then show ?thesis using power_inject_exp [of "2 :: nat" k 14] by simp
  qed
  obtain e1 nr1 tr1 where r1: "RegisterBufferRing_op env SizeClassTiny 16384 (nr, tr) = Some (e1, nr1, tr1)"
    using prov by (auto simp: client_provision_def split: option.splits)
  note p1 = provisioned [OF r1 fresh un]
  show "live_fds tr' = live_fds tr"
  proof (cases e1)
    case (Some e)
    then show ?thesis using prov r1 p1(1) by (simp add: client_provision_def)
  next
    case None
    then obtain e2 where "RegisterBufferRing_op env SizeClassBig 16384 (nr1, tr1) = Some (e2, nr', tr')"
      using prov r1 by (auto simp: client_provision_def split: option.splits)
    from provisioned(1) [OF this fresh un] show ?thesis using p1(1) by simp
  qed
  show "case err of
        Some (Provision_tiny e) \<Rightarrow> nr' = nr \<and> live_maps tr' = live_maps tr
      | Some (Provision_huge e) \<Rightarrow> \<exists>p. nr' = nr\<lparr>nr_pbrs := (nr_pbrs nr)[0 := Some p]\<rparr> \<and> live_maps tr' = live_maps tr @ pbuf_maps p
      | Some f \<Rightarrow> False
      | None \<Rightarrow> \<exists>p q. nr' = nr\<lparr>nr_pbrs := (nr_pbrs nr)[0 := Some p, 3 := Some q]\<rparr> \<and>
          pb_valid 14 0 p \<and> pb_valid 14 0 q \<and> pb_bufSize p = 128 \<and> pb_bufSize q = 4096 \<and>
          live_maps tr' = live_maps tr @ pbuf_maps p @ pbuf_maps q"
  proof (cases e1)
    case (Some e)
    then show ?thesis using prov r1 p1(2) by (auto simp: client_provision_def)
  next
    case None
    obtain k p where p: "pb_valid k 0 p" "unat (16384 :: u32) = 2 ^ k" "nr1 = nr\<lparr>nr_pbrs := (nr_pbrs nr)[0 := Some p]\<rparr>"
      "live_maps tr1 = live_maps tr @ pbuf_maps p" "pb_bufSize p = 128"
      using p1(3) [OF None] by auto
    obtain e2 where r2: "RegisterBufferRing_op env SizeClassBig 16384 (nr1, tr1) = Some (e2, nr', tr')"
      and err: "err = map_option Provision_huge e2"
      using prov r1 None by (auto simp: client_provision_def split: option.splits)
    note p2 = provisioned [OF r2 fresh un]
    show ?thesis
    proof (cases e2)
      case (Some e)
      then show ?thesis using p2(2) p err by auto
    next
      case none2: None
      obtain l q where q: "pb_valid l 0 q" "unat (16384 :: u32) = 2 ^ l" "nr' = nr1\<lparr>nr_pbrs := (nr_pbrs nr1)[3 := Some q]\<rparr>"
        "live_maps tr' = live_maps tr1 @ pbuf_maps q" "pb_bufSize q = 4096"
        using p2(3) [OF none2] by auto
      have "err = None" using none2 err by simp
      moreover have "nr' = nr\<lparr>nr_pbrs := (nr_pbrs nr)[0 := Some p, 3 := Some q]\<rparr>" using p(3) q(3) by simp
      ultimately show ?thesis using p q k14 [OF p(2)] k14 [OF q(2)] by auto
    qed
  qed
qed

lemma client_socket_cases:
  assumes "client_socket env tr = (r, tr')"
  shows "live_maps tr' = live_maps tr"
    and "case r of Inr fd \<Rightarrow> live_fds tr' = live_fds tr @ [fd]
      | Inl (Set_socket_timeouts e) \<Rightarrow> \<exists>fd. live_fds tr' = live_fds tr @ [fd]
      | Inl (Create_client_socket e) \<Rightarrow> live_fds tr' = live_fds tr | Inl f \<Rightarrow> False"
  using assms by (auto simp: client_socket_def Let_def split: sum.splits if_splits)

lemma client_setup_cases:
  assumes go: "client_setup cenv env attach target tr = Some (r, ring, tr')"
  obtains (resolve) "r = Inl Resolve_server" "ring = None" "tr' = tr"
  | (netring) e ip port where "r = Inl (Create_netring e)" "ring = None" "target = Some (ip, port)"
      "open_netring env attach 256 True [] tr = Some (Inl e, tr')"
  | (provision) f h nr1 tr1 nr2 where "r = Inl f" "ring = Some nr2" "open_netring env attach 256 True [] tr = Some (Inr (h, nr1), tr1)"
      "client_provision env (nr1, tr1) = Some (Some f, nr2, tr')"
  | (socket) f h nr1 tr1 nr2 tr2 where "r = Inl f" "ring = Some nr2" "open_netring env attach 256 True [] tr = Some (Inr (h, nr1), tr1)"
      "client_provision env (nr1, tr1) = Some (None, nr2, tr2)" "client_socket cenv tr2 = (Inl f, tr')"
  | (ready) fd sa h nr1 tr1 nr2 tr2 where "r = Inr (fd, sa)" "ring = Some nr2"
      "open_netring env attach 256 True [] tr = Some (Inr (h, nr1), tr1)"
      "client_provision env (nr1, tr1) = Some (None, nr2, tr2)" "client_socket cenv tr2 = (Inr fd, tr')"
proof (cases target)
  case None
  then show ?thesis using go resolve by (simp add: client_setup_def)
next
  case (Some a)
  obtain ip port where a: "target = Some (ip, port)" using Some by (cases a) simp
  note go = go [unfolded client_setup_def a option.case prod.case]
  obtain r1 tr1 where o: "open_netring env attach 256 True [] tr = Some (r1, tr1)"
    using go by (auto split: option.splits)
  show ?thesis
  proof (cases r1)
    case (Inl e)
    then have "r = Inl (Create_netring e)" "ring = None" "tr' = tr1" using go o by simp_all
    then show ?thesis using netring a o Inl by blast
  next
    case (Inr hn)
    then obtain h nr1 where o: "open_netring env attach 256 True [] tr = Some (Inr (h, nr1), tr1)"
      using o by (cases hn) simp
    note go = go [unfolded o option.case sum.case prod.case]
    obtain err nr2 tr2 where pv: "client_provision env (nr1, tr1) = Some (err, nr2, tr2)"
      using go by (auto split: option.splits)
    show ?thesis
    proof (cases err)
      case (Some f)
      then have "r = Inl f" "ring = Some nr2" "tr' = tr2" using go pv by simp_all
      then show ?thesis using provision [OF _ _ o] pv Some by blast
    next
      case None
      note go = go [unfolded pv None option.case prod.case]
      show ?thesis
      proof (cases "client_socket cenv tr2")
        case (Pair r3 tr3)
        note go = go [unfolded Pair prod.case]
        show ?thesis
        proof (cases r3)
          case (Inl f)
          then have "r = Inl f" "ring = Some nr2" "tr' = tr3" using go by simp_all
          then show ?thesis using socket [OF _ _ o] pv None Pair Inl by blast
        next
          case (Inr fd)
          then have "r = Inr (fd, SockaddrInet4 port (socket_address ip))" "ring = Some nr2" "tr' = tr3" using go by simp_all
          then show ?thesis using ready [OF _ _ o] pv None Pair Inr by blast
        qed
      qed
    qed
  qed
qed

text \<open>The ring of a client: its mappings, and those of the buffer rings it got to.\<close>

lemma client_setup_opens:
  assumes go: "client_setup cenv env attach target tr = Some (r, Some nr, tr')"
    and ok: "setup_ok env" and fresh: "mmap_fresh env" and un: "munmap_live env"
  shows "\<exists>h fds. ring_open h \<and> opened_fds h r fds \<and> live_fds tr' = live_fds tr @ fds \<and>
    live_maps tr' = live_maps tr @ opened_maps h nr r \<and> nr_r nr = attach h"
proof -
  have new: "ring_open h \<and> live_maps tr1 = live_maps tr @ ring_maps h \<and> live_fds tr1 = live_fds tr @ [h_FD h] \<and>
      nr_r nr1 = attach h \<and> nr_pbrs nr1 = replicate 5 None"
    if o: "open_netring env attach 256 True [] tr = Some (Inr (h, nr1), tr1)" for h nr1 tr1
    using o
  proof (cases rule: open_netring_cases)
    case (opened h' nr')
    then show ?thesis using New_success [OF opened(1) ok fresh] by simp
  qed simp_all
  have index: "(replicate 5 None :: ProvidedBufferRing option list)[0 := a, 3 := b] ! 0 = a"
    "(replicate 5 None :: ProvidedBufferRing option list)[0 := a, 3 := b] ! 3 = b"
    "(replicate 5 None :: ProvidedBufferRing option list)[0 := a] ! 0 = a" for a b
    by simp_all
  show ?thesis
    using go
  proof (cases rule: client_setup_cases)
    case (provision f h nr1 tr1 nr2)
    note n = new [OF provision(3)]
    note p = provision_cases [OF provision(4) _ fresh un]
    consider (tiny) e where "f = Provision_tiny e" | (huge) e where "f = Provision_huge e"
      using p(2) n by (cases f) auto
    then show ?thesis
    proof cases
      case tiny
      then show ?thesis
        using provision n p by (intro exI [of _ h] exI [of _ "[h_FD h]"]) (simp add: opened_fds_def opened_maps_def)
    next
      case huge
      then obtain p1 where "nr2 = nr1\<lparr>nr_pbrs := (nr_pbrs nr1)[0 := Some p1]\<rparr>" "live_maps tr' = live_maps tr1 @ pbuf_maps p1"
        using p(2) n by auto
      then show ?thesis
        using provision n p(1) huge index
        by (intro exI [of _ h] exI [of _ "[h_FD h]"]) (simp add: opened_fds_def opened_maps_def)
    qed
  next
    case (socket f h nr1 tr1 nr2 tr2)
    note n = new [OF socket(3)] and p = provision_cases [OF socket(4) _ fresh un] and s = client_socket_cases [OF socket(5)]
    obtain p1 q1 where pq: "nr2 = nr1\<lparr>nr_pbrs := (nr_pbrs nr1)[0 := Some p1, 3 := Some q1]\<rparr>"
      "live_maps tr2 = live_maps tr1 @ pbuf_maps p1 @ pbuf_maps q1"
      using p(2) n by auto
    consider (create) e where "f = Create_client_socket e" | (timeouts) e fd where "f = Set_socket_timeouts e" "live_fds tr' = live_fds tr2 @ [fd]"
      using s(2) by (cases f) auto
    then show ?thesis
    proof cases
      case create
      then show ?thesis
        using socket n p(1) s pq index
        by (intro exI [of _ h] exI [of _ "[h_FD h]"]) (simp add: opened_fds_def opened_maps_def)
    next
      case (timeouts e fd)
      then show ?thesis
        using socket n p(1) s(1) pq index
        by (intro exI [of _ h] exI [of _ "[h_FD h, fd]"]) (simp add: opened_fds_def opened_maps_def)
    qed
  next
    case (ready fd sa h nr1 tr1 nr2 tr2)
    note n = new [OF ready(3)] and p = provision_cases [OF ready(4) _ fresh un] and s = client_socket_cases [OF ready(5)]
    obtain p1 q1 where pq: "nr2 = nr1\<lparr>nr_pbrs := (nr_pbrs nr1)[0 := Some p1, 3 := Some q1]\<rparr>"
      "live_maps tr2 = live_maps tr1 @ pbuf_maps p1 @ pbuf_maps q1"
      using p(2) n by auto
    show ?thesis
      using ready n p(1) s pq index
      by (intro exI [of _ h] exI [of _ "[h_FD h, fd]"]) (simp add: opened_fds_def opened_maps_def)
  qed simp_all
qed

text \<open>Without a ring: the options by default are never refused, so it was the address or the kernel.\<close>

lemma client_setup_no_ring:
  assumes "client_setup cenv env attach target tr = Some (r, None, tr')"
  shows "r = Inl Resolve_server \<and> tr' = tr \<or>
    (\<exists>e. r = Inl (Create_netring (Create_io_uring e)) \<and> length (live_fds tr') = length (live_fds tr) + leaked_fds e \<and>
      length (live_maps tr') = length (live_maps tr) + leaked_maps e)"
  using assms
proof (cases rule: client_setup_cases)
  case (netring e ip port)
  from netring(4) show ?thesis
  proof (cases rule: open_netring_cases)
    case (options e')
    then show ?thesis using default_options by simp
  next
    case (uring e')
    then show ?thesis using New_failure [OF uring(1)] netring(1) by simp
  qed simp
qed simp_all

text \<open>A client that is ready receives into the big class, whose 16384 buffers of 4096 bytes are all published.\<close>

lemma client_setup_ready:
  assumes go: "client_setup cenv env attach target tr = Some (Inr (fd, sa), Some nr, tr')"
    and fresh: "mmap_fresh env" and un: "munmap_live env"
  shows "\<exists>p. nr_pbrs nr ! 3 = Some p \<and> pb_valid 14 0 p \<and> pb_bufSize p = 4096"
    and "sint fd < 0 \<or> check_class fd SizeClassBig nr = Some (Inr 4096)"
proof -
  have "\<exists>q. nr_pbrs nr ! 3 = Some q \<and> 3 < length (nr_pbrs nr) \<and> pb_valid 14 0 q \<and> pb_bufSize q = 4096"
    using go
  proof (cases rule: client_setup_cases)
    case (ready fd' sa' h nr1 tr1 nr2 tr2)
    have n: "nr_pbrs nr1 = replicate 5 None" using ready(3) by (cases rule: open_netring_cases) simp_all
    obtain p q where pq: "nr2 = nr1\<lparr>nr_pbrs := (nr_pbrs nr1)[0 := Some p, 3 := Some q]\<rparr>" "pb_valid 14 0 q" "pb_bufSize q = 4096"
      using provision_cases(2) [OF ready(4) n fresh un] by auto
    have "nr_pbrs nr = (replicate 5 None)[0 := Some p, 3 := Some q]" using ready(2) pq(1) n by simp
    then have "nr_pbrs nr ! 3 = Some q" "3 < length (nr_pbrs nr)" by simp_all
    then show ?thesis using pq by blast
  qed simp_all
  then obtain q where q: "nr_pbrs nr ! 3 = Some q" "3 < length (nr_pbrs nr)" "pb_valid 14 0 q" "pb_bufSize q = 4096" by blast
  then show "\<exists>p. nr_pbrs nr ! 3 = Some p \<and> pb_valid 14 0 p \<and> pb_bufSize p = 4096" by blast
  show "sint fd < 0 \<or> check_class fd SizeClassBig nr = Some (Inr 4096)"
    using provisioned_class [of SizeClassBig 4096 nr q fd] q by fastforce
qed

text \<open>
  Leaving marks the ring as stopped and no more: the buffer rings stay registered, and no system call
  is made, so what the setup mapped and opened, but for the socket, is there until the process ends.
\<close>

lemma client_leave_stops:
  assumes "\<And>nr1. nr_stop (others nr1) = nr_stop nr1" and "\<not> nr_stop nr" and "\<And>nr1. nr_pbrs (others nr1) = nr_pbrs nr1"
  shows "\<exists>nr'. client_leave env idleAfter closed others (spin, nr) = Some nr' \<and> nr_stop nr' \<and> nr_pbrs nr' = nr_pbrs nr"
  using assms by (simp add: client_leave_def Stop_def log_entry_def)

section \<open>Example\<close>

text \<open>A kernel that refuses the second buffer ring.\<close>

definition ex_client_sys :: sys_env where
  "ex_client_sys = ex_sys\<lparr>sys_setup := \<lambda>tr n f. if live_fds tr = [] \<and> n = 256 then Inr (3, ex_params n) else Inl 12,
     sys_register_pbuf := \<lambda>tr fd a n b. if b = 3 then 22 else 0\<rparr>"

definition ex_client_env :: client_env where
  "ex_client_env = \<lparr>sk_socket = \<lambda>tr d t p. Inr (of_nat (length (live_fds tr)) + 3), sk_setsockopt = \<lambda>tr fd l n v. 0,
     sk_bind = \<lambda>tr fd port a. 0, sk_listen = \<lambda>tr fd n. 0, sk_AF_INET = 2, sk_SOCK_STREAM = 1, sk_SOL_SOCKET = 1,
     sk_SO_REUSEADDR = 2, sk_SOMAXCONN = 4096, ce_setsockopt_timeval = \<lambda>tr fd l n v. 0, ce_SO_RCVTIMEO = 20, ce_SO_SNDTIMEO = 21\<rparr>"

definition ex_attach :: "ring_handle \<Rightarrow> IOUring" where
  "ex_attach h = ex_ring\<lparr>r_FD := h_FD h\<rparr>"

lemma ex_client_sys_ok: "setup_ok ex_client_sys" "mmap_fresh ex_client_sys" "munmap_live ex_client_sys"
  using ex_sys_ok by (simp_all add: ex_client_sys_def setup_ok_def ex_params_def mmap_fresh_def munmap_live_def)

lemma ex_new: "\<exists>h. New ex_client_sys 256 [] = (Inr h, [Opened 3, Mapped 4096 1088, Mapped 8192 16384, Mapped 32768 8256])"
proof -
  have "ones_count (256 :: u32) = 1" using ones_count_exp [of 8, where 'a = 32] by simp
  then show ?thesis
    by (simp add: New_def ex_client_sys_def ex_sys_def ex_params_def ring_sizes_def single_mmap_def mmap_def ex_fresh_def
        live_maps_def live_fds_def sizeofCQEntry_def sizeofSQEntry_def ioUringFeatSingleMMap_def Let_def)
qed

definition ex_opened :: sys_trace where
  "ex_opened = [Opened 3, Mapped 4096 1088, Mapped 8192 16384, Mapped 32768 8256]"

lemma ring_of_16384: "check_ring_args 16384 128 = None" "check_ring_args 16384 4096 = None"
  using ones_count_exp [of 14, where 'a = 32] by (simp_all add: check_ring_args_def maxPbufRingEntries_def)

lemma ex_tiny: "\<exists>p. RegisterBufferRing ex_client_sys fd 0 16384 128 ex_opened =
  Some (Inr p, ex_opened @ [Mapped 73728 2097152, Mapped 2244608 262144, RingRegistered fd 0])"
proof -
  have m1: "mmap ex_client_sys (- 1) 0 (unat (ucast (16384 :: u32) * ucast (128 :: u32) :: u64)) ex_opened =
      (Inr 73728, ex_opened @ [Mapped 73728 2097152])"
    by (simp add: mmap_def ex_client_sys_def ex_sys_def ex_fresh_def live_maps_def ex_opened_def)
  have m2: "mmap ex_client_sys (- 1) 0 (unat ((ucast (16384 :: u32) * of_nat pbufRingEntrySize + 4095) AND NOT (4095 :: u64)))
      (ex_opened @ [Mapped 73728 2097152]) = (Inr 2244608, (ex_opened @ [Mapped 73728 2097152]) @ [Mapped 2244608 262144])"
    by (simp add: mmap_def ex_client_sys_def ex_sys_def ex_fresh_def live_maps_def ex_opened_def pbufRingEntrySize_def)
  have "sys_register_pbuf ex_client_sys ((ex_opened @ [Mapped 73728 2097152]) @ [Mapped 2244608 262144]) fd 2244608 16384 0 = 0"
    by (simp add: ex_client_sys_def)
  from RegisterBufferRing_total [OF ring_of_16384(1) m1 m2 this] show ?thesis by simp
qed

definition ex_provisioned :: "sys_trace" where
  "ex_provisioned = ex_opened @ [Mapped 73728 2097152, Mapped 2244608 262144, RingRegistered 3 0]"

lemma ex_big: "\<exists>tr'. RegisterBufferRing ex_client_sys fd 3 16384 4096 ex_provisioned = Some (Inl (Register_pbuf_ring 22), tr')"
proof -
  have m1: "mmap ex_client_sys (- 1) 0 (unat (ucast (16384 :: u32) * ucast (4096 :: u32) :: u64)) ex_provisioned =
      (Inr 4751360, ex_provisioned @ [Mapped 4751360 67108864])"
    by (simp add: mmap_def ex_client_sys_def ex_sys_def ex_fresh_def live_maps_def ex_opened_def ex_provisioned_def)
  have m2: "mmap ex_client_sys (- 1) 0 (unat ((ucast (16384 :: u32) * of_nat pbufRingEntrySize + 4095) AND NOT (4095 :: u64)))
      (ex_provisioned @ [Mapped 4751360 67108864]) = (Inr 76611584, (ex_provisioned @ [Mapped 4751360 67108864]) @ [Mapped 76611584 262144])"
    by (simp add: mmap_def ex_client_sys_def ex_sys_def ex_fresh_def live_maps_def ex_opened_def ex_provisioned_def pbufRingEntrySize_def)
  have "sys_register_pbuf ex_client_sys tr fd a n 3 = 22" for tr fd a n by (simp add: ex_client_sys_def)
  then show ?thesis
    unfolding RegisterBufferRing_def Let_def ring_of_16384(2) option.case m1 prod.case sum.case m2 by simp
qed

lemma ex_setup: "\<exists>nr tr'. client_setup ex_client_env ex_client_sys ex_attach (Some ([127, 0, 0, 1], 8080)) [] =
  Some (Inl (Provision_huge (Register_buffer_ring (Register_pbuf_ring 22))), Some nr, tr')"
proof -
  obtain h where new: "New ex_client_sys 256 [] = (Inr h, ex_opened)" using ex_new by (auto simp: ex_opened_def)
  have h: "h_FD h = 3"
    using New_success(3) [OF new ex_client_sys_ok(1,2)] by (simp add: ex_opened_def live_fds_def)
  obtain opts where "resolve_options [] = Some (Inr opts)" using default_options by blast
  then obtain nr where nr: "new_netring (ex_attach h) True [] = Some (Inr nr)" "nr_r nr = ex_attach h" "nr_pbrs nr = replicate 5 None"
    and op: "open_netring ex_client_sys ex_attach 256 True [] [] = Some (Inr (h, nr), ex_opened)"
    using new_netring_total [of "[]" opts "ex_attach h"] new by (auto simp: open_netring_def)
  have fd: "r_FD (nr_r nr) = 3" by (simp add: nr(2) ex_attach_def h)
  obtain p where tiny: "RegisterBufferRing ex_client_sys 3 0 16384 128 ex_opened = Some (Inr p, ex_provisioned)"
    using ex_tiny [of 3] by (auto simp: ex_provisioned_def)
  obtain tr' where big: "RegisterBufferRing ex_client_sys 3 3 16384 4096 ex_provisioned = Some (Inl (Register_pbuf_ring 22), tr')"
    using ex_big [of 3] by blast
  have "(ucast SizeClassTiny :: u16) = 0" "(ucast SizeClassBig :: u16) = 3" by (simp_all add: SizeClassTiny_def SizeClassBig_def)
  then have "client_provision ex_client_sys (nr, ex_opened) = Some (Some (Provision_huge (Register_buffer_ring (Register_pbuf_ring 22))),
      nr\<lparr>nr_pbrs := (nr_pbrs nr)[0 := Some p]\<rparr>, tr')"
    using tiny big fd by (simp add: client_provision_def RegisterBufferRing_op_def nr(3))
  then show ?thesis by (simp add: client_setup_def op)
qed

section \<open>Properties\<close>

text \<open>C36. What the client's setup leaves open, whatever step of it fails. Without a ring, the address could not be resolved and
  nothing was opened, or \<open>iouring.New\<close> failed and what that step of it leaks stays, its descriptor and the mappings
  it got to. With a ring, what was opened until the failure stays: the ring with its descriptor and mappings, the buffer rings it
  got to, and the socket when only its timeouts failed; a buffer ring that was refused leaves nothing. A client that gets
  through can receive: the big class passes the checks of \<open>Recv\<close> on its socket, and all of its 16384 buffers of 4096 bytes are
  published. The kernel's part is that of \<open>setup_ok\<close>, \<open>mmap_fresh\<close> and \<open>munmap_live\<close>.\<close>

theorem client_setup_accounts:
  assumes "client_setup cenv env attach target tr = Some (r, ring, tr')"
    and "setup_ok env" and "mmap_fresh env" and "munmap_live env"
  shows "case ring of
    None \<Rightarrow> r = Inl Resolve_server \<and> tr' = tr \<or>
      (\<exists>e. r = Inl (Create_netring (Create_io_uring e)) \<and> length (live_fds tr') = length (live_fds tr) + leaked_fds e \<and>
        length (live_maps tr') = length (live_maps tr) + leaked_maps e)
  | Some nr \<Rightarrow> (\<exists>h fds. ring_open h \<and> opened_fds h r fds \<and> live_fds tr' = live_fds tr @ fds \<and>
      live_maps tr' = live_maps tr @ opened_maps h nr r \<and> nr_r nr = attach h) \<and>
    (case r of Inl f \<Rightarrow> True | Inr (fd, sa) \<Rightarrow> (\<exists>p. nr_pbrs nr ! 3 = Some p \<and> pb_valid 14 0 p \<and> pb_bufSize p = 4096) \<and>
      (sint fd < 0 \<or> check_class fd SizeClassBig nr = Some (Inr 4096)))"
proof (cases ring)
  case None
  then show ?thesis using client_setup_no_ring [of cenv env attach target tr r tr'] assms(1) by simp
next
  case (Some nr)
  note go = assms(1) [unfolded Some]
  have "(\<exists>p. nr_pbrs nr ! 3 = Some p \<and> pb_valid 14 0 p \<and> pb_bufSize p = 4096) \<and> (sint fd < 0 \<or> check_class fd SizeClassBig nr = Some (Inr 4096))"
    if "r = Inr (fd, sa)" for fd sa
    using client_setup_ready [OF go [unfolded that] assms(3,4)] by blast
  then show ?thesis using client_setup_opens [OF go assms(2-4)] unfolding Some by (cases r) auto
qed

theorem client_setup_accounts_witness:
  "\<exists>nr tr' e. client_setup ex_client_env ex_client_sys ex_attach (Some ([127, 0, 0, 1], 8080)) [] = Some (Inl (Provision_huge e), Some nr, tr') \<and>
     length (live_fds tr') = 1 \<and> (\<exists>h. live_maps tr' = ring_maps h @ pbuf_maps (the (nr_pbrs nr ! 0)))"
proof -
  obtain nr tr' where s: "client_setup ex_client_env ex_client_sys ex_attach (Some ([127, 0, 0, 1], 8080)) [] =
    Some (Inl (Provision_huge (Register_buffer_ring (Register_pbuf_ring 22))), Some nr, tr')"
    using ex_setup by blast
  from client_setup_accounts [OF this ex_client_sys_ok, unfolded option.case] obtain h fds where
    "opened_fds h (Inl (Provision_huge (Register_buffer_ring (Register_pbuf_ring 22)))) fds" "live_fds tr' = live_fds [] @ fds"
    "live_maps tr' = live_maps [] @ opened_maps h nr (Inl (Provision_huge (Register_buffer_ring (Register_pbuf_ring 22))))"
    by blast
  then have "length (live_fds tr') = 1" "live_maps tr' = ring_maps h @ pbuf_maps (the (nr_pbrs nr ! 0))"
    by (simp_all add: opened_fds_def opened_maps_def)
  then show ?thesis using s by blast
qed

end
