(* ===== verification/Echo_Main.thy ===== *)
theory Echo_Main
  imports Echo_Server
begin

text \<open>
  \<open>main\<close> of \<open>internal/cmd/echo/main.go\<close> as a group of goroutines: the server with its listener and its
  accept loop, the goroutine that closes the listener, and the client, which waits at the barrier until the server
  listens. The context is cancelled by the group's first error. Flags and profiling are left out, and so is
  \<open>os.Exit\<close> of the client over the standard library, which ends all of it.
\<close>

section \<open>The goroutines\<close>

datatype 'f main_error = Start_listener | Serve_failed loop_error | Client_failed 'f

datatype server_phase = Server_listens | Server_accepts nat | Server_returned
datatype closer_phase = Closer_absent | Closer_waits | Closer_returned
datatype client_phase = Client_waits | Client_runs | Client_returned

record 'f program =
  pm_server :: server_phase
  pm_closer :: closer_phase
  pm_client :: client_phase
  pm_listening :: bool
  pm_barrier :: bool
  pm_noMoreRequests :: bool
  pm_cancelled :: bool
  pm_err :: "'f main_error option"

definition goroutine_returns :: "'f main_error option \<Rightarrow> 'f program \<Rightarrow> 'f program" where
  "goroutine_returns err p = (case err of None \<Rightarrow> p
     | Some e \<Rightarrow> if pm_err p = None then p\<lparr>pm_err := Some e, pm_cancelled := True\<rparr> else p)"

text \<open>
  The select after a failed \<open>Accept\<close> takes a ready case: the end was asked for when the context is cancelled
  or the client is through. \<open>closes\<close> tells whether closing the listener succeeds; a failure is logged.
\<close>

definition end_asked :: "'f program \<Rightarrow> bool" where
  "end_asked p \<longleftrightarrow> pm_cancelled p \<or> pm_noMoreRequests p"

inductive main_step :: "'f program \<Rightarrow> 'f program \<Rightarrow> bool" where
  listen_fails: "pm_server p = Server_listens \<Longrightarrow>
    main_step p (goroutine_returns (Some Start_listener) (p\<lparr>pm_server := Server_returned\<rparr>))"
| listens: "pm_server p = Server_listens \<Longrightarrow>
    main_step p (p\<lparr>pm_server := Server_accepts 0, pm_listening := True, pm_closer := Closer_waits, pm_barrier := True\<rparr>)"
| accepts: "pm_server p = Server_accepts n \<Longrightarrow> pm_listening p \<Longrightarrow> accept_loop [Accepted reported] n = Serving n' \<Longrightarrow>
    main_step p (p\<lparr>pm_server := Server_accepts n'\<rparr>)"
| accept_ends: "pm_server p = Server_accepts n \<Longrightarrow> ev = Accept_failed (end_asked p) \<or> (\<exists>reported. ev = Accepted reported \<and> pm_listening p) \<Longrightarrow>
    accept_loop [ev] n = Stopped n' result \<Longrightarrow>
    main_step p (goroutine_returns (map_option Serve_failed result) (p\<lparr>pm_server := Server_returned\<rparr>))"
| closer: "pm_closer p = Closer_waits \<Longrightarrow> end_asked p \<Longrightarrow>
    main_step p (p\<lparr>pm_closer := Closer_returned, pm_listening := pm_listening p \<and> \<not> closes\<rparr>)"
| client_begins: "pm_client p = Client_waits \<Longrightarrow> pm_barrier p \<Longrightarrow> main_step p (p\<lparr>pm_client := Client_runs\<rparr>)"
| client_fails: "pm_client p = Client_runs \<Longrightarrow>
    main_step p (goroutine_returns (Some (Client_failed f)) (p\<lparr>pm_client := Client_returned\<rparr>))"
| client_succeeds: "pm_client p = Client_runs \<Longrightarrow>
    main_step p (p\<lparr>pm_client := Client_returned, pm_noMoreRequests := True\<rparr>)"

inductive_cases main_step_cases: "main_step p p'"

definition main_start :: "'f program" where
  "main_start = \<lparr>pm_server = Server_listens, pm_closer = Closer_absent, pm_client = Client_waits, pm_listening = False,
     pm_barrier = False, pm_noMoreRequests = False, pm_cancelled = False, pm_err = None\<rparr>"

text \<open>\<open>eg.Wait\<close> returns once both goroutines of the group have; its error is logged.\<close>

definition main_done :: "'f program \<Rightarrow> bool" where
  "main_done p \<longleftrightarrow> pm_server p = Server_returned \<and> pm_client p = Client_returned"

lemma goroutine_returns_simps [simp]:
  "pm_server (goroutine_returns err p) = pm_server p" "pm_closer (goroutine_returns err p) = pm_closer p"
  "pm_client (goroutine_returns err p) = pm_client p" "pm_listening (goroutine_returns err p) = pm_listening p"
  "pm_barrier (goroutine_returns err p) = pm_barrier p" "pm_noMoreRequests (goroutine_returns err p) = pm_noMoreRequests p"
  "pm_cancelled (goroutine_returns err p) \<longleftrightarrow> pm_cancelled p \<or> err \<noteq> None \<and> pm_err p = None"
  "pm_err (goroutine_returns err p) = (if pm_err p = None then err else pm_err p)"
  by (auto simp: goroutine_returns_def split: option.splits)

lemma accept_loop_once: "accept_loop [ev] n = Stopped n' result \<longleftrightarrow> (case ev of
    Accept_failed stopping \<Rightarrow> n' = n \<and> result = (if stopping then None else Some Accept_connection)
  | Accepted reported \<Rightarrow> n' = n + 1 \<and> (\<exists>e. reported = Some e \<and> result = Some (Client_error e)))"
  by (auto split: accept_event.splits option.splits)

section \<open>The invariant\<close>

text \<open>
  The listener is only closed when the end was asked for; the client gets past the barrier only when the
  server listens; once it has returned, the end was asked for.
\<close>

definition main_inv :: "'f program \<Rightarrow> bool" where
  "main_inv p \<longleftrightarrow> (pm_cancelled p \<longleftrightarrow> pm_err p \<noteq> None) \<and>
     (pm_server p = Server_listens \<longrightarrow> pm_closer p = Closer_absent \<and> \<not> pm_barrier p \<and> pm_err p = None) \<and>
     (\<forall>n. pm_server p = Server_accepts n \<longrightarrow> pm_barrier p) \<and>
     (pm_barrier p \<longrightarrow> pm_closer p \<noteq> Closer_absent \<and> (pm_listening p \<or> end_asked p)) \<and>
     (pm_closer p = Closer_returned \<longrightarrow> end_asked p) \<and>
     (\<not> pm_barrier p \<longrightarrow> pm_client p = Client_waits \<and> \<not> pm_noMoreRequests p) \<and>
     (pm_client p = Client_returned \<longrightarrow> end_asked p) \<and>
     (pm_noMoreRequests p \<longrightarrow> pm_client p = Client_returned) \<and>
     (pm_server p = Server_returned \<longrightarrow> end_asked p)"

lemma main_inv_start: "main_inv main_start"
  by (simp add: main_inv_def main_start_def)

lemma main_inv_step: "main_step p p' \<Longrightarrow> main_inv p \<Longrightarrow> main_inv p'"
proof (induction rule: main_step.induct)
  case (accept_ends p n ev n' result)
  note r = accept_ends.hyps(3) [unfolded accept_loop_once]
  show ?case
    using accept_ends.hyps(1,2) accept_ends.prems r
    by (cases ev) (auto simp: main_inv_def end_asked_def split: if_splits)
qed (auto simp: main_inv_def end_asked_def)

lemma main_inv_run: "main_step\<^sup>*\<^sup>* main_start p \<Longrightarrow> main_inv p"
  by (induction rule: rtranclp_induct) (auto intro: main_inv_start main_inv_step)

text \<open>Nobody opens the barrier once the server has returned without listening, and only the failure to listen lets it.\<close>

definition listen_inv :: "'f program \<Rightarrow> bool" where
  "listen_inv p \<longleftrightarrow> (pm_err p = Some Start_listener \<longleftrightarrow> pm_server p = Server_returned \<and> \<not> pm_barrier p) \<and>
     (\<not> pm_barrier p \<longrightarrow> pm_closer p = Closer_absent)"

lemma listen_inv_step: "main_step p p' \<Longrightarrow> main_inv p \<Longrightarrow> listen_inv p \<Longrightarrow> listen_inv p'"
  by (induction rule: main_step.induct) (auto simp: main_inv_def listen_inv_def)

lemma listen_inv_run: "main_step\<^sup>*\<^sup>* main_start p \<Longrightarrow> listen_inv p"
proof (induction rule: rtranclp_induct)
  case base
  show ?case by (simp add: listen_inv_def main_start_def)
next
  case (step p p')
  then show ?case using listen_inv_step main_inv_run by blast
qed

section \<open>Properties\<close>

text \<open>Once the server listens the program can always come to its end; there the error of the group is the first one that occurred,
  no error means that the client succeeded, and a listener that was closed on purpose never counts as a failed \<open>Accept\<close>.\<close>

theorem main_ends:
  assumes "main_step\<^sup>*\<^sup>* main_start p" and "pm_barrier p"
  shows "(\<exists>p'. main_step\<^sup>*\<^sup>* p p' \<and> main_done p') \<and> (main_done p \<and> pm_err p = None \<longrightarrow> pm_noMoreRequests p) \<and>
    (\<forall>p'. main_step p p' \<and> \<not> pm_listening p \<and> pm_err p' = Some (Serve_failed Accept_connection) \<longrightarrow> pm_err p = pm_err p')"
proof -
  have inv: "main_inv p" by (rule main_inv_run [OF assms(1)])
  obtain p1 where p1: "main_step\<^sup>*\<^sup>* p p1" "pm_client p1 = Client_returned"
  proof (cases "pm_client p")
    case Client_waits
    let ?q = "p\<lparr>pm_client := Client_runs\<rparr>"
    have "main_step p ?q" by (rule client_begins [OF Client_waits assms(2)])
    moreover have "main_step ?q (?q\<lparr>pm_client := Client_returned, pm_noMoreRequests := True\<rparr>)"
      by (rule client_succeeds) simp
    ultimately have "main_step\<^sup>*\<^sup>* p (?q\<lparr>pm_client := Client_returned, pm_noMoreRequests := True\<rparr>)"
      by (simp add: rtranclp.rtrancl_into_rtrancl)
    then show thesis by (rule that) simp
  next
    case Client_runs
    have "main_step p (p\<lparr>pm_client := Client_returned, pm_noMoreRequests := True\<rparr>)" by (rule client_succeeds [OF Client_runs])
    then show thesis using that [of "p\<lparr>pm_client := Client_returned, pm_noMoreRequests := True\<rparr>"] r_into_rtranclp by fastforce
  next
    case Client_returned
    then show thesis using that by blast
  qed
  have "main_inv p1" using rtranclp_trans [OF assms(1) p1(1)] by (rule main_inv_run)
  then have ask: "end_asked p1" "pm_server p1 \<noteq> Server_listens"
    using p1(2) by (auto simp: main_inv_def)
  have "\<exists>p'. main_step\<^sup>*\<^sup>* p p' \<and> main_done p'"
  proof (cases "pm_server p1")
    case (Server_accepts n)
    have "main_step p1 (goroutine_returns (map_option Serve_failed None) (p1\<lparr>pm_server := Server_returned\<rparr>))"
      by (rule accept_ends [OF Server_accepts, of "Accept_failed (end_asked p1)"]) (simp_all add: ask(1))
    with p1(1) show ?thesis
      by (rule_tac exI [of _ "goroutine_returns (map_option Serve_failed None) (p1\<lparr>pm_server := Server_returned\<rparr>)"])
        (simp add: main_done_def p1(2) rtranclp.rtrancl_into_rtrancl)
  qed (use p1 ask in \<open>auto simp: main_done_def\<close>)
  moreover have "main_done p \<and> pm_err p = None \<longrightarrow> pm_noMoreRequests p"
    using inv by (auto simp: main_inv_def main_done_def end_asked_def)
  moreover have "pm_err p = pm_err p'"
    if step: "main_step p p'" and closed: "\<not> pm_listening p" and err: "pm_err p' = Some (Serve_failed Accept_connection)" for p'
    using step
  proof cases
    case (accept_ends n ev n' result)
    have "end_asked p" using inv assms(2) closed by (auto simp: main_inv_def)
    then show ?thesis using accept_ends err closed by (auto simp: accept_loop_once split: if_splits)
  qed (use err in \<open>auto split: if_splits\<close>)
  ultimately show ?thesis by blast
qed

theorem main_ends_witness:
  "\<exists>p p' :: unit program. main_step\<^sup>*\<^sup>* main_start p \<and> pm_server p = Server_accepts 0 \<and> main_step\<^sup>*\<^sup>* p p' \<and> main_done p'"
proof -
  let ?p = "main_start\<lparr>pm_server := Server_accepts 0, pm_listening := True, pm_closer := Closer_waits, pm_barrier := True\<rparr> :: unit program"
  have "main_step main_start ?p" by (rule listens) (simp add: main_start_def)
  then have run: "main_step\<^sup>*\<^sup>* main_start ?p" by (rule r_into_rtranclp)
  have "pm_barrier ?p" by simp
  from main_ends [OF run this] obtain p' where "main_step\<^sup>*\<^sup>* ?p p'" "main_done p'" by blast
  then show ?thesis using run by (intro exI [of _ ?p] exI [of _ p']) simp
qed

text \<open>C37. The program can hang, and only when the server cannot listen. From a state that was reached there is a way to the end
  unless the error of the group is that of \<open>net.Listen\<close>; where it is, no step is possible at all: the client waits at the barrier,
  which nobody opens any more and which it does not give up for the cancelled context, so \<open>eg.Wait\<close> never returns and
  the error is not logged.\<close>

theorem listen_failure_deadlocks:
  assumes "main_step\<^sup>*\<^sup>* main_start p"
  shows "(pm_err p = Some Start_listener \<longleftrightarrow> (\<forall>p'. main_step\<^sup>*\<^sup>* p p' \<longrightarrow> \<not> main_done p')) \<and>
    (pm_err p = Some Start_listener \<longrightarrow> pm_cancelled p \<and> (\<forall>p'. \<not> main_step p p'))"
proof -
  have inv: "main_inv p" and listen: "listen_inv p" using main_inv_run [OF assms] listen_inv_run [OF assms] .
  have hangs: "pm_cancelled p \<and> \<not> main_done p \<and> (\<forall>p'. \<not> main_step p p')" if "pm_err p = Some Start_listener"
    using inv listen that by (auto simp: main_inv_def listen_inv_def main_done_def elim: main_step_cases)
  then have "\<not> main_done p'" if "pm_err p = Some Start_listener" "main_step\<^sup>*\<^sup>* p p'" for p'
    using that by (auto elim: converse_rtranclpE)
  moreover have "\<exists>p'. main_step\<^sup>*\<^sup>* p p' \<and> main_done p'" if no: "pm_err p \<noteq> Some Start_listener"
  proof (cases "pm_barrier p")
    case True
    show ?thesis using main_ends [OF assms True] by blast
  next
    case False
    then have server: "pm_server p = Server_listens"
      using inv listen no by (cases "pm_server p") (auto simp: main_inv_def listen_inv_def)
    let ?p = "p\<lparr>pm_server := Server_accepts 0, pm_listening := True, pm_closer := Closer_waits, pm_barrier := True\<rparr>"
    note step = listens [OF server]
    have "pm_barrier ?p" by simp
    from main_ends [OF rtranclp.rtrancl_into_rtrancl [OF assms step] this]
    obtain p' where "main_step\<^sup>*\<^sup>* ?p p'" "main_done p'" by blast
    then show ?thesis using converse_rtranclp_into_rtranclp [of main_step, OF step] by blast
  qed
  ultimately show ?thesis using hangs by blast
qed

theorem listen_failure_deadlocks_witness:
  "\<exists>p :: unit program. main_step\<^sup>*\<^sup>* main_start p \<and> pm_err p = Some Start_listener \<and> \<not> main_done p \<and> (\<forall>p'. \<not> main_step p p')"
proof -
  let ?p = "goroutine_returns (Some Start_listener) (main_start\<lparr>pm_server := Server_returned\<rparr>) :: unit program"
  have "main_step main_start ?p" by (rule listen_fails) (simp add: main_start_def)
  then have run: "main_step\<^sup>*\<^sup>* main_start ?p" by (rule r_into_rtranclp)
  have "pm_err ?p = Some Start_listener" by (simp add: main_start_def)
  then show ?thesis using listen_failure_deadlocks [OF run] run by blast
qed

end
