(* ===== verification/Slots_Protocol.thy ===== *)
theory Slots_Protocol
  imports Task_Slots
begin

text \<open>
  \<open>Add\<close> and \<open>Del\<close> of the slot table at the same time (\<open>internal/taskslots/taskslots.go\<close>):
  whoever may push calls \<open>Add\<close>, one at a time, and the poller calls \<open>Del\<close>. The steps are the
  accesses to what both sides touch: the read of \<open>delCount\<close> at the saturation gate, the reads
  and the swap of the poller's bitmap, the bit \<open>Del\<close> sets, the counter it raises next, and the
  fallback map under its mutex. What only \<open>Add\<close> writes (the bitmap, the tasks, \<open>free\<close>, the wave)
  changes along with them. The table is the record of \<open>Task_Slots\<close> with its machine words.
\<close>

section \<open>Steps\<close>

text \<open>Where \<open>Add\<close> stands: at the word under the wave, before the swap, or in the fallback loop.\<close>

datatype 'a add_pc = A_idle | A_look 'a | A_sync 'a | A_fall 'a

text \<open>
  \<open>sr_counting\<close>: the poller has set the bit of a slot and not yet raised \<open>delCount\<close>.
  \<open>sr_handed\<close> is for the proofs: the tasks by the index \<open>Add\<close> returned, until \<open>Del\<close> takes it back.
\<close>

record 'a slot_run =
  sr_slots :: "'a slots"
  sr_add :: "'a add_pc"
  sr_counting :: bool
  sr_handed :: "u64 \<rightharpoonup> 'a"

definition slot_start :: "'a slots \<Rightarrow> 'a slot_run" where
  "slot_start s = \<lparr>sr_slots = s, sr_add = A_idle, sr_counting = False, sr_handed = live s\<rparr>"

definition wave_word :: "'a slots \<Rightarrow> nat" where
  "wave_word s = unat (ts_wave s AND ts_bitmapLenMask s)"

text \<open>The hot path on the word under the wave, which has a zero bit.\<close>

definition take_slot :: "'a \<Rightarrow> 'a slots \<Rightarrow> u64 \<times> 'a slots" where
  "take_slot v s = (let wordIdx = ts_wave s AND ts_bitmapLenMask s; j = unat wordIdx;
       emptyBitIdx = trailing_zeros ((- 1) XOR (ts_bitmap s ! j));
       globalSlotIdx = push_bit 6 wordIdx + of_nat emptyBitIdx
     in (globalSlotIdx, s\<lparr> ts_bitmap := (ts_bitmap s)[j := ts_bitmap s ! j OR push_bit emptyBitIdx 1],
           ts_tasks := (ts_tasks s)[unat globalSlotIdx := v], ts_free := ts_free s - 1 \<rparr>))"

text \<open>One turn of the fallback loop.\<close>

definition fallback_slot :: "'a slots \<Rightarrow> u64" where
  "fallback_slot s = (ts_fallbackWave s AND ts_fallbackMask s) + ts_cap s"

text \<open>The first half of \<open>Del\<close> on a ring slot; the second raises \<open>delCount\<close>.\<close>

definition mark_slot :: "u64 \<Rightarrow> 'a slots \<Rightarrow> 'a slots" where
  "mark_slot idx s = (let j = unat (drop_bit 6 idx) in
     s\<lparr>ts_pollerBitmap := (ts_pollerBitmap s)[j := ts_pollerBitmap s ! j OR push_bit (unat (idx AND 63)) 1]\<rparr>)"

inductive add_step :: "'a slot_run \<Rightarrow> 'a slot_run \<Rightarrow> bool" where
  gate: "sr_add r = A_idle \<Longrightarrow> s = sr_slots r \<Longrightarrow>
    add_step r (r\<lparr>sr_add := (if ts_free s OR (ts_delCount s - ts_lastDelCount s) = 0 then A_fall v else A_look v)\<rparr>)"
| take: "sr_add r = A_look v \<Longrightarrow> s = sr_slots r \<Longrightarrow> ts_bitmap s ! wave_word s \<noteq> - 1 \<Longrightarrow> take_slot v s = (idx, s') \<Longrightarrow>
    add_step r (r\<lparr>sr_slots := s', sr_add := A_idle, sr_handed := (sr_handed r)(idx \<mapsto> v)\<rparr>)"
| pass: "sr_add r = A_look v \<Longrightarrow> s = sr_slots r \<Longrightarrow> ts_bitmap s ! wave_word s = - 1 \<Longrightarrow> ts_pollerBitmap s ! wave_word s = 0 \<Longrightarrow>
    add_step r (r\<lparr>sr_slots := s\<lparr>ts_wave := ts_wave s + 1\<rparr>\<rparr>)"
| found: "sr_add r = A_look v \<Longrightarrow> s = sr_slots r \<Longrightarrow> ts_bitmap s ! wave_word s = - 1 \<Longrightarrow> ts_pollerBitmap s ! wave_word s \<noteq> 0 \<Longrightarrow>
    add_step r (r\<lparr>sr_add := A_sync v\<rparr>)"
| swap: "sr_add r = A_sync v \<Longrightarrow> s = sr_slots r \<Longrightarrow>
    add_step r (r\<lparr>sr_slots := syncWord (wave_word s) s, sr_add := A_look v\<rparr>)"
| occupied: "sr_add r = A_fall v \<Longrightarrow> s = sr_slots r \<Longrightarrow> ts_fallback s (fallback_slot s) \<noteq> None \<Longrightarrow>
    add_step r (r\<lparr>sr_slots := s\<lparr>ts_fallbackWave := ts_fallbackWave s + 1\<rparr>\<rparr>)"
| insert: "sr_add r = A_fall v \<Longrightarrow> s = sr_slots r \<Longrightarrow> ts_fallback s (fallback_slot s) = None \<Longrightarrow>
    add_step r (r\<lparr>sr_slots := s\<lparr>ts_fallbackWave := ts_fallbackWave s + 1,
        ts_fallback := (ts_fallback s)(fallback_slot s \<mapsto> v)\<rparr>,
      sr_add := A_idle, sr_handed := (sr_handed r)(fallback_slot s \<mapsto> v)\<rparr>)"

text \<open>The poller deletes an index once, after \<open>Add\<close> has returned it.\<close>

inductive del_step :: "'a slot_run \<Rightarrow> 'a slot_run \<Rightarrow> bool" where
  mark: "\<not> sr_counting r \<Longrightarrow> sr_handed r idx = Some x \<Longrightarrow> idx < ts_cap (sr_slots r) \<Longrightarrow>
    del_step r (r\<lparr>sr_slots := mark_slot idx (sr_slots r), sr_counting := True, sr_handed := (sr_handed r)(idx := None)\<rparr>)"
| count: "sr_counting r \<Longrightarrow> s = sr_slots r \<Longrightarrow>
    del_step r (r\<lparr>sr_slots := s\<lparr>ts_delCount := ts_delCount s + 1\<rparr>, sr_counting := False\<rparr>)"
| remove: "\<not> sr_counting r \<Longrightarrow> sr_handed r idx = Some x \<Longrightarrow> \<not> idx < ts_cap (sr_slots r) \<Longrightarrow>
    del_step r (r\<lparr>sr_slots := Del idx (sr_slots r), sr_handed := (sr_handed r)(idx := None)\<rparr>)"

definition slot_step :: "'a slot_run \<Rightarrow> 'a slot_run \<Rightarrow> bool" where
  "slot_step r r' \<longleftrightarrow> add_step r r' \<or> del_step r r'"

text \<open>With the counter raised, the two halves of \<open>Del\<close> make the whole.\<close>

lemma Del_halves: "idx < ts_cap s \<Longrightarrow> Del idx s = (mark_slot idx s)\<lparr>ts_delCount := ts_delCount s + 1\<rparr>"
  by (simp add: Del_def mark_slot_def Let_def)

section \<open>The invariant\<close>

text \<open>The table as it is once the poller has raised its counter.\<close>

definition settled :: "'a slot_run \<Rightarrow> 'a slots" where
  "settled r = (let s = sr_slots r in s\<lparr>ts_delCount := ts_delCount s + (if sr_counting r then 1 else 0)\<rparr>)"

definition run_inv :: "nat \<Rightarrow> 'a slot_run \<Rightarrow> bool" where
  "run_inv k r \<longleftrightarrow> slots_inv k (settled r) \<and> live (sr_slots r) = sr_handed r"

lemma live_counters [simp]: "live (s\<lparr>ts_delCount := n\<rparr>) = live s" "live (s\<lparr>ts_wave := n\<rparr>) = live s"
  "live (s\<lparr>ts_fallbackWave := n\<rparr>) = live s"
  by (simp_all add: live_def fun_eq_iff)

lemma settled_simps [simp]:
  "ts_bitmap (settled r) = ts_bitmap (sr_slots r)" "ts_pollerBitmap (settled r) = ts_pollerBitmap (sr_slots r)"
  "ts_cap (settled r) = ts_cap (sr_slots r)" "ts_fallback (settled r) = ts_fallback (sr_slots r)"
  "ts_free (settled r) = ts_free (sr_slots r)" "ts_lastDelCount (settled r) = ts_lastDelCount (sr_slots r)"
  "wave_word (settled r) = wave_word (sr_slots r)" "live (settled r) = live (sr_slots r)"
  "fallback_slot (settled r) = fallback_slot (sr_slots r)" "ts_fallbackWave (settled r) = ts_fallbackWave (sr_slots r)"
  by (simp_all add: settled_def Let_def wave_word_def fallback_slot_def)

lemma run_inv_start: "slots_inv k s \<Longrightarrow> run_inv k (slot_start s)"
  by (simp add: run_inv_def slot_start_def settled_def)

lemma wave_word_bound:
  "slots_inv k s \<Longrightarrow> wave_word s < length (ts_bitmap s) \<and> wave_word s < length (ts_pollerBitmap s)"
  using slots_shape_word(2,3) [of k s] slots_inv_shape [of k s] by (simp add: wave_word_def)

text \<open>The hot path is the hit of \<open>add_hot\<close>, with what it does to the bitmap.\<close>

lemma take_slot_spec:
  assumes inv: "slots_inv k s" and hole: "ts_bitmap s ! wave_word s \<noteq> - 1"
  shows "add_spec k v s (take_slot v s)" "fst (take_slot v s) < ts_cap s"
    "unat (fst (take_slot v s)) \<notin> bits_of (ts_bitmap s)" "unat (fst (take_slot v s)) div 64 = wave_word s"
    "bits_of (ts_bitmap (snd (take_slot v s))) = insert (unat (fst (take_slot v s))) (bits_of (ts_bitmap s))"
proof -
  let ?j = "wave_word s"
  define b where "b = trailing_zeros ((- 1) XOR (ts_bitmap s ! ?j))"
  have shape: "slots_shape k s" using inv by auto
  have jl: "?j < length (ts_bitmap s)" using wave_word_bound [OF inv] by simp
  have b64: "b < 64"
    using hole trailing_zeros_less_iff [of "(- 1) XOR (ts_bitmap s ! ?j)"] by (simp add: b_def not_word_eq_0_iff)
  then have "bit ((- 1) XOR (ts_bitmap s ! ?j)) b" unfolding b_def by (intro trailing_zeros_bit) simp
  then have free_bit: "\<not> bit (ts_bitmap s ! ?j) b" by (simp add: bit_simps)
  have "unat (push_bit 6 (of_nat ?j) + of_nat b :: u64) = 64 * ?j + b"
    by (rule slot_index [OF slots_shape_index_bound(1) [OF shape jl] b64])
  moreover have "fst (take_slot v s) = push_bit 6 (of_nat ?j) + of_nat b"
    by (simp add: take_slot_def Let_def b_def wave_word_def)
  ultimately have g: "unat (fst (take_slot v s)) = 64 * ?j + b" by simp
  show "unat (fst (take_slot v s)) \<notin> bits_of (ts_bitmap s)" "unat (fst (take_slot v s)) div 64 = ?j"
    unfolding g using b64 free_bit by (simp_all add: bits_of_def)
  show "bits_of (ts_bitmap (snd (take_slot v s))) = insert (unat (fst (take_slot v s))) (bits_of (ts_bitmap s))"
    unfolding g using bits_of_set_bit [OF jl b64] by (simp add: take_slot_def Let_def b_def wave_word_def)
  have "add_hot v s = Some (take_slot v s)"
    using b64 by (subst add_hot.simps) (simp add: Let_def take_slot_def b_def wave_word_def)
  then show "add_spec k v s (take_slot v s)" "fst (take_slot v s) < ts_cap s"
    using add_hot_hit [OF inv, of ?j v] hole by (simp_all add: wave_word_def)
qed

section \<open>Preservation\<close>

lemma Get_delCount: "Get zero idx (s\<lparr>ts_delCount := d\<rparr>) = Get zero idx s"
  by (simp add: Get_def)

lemma delCount_commutes:
  "take_slot v (s\<lparr>ts_delCount := d\<rparr>) = (fst (take_slot v s), (snd (take_slot v s))\<lparr>ts_delCount := d\<rparr>)"
  "syncWord j (s\<lparr>ts_delCount := d\<rparr>) = (syncWord j s)\<lparr>ts_delCount := d\<rparr>"
  "ts_delCount (snd (take_slot v s)) = ts_delCount s" "ts_delCount (syncWord j s) = ts_delCount s"
  by (simp_all add: take_slot_def syncWord_def Let_def)

lemma settled_update:
  "ts_delCount s' = ts_delCount (sr_slots r) \<Longrightarrow> settled (r\<lparr>sr_slots := s', sr_add := pc, sr_handed := h\<rparr>) =
    s'\<lparr>ts_delCount := ts_delCount (settled r)\<rparr>"
  by (simp add: settled_def Let_def)

lemma run_inv_same: "sr_slots r' = sr_slots r \<Longrightarrow> sr_counting r' = sr_counting r \<Longrightarrow> sr_handed r' = sr_handed r \<Longrightarrow>
    run_inv k r' = run_inv k r"
  by (simp add: run_inv_def settled_def)

lemma settled_slots: "settled r = (sr_slots r)\<lparr>ts_delCount := ts_delCount (settled r)\<rparr>"
  by (simp add: settled_def Let_def)

text \<open>What a step does to the tasks handed out: nothing, a new index, or one less.\<close>

definition handed_moves :: "(u64 \<rightharpoonup> 'a) \<Rightarrow> (u64 \<rightharpoonup> 'a) \<Rightarrow> bool" where
  "handed_moves h h' \<longleftrightarrow> h' = h \<or> (\<exists>i x. h i = None \<and> h' = h(i \<mapsto> x)) \<or> (\<exists>i. h' = h(i := None))"

lemma handed_moves_remove: "handed_moves h (h(i := None))"
  unfolding handed_moves_def by blast

lemma run_inv_take:
  assumes inv: "run_inv k r" and hole: "ts_bitmap (sr_slots r) ! wave_word (sr_slots r) \<noteq> - 1"
    and tk: "take_slot v (sr_slots r) = (idx, s')"
  shows "run_inv k (r\<lparr>sr_slots := s', sr_add := pc, sr_handed := (sr_handed r)(idx \<mapsto> v)\<rparr>) \<and> sr_handed r idx = None"
proof -
  have i: "slots_inv k (settled r)" "live (sr_slots r) = sr_handed r" using inv by (auto simp: run_inv_def)
  have "take_slot v (settled r) = (idx, s'\<lparr>ts_delCount := ts_delCount (settled r)\<rparr>)"
    by (subst settled_slots) (simp add: delCount_commutes(1) tk)
  moreover have "add_spec k v (settled r) (take_slot v (settled r))" by (rule take_slot_spec(1) [OF i(1)]) (simp add: hole)
  moreover have "ts_delCount s' = ts_delCount (sr_slots r)" using delCount_commutes(3) [of v "sr_slots r"] tk by simp
  ultimately show ?thesis using i(2) by (simp add: run_inv_def add_spec_def settled_update)
qed

lemma run_inv_insert:
  assumes inv: "run_inv k r" and none: "ts_fallback (sr_slots r) (fallback_slot (sr_slots r)) = None"
  defines "s \<equiv> sr_slots r"
  shows "run_inv k (r\<lparr>sr_slots := s\<lparr>ts_fallbackWave := ts_fallbackWave s + 1, ts_fallback := (ts_fallback s)(fallback_slot s \<mapsto> v)\<rparr>,
      sr_add := pc, sr_handed := (sr_handed r)(fallback_slot s \<mapsto> v)\<rparr>) \<and> sr_handed r (fallback_slot s) = None"
proof -
  let ?t = "settled r"
  have i: "slots_inv k ?t" "live s = sr_handed r" using inv by (auto simp: run_inv_def s_def)
  let ?t' = "?t\<lparr>ts_fallbackWave := ts_fallbackWave ?t + 1, ts_fallback := (ts_fallback ?t)(fallback_slot ?t \<mapsto> v)\<rparr>"
  have "add_fallback v ?t = Some (fallback_slot ?t, ?t')"
    using none by (subst add_fallback.simps) (simp add: Let_def fallback_slot_def [symmetric] del: settled_simps, simp)
  moreover have "\<exists>r. add_fallback v ?t = Some r \<and> add_spec k v ?t r \<and> ts_cap ?t \<le> fst r"
    by (rule add_fallback_here [OF i(1) fallback_slot_def]) (use none in simp)
  ultimately have "add_spec k v ?t (fallback_slot s, ?t')" by (auto simp: s_def)
  moreover have "?t' = s\<lparr>ts_fallbackWave := ts_fallbackWave s + 1, ts_fallback := (ts_fallback s)(fallback_slot s \<mapsto> v),
      ts_delCount := ts_delCount ?t\<rparr>"
    unfolding s_def by (simp add: settled_def Let_def fallback_slot_def)
  ultimately show ?thesis using i(2) by (simp add: run_inv_def add_spec_def settled_update s_def)
qed

lemma run_inv_add:
  assumes "add_step r r'" "run_inv k r"
  shows "run_inv k r' \<and> handed_moves (sr_handed r) (sr_handed r')"
  using assms(1)
proof cases
  case (gate s v)
  then show ?thesis using assms(2) run_inv_same [of r' r k] by (simp add: handed_moves_def)
next
  case (take v s idx s')
  then show ?thesis using run_inv_take [OF assms(2), of v idx s' A_idle] by (auto simp: handed_moves_def)
next
  case (pass v s)
  let ?t = "settled r"
  have "settled r' = ?t\<lparr>ts_wave := ts_wave ?t + 1\<rparr>" by (simp add: pass settled_def Let_def)
  moreover have "slots_inv k (?t\<lparr>ts_wave := ts_wave ?t + 1\<rparr>)"
    using assms(2) by (simp add: run_inv_def slots_inv_def slots_shape_def)
  ultimately show ?thesis using assms(2) pass by (simp add: run_inv_def handed_moves_def)
next
  case (found v s)
  then show ?thesis using assms(2) run_inv_same [of r' r k] by (simp add: handed_moves_def)
next
  case (swap v s)
  let ?t = "settled r" and ?j = "wave_word (sr_slots r)"
  have i: "slots_inv k ?t" "live (sr_slots r) = sr_handed r" using assms(2) by (auto simp: run_inv_def)
  have j: "?j < length (ts_pollerBitmap ?t)" using wave_word_bound [OF i(1)] by simp
  have "settled r' = syncWord ?j ?t"
    unfolding swap by (subst (2) settled_slots) (simp add: delCount_commutes settled_def Let_def)
  moreover have "live (syncWord ?j (sr_slots r)) = live (syncWord ?j ?t)"
    by (subst settled_slots) (simp add: delCount_commutes(2))
  ultimately show ?thesis
    using i syncWord_inv [OF i(1) j] syncWord_live [OF i(1) j] swap by (simp add: run_inv_def handed_moves_def)
next
  case (occupied v s)
  let ?t = "settled r"
  have "settled r' = ?t\<lparr>ts_fallbackWave := ts_fallbackWave ?t + 1\<rparr>" by (simp add: occupied settled_def Let_def)
  moreover have "slots_inv k (?t\<lparr>ts_fallbackWave := ts_fallbackWave ?t + 1\<rparr>)"
    using assms(2) by (simp add: run_inv_def slots_inv_def slots_shape_def)
  ultimately show ?thesis using assms(2) occupied by (simp add: run_inv_def handed_moves_def)
next
  case (insert v s)
  then show ?thesis using run_inv_insert [OF assms(2), of v A_idle] by (auto simp: handed_moves_def)
qed

lemma run_inv_del:
  assumes "del_step r r'" "run_inv k r"
  shows "run_inv k r' \<and> handed_moves (sr_handed r) (sr_handed r')"
proof -
  have i: "slots_inv k (settled r)" "live (sr_slots r) = sr_handed r" using assms(2) by (auto simp: run_inv_def)
  from assms(1) show ?thesis
  proof cases
    case (mark idx x)
    have s: "settled r = sr_slots r" using mark(2) by (simp add: settled_def)
    have "settled r' = Del idx (sr_slots r)"
      using mark Del_halves [of idx "sr_slots r"] by (simp add: settled_def mark_slot_def Let_def)
    moreover have "live (Del idx (sr_slots r)) = live (mark_slot idx (sr_slots r))"
      using mark Del_halves [of idx "sr_slots r"] by simp
    moreover have "slots_inv k (Del idx (sr_slots r)) \<and> live (Del idx (sr_slots r)) = (live (sr_slots r))(idx := None)"
      using Del_spec [of k "sr_slots r" idx x] i mark(3) s by simp
    ultimately show ?thesis using mark(1) i(2) handed_moves_remove [of "sr_handed r" idx] by (simp add: run_inv_def)
  next
    case (count s)
    then have "settled r' = settled r" by (simp add: settled_def Let_def)
    then show ?thesis using assms(2) count by (simp add: run_inv_def handed_moves_def)
  next
    case (remove idx x)
    have s: "settled r = sr_slots r" "settled r' = Del idx (sr_slots r)" using remove by (simp_all add: settled_def)
    have "slots_inv k (Del idx (sr_slots r)) \<and> live (Del idx (sr_slots r)) = (live (sr_slots r))(idx := None)"
      using Del_spec [of k "sr_slots r" idx x] i remove(3) s by simp
    then show ?thesis using remove(1) i(2) s by (simp add: run_inv_def handed_moves_remove)
  qed
qed

lemma run_inv_step: "slot_step r r' \<Longrightarrow> run_inv k r \<Longrightarrow> run_inv k r' \<and> handed_moves (sr_handed r) (sr_handed r')"
  using run_inv_add run_inv_del unfolding slot_step_def by blast

lemma run_inv_reaches: "slot_step\<^sup>*\<^sup>* r r' \<Longrightarrow> run_inv k r \<Longrightarrow> run_inv k r'"
  by (induction rule: rtranclp_induct) (auto dest: run_inv_step)

section \<open>Filling the table\<close>

definition saturated :: "'a slots \<Rightarrow> bool" where
  "saturated s \<longleftrightarrow> list_all (\<lambda>w. w = - 1) (ts_bitmap s) \<and> list_all (\<lambda>w. w = 0) (ts_pollerBitmap s)"

lemma saturated_bits:
  assumes "run_inv k r"
  shows "saturated (sr_slots r) \<longleftrightarrow> bits_of (ts_bitmap (sr_slots r)) = {..<2 ^ k} \<and> bits_of (ts_pollerBitmap (sr_slots r)) = {}"
proof -
  have "slots_shape k (settled r)" using assms by (auto simp: run_inv_def)
  from slots_shape_size [OF this] have "64 * length (ts_bitmap (sr_slots r)) = 2 ^ k" by simp
  then show ?thesis
    using bits_of_full_iff [of "ts_bitmap (sr_slots r)"] bits_of_empty_iff [of "ts_pollerBitmap (sr_slots r)"]
    by (simp add: saturated_def list_all_length)
qed

text \<open>The counters, by the sets of bits.\<close>

lemma run_inv_free:
  assumes "run_inv k r"
  shows "unat (ts_free (sr_slots r)) + card (bits_of (ts_bitmap (sr_slots r))) = 2 ^ k"
    "ts_delCount (sr_slots r) - ts_lastDelCount (sr_slots r) =
      of_nat (card (bits_of (ts_pollerBitmap (sr_slots r)))) - (if sr_counting r then 1 else 0)"
proof -
  have "slots_inv k (settled r)" using assms by (simp add: run_inv_def)
  then show "unat (ts_free (sr_slots r)) + card (bits_of (ts_bitmap (sr_slots r))) = 2 ^ k"
    "ts_delCount (sr_slots r) - ts_lastDelCount (sr_slots r) =
      of_nat (card (bits_of (ts_pollerBitmap (sr_slots r)))) - (if sr_counting r then 1 else 0)"
    by (auto simp: slots_inv_def settled_def Let_def algebra_simps split: if_splits)
qed

lemma run_bits_bound: "run_inv k r \<Longrightarrow> bits_of (ts_bitmap (sr_slots r)) \<subseteq> {..<2 ^ k}"
  using bits_of_bound [of "ts_bitmap (sr_slots r)"] slots_shape_size(1) [of k "settled r"] slots_inv_shape [of k "settled r"]
  by (simp add: run_inv_def)

lemma takes:
  assumes inv: "run_inv k r" and look: "sr_add r = A_look v" and hole: "ts_bitmap (sr_slots r) ! wave_word (sr_slots r) \<noteq> - 1"
  shows "\<exists>g r'. add_step r r' \<and> sr_add r' = A_idle \<and> sr_counting r' = sr_counting r \<and>
    wave_word (sr_slots r') = wave_word (sr_slots r) \<and> ts_pollerBitmap (sr_slots r') = ts_pollerBitmap (sr_slots r) \<and>
    g \<notin> bits_of (ts_bitmap (sr_slots r)) \<and> bits_of (ts_bitmap (sr_slots r')) = insert g (bits_of (ts_bitmap (sr_slots r)))"
proof -
  obtain idx s' where tk: "take_slot v (sr_slots r) = (idx, s')" by fastforce
  let ?r = "r\<lparr>sr_slots := s', sr_add := A_idle, sr_handed := (sr_handed r)(idx \<mapsto> v)\<rparr>"
  have i: "slots_inv k (settled r)" using inv by (simp add: run_inv_def)
  have "take_slot v (settled r) = (idx, s'\<lparr>ts_delCount := ts_delCount (settled r)\<rparr>)"
    by (subst settled_slots) (simp add: delCount_commutes(1) tk)
  then have "unat idx \<notin> bits_of (ts_bitmap (sr_slots r))" "bits_of (ts_bitmap s') = insert (unat idx) (bits_of (ts_bitmap (sr_slots r)))"
    using take_slot_spec(3,5) [OF i, of v] hole by simp_all
  moreover have "ts_pollerBitmap s' = ts_pollerBitmap (sr_slots r)" "wave_word s' = wave_word (sr_slots r)"
    using tk by (auto simp: take_slot_def Let_def wave_word_def)
  moreover have "add_step r ?r" by (rule add_step.take [OF look refl hole tk])
  ultimately show ?thesis by (intro exI [of _ "unat idx"] exI [of _ ?r]) simp
qed

lemma look_takes:
  assumes "run_inv k r" "sr_add r = A_look v" "bits_of (ts_pollerBitmap (sr_slots r)) = {}"
    "ts_bitmap (sr_slots r) ! ((unat (ts_wave (sr_slots r)) + d) mod 2 ^ (k - 6)) \<noteq> - 1"
  shows "\<exists>r'. add_step\<^sup>*\<^sup>* r r' \<and> sr_add r' = A_idle \<and> sr_counting r' = sr_counting r \<and>
    bits_of (ts_pollerBitmap (sr_slots r')) = {} \<and>
    Suc (card (bits_of (ts_bitmap (sr_slots r)))) = card (bits_of (ts_bitmap (sr_slots r')))"
  using assms
proof (induction d arbitrary: r)
  have hit: "\<exists>r'. add_step\<^sup>*\<^sup>* r r' \<and> sr_add r' = A_idle \<and> sr_counting r' = sr_counting r \<and>
      bits_of (ts_pollerBitmap (sr_slots r')) = {} \<and>
      Suc (card (bits_of (ts_bitmap (sr_slots r)))) = card (bits_of (ts_bitmap (sr_slots r')))"
    if inv: "run_inv k r" and look: "sr_add r = A_look v" and none: "bits_of (ts_pollerBitmap (sr_slots r)) = {}"
      and hole: "ts_bitmap (sr_slots r) ! wave_word (sr_slots r) \<noteq> - 1" for r
  proof -
    obtain g r' where "add_step r r'" "sr_add r' = A_idle" "sr_counting r' = sr_counting r"
      "ts_pollerBitmap (sr_slots r') = ts_pollerBitmap (sr_slots r)" "g \<notin> bits_of (ts_bitmap (sr_slots r))"
      "bits_of (ts_bitmap (sr_slots r')) = insert g (bits_of (ts_bitmap (sr_slots r)))"
      using takes [OF inv look hole] by blast
    then show ?thesis using none by (intro exI [of _ r']) auto
  qed
  {
    case (0 r)
    then have "slots_shape k (settled r)" by (auto simp: run_inv_def)
    from slots_shape_word(1) [OF this] have "wave_word (sr_slots r) = unat (ts_wave (sr_slots r)) mod 2 ^ (k - 6)"
      by (simp add: wave_word_def settled_def Let_def)
    then show ?case using "0.prems" by (intro hit) simp_all
  next
    case (Suc d r)
    let ?s = "sr_slots r" and ?j = "wave_word (sr_slots r)"
    show ?case
    proof (cases "ts_bitmap ?s ! ?j = - 1")
      case False
      then show ?thesis using Suc.prems(1-3) by (intro hit)
    next
      case True
      have shape: "slots_shape k (settled r)" using Suc.prems(1) by (auto simp: run_inv_def)
      then have k6: "k - 6 \<le> LENGTH(64)" by (auto simp: slots_shape_def)
      have "?j < length (ts_pollerBitmap ?s)" using wave_word_bound [of k "settled r"] Suc.prems(1) by (simp add: run_inv_def)
      then have "ts_pollerBitmap ?s ! ?j = 0" using Suc.prems(3) by (simp add: bits_of_empty_iff)
      then have step: "add_step r (r\<lparr>sr_slots := ?s\<lparr>ts_wave := ts_wave ?s + 1\<rparr>\<rparr>)" (is "add_step r ?r")
        by (rule add_step.pass [OF Suc.prems(2) refl True])
      have "(unat (ts_wave ?s + 1) + d) mod 2 ^ (k - 6) = (unat (ts_wave ?s) + Suc d) mod 2 ^ (k - 6)"
        using unat_word_plus_nat_mod [OF k6, of "ts_wave ?s" 1] by simp (metis add_Suc add_Suc_right mod_add_left_eq)
      then have "\<exists>r'. add_step\<^sup>*\<^sup>* ?r r' \<and> sr_add r' = A_idle \<and> sr_counting r' = sr_counting ?r \<and>
          bits_of (ts_pollerBitmap (sr_slots r')) = {} \<and>
          Suc (card (bits_of (ts_bitmap (sr_slots ?r)))) = card (bits_of (ts_bitmap (sr_slots r')))"
        using Suc.prems run_inv_add [OF step Suc.prems(1)] by (intro Suc.IH) simp_all
      then show ?thesis using step by (auto intro: converse_rtranclp_into_rtranclp)
    qed
  }
qed

lemma add_steps_reach: "add_step\<^sup>*\<^sup>* r r' \<Longrightarrow> slot_step\<^sup>*\<^sup>* r r'"
  by (induction rule: rtranclp_induct) (auto simp: slot_step_def intro: rtranclp.rtrancl_into_rtrancl)

lemma add_step_reach: "add_step r r' \<Longrightarrow> slot_step\<^sup>*\<^sup>* r r'"
  by (auto simp: slot_step_def)

text \<open>Calls of \<open>Add\<close> alone fill the table.\<close>

lemma fills:
  assumes "run_inv k r" "sr_add r = A_idle" "\<not> sr_counting r" "bits_of (ts_pollerBitmap (sr_slots r)) = {}"
    "card (bits_of (ts_bitmap (sr_slots r))) + n = 2 ^ k"
  shows "\<exists>r'. slot_step\<^sup>*\<^sup>* r r' \<and> sr_add r' = A_idle \<and> \<not> sr_counting r' \<and> saturated (sr_slots r')"
  using assms
proof (induction n arbitrary: r)
  case (0 r)
  have "bits_of (ts_bitmap (sr_slots r)) = {..<2 ^ k}"
    using 0 run_bits_bound [of k r] by (intro card_subset_eq) auto
  then have "saturated (sr_slots r)" using saturated_bits [of k r] 0 by simp
  then show ?case using 0 by auto
next
  case (Suc n r)
  let ?s = "sr_slots r" and ?g = "r\<lparr>sr_add := A_look v\<rparr>"
  have "ts_free ?s \<noteq> 0" using run_inv_free(1) [OF Suc.prems(1)] Suc.prems(5) by auto
  then have gate: "add_step r ?g" using add_step.gate [OF Suc.prems(2) refl, of v] by (simp add: or_eq_0_word_iff)
  have "bits_of (ts_bitmap ?s) \<noteq> {..<2 ^ k}"
  proof
    assume "bits_of (ts_bitmap ?s) = {..<2 ^ k}"
    then show False using Suc.prems(5) by (simp only: card_lessThan)
  qed
  moreover have shape: "slots_shape k (settled r)" using Suc.prems(1) by (auto simp: run_inv_def)
  have len: "length (ts_bitmap ?s) = 2 ^ (k - 6)" using shape by (simp add: slots_shape_def)
  have "64 * length (ts_bitmap ?s) = 2 ^ k" using slots_shape_size(1) [OF shape] by simp
  ultimately have "\<not> (\<forall>j < length (ts_bitmap ?s). ts_bitmap ?s ! j = - 1)"
    by (simp only: bits_of_full_iff [symmetric] simp_thms)
  then obtain j where j: "j < 2 ^ (k - 6)" "ts_bitmap ?s ! j \<noteq> - 1" unfolding len by blast
  obtain d where "(unat (ts_wave ?s) + d) mod 2 ^ (k - 6) = j" using ring_reach [OF j(1)] by blast
  then have "\<exists>r'. add_step\<^sup>*\<^sup>* ?g r' \<and> sr_add r' = A_idle \<and> sr_counting r' = sr_counting ?g \<and>
      bits_of (ts_pollerBitmap (sr_slots r')) = {} \<and>
      Suc (card (bits_of (ts_bitmap (sr_slots ?g)))) = card (bits_of (ts_bitmap (sr_slots r')))"
    using Suc.prems j(2) run_inv_add [OF gate Suc.prems(1)] by (intro look_takes [where k = k and d = d]) simp_all
  then obtain r1 where r1: "add_step\<^sup>*\<^sup>* ?g r1" "sr_add r1 = A_idle" "\<not> sr_counting r1"
    "bits_of (ts_pollerBitmap (sr_slots r1)) = {}" "card (bits_of (ts_bitmap (sr_slots r1))) + n = 2 ^ k"
    using Suc.prems(3,5) by auto
  have reach: "slot_step\<^sup>*\<^sup>* r r1"
    using add_steps_reach [OF converse_rtranclp_into_rtranclp [OF gate r1(1)]] .
  from Suc.IH [OF run_inv_reaches [OF reach Suc.prems(1)] r1(2-5)] show ?case
    using reach by (auto intro: rtranclp_trans)
qed

section \<open>A release that is not there\<close>

lemma mark_slot_frame:
  assumes "idx < ts_cap s"
  shows "ts_pollerBitmap (mark_slot idx s) = ts_pollerBitmap (Del idx s)" "ts_bitmap (mark_slot idx s) = ts_bitmap s"
    "ts_wave (mark_slot idx s) = ts_wave s" "ts_bitmapLenMask (mark_slot idx s) = ts_bitmapLenMask s"
    "ts_cap (mark_slot idx s) = ts_cap s"
  using Del_halves [OF assms] by (simp_all add: mark_slot_def Let_def)

text \<open>The poller releases a slot of a run that is not in the middle of a release.\<close>

lemma marks:
  assumes inv: "run_inv k r" and no: "\<not> sr_counting r" and n: "n < 2 ^ k" "n \<in> bits_of (ts_bitmap (sr_slots r))"
    "n \<notin> bits_of (ts_pollerBitmap (sr_slots r))"
  shows "\<exists>r'. slot_step r r' \<and> sr_counting r' \<and> sr_add r' = sr_add r \<and> wave_word (sr_slots r') = wave_word (sr_slots r) \<and>
    ts_bitmap (sr_slots r') = ts_bitmap (sr_slots r) \<and>
    bits_of (ts_pollerBitmap (sr_slots r')) = insert n (bits_of (ts_pollerBitmap (sr_slots r)))"
proof -
  have i: "slots_inv k (settled r)" "live (sr_slots r) = sr_handed r" using inv by (auto simp: run_inv_def)
  then have shape: "slots_shape k (sr_slots r)" using no by (auto simp: settled_def)
  have "k \<le> 62" using shape by (simp add: slots_shape_def)
  then have "(2 :: nat) ^ k \<le> 2 ^ 62" by (intro power_increasing) auto
  then have u: "unat (of_nat n :: u64) = n" using n(1) by (intro unat_of_nat_small) simp
  then have cap: "(of_nat n :: u64) < ts_cap (sr_slots r)"
    using n(1) by (simp add: word_less_nat_alt slots_shape_cap [OF shape])
  have "sr_handed r (of_nat n) \<noteq> None" using cap n(2,3) u unfolding i(2) [symmetric] by (simp add: live_def)
  then obtain x where "sr_handed r (of_nat n) = Some x" by blast
  from del_step.mark [OF no this cap] show ?thesis
    using mark_slot_frame [OF cap] Del_hot_bits [OF shape cap] u
    by (intro exI [of _ "r\<lparr>sr_slots := mark_slot (of_nat n) (sr_slots r), sr_counting := True,
        sr_handed := (sr_handed r)(of_nat n := None)\<rparr>"]) (simp add: slot_step_def wave_word_def)
qed

lemma hole_at:
  assumes "run_inv k r" "n \<notin> bits_of (ts_bitmap (sr_slots r))" "n div 64 = wave_word (sr_slots r)"
  shows "ts_bitmap (sr_slots r) ! wave_word (sr_slots r) \<noteq> - 1"
proof -
  have "wave_word (sr_slots r) < length (ts_bitmap (sr_slots r))"
    using wave_word_bound [of k "settled r"] assms(1) by (simp add: run_inv_def)
  then have "\<not> bit (ts_bitmap (sr_slots r) ! wave_word (sr_slots r)) (n mod 64)" using assms(2,3) by (simp add: bits_of_def)
  then show ?thesis unfolding full_word_iff by (metis mod_less_divisor zero_less_numeral)
qed

text \<open>The poller releases two slots of the word under the wave and is held up before it counts the second.\<close>

lemma two_marks:
  assumes inv: "run_inv k r" and idle: "sr_add r = A_idle" and no: "\<not> sr_counting r" and sat: "saturated (sr_slots r)"
  shows "\<exists>j r'. slot_step\<^sup>*\<^sup>* r r' \<and> sr_add r' = A_idle \<and> sr_counting r' \<and> wave_word (sr_slots r') = j \<and>
    bits_of (ts_bitmap (sr_slots r')) = {..<2 ^ k} \<and> bits_of (ts_pollerBitmap (sr_slots r')) = {64 * j, 64 * j + 1} \<and>
    64 * j + 1 < 2 ^ k"
proof -
  let ?j = "wave_word (sr_slots r)"
  have full: "bits_of (ts_bitmap (sr_slots r)) = {..<2 ^ k}" "bits_of (ts_pollerBitmap (sr_slots r)) = {}"
    using saturated_bits [OF inv] sat by simp_all
  have shape: "slots_shape k (settled r)" using inv by (auto simp: run_inv_def)
  have "?j < length (ts_bitmap (sr_slots r))" using wave_word_bound [of k "settled r"] inv by (simp add: run_inv_def)
  then have b: "64 * ?j + 1 < 2 ^ k" using slots_shape_index_bound(2) [OF shape, of ?j 1] by simp
  obtain r1 where r1: "slot_step r r1" "sr_counting r1" "sr_add r1 = A_idle" "wave_word (sr_slots r1) = ?j"
    "ts_bitmap (sr_slots r1) = ts_bitmap (sr_slots r)" "bits_of (ts_pollerBitmap (sr_slots r1)) = {64 * ?j}"
    using marks [OF inv no, of "64 * ?j"] full b idle by auto
  define r2 where "r2 = r1\<lparr>sr_slots := (sr_slots r1)\<lparr>ts_delCount := ts_delCount (sr_slots r1) + 1\<rparr>, sr_counting := False\<rparr>"
  have r2: "slot_step r1 r2" "\<not> sr_counting r2" "sr_add r2 = A_idle" "wave_word (sr_slots r2) = ?j"
    "ts_bitmap (sr_slots r2) = ts_bitmap (sr_slots r)" "bits_of (ts_pollerBitmap (sr_slots r2)) = {64 * ?j}"
    using r1 del_step.count [OF r1(2) refl] by (simp_all add: r2_def slot_step_def wave_word_def)
  have inv2: "run_inv k r2" using run_inv_step r1(1) r2(1) inv by blast
  obtain r3 where r3: "slot_step r2 r3" "sr_counting r3" "sr_add r3 = A_idle" "wave_word (sr_slots r3) = ?j"
    "ts_bitmap (sr_slots r3) = ts_bitmap (sr_slots r)" "bits_of (ts_pollerBitmap (sr_slots r3)) = {64 * ?j, 64 * ?j + 1}"
    using marks [OF inv2 r2(2), of "64 * ?j + 1"] full(1) b r2 by auto
  have "slot_step\<^sup>*\<^sup>* r r3" using r1(1) r2(1) r3(1) by auto
  then show ?thesis using r3 full(1) b by auto
qed

lemma syncs:
  assumes inv: "run_inv k r" and pc: "sr_add r = A_sync v"
  defines "j \<equiv> wave_word (sr_slots r)"
  defines "W \<equiv> bits_of (ts_pollerBitmap (sr_slots r)) \<inter> {i. i div 64 = j}"
  shows "\<exists>r'. add_step r r' \<and> sr_add r' = A_look v \<and> sr_counting r' = sr_counting r \<and> wave_word (sr_slots r') = j \<and>
    bits_of (ts_bitmap (sr_slots r')) = bits_of (ts_bitmap (sr_slots r)) - W \<and>
    bits_of (ts_pollerBitmap (sr_slots r')) = bits_of (ts_pollerBitmap (sr_slots r)) - W"
proof -
  let ?t = "settled r"
  have i: "slots_inv k ?t" using inv by (simp add: run_inv_def)
  have j: "j < length (ts_pollerBitmap ?t)" using wave_word_bound [OF i] by (simp add: j_def)
  have W: "W = word_bits j (ts_pollerBitmap ?t ! j)" using bits_of_word [OF j] by (simp add: W_def)
  have same: "ts_bitmap (syncWord j (sr_slots r)) = ts_bitmap (syncWord j ?t)"
    "ts_pollerBitmap (syncWord j (sr_slots r)) = ts_pollerBitmap (syncWord j ?t)"
    "wave_word (syncWord j (sr_slots r)) = j"
    by (simp_all add: syncWord_def Let_def settled_def wave_word_def j_def)
  have "add_step r (r\<lparr>sr_slots := syncWord j (sr_slots r), sr_add := A_look v\<rparr>)"
    unfolding j_def by (rule add_step.swap [OF pc refl])
  then show ?thesis using syncWord_bits [OF i j] same
    by (intro exI [of _ "r\<lparr>sr_slots := syncWord j (sr_slots r), sr_add := A_look v\<rparr>"]) (simp add: W)
qed

text \<open>Two calls of \<open>Add\<close> take both slots, one of them before it is counted.\<close>

lemma takes_both:
  assumes inv: "run_inv k r" and idle: "sr_add r = A_idle" and j: "wave_word (sr_slots r) = j"
    and full: "bits_of (ts_bitmap (sr_slots r)) = {..<2 ^ k}" and two: "bits_of (ts_pollerBitmap (sr_slots r)) = {64 * j, 64 * j + 1}"
    and c: "sr_counting r" and b: "64 * j + 1 < (2 :: nat) ^ k"
  shows "\<exists>r'. slot_step\<^sup>*\<^sup>* r r' \<and> sr_add r' = A_idle \<and> sr_counting r' \<and> bits_of (ts_bitmap (sr_slots r')) = {..<2 ^ k} \<and>
    bits_of (ts_pollerBitmap (sr_slots r')) = {}"
proof -
  let ?U = "{..<(2 :: nat) ^ k}"
  define r1 where "r1 = r\<lparr>sr_add := A_look v\<rparr>"
  define r2 where "r2 = r\<lparr>sr_add := A_sync v\<rparr>"
  have "ts_delCount (sr_slots r) - ts_lastDelCount (sr_slots r) \<noteq> 0" using run_inv_free(2) [OF inv] two c by simp
  then have s1: "add_step r r1" using add_step.gate [OF idle refl, of v] by (simp add: or_eq_0_word_iff r1_def)
  have i: "slots_inv k (settled r)" using inv by (simp add: run_inv_def)
  have jl: "j < length (ts_bitmap (sr_slots r))" "j < length (ts_pollerBitmap (sr_slots r))"
    using wave_word_bound [OF i] j by simp_all
  have "bits_of (ts_bitmap (sr_slots r)) = {..<64 * length (ts_bitmap (sr_slots r))}"
    using slots_shape_size(1) [OF slots_inv_shape [OF i]] full by simp
  then have ones: "ts_bitmap (sr_slots r) ! j = - 1" using bits_of_full_iff jl(1) by blast
  have "64 * j \<in> bits_of (ts_pollerBitmap (sr_slots r))" using two by simp
  then have "ts_pollerBitmap (sr_slots r) ! j \<noteq> 0" by (auto simp: bits_of_def)
  then have s2: "add_step r1 r2" using add_step.found [of r1 v "sr_slots r"] ones j by (simp add: r1_def r2_def)
  have inv2: "run_inv k r2" using s1 s2 inv run_inv_add by blast
  have W: "{64 * j, 64 * j + 1} \<inter> {i. i div 64 = j} = {64 * j, 64 * j + 1}" by auto
  obtain r3 where r3: "add_step r2 r3" "sr_add r3 = A_look v" "sr_counting r3" "wave_word (sr_slots r3) = j"
    "bits_of (ts_bitmap (sr_slots r3)) = ?U - {64 * j, 64 * j + 1}" "bits_of (ts_pollerBitmap (sr_slots r3)) = {}"
    using syncs [OF inv2, of v] full two j c W by (auto simp: r2_def)
  have inv3: "run_inv k r3" using r3(1) inv2 run_inv_add by blast
  have hole3: "ts_bitmap (sr_slots r3) ! wave_word (sr_slots r3) \<noteq> - 1"
    by (rule hole_at [OF inv3, of "64 * j"]) (simp_all add: r3)
  from takes [OF inv3 r3(2) hole3] obtain g r4 where raw4: "add_step r3 r4" "sr_add r4 = A_idle" "sr_counting r4 = sr_counting r3"
    "wave_word (sr_slots r4) = wave_word (sr_slots r3)" "ts_pollerBitmap (sr_slots r4) = ts_pollerBitmap (sr_slots r3)"
    "g \<notin> bits_of (ts_bitmap (sr_slots r3))" "bits_of (ts_bitmap (sr_slots r4)) = insert g (bits_of (ts_bitmap (sr_slots r3)))"
    by blast
  note r4 = raw4(1,2) raw4(3-5) [simplified r3(3,4)] raw4(6,7) [unfolded r3(5)]
  have none4: "bits_of (ts_pollerBitmap (sr_slots r4)) = {}" by (simp only: raw4(5) r3(6))
  have inv4: "run_inv k r4" using r4(1) inv3 run_inv_add by blast
  have "g \<in> ?U" using run_bits_bound [OF inv4] unfolding r4(7) by simp
  then have g: "g = 64 * j \<or> g = 64 * j + 1" using r4(6) by auto
  define h where "h = (if g = 64 * j then 64 * j + 1 else 64 * j)"
  have h: "h \<notin> bits_of (ts_bitmap (sr_slots r4))" "h div 64 = j" "h \<in> ?U" using g b by (auto simp: r4(7) h_def)
  have "bits_of (ts_bitmap (sr_slots r4)) \<noteq> ?U" using h(1,3) by blast
  then have "card (bits_of (ts_bitmap (sr_slots r4))) \<noteq> card ?U"
    using card_subset_eq [OF _ run_bits_bound [OF inv4]] by blast
  then have "ts_free (sr_slots r4) \<noteq> 0" using run_inv_free(1) [OF inv4] by auto
  define r5 where "r5 = r4\<lparr>sr_add := A_look v\<rparr>"
  have s5: "add_step r4 r5"
    using add_step.gate [OF r4(2) refl, of v] \<open>ts_free (sr_slots r4) \<noteq> 0\<close> by (simp add: or_eq_0_word_iff r5_def)
  have inv5: "run_inv k r5" using s5 inv4 run_inv_add by blast
  have hole5: "ts_bitmap (sr_slots r5) ! wave_word (sr_slots r5) \<noteq> - 1"
    by (rule hole_at [OF inv5, of h]) (use h r4(4) in \<open>simp_all add: r5_def\<close>)
  have look5: "sr_add r5 = A_look v" by (simp add: r5_def)
  from takes [OF inv5 look5 hole5] obtain g' r6 where raw6: "add_step r5 r6" "sr_add r6 = A_idle" "sr_counting r6 = sr_counting r5"
    "ts_pollerBitmap (sr_slots r6) = ts_pollerBitmap (sr_slots r5)"
    "g' \<notin> bits_of (ts_bitmap (sr_slots r5))" "bits_of (ts_bitmap (sr_slots r6)) = insert g' (bits_of (ts_bitmap (sr_slots r5)))"
    by blast
  have same5: "sr_slots r5 = sr_slots r4" "sr_counting r5" using r4(3) by (simp_all add: r5_def)
  have r6: "sr_counting r6" "bits_of (ts_pollerBitmap (sr_slots r6)) = {}" "g' \<notin> insert g (?U - {64 * j, 64 * j + 1})"
    "bits_of (ts_bitmap (sr_slots r6)) = insert g' (insert g (?U - {64 * j, 64 * j + 1}))"
    using raw6(3-6) by (simp_all only: same5 none4 r4(7) not_False_eq_True simp_thms)
  have "run_inv k r6" using raw6(1) inv5 run_inv_add by blast
  then have "g' \<in> ?U" using run_bits_bound [of k r6] unfolding r6(4) by simp
  then have "g' = h" using r6(3) g by (auto simp: h_def)
  then have "bits_of (ts_bitmap (sr_slots r6)) = ?U" using g b unfolding r6(4) by (auto simp: h_def)
  moreover have "slot_step\<^sup>*\<^sup>* r r6"
    using s1 s2 r3(1) r4(1) s5 raw6(1) by (meson add_step_reach rtranclp_trans)
  ultimately show ?thesis using r6(1,2) raw6(2) by blast
qed

text \<open>The third call passes the gate, the poller counts, and there is nothing to be found.\<close>

definition spins :: "'a \<Rightarrow> 'a slot_run \<Rightarrow> bool" where
  "spins v r \<longleftrightarrow> sr_add r = A_look v \<and> \<not> sr_counting r \<and> saturated (sr_slots r)"

lemma passes_gate:
  assumes inv: "run_inv k r" and idle: "sr_add r = A_idle" and c: "sr_counting r"
    and bits: "bits_of (ts_bitmap (sr_slots r)) = {..<2 ^ k}" "bits_of (ts_pollerBitmap (sr_slots r)) = {}"
  shows "\<exists>r'. slot_step\<^sup>*\<^sup>* r r' \<and> spins v r'"
proof -
  define r1 where "r1 = r\<lparr>sr_add := A_look v\<rparr>"
  define r2 where "r2 = r1\<lparr>sr_slots := (sr_slots r)\<lparr>ts_delCount := ts_delCount (sr_slots r) + 1\<rparr>, sr_counting := False\<rparr>"
  have "ts_delCount (sr_slots r) - ts_lastDelCount (sr_slots r) \<noteq> 0" using run_inv_free(2) [OF inv] bits c by simp
  then have s1: "add_step r r1" using add_step.gate [OF idle refl, of v] by (simp add: or_eq_0_word_iff r1_def)
  have s2: "del_step r1 r2" using del_step.count [of r1 "sr_slots r"] c by (simp add: r1_def r2_def)
  have "saturated (sr_slots r)" using saturated_bits [OF inv] bits by simp
  then have "spins v r2" by (simp add: spins_def r2_def r1_def saturated_def)
  moreover have "slot_step r r1" "slot_step r1 r2" using s1 s2 by (simp_all add: slot_step_def)
  then have "slot_step\<^sup>*\<^sup>* r r2" by auto
  ultimately show ?thesis by blast
qed

lemma spins_step:
  assumes "add_step r r'" "run_inv k r" "spins v r"
  shows "spins v r'"
proof -
  let ?s = "sr_slots r"
  have "wave_word ?s < length (ts_bitmap ?s)" "wave_word ?s < length (ts_pollerBitmap ?s)"
    using wave_word_bound [of k "settled r"] assms(2) by (simp_all add: run_inv_def)
  then have word: "ts_bitmap ?s ! wave_word ?s = - 1" "ts_pollerBitmap ?s ! wave_word ?s = 0"
    using assms(3) by (auto simp: spins_def saturated_def list_all_length)
  from assms(1) show ?thesis
    by cases (use assms(3) word in \<open>auto simp: spins_def saturated_def\<close>)
qed

lemma spins_on: "add_step\<^sup>*\<^sup>* r r' \<Longrightarrow> run_inv k r \<Longrightarrow> spins v r \<Longrightarrow> run_inv k r' \<and> spins v r'"
  by (induction rule: rtranclp_induct) (auto dest: run_inv_add spins_step)

section \<open>Properties\<close>

text \<open>C19. However \<open>Add\<close> and \<open>Del\<close> interleave, the poller finds under every index that \<open>Add\<close> returned
  and \<open>Del\<close> has not taken back the task it was returned for, and a step hands out an index only
  when nobody holds it.\<close>

theorem interleaved_slots_are_safe:
  assumes "slots_inv k s" "slot_step\<^sup>*\<^sup>* (slot_start s) r"
  shows "(\<forall>idx x. sr_handed r idx = Some x \<longrightarrow> Get zero idx (sr_slots r) = (x, True)) \<and>
    (\<forall>r'. slot_step r r' \<longrightarrow> handed_moves (sr_handed r) (sr_handed r'))"
proof -
  have inv: "run_inv k r" by (rule run_inv_reaches [OF assms(2) run_inv_start [OF assms(1)]])
  have "Get zero idx (sr_slots r) = (x, True)" if "sr_handed r idx = Some x" for idx x
  proof -
    have "Get zero idx (settled r) = (x, True)"
      using Get_live [of k "settled r" idx x zero] inv that by (simp add: run_inv_def)
    then show ?thesis by (simp add: settled_def Let_def Get_delCount)
  qed
  then show ?thesis using run_inv_step [OF _ inv] by blast
qed

text \<open>C20. \<open>Del\<close> sets the bit of a slot before it counts it, so \<open>Add\<close> can collect a release that is not
  counted yet, and the counters then promise one that is not there. From every table that nobody
  is releasing from, a run leads to a call of \<open>Add\<close> that finds no slot, however long it looks,
  until the poller releases another one.\<close>

theorem Add_can_spin_forever:
  assumes "slots_inv k s" "list_all (\<lambda>w. w = 0) (ts_pollerBitmap s)"
  shows "\<exists>r. slot_step\<^sup>*\<^sup>* (slot_start s) r \<and> sr_add r = A_look v \<and> \<not> sr_counting r \<and>
    (\<forall>r'. add_step\<^sup>*\<^sup>* r r' \<longrightarrow> sr_add r' = A_look v)"
proof -
  let ?r = "slot_start s"
  have inv: "run_inv k ?r" by (rule run_inv_start [OF assms(1)])
  have start: "sr_add ?r = A_idle" "\<not> sr_counting ?r" "sr_slots ?r = s" by (simp_all add: slot_start_def)
  have none: "bits_of (ts_pollerBitmap (sr_slots ?r)) = {}" using assms(2) by (simp add: start bits_of_empty_iff list_all_length)
  have "card (bits_of (ts_bitmap (sr_slots ?r))) + unat (ts_free s) = 2 ^ k"
    using run_inv_free(1) [OF inv] start(3) by (simp add: add.commute)
  from fills [OF inv start(1,2) none this] obtain r1 where
    r1: "slot_step\<^sup>*\<^sup>* ?r r1" "sr_add r1 = A_idle" "\<not> sr_counting r1" "saturated (sr_slots r1)" by blast
  have inv1: "run_inv k r1" by (rule run_inv_reaches [OF r1(1) inv])
  from two_marks [OF inv1 r1(2-4)] obtain j r2 where r2: "slot_step\<^sup>*\<^sup>* r1 r2" "sr_add r2 = A_idle" "sr_counting r2"
    "wave_word (sr_slots r2) = j" "bits_of (ts_bitmap (sr_slots r2)) = {..<2 ^ k}"
    "bits_of (ts_pollerBitmap (sr_slots r2)) = {64 * j, 64 * j + 1}" "64 * j + 1 < 2 ^ k" by blast
  have inv2: "run_inv k r2" by (rule run_inv_reaches [OF r2(1) inv1])
  from takes_both [OF inv2 r2(2,4,5,6,3,7)] obtain r3 where r3: "slot_step\<^sup>*\<^sup>* r2 r3" "sr_add r3 = A_idle" "sr_counting r3"
    "bits_of (ts_bitmap (sr_slots r3)) = {..<2 ^ k}" "bits_of (ts_pollerBitmap (sr_slots r3)) = {}" by blast
  have inv3: "run_inv k r3" by (rule run_inv_reaches [OF r3(1) inv2])
  from passes_gate [OF inv3 r3(2-5), of v] obtain r4 where r4: "slot_step\<^sup>*\<^sup>* r3 r4" "spins v r4" by blast
  have inv4: "run_inv k r4" by (rule run_inv_reaches [OF r4(1) inv3])
  have "sr_add r' = A_look v" if "add_step\<^sup>*\<^sup>* r4 r'" for r' using spins_on [OF that inv4 r4(2)] by (simp add: spins_def)
  moreover have "slot_step\<^sup>*\<^sup>* ?r r4" using r1(1) r2(1) r3(1) r4(1) by (meson rtranclp_trans)
  ultimately show ?thesis using r4(2) by (auto simp: spins_def)
qed

theorem interleaved_slots_are_safe_witness:
  "\<exists>r. slot_step\<^sup>*\<^sup>* (slot_start ex_slots1) r \<and> sr_add r = A_look 7 \<and> Get 0 0 (sr_slots r) = (5, True)"
proof -
  let ?r = "slot_start ex_slots1 \<lparr>sr_add := A_look 7\<rparr>"
  have "(1 :: u64) < ts_cap ex_slots1" "live ex_slots1 1 = None"
    using ex_slots1_valid(2,3) slots_shape_cap [of 12 ex_slots1] by (auto simp: word_less_nat_alt slots_inv_def)
  then have "ts_free ex_slots1 OR (ts_delCount ex_slots1 - ts_lastDelCount ex_slots1) \<noteq> 0"
    unfolding saturation_gate [OF ex_slots1_valid(2)] saturated_live [OF ex_slots1_valid(2)] by blast
  then have "add_step (slot_start ex_slots1) ?r"
    using add_step.gate [of "slot_start ex_slots1" ex_slots1 7] by (simp add: slot_start_def)
  then have reach: "slot_step\<^sup>*\<^sup>* (slot_start ex_slots1) ?r" by (rule add_step_reach)
  have "sr_handed ?r 0 = Some 5" using ex_slots1_valid(3) by (simp add: slot_start_def)
  then have "Get 0 0 (sr_slots ?r) = (5, True)" using interleaved_slots_are_safe [OF ex_slots1_valid(2) reach, of 0] by blast
  then show ?thesis using reach by (intro exI [of _ ?r]) simp
qed

theorem Add_can_spin_forever_witness:
  "\<exists>r. slot_step\<^sup>*\<^sup>* (slot_start ex_slots) r \<and> sr_add r = A_look 7 \<and>
     (\<forall>r'. add_step\<^sup>*\<^sup>* r r' \<longrightarrow> sr_add r' = A_look 7)"
proof -
  have "signed_drop_bit 6 (4096 :: i64) = 64" "ones_count (4096 :: i64) = 1"
    using words_count_exp [of 12] ones_count_exp [of 12, where 'a = 64] by simp_all
  then have "list_all (\<lambda>w. w = 0) (ts_pollerBitmap ex_slots)"
    by (simp add: ex_slots_def new_slots_def maxAlloc_def Let_def list_all_length)
  from Add_can_spin_forever [OF ex_slots_valid(2) this, of 7] show ?thesis by blast
qed

end
