(* ===== verification/Spec2Isabelle.thy ===== *)
theory Spec2Isabelle
  imports Task_Slots Uring_Queue Uring_Setup Pbuf_Ring Park_Handshake Recv_Views
    Priority_Queue Timing_Wheel Stdlib_Group Echo_Client Echo_Main Slots_Protocol
begin

text \<open>
  netring is a Go library that runs network operations over io_uring. A goroutine that calls
  \<open>Accept\<close>, \<open>Connect\<close>, \<open>Close\<close>, \<open>Recv\<close> or \<open>Read\<close> takes a cell, submits a task and
  parks; \<open>Send\<close> submits and goes on. A task is pushed to the submission queue by its caller,
  or, when the queue is full, by one translator goroutine fed by the fallback channel. The kernel
  takes entries from the submission queue and posts results to the completion queue; the poller
  reads them, finds the cell in the table of task slots, writes the result there and wakes the
  caller. Received bytes lie in provided buffers the kernel picks from a shared ring and the caller
  gives back.

  Parts and theories, from the bottom:

  \<^item> \<open>Prelude\<close>: word and mask arithmetic, bitmaps as sets of indexes, the list between two ring
    indexes, counting in an updated list, and the ring interfaces \<open>ring_producer\<close> and
    \<open>ring_consumer\<close>.
  \<^item> \<open>Task_Slots\<close> (\<open>internal/taskslots\<close>): the table of in-flight tasks with its two
    bitmaps, the wave and the fallback map; \<open>slots_inv\<close> is its invariant and \<open>live\<close> the map
    it stands for. The locale \<open>slot_table\<close> is what the ring relies on. \<open>Slots_Protocol\<close>: \<open>Add\<close>
    and \<open>Del\<close> at the same time, interleaved at their accesses to shared words.
  \<^item> \<open>Sys_Calls\<close>: system calls as a trace of the successful ones, with their results as a
    parameter; \<open>Uring_Setup\<close> (\<open>iouring.go\<close>, \<open>method_close.go\<close> of \<open>internal/iouring\<close>):
    creation and teardown of a ring over it.
  \<^item> \<open>Uring_Queue\<close> (\<open>internal/iouring\<close>): the two shared queues, \<open>Push\<close>,
    \<open>GetTask\<close>, the wakeups and the request builders.
  \<^item> \<open>Pbuf_Ring\<close> (\<open>internal/iouring/pbuf.go\<close>): provided buffers, with the 16-bit tail that
    overlays the first descriptor.
  \<^item> \<open>Park_Handshake\<close> (\<open>goruntime.go\<close>, \<open>method_poller.go\<close>): parking against waking,
    interleaved at the atomic operations on the task state.
  \<^item> \<open>Netring_State\<close>, \<open>Netring_Submit\<close>, \<open>Netring_Poller\<close>, \<open>Netring_Send\<close>,
    \<open>Netring_Ops\<close>: the record \<open>NetRing\<close>, its options and constructor, and its methods, one
    goroutine at a time (\<open>method_*.go\<close>). A method that parks is two functions, up to its park and
    from its wake-up.
  \<^item> \<open>Netring_Setup\<close> (\<open>netring.go\<close>): opening a ring over the trace of system calls, and
    provisioning its buffers.
  \<^item> \<open>Submit_Protocol\<close> (\<open>method_submit.go\<close>, \<open>method_submit_fallback.go\<close>): any number of
    submitters, the translator and the kernel, interleaved at their atomic operations.
    \<open>Submit_Refinement\<close>: the translator on the ring's words, and the proof that whole calls of
    \<open>submit\<close> and rounds of \<open>fallbackLoop\<close> on the words are runs of that protocol.
  \<^item> \<open>Netring_Calls\<close>: the ring as a whole, a step relation over the methods above: callers, senders, the
    translator, the poller and the kernel in any order; and \<open>spec_step\<close>, what callers are promised.
    \<open>Netring_Ledger\<close>: what is under way, as multisets of tasks, entries and completions with the
    cell of each. \<open>Netring_System\<close>: every step keeps that ledger, so every run from \<open>New\<close> keeps the promises.
  \<^item> \<open>Send_Protocol\<close>: the sends of one descriptor as steps on its send cell and on what is under way, and an observer that
    compares the bytes handed to \<open>Send\<close> with the bytes the kernel takes. \<open>Send_Ledger\<close>: the sends in the
    ledger. \<open>Send_Stream\<close>: runs of the whole system are runs of that protocol, so every descriptor's bytes arrive in order.
  \<^item> \<open>Recv_Views\<close>: received views in runs of the whole system, with the kernel's head of each class, the views callers
    hold and the buffers ends of file used up; every buffer is published, owed to a call, under one view or lost.
  \<^item> \<open>Priority_Queue\<close> (\<open>internal/pqueue\<close>) and \<open>Timing_Wheel\<close>
    (\<open>internal/timingwheel\<close>): the two containers kept for timeouts, with the locales
    \<open>bounded_priority_queue\<close> and \<open>timer_service\<close>.
  \<^item> \<open>Test_Protocol\<close> (\<open>internal/testprotocol\<close>) and \<open>Echo_Session\<close>
    (\<open>internal/cmd/echo\<close>): the frames of the echo protocol, the server and the client;
    \<open>Stdlib_Session\<close>: the client over the standard library, with sender, receiver and server
    interleaved; \<open>Stdlib_Group\<close>: the same client as a group with its cancellation, against any peer and network; \<open>Echo_Server\<close>: the listening socket (\<open>internal/sysnet\<close>) and the accept loop;
    \<open>Echo_Workload\<close> (\<open>netring_client.go\<close>): the client's two goroutines as one group, with
    cancellation; \<open>Echo_Client\<close>: the client around it, with its set-up, connection, watchdog and way
    out; \<open>Echo_Main\<close> (\<open>main.go\<close>): the goroutines of the program and how it ends.
  \<^item> This theory: \<open>Accept\<close> and \<open>Recv\<close> from call to return, over all of the above.

  What the lemmas show. Each container has an invariant that every operation keeps and an
  abstraction (a finite map for the slots, lists of pending entries for the queues and the buffer ring,
  a multiset for the priority queue, the calls due in \<open>k\<close> ticks for the wheel) that the operations
  commute with. In every interleaving of the submission protocol at most one goroutine pushes, it
  has room, no position is skipped or written twice, and the fallback ends only when nothing is
  outstanding. However \<open>Add\<close> and \<open>Del\<close> interleave, no slot is held twice. The handshake wakes a goroutine once and only when it sleeps, and always ends. A completion
  reaches the issuer of its own request, in every run of the whole system, and a sleeping goroutine's request
  is always somewhere, under the conditions on runs below. What is sent on a descriptor is taken by the kernel in its order, partial
  sends included, as long as no remainder is taken in part again. As long as callers hand back only views they were given and
  a \<open>Read\<close> that meets an end of file replaces the buffer that one used up, no two held views of a class share a byte, the kernel
  cannot write into one, and no buffer is lost but where the kernel does not tell its head.
  The client checks a whole echo session with the same verdict however the stream of answers is cut into views, and in every
  interleaving of its goroutines in which no read or write fails, nobody cancels and the clock is not set back, it ends and
  nobody reports an error. Some theorems show what the code does where it departs from its
  documentation: the poller that completes slot 0 when idle, a partial send after a partial send, the
  fallback that stays on after an over-count, the \<open>Add\<close> that looks for a slot for ever, \<open>Push\<close> on a full queue, and others in the theories.

  Conventions. Machine integers are words of their width; where a counter is unbounded it is said.
  An error that the code returns is a value; \<open>None\<close> is a panic or, for a loop without a bound,
  a call that does not return, and the theorems say when it is not \<open>None\<close>. The loops of \<open>Add\<close> of
  the slots are partial functions, proved to return on every well-formed table when nothing is deleted meanwhile; the others are total functions
  with a measure, the tick loop's being the number of linked cells. \<open>drainFallback\<close> takes a
  number of turns, since it never returns. The loops of the poller, the server and the receiver
  are functions of the sequence of turns or of the bytes that arrive.

  Conditions on runs. The runs of the whole system include the poller's blocking wait, as two steps between which everything
  else goes on. The properties of runs have two hypotheses of their own: wake-ups of the kernel succeed (\<open>wakeups_succeed\<close>), and
  the poller never comes back from that wait uninterrupted while slot 0 is taken (the event \<open>Misfired\<close> does not occur);
  what the code does otherwise is in \<open>aborted_request_stays_queued\<close> and \<open>idle_turn_completes_slot_0\<close>. What the sends ask
  of the kernel is the field \<open>st_good\<close> of their observer, and \<open>second_partial_send_reads_past_payload\<close> has the case left out; what views ask is the
  relation \<open>lend\<close>, and \<open>ReplenishOne_republishes_last\<close> has its case.

  Parameters. The results of system calls, what the kernel posts and when it takes entries, the
  choice of a \<open>select\<close> with several ready cases, the clock, and the contracts of \<open>gopark\<close> and
  \<open>goready\<close> of the Go runtime.

  Not modelled: the wrap-around of the protocol's counters across \<open>2 ^ 32\<close> pushes while a goroutine
  stands still, the translator's drain after \<open>Stop\<close> in runs of the whole system (alone it is
  \<open>drainFallback\<close>), weak memory (atomic operations are taken as sequentially consistent), callbacks that call back into the wheel, the teardown behind the return of \<open>Stop\<close>, which is
  unreachable, the assembly that reads the goroutine pointer, the flags and the profiling of \<open>main\<close> and its
  \<open>os.Exit\<close>, the loggers and the log helpers of the tests, and the text of errors and log entries.
\<close>

section \<open>Operations end to end\<close>

lemma release_task_view:
  assumes "pbr_ok j pbr" and "unat bid < 2 ^ j" and "unat sizeClass < length (nr_pbrs nr)" and "unat sizeClass < 2 ^ 16"
    and "nr_pbrs nr ! unat sizeClass = Some pbr" and "0 < n"
  shows "ReleaseBuffer_op env sizeClass (pb_bufPointers pbr ! unat bid, n) nr =
    map_option (\<lambda>pbr'. nr\<lparr>nr_pbrs := (nr_pbrs nr)[unat sizeClass := Some pbr']\<rparr>) (ReleaseBuffer bid pbr)"
proof -
  have "unat (ucast sizeClass :: u16) = unat sizeClass" using assms(4) by (simp add: unat_ucast_mod)
  then show ?thesis
    using assms ReleaseView_hit [OF assms(1,2)]
    by (cases "ReleaseBuffer bid pbr") (simp_all add: ReleaseBuffer_op_def submit_def release_task_def Let_def)
qed

text \<open>The buffer the kernel has taken as the oldest is published behind the others.\<close>

lemma taken_buffer_returns:
  assumes v: "pb_valid j h pbr" and b: "pb_bids h pbr = bid # others"
  shows "unat bid < 2 ^ j" and "\<exists>pbr'. ReleaseBuffer bid pbr = Some pbr' \<and> pb_bids (h + 1) pbr' = others @ [bid] \<and>
    pb_pending (h + 1) pbr' = map (buffer_descr pbr) (others @ [bid])"
proof -
  show small: "unat bid < 2 ^ j" using v b by (simp add: pb_valid_def)
  have one: "1 \<le> pb_count h pbr" using length_pb_bids [of h pbr] b by simp
  have head: "h + of_nat 1 = h + 1" by simp
  note adv = pb_advance [OF v one, unfolded head]
  have "pb_count h pbr \<le> 2 ^ j" using v by (simp add: pb_valid_def)
  then have room: "pb_count (h + 1) pbr < 2 ^ j" using adv(3) one by linarith
  obtain pbr' where p': "ReleaseBuffer bid pbr = Some pbr'" "pb_valid j (h + 1) pbr'" "pb_bids (h + 1) pbr' = pb_bids (h + 1) pbr @ [bid]"
    "pbr' = pbr\<lparr>pb_ring := pb_ring pbr'\<rparr>" using ReleaseBuffer_valid [OF adv(1) small room] by blast
  have bids: "pb_bids (h + 1) pbr' = others @ [bid]" using p'(3) adv(2) b by simp
  have "buffer_descr pbr' = buffer_descr pbr" by (subst p'(4)) (simp add: buffer_descr_def fun_eq_iff)
  then have "pb_pending (h + 1) pbr' = map (buffer_descr pbr) (others @ [bid])" using pb_valid_pending [OF p'(2)] bids by simp
  then show "\<exists>pbr'. ReleaseBuffer bid pbr = Some pbr' \<and> pb_bids (h + 1) pbr' = others @ [bid] \<and>
    pb_pending (h + 1) pbr' = map (buffer_descr pbr) (others @ [bid])" using p'(1) bids by blast
qed

text \<open>C12. \<open>Accept\<close> from call to return: with room and nobody else submitting it queues one
  accept request for the descriptor and parks; whatever result the kernel posts for that
  request, the poller readies exactly this caller, and the call returns the accepted
  descriptor or the error number.\<close>

theorem accept_round_trip:
  assumes "nr_free k m env nr" and "0 \<le> sint fd"
  shows "\<exists>c nr1 e. Accept_start env choice g fd nr = Some (Inr c, nr1) \<and>
    sq_pending (nr_r nr1) = sq_pending (nr_r nr) @ [e] \<and> sqe_Opcode e = OpAccept \<and> sqe_FD e = ucast fd \<and>
    (\<forall>r' rest res flags n. cq_ok n r' \<and>
       cq_pending r' = \<lparr>cqe_UserData = sqe_UserData e, cqe_Res = res, cqe_Flags = flags\<rparr> # rest \<longrightarrow>
       (\<exists>nr2 nr3. poll_turn env idleAfter (spin, nr1\<lparr>nr_r := r'\<rparr>) = Some (0, nr2) \<and>
          nr_ready nr2 = nr_ready nr @ [g] \<and>
          Accept_finish c nr2 =
            Some (if sint res < 0 then Inl (Kernel_errno (scast (- res))) else Inr res, nr3)))"
proof -
  let ?task = "plain_task opcodeTypeAccept 0 0"
  have "request env (?task (fst (take_cell g opcodeTypeAccept fd nr))) fd 0 \<noteq> None"
    by (simp add: request_def plain_task_def Let_def)
  with start_op_parks [OF assms(1), of ?task g opcodeTypeAccept fd choice]
  obtain c nr1 e where s: "start_op env choice g opcodeTypeAccept fd ?task nr = Some (Inr c, nr1)"
    "sq_pending (nr_r nr1) = sq_pending (nr_r nr) @ [e]" "request env (?task c) fd (sqe_UserData e) = Some e"
    "slots_inv k (nr_slots nr1)" "live (nr_slots nr1) (sqe_UserData e) = Some c"
    "nr_cells nr1 c = Some ((armed_cell g opcodeTypeAccept fd)\<lparr>tc_taskState := taskStateParked\<rparr>)"
    "nr_ready nr1 = nr_ready nr"
    by (auto simp: plain_task_def)
  have e: "sqe_Opcode e = OpAccept" "sqe_FD e = ucast fd"
    using request_fields(1) [OF s(3)] request_UserData [OF s(3)] by (simp_all add: plain_task_def)
  have "\<exists>nr2 nr3. poll_turn env idleAfter (spin, nr1\<lparr>nr_r := r'\<rparr>) = Some (0, nr2) \<and>
      nr_ready nr2 = nr_ready nr @ [g] \<and>
      Accept_finish c nr2 = Some (if sint res < 0 then Inl (Kernel_errno (scast (- res))) else Inr res, nr3)"
    if cq: "cq_ok n r'" and p: "cq_pending r' = \<lparr>cqe_UserData = sqe_UserData e, cqe_Res = res, cqe_Flags = flags\<rparr> # rest"
    for r' rest res flags n
  proof -
    obtain nr2 cell2 where "poll_turn env idleAfter (spin, nr1\<lparr>nr_r := r'\<rparr>) = Some (0, nr2)"
      "nr_ready nr2 = nr_ready nr @ [g]" "nr_cells nr2 c = Some cell2" "tc_res cell2 = res" "tc_err cell2 = None"
      using parked_completion [of k "nr1\<lparr>nr_r := r'\<rparr>"
          "\<lparr>cqe_UserData = sqe_UserData e, cqe_Res = res, cqe_Flags = flags\<rparr>" c g opcodeTypeAccept fd n rest env idleAfter spin]
        s(4-7) cq p by auto
    then show ?thesis using finish_op_result [of nr2 c cell2] by (auto simp: Accept_finish_def)
  qed
  moreover have "Accept_start env choice g fd nr = Some (Inr c, nr1)"
    using s(1) assms(2) by (simp add: Accept_start_def)
  ultimately show ?thesis using s(2) e by blast
qed

theorem accept_round_trip_witness:
  "\<exists>c nr1 e. Accept_start ex_env True 77 5 ex_nr = Some (Inr c, nr1) \<and> sq_pending (nr_r nr1) = [e] \<and>
     sqe_Opcode e = OpAccept \<and> sqe_FD e = 5"
proof -
  have free: "nr_free 12 1 ex_env ex_nr" using ex_nr_ok ex_awake by (simp add: nr_free_def)
  have fd: "0 \<le> sint (5 :: i64)" by simp
  obtain c nr1 e where "Accept_start ex_env True 77 5 ex_nr = Some (Inr c, nr1)"
    "sq_pending (nr_r nr1) = sq_pending (nr_r ex_nr) @ [e]" "sqe_Opcode e = OpAccept" "sqe_FD e = ucast (5 :: i64)"
    using accept_round_trip [OF free fd, of True 77 1 1] by blast
  then show ?thesis using ex_ring_ok(2) by auto
qed

text \<open>C13. \<open>Recv\<close> from call to buffer release: with room and nobody else submitting, and a descriptor that is not negative,
  a receive on a provisioned size class whose buffer ring is well formed under the kernel's head \<open>h\<close> queues one
  buffer-select request for the class and parks; when the kernel then reports \<open>n > 0\<close> bytes, at most a buffer's size, in
  the oldest published buffer \<open>bid\<close>, with nothing else done on the ring in between, the caller is readied and gets the first
  \<open>n\<close> bytes of exactly that buffer, and handing the view back succeeds and publishes that buffer again, with its own address
  and size, behind the others.\<close>

theorem recv_round_trip:
  assumes "nr_free k m env nr" and "0 \<le> sint fd"
    and "SizeClass_Size sizeClass = Some capacity" and "capacity \<noteq> 0" and "length (nr_pbrs nr) = 5"
    and "nr_pbrs nr ! unat sizeClass = Some pbr" and "pb_valid j h pbr"
  shows "\<exists>c nr1 e. Recv_start env choice g fd sizeClass nr = Some (Inr c, nr1) \<and>
    sq_pending (nr_r nr1) = sq_pending (nr_r nr) @ [e] \<and> sqe_Opcode e = OpRecv \<and> sqe_FD e = ucast fd \<and>
    sqe_BufIndex e = ucast sizeClass \<and> sqe_Len e = capacity \<and>
    (\<forall>r' rest res bid others n. cq_ok n r' \<and> pb_bids h pbr = bid # others \<and> 0 < sint res \<and> nat (sint res) \<le> unat (pb_bufSize pbr) \<and>
       cq_pending r' = \<lparr>cqe_UserData = sqe_UserData e, cqe_Res = res,
         cqe_Flags = push_bit 16 (ucast (bid :: u16)) OR CQEFBuffer\<rparr> # rest \<longrightarrow>
       (\<exists>nr2 nr3 pbr'. poll_turn env idleAfter (spin, nr1\<lparr>nr_r := r'\<rparr>) = Some (0, nr2) \<and>
          nr_ready nr2 = nr_ready nr @ [g] \<and>
          Recv_finish sizeClass c nr2 = Some (Inr (Some (pb_bufPointers pbr ! unat bid, nat (sint res))), nr3) \<and>
          ReleaseBuffer_op env sizeClass (pb_bufPointers pbr ! unat bid, nat (sint res)) nr3 =
            Some (nr3\<lparr>nr_pbrs := (nr_pbrs nr3)[unat sizeClass := Some pbr']\<rparr>) \<and>
          pb_bids (h + 1) pbr' = others @ [bid] \<and> pb_pending (h + 1) pbr' = map (buffer_descr pbr) (others @ [bid])))"
proof -
  let ?task = "plain_task opcodeTypeRecv capacity (ucast sizeClass)"
  have cls: "unat sizeClass < 5" by (rule size_class_range [OF assms(3,4)])
  have ok: "pbr_ok j pbr" using assms(7) by (simp add: pb_valid_def)
  have check: "check_class fd sizeClass nr = Some (Inr capacity)"
    using assms cls by (simp add: check_class_def)
  have "request env (?task (fst (take_cell g opcodeTypeRecv fd nr))) fd 0 \<noteq> None"
    by (simp add: request_def plain_task_def Let_def)
  with start_op_parks [OF assms(1), of ?task g opcodeTypeRecv fd choice]
  obtain c nr1 e where s: "start_op env choice g opcodeTypeRecv fd ?task nr = Some (Inr c, nr1)"
    "sq_pending (nr_r nr1) = sq_pending (nr_r nr) @ [e]" "request env (?task c) fd (sqe_UserData e) = Some e"
    "slots_inv k (nr_slots nr1)" "live (nr_slots nr1) (sqe_UserData e) = Some c"
    "nr_cells nr1 c = Some ((armed_cell g opcodeTypeRecv fd)\<lparr>tc_taskState := taskStateParked\<rparr>)"
    "nr_pbrs nr1 = nr_pbrs nr" "nr_ready nr1 = nr_ready nr"
    by (auto simp: plain_task_def)
  have e: "sqe_Opcode e = OpRecv" "sqe_FD e = ucast fd" "sqe_BufIndex e = ucast sizeClass" "sqe_Len e = capacity"
    using request_fields(2) [OF s(3)] request_UserData [OF s(3)] by (simp_all add: plain_task_def)
  have "\<exists>nr2 nr3 pbr'. poll_turn env idleAfter (spin, nr1\<lparr>nr_r := r'\<rparr>) = Some (0, nr2) \<and>
      nr_ready nr2 = nr_ready nr @ [g] \<and>
      Recv_finish sizeClass c nr2 = Some (Inr (Some (pb_bufPointers pbr ! unat bid, nat (sint res))), nr3) \<and>
      ReleaseBuffer_op env sizeClass (pb_bufPointers pbr ! unat bid, nat (sint res)) nr3 =
        Some (nr3\<lparr>nr_pbrs := (nr_pbrs nr3)[unat sizeClass := Some pbr']\<rparr>) \<and>
      pb_bids (h + 1) pbr' = others @ [bid] \<and> pb_pending (h + 1) pbr' = map (buffer_descr pbr) (others @ [bid])"
    if cq: "cq_ok n r'" and bid: "pb_bids h pbr = bid # others" and r: "0 < sint res" "nat (sint res) \<le> unat (pb_bufSize pbr)"
      and p: "cq_pending r' = \<lparr>cqe_UserData = sqe_UserData e, cqe_Res = res,
         cqe_Flags = push_bit 16 (ucast bid) OR CQEFBuffer\<rparr> # rest"
    for r' rest res bid others n
  proof -
    have b: "unat bid < 2 ^ j" by (rule taken_buffer_returns(1) [OF assms(7) bid])
    obtain pbr' where p': "ReleaseBuffer bid pbr = Some pbr'" "pb_bids (h + 1) pbr' = others @ [bid]"
      "pb_pending (h + 1) pbr' = map (buffer_descr pbr) (others @ [bid])" using taken_buffer_returns(2) [OF assms(7) bid] by blast
    obtain nr2 cell2 where t: "poll_turn env idleAfter (spin, nr1\<lparr>nr_r := r'\<rparr>) = Some (0, nr2)"
      "nr_ready nr2 = nr_ready nr @ [g]" "nr_cells nr2 c = Some cell2" "tc_res cell2 = res" "tc_err cell2 = None"
      "tc_flags cell2 = push_bit 16 (ucast bid) OR CQEFBuffer" "nr_pbrs nr2 = nr_pbrs nr"
      using parked_completion [of k "nr1\<lparr>nr_r := r'\<rparr>"
          "\<lparr>cqe_UserData = sqe_UserData e, cqe_Res = res, cqe_Flags = push_bit 16 (ucast bid) OR CQEFBuffer\<rparr>"
          c g opcodeTypeRecv fd n rest env idleAfter spin]
        s(4-8) cq p by auto
    have "Buffer bid pbr = Some (pb_bufPointers pbr ! unat bid, unat (pb_bufSize pbr))"
      using ok b by (simp add: Buffer_def pbr_ok_def)
    then have "received_view sizeClass cell2 nr2 = Some (Inr (pb_bufPointers pbr ! unat bid, nat (sint res)))"
      using assms(5,6) cls t(4,6,7) r(2) buffer_flag_set [of bid] bid_of_flags_round [of bid]
      by (simp add: received_view_def)
    moreover have "res \<noteq> 0" using r(1) by auto
    ultimately have fin: "Recv_finish sizeClass c nr2 =
        Some (Inr (Some (pb_bufPointers pbr ! unat bid, nat (sint res))), pool_put c nr2)"
      using t(3-5) r(1) by (simp add: Recv_finish_def cell_error_def)
    have "ReleaseBuffer_op env sizeClass (pb_bufPointers pbr ! unat bid, nat (sint res)) (pool_put c nr2) =
        map_option (\<lambda>pbr'. (pool_put c nr2)\<lparr>nr_pbrs := (nr_pbrs (pool_put c nr2))[unat sizeClass := Some pbr']\<rparr>) (ReleaseBuffer bid pbr)"
      by (rule release_task_view [OF ok b]) (use assms(5,6) cls t(7) r(1) in \<open>simp_all add: pool_put_def\<close>)
    then show ?thesis using t(1,2) fin p' by auto
  qed
  then show ?thesis using s(1,2) e check by (auto simp: Recv_start_def)
qed

theorem recv_round_trip_witness:
  "\<exists>c nr1 e r' nr2 nr3 pbr'. Recv_start ex_env True 77 5 0 ex_nr = Some (Inr c, nr1) \<and> sq_pending (nr_r nr1) = [e] \<and>
     sqe_Opcode e = OpRecv \<and> sqe_BufIndex e = 0 \<and> sqe_Len e = 128 \<and>
     poll_turn ex_env 1 (1, nr1\<lparr>nr_r := r'\<rparr>) = Some (0, nr2) \<and>
     Recv_finish 0 c nr2 = Some (Inr (Some (4096, 42)), nr3) \<and>
     ReleaseBuffer_op ex_env 0 (4096, 42) nr3 = Some (nr3\<lparr>nr_pbrs := (nr_pbrs nr3)[0 := Some pbr']\<rparr>) \<and>
     pb_pending 1 pbr' = [(4160, 64, 1), (4096, 64, 0)]"
proof -
  have free: "nr_free 12 1 ex_env ex_nr" using ex_nr_ok ex_awake by (simp add: nr_free_def)
  have sz: "SizeClass_Size 0 = Some 128" by (simp add: SizeClass_Size_def sizeClassesCapacity_def)
  have pbr: "length (nr_pbrs ex_nr) = 5" "nr_pbrs ex_nr ! unat (0 :: u64) = Some ex_pbr" by (simp_all add: ex_nr_def)
  have fd: "0 \<le> sint (5 :: i64)" "(128 :: u32) \<noteq> 0" by simp_all
  let ?q = "\<lambda>e. \<lparr>cqe_UserData = sqe_UserData e, cqe_Res = 42, cqe_Flags = push_bit 16 (ucast (0 :: u16)) OR CQEFBuffer\<rparr> :: CQEntry"
  obtain c nr1 e where s: "Recv_start ex_env True 77 5 0 ex_nr = Some (Inr c, nr1)"
    "sq_pending (nr_r nr1) = sq_pending (nr_r ex_nr) @ [e]" "sqe_Opcode e = OpRecv" "sqe_BufIndex e = ucast (0 :: u64)" "sqe_Len e = 128"
    and after: "\<And>r' rest res bid others n. cq_ok n r' \<and> pb_bids 0 ex_pbr = bid # others \<and> 0 < sint res \<and>
        nat (sint res) \<le> unat (pb_bufSize ex_pbr) \<and> cq_pending r' = \<lparr>cqe_UserData = sqe_UserData e, cqe_Res = res,
          cqe_Flags = push_bit 16 (ucast (bid :: u16)) OR CQEFBuffer\<rparr> # rest \<Longrightarrow>
      \<exists>nr2 nr3 pbr'. poll_turn ex_env 1 (1, nr1\<lparr>nr_r := r'\<rparr>) = Some (0, nr2) \<and> nr_ready nr2 = nr_ready ex_nr @ [77] \<and>
        Recv_finish 0 c nr2 = Some (Inr (Some (pb_bufPointers ex_pbr ! unat bid, nat (sint res))), nr3) \<and>
        ReleaseBuffer_op ex_env 0 (pb_bufPointers ex_pbr ! unat bid, nat (sint res)) nr3 =
          Some (nr3\<lparr>nr_pbrs := (nr_pbrs nr3)[unat (0 :: u64) := Some pbr']\<rparr>) \<and>
        pb_bids (0 + 1) pbr' = others @ [bid] \<and> pb_pending (0 + 1) pbr' = map (buffer_descr ex_pbr) (others @ [bid])"
    using recv_round_trip [OF free fd(1) sz fd(2) pbr ex_pbr_valid, of True 77 1 1] by blast
  let ?r = "ex_new_ring\<lparr>r_CQ := [?q e, zero_cqe], r_CQTail := 1\<rparr>"
  have "cq_ok 1 ?r" "cq_pending ?r = [?q e]"
    by (simp_all add: ex_new_ring_def ex_ring_def cq_ok_def cq_count_def cq_pending_def ring_list_def mask_eq_exp_minus_1)
  then obtain nr2 nr3 pbr' where t: "poll_turn ex_env 1 (1, nr1\<lparr>nr_r := ?r\<rparr>) = Some (0, nr2)"
    "Recv_finish 0 c nr2 = Some (Inr (Some (4096, 42)), nr3)"
    "ReleaseBuffer_op ex_env 0 (4096, 42) nr3 = Some (nr3\<lparr>nr_pbrs := (nr_pbrs nr3)[0 := Some pbr']\<rparr>)"
    "pb_pending 1 pbr' = map (buffer_descr ex_pbr) [1, 0]"
    using after [of 1 ?r 0 "[1]" 42 "[]"] ex_pbr_bids(1) by (auto simp: ex_pbr_def)
  have "sq_pending (nr_r nr1) = [e]" using s(2) ex_ring_ok(2) by auto
  moreover have "pb_pending 1 pbr' = [(4160, 64, 1), (4096, 64, 0)]" using t(4) by (simp add: buffer_descr_def ex_pbr_def)
  ultimately show ?thesis using s t(1-3) by auto
qed

end
